(* ===== verification/Wa_Prelude.thy ===== *)
theory Wa_Prelude
  imports Complex_Main "HOL-Library.AList"
begin

text \<open>
  Shared vocabulary of the development: JavaScript strings, date strings, JSON argument trees,
  the insertion-ordered \<open>Map\<close>, and the locale of machines whose operations keep an invariant.

  \<^item> A JavaScript string is a \<open>string\<close> (one \<open>char\<close> per UTF-16 code unit, code units up to
    255 only); the case mappings are the ASCII ones.
  \<^item> A date string is represented by what \<open>new Date(s)\<close> reads from it (\<open>isodate\<close>).
  \<^item> A JavaScript \<open>Map\<close> is an association list in insertion order: \<open>AList.update\<close> changes an
    existing key in place and appends a new one, as \<open>Map.prototype.set\<close> does.
\<close>

named_theorems js_simps \<open>unfolding rules of the string and map helpers\<close>

section \<open>Strings\<close>

fun starts_with :: "string \<Rightarrow> string \<Rightarrow> bool" where
  "starts_with s [] = True"
| "starts_with [] (p # ps) = False"
| "starts_with (c # s) (p # ps) = (c = p \<and> starts_with s ps)"

fun str_includes :: "string \<Rightarrow> string \<Rightarrow> bool" where
  "str_includes [] p = (p = [])"
| "str_includes (c # s) p = (starts_with (c # s) p \<or> str_includes s p)"

definition ends_with :: "string \<Rightarrow> string \<Rightarrow> bool" where
  "ends_with s p = starts_with (rev s) (rev p)"

lemma starts_with_append [simp]: "starts_with (p @ s) p"
  by (induction p) auto

lemma starts_with_iff: "starts_with s p \<longleftrightarrow> (\<exists>r. s = p @ r)"
  by (induction s p rule: starts_with.induct) auto

lemma starts_with_drop: "starts_with s p \<Longrightarrow> s = p @ drop (length p) s"
  by (auto simp: starts_with_iff)

lemma includes_iff: "str_includes s p \<longleftrightarrow> (\<exists>a b. s = a @ p @ b)"
proof (induction s)
  case Nil
  then show ?case by auto
next
  case (Cons c s)
  show ?case
  proof
    assume "str_includes (c # s) p"
    then consider "starts_with (c # s) p" | "str_includes s p" by auto
    then show "\<exists>a b. c # s = a @ p @ b"
    proof cases
      case 1
      then obtain r where "c # s = p @ r" by (auto simp: starts_with_iff)
      then have "c # s = [] @ p @ r" by simp
      then show ?thesis by blast
    next
      case 2
      then obtain a b where "s = a @ p @ b" using Cons by blast
      then have "c # s = (c # a) @ p @ b" by simp
      then show ?thesis by blast
    qed
  next
    assume "\<exists>a b. c # s = a @ p @ b"
    then obtain a b where eq: "c # s = a @ p @ b" by blast
    then show "str_includes (c # s) p"
    proof (cases a)
      case Nil
      with eq have "starts_with (c # s) p" by simp
      then show ?thesis by simp
    next
      case (Cons d a')
      with eq have "s = a' @ p @ b" by simp
      then have "str_includes s p" using Cons.IH by blast
      then show ?thesis by simp
    qed
  qed
qed

definition ascii_lower_char :: "char \<Rightarrow> char" where
  "ascii_lower_char c =
     (if 65 \<le> (of_char c :: nat) \<and> (of_char c :: nat) \<le> 90
      then char_of ((of_char c :: nat) + 32) else c)"

definition ascii_lower :: "string \<Rightarrow> string" where
  "ascii_lower s = map ascii_lower_char s"

text \<open>\<open>\\w\<close> of a JavaScript regular expression: letters, digits and the underscore.\<close>

definition is_word_char :: "char \<Rightarrow> bool" where
  "is_word_char c =
     (let n = (of_char c :: nat)
      in 48 \<le> n \<and> n \<le> 57 \<or> 65 \<le> n \<and> n \<le> 90 \<or> n = 95 \<or> 97 \<le> n \<and> n \<le> 122)"

text \<open>
  \<open>/\\bw\\b/.test(s)\<close> for a literal \<open>w\<close> that starts and ends with word characters: an occurrence
  whose neighbours are not word characters. The first argument says whether the character before
  the current position is a word character.
\<close>

fun has_word_from :: "bool \<Rightarrow> string \<Rightarrow> string \<Rightarrow> bool" where
  "has_word_from prev [] w = False"
| "has_word_from prev (c # s) w =
     (\<not> prev \<and> starts_with (c # s) w \<and>
        (case drop (length w) (c # s) of [] \<Rightarrow> True | d # _ \<Rightarrow> \<not> is_word_char d)
      \<or> has_word_from (is_word_char c) s w)"

definition has_word :: "string \<Rightarrow> string \<Rightarrow> bool" where
  "has_word s w = has_word_from False s w"

text \<open>\<open>s.split(c)\<close> for a one-character separator, and its inverse \<open>join\<close>.\<close>

fun split_on :: "char \<Rightarrow> string \<Rightarrow> string list" where
  "split_on sep [] = [[]]"
| "split_on sep (c # s) =
     (if c = sep then [] # split_on sep s
      else (case split_on sep s of [] \<Rightarrow> [[c]] | w # ws \<Rightarrow> (c # w) # ws))"

fun join_on :: "string \<Rightarrow> string list \<Rightarrow> string" where
  "join_on sep [] = []"
| "join_on sep [w] = w"
| "join_on sep (w # v # ws) = w @ sep @ join_on sep (v # ws)"

lemma split_on_ne [simp]: "split_on sep s \<noteq> []"
  by (induction s) (auto split: list.splits)

lemma split_on_no_sep: "w \<in> set (split_on sep s) \<Longrightarrow> sep \<notin> set w"
proof (induction s arbitrary: w)
  case Nil
  then show ?case by simp
next
  case (Cons c s)
  then show ?case by (cases "split_on sep s") (auto split: if_splits)
qed

lemma join_split: "join_on [sep] (split_on sep s) = s"
proof (induction s)
  case Nil
  then show ?case by simp
next
  case (Cons c s)
  then show ?case
    by (cases "split_on sep s" rule: remdups_adj.cases) auto
qed

lemma split_single: "sep \<notin> set w \<Longrightarrow> split_on sep w = [w]"
  by (induction w) auto

lemma split_append: "sep \<notin> set w \<Longrightarrow> split_on sep (w @ sep # s) = w # split_on sep s"
  by (induction w) auto

lemma split_join:
  "ws \<noteq> [] \<Longrightarrow> \<forall>w \<in> set ws. sep \<notin> set w \<Longrightarrow> split_on sep (join_on [sep] ws) = ws"
proof (induction "[sep]" ws rule: join_on.induct)
  case 1
  then show ?case by simp
next
  case (2 w)
  then show ?case by (simp add: split_single)
next
  case (3 w v ws)
  then show ?case by (simp add: split_append)
qed

text \<open>JavaScript whitespace among the code units modelled, and \<open>trim\<close>.\<close>

definition is_space :: "char \<Rightarrow> bool" where
  "is_space c = (let n = (of_char c :: nat) in n = 32 \<or> 9 \<le> n \<and> n \<le> 13 \<or> n = 160)"

definition trim_start :: "string \<Rightarrow> string" where
  "trim_start s = dropWhile is_space s"

definition trim :: "string \<Rightarrow> string" where
  "trim s = rev (dropWhile is_space (rev (dropWhile is_space s)))"

text \<open>The value of a digit in base 10 or 16, and of a digit string (\<open>parseInt(s, base)\<close>).\<close>

definition hex_val :: "char \<Rightarrow> nat option" where
  "hex_val c =
     (let n = (of_char c :: nat)
      in if 48 \<le> n \<and> n \<le> 57 then Some (n - 48)
         else if 97 \<le> n \<and> n \<le> 102 then Some (n - 87)
         else if 65 \<le> n \<and> n \<le> 70 then Some (n - 55) else None)"

definition is_hex :: "char \<Rightarrow> bool" where
  "is_hex c = (hex_val c \<noteq> None)"

definition is_digit :: "char \<Rightarrow> bool" where
  "is_digit c = (let n = (of_char c :: nat) in 48 \<le> n \<and> n \<le> 57)"

definition digits_value :: "nat \<Rightarrow> string \<Rightarrow> nat" where
  "digits_value base s = foldl (\<lambda>acc c. acc * base + the (hex_val c)) 0 s"

text \<open>The truth value of an optional string: \<open>undefined\<close> and the empty string are false.\<close>

definition truthy :: "string option \<Rightarrow> bool" where
  "truthy x = (case x of None \<Rightarrow> False | Some s \<Rightarrow> s \<noteq> [])"

section \<open>Numerals\<close>

text \<open>\<open>String(n)\<close> and \<open>n.toString(16)\<close> for a natural number.\<close>

definition digit_char :: "nat \<Rightarrow> char" where
  "digit_char d = (if d < 10 then char_of (48 + d) else char_of (87 + d))"

fun num_str :: "nat \<Rightarrow> nat \<Rightarrow> string" where
  "num_str base n =
     (if base < 2 \<or> n < base then [digit_char n]
      else num_str base (n div base) @ [digit_char (n mod base)])"

declare num_str.simps [simp del]

abbreviation nat_str :: "nat \<Rightarrow> string" where
  "nat_str \<equiv> num_str 10"

lemma of_char_digit: "d < 16 \<Longrightarrow> (of_char (digit_char d) :: nat) = (if d < 10 then 48 + d else 87 + d)"
  by (simp add: digit_char_def)

lemma hex_val_digit [simp]: "d < 16 \<Longrightarrow> hex_val (digit_char d) = Some d"
  by (simp add: hex_val_def Let_def of_char_digit)

lemma is_digit_digit [simp]: "d < 10 \<Longrightarrow> is_digit (digit_char d)"
  by (simp add: is_digit_def Let_def of_char_digit)

lemma digits_value_append: "digits_value b (s @ [c]) = digits_value b s * b + the (hex_val c)"
  by (simp add: digits_value_def)

lemma digits_value_num_str: "2 \<le> b \<Longrightarrow> b \<le> 16 \<Longrightarrow> digits_value b (num_str b n) = n"
proof (induction b n rule: num_str.induct)
  case (1 b n)
  show ?case
  proof (cases "n < b")
    case True
    with 1 show ?thesis by (simp add: num_str.simps [of b n]) (simp add: digits_value_def)
  next
    case False
    have m: "n mod b < 16" using 1(2,3) mod_less_divisor [of b n] by linarith
    from False 1 have "digits_value b (num_str b (n div b)) = n div b" by simp
    with False 1(2) m show ?thesis
      by (simp add: num_str.simps [of b n] digits_value_append)
  qed
qed

lemma num_str_ne [simp]: "num_str b n \<noteq> []"
  by (subst num_str.simps) simp

lemma num_str_digits: "c \<in> set (nat_str n) \<Longrightarrow> is_digit c"
proof (induction n rule: less_induct)
  case (less n)
  show ?case
  proof (cases "n < 10")
    case True
    with less show ?thesis by (simp add: num_str.simps [of 10 n])
  next
    case False
    then have "n div 10 < n" by simp
    moreover from False less(2) have "c \<in> set (nat_str (n div 10)) \<or> c = digit_char (n mod 10)"
      by (auto simp: num_str.simps [of 10 n])
    ultimately show ?thesis using less(1) by (auto intro: is_digit_digit)
  qed
qed

lemma num_str_hex: "2 \<le> b \<Longrightarrow> b \<le> 16 \<Longrightarrow> c \<in> set (num_str b n) \<Longrightarrow> is_hex c"
proof (induction n rule: less_induct)
  case (less n)
  show ?case
  proof (cases "n < b")
    case True
    with less show ?thesis by (simp add: num_str.simps [of b n] is_hex_def)
  next
    case False
    then have "n div b < n" using less(2) by (simp add: div_less_dividend)
    moreover have "n mod b < 16" using less(2,3) mod_less_divisor [of b n] by linarith
    moreover from False less(2,4) have "c \<in> set (num_str b (n div b)) \<or> c = digit_char (n mod b)"
      by (auto simp: num_str.simps [of b n])
    ultimately show ?thesis using less(1-3) by (auto simp: is_hex_def)
  qed
qed

lemma nat_str_inj: "nat_str m = nat_str n \<longleftrightarrow> m = n"
proof
  assume "nat_str m = nat_str n"
  then have "digits_value 10 (nat_str m) = digits_value 10 (nat_str n)" by (rule arg_cong)
  then show "m = n" by (simp only: digits_value_num_str)
qed simp

lemma num_str_length: "2 \<le> b \<Longrightarrow> n < b ^ k \<Longrightarrow> 0 < k \<Longrightarrow> length (num_str b n) \<le> k"
proof (induction k arbitrary: n)
  case (Suc k)
  show ?case
  proof (cases "n < b")
    case True
    then show ?thesis by (simp add: num_str.simps [of b n])
  next
    case False
    with Suc.prems have "0 < k" by (cases k) auto
    moreover have "n div b < b ^ k" using Suc.prems by (simp add: div_less_iff_less_mult mult.commute)
    ultimately show ?thesis using False Suc by (simp add: num_str.simps [of b n])
  qed
qed simp

lemma digit_not_punct:
  "is_digit c \<Longrightarrow> c \<noteq> CHR ''.''" "is_digit c \<Longrightarrow> c \<noteq> CHR '':''" "is_digit c \<Longrightarrow> \<not> is_space c"
  "is_digit c \<Longrightarrow> is_hex c" "is_digit c \<Longrightarrow> ascii_lower_char c = c"
  by (auto simp: is_digit_def is_space_def is_hex_def hex_val_def ascii_lower_char_def Let_def
      split: if_splits)

text \<open>\<open>xs[i]\<close>: out of range is \<open>undefined\<close>.\<close>

definition nth_opt :: "'a list \<Rightarrow> nat \<Rightarrow> 'a option" where
  "nth_opt xs i = (if i < length xs then Some (xs ! i) else None)"

section \<open>Date strings\<close>

datatype isodate = EmptyDate | BadDate | DateMs int

text \<open>\<open>!e || new Date(e) > now\<close>: an invalid date compares false.\<close>

definition live_at :: "int \<Rightarrow> isodate option \<Rightarrow> bool" where
  "live_at now e =
     (case e of None \<Rightarrow> True | Some EmptyDate \<Rightarrow> True | Some BadDate \<Rightarrow> False
      | Some (DateMs t) \<Rightarrow> now < t)"

text \<open>\<open>!e\<close>: no expiry on record.\<close>

definition no_expiry :: "isodate option \<Rightarrow> bool" where
  "no_expiry e = (e = None \<or> e = Some EmptyDate)"

lemma live_at_now [simp]: "\<not> live_at now (Some (DateMs now))"
  by (simp add: live_at_def)

lemma live_at_antimono: "live_at t' e \<Longrightarrow> t \<le> t' \<Longrightarrow> live_at t e"
  by (auto simp: live_at_def split: option.splits isodate.splits)

lemma no_expiry_live: "no_expiry e \<Longrightarrow> live_at now e"
  by (auto simp: no_expiry_def live_at_def)

section \<open>JSON values\<close>

text \<open>
  The values an argument object holds: JSON plus \<open>undefined\<close> (\<open>JUndef\<close>). Numbers are integers;
  object members are listed in the order \<open>Object.entries\<close> gives them.
\<close>

datatype json =
    JUndef
  | JNull
  | JBool bool
  | JNum int
  | JStr string
  | JArr "json list"
  | JObj "(string \<times> json) list"

section \<open>Maps filled in a loop\<close>

lemma update_absent: "k \<notin> fst ` set m \<Longrightarrow> AList.update k v m = m @ [(k, v)]"
  by (induction m) auto

text \<open>\<open>for (const x of xs) m.set(k(x), f(x))\<close> with distinct keys.\<close>

lemma fold_update_map:
  assumes "distinct (map k xs)"
  shows "foldl (\<lambda>m x. AList.update (k x) (f x) m) [] xs = map (\<lambda>x. (k x, f x)) xs"
proof -
  have "distinct (map k xs) \<Longrightarrow> fst ` set m \<inter> k ` set xs = {} \<Longrightarrow>
      foldl (\<lambda>m x. AList.update (k x) (f x) m) m xs = m @ map (\<lambda>x. (k x, f x)) xs" for m
  proof (induction xs arbitrary: m)
    case (Cons x xs)
    have "AList.update (k x) (f x) m = m @ [(k x, f x)]" using Cons.prems by (intro update_absent) auto
    then show ?case using Cons.IH [of "m @ [(k x, f x)]"] Cons.prems by auto
  qed simp
  then show ?thesis using assms by simp
qed

lemma map_of_keyed: "distinct (map k xs) \<Longrightarrow> x \<in> set xs \<Longrightarrow> map_of (map (\<lambda>x. (k x, f x)) xs) (k x) = Some (f x)"
  by (rule map_of_is_SomeI) (auto simp: comp_def)

section \<open>Machines that keep an invariant\<close>

text \<open>
  A component with state is a step function over events. When every step keeps an invariant, so
  does every run; the interpretations below discharge the step law for the components.
\<close>

locale kept_invariant =
  fixes step :: "'s \<Rightarrow> 'e \<Rightarrow> 's"
    and inv :: "'s \<Rightarrow> bool"
  assumes step_inv: "inv s \<Longrightarrow> inv (step s e)"
begin

lemma run_inv: "inv s \<Longrightarrow> inv (foldl step s es)"
  by (induction es arbitrary: s) (auto intro: step_inv)

end

end
