(* ===== verification/Firewall_Consent.thy ===== *)
theory Firewall_Consent
  imports Wa_Prelude
begin

text \<open>
  Consent on file (packages/mcp-firewall/src/policy.ts and consent.ts): the records, the shared
  validity test \<open>lookupConsent\<close>, the in-memory store, the in-memory ledger with its composite key,
  and the locale of the \<open>ConsentStore\<close> interface with the laws its clients rely on. The current
  time is an argument \<open>now\<close> in milliseconds.
\<close>

section \<open>Records and lookup (policy.ts)\<close>

record consent_record =
  cr_userIdHash :: string
  cr_toolName :: string
  cr_expiresAt :: "isodate option"
  cr_toolSnapshotHash :: string
  cr_argScopeDigest :: "string option"
  cr_boundToSession :: "string option"

text \<open>A stored binding is authoritative: when it is present the caller must present the same value.\<close>

definition binding_ok :: "string option \<Rightarrow> string option \<Rightarrow> bool" where
  "binding_ok stored current =
     (stored = None \<or> (current \<noteq> None \<and> stored = current))"

definition consent_matches ::
  "int \<Rightarrow> string \<Rightarrow> string option \<Rightarrow> string option \<Rightarrow> string option \<Rightarrow> string option
     \<Rightarrow> consent_record \<Rightarrow> bool" where
  "consent_matches now toolName snap user digest session c =
     (cr_toolName c = toolName \<and>
      (user = None \<or> Some (cr_userIdHash c) = user) \<and>
      live_at now (cr_expiresAt c) \<and>
      (\<not> truthy snap \<or> Some (cr_toolSnapshotHash c) = snap) \<and>
      binding_ok (cr_argScopeDigest c) digest \<and>
      binding_ok (cr_boundToSession c) session)"

definition lookupConsent ::
  "int \<Rightarrow> consent_record list \<Rightarrow> string \<Rightarrow> string option \<Rightarrow> string option \<Rightarrow> string option
     \<Rightarrow> string option \<Rightarrow> consent_record option" where
  "lookupConsent now consent toolName snap user digest session =
     find (consent_matches now toolName snap user digest session) consent"

lemma lookupConsent_sound:
  "lookupConsent now cs tool snap user dig ses = Some c \<Longrightarrow>
     c \<in> set cs \<and> consent_matches now tool snap user dig ses c"
  by (auto simp: lookupConsent_def find_Some_iff)

lemma lookupConsent_None:
  "lookupConsent now cs tool snap user dig ses = None \<longleftrightarrow>
     (\<forall>c \<in> set cs. \<not> consent_matches now tool snap user dig ses c)"
  by (auto simp: lookupConsent_def find_None_iff)

lemma binding_ok_None [simp]: "binding_ok None x"
  by (simp add: binding_ok_def)

lemma binding_ok_Some [simp]: "binding_ok (Some d) x \<longleftrightarrow> x = Some d"
  by (auto simp: binding_ok_def)

section \<open>The in-memory store (policy.ts)\<close>

type_synonym consent_store = "consent_record list"

definition store_record :: "consent_store \<Rightarrow> consent_record \<Rightarrow> consent_store" where
  "store_record s c = s @ [c]"

definition store_lookup ::
  "int \<Rightarrow> consent_store \<Rightarrow> string \<Rightarrow> string option \<Rightarrow> string option \<Rightarrow> string option
     \<Rightarrow> string option \<Rightarrow> consent_record option" where
  "store_lookup now s toolName user snap digest session =
     lookupConsent now s toolName snap user digest session"

definition store_recordsFor :: "consent_store \<Rightarrow> string \<Rightarrow> consent_record list" where
  "store_recordsFor s toolName = filter (\<lambda>c. cr_toolName c = toolName) s"

definition store_revoke :: "int \<Rightarrow> consent_store \<Rightarrow> string \<Rightarrow> string option \<Rightarrow> consent_store" where
  "store_revoke now s toolName user =
     map (\<lambda>c. if cr_toolName c = toolName \<and> (user = None \<or> Some (cr_userIdHash c) = user)
                 \<and> no_expiry (cr_expiresAt c)
              then c\<lparr>cr_expiresAt := Some (DateMs now)\<rparr> else c) s"

definition store_all :: "consent_store \<Rightarrow> consent_record list" where
  "store_all s = s"

section \<open>The interface of a consent store\<close>

text \<open>
  \<open>rec t s c\<close> stores \<open>c\<close> at time \<open>t\<close>, \<open>look\<close> searches at a time, \<open>recs\<close> lists what is on file.
  A provider may drop records that have expired (the gateway prunes), never live ones.
\<close>

locale consent_store_laws =
  fixes rec :: "int \<Rightarrow> 's \<Rightarrow> consent_record \<Rightarrow> 's"
    and look :: "int \<Rightarrow> 's \<Rightarrow> string \<Rightarrow> string option \<Rightarrow> string option \<Rightarrow> string option
                  \<Rightarrow> string option \<Rightarrow> consent_record option"
    and recs :: "'s \<Rightarrow> consent_record list"
  assumes rec_new: "c' \<in> set (recs (rec t s c)) \<Longrightarrow> c' = c \<or> c' \<in> set (recs s)"
    and rec_keeps: "c' = c \<or> c' \<in> set (recs s) \<Longrightarrow> live_at t (cr_expiresAt c') \<Longrightarrow>
                      c' \<in> set (recs (rec t s c))"
    and look_sound: "look now s tool user snap dig ses = Some c \<Longrightarrow>
                      c \<in> set (recs s) \<and> consent_matches now tool snap user dig ses c"
    and look_complete: "c \<in> set (recs s) \<Longrightarrow> consent_matches now tool snap user dig ses c \<Longrightarrow>
                      look now s tool user snap dig ses \<noteq> None"
begin

lemma recorded_is_found:
  assumes "consent_matches now tool snap user dig ses c" and "t \<le> now"
  shows "look now (rec t s c) tool user snap dig ses \<noteq> None"
proof -
  from assms have "live_at t (cr_expiresAt c)"
    by (auto simp: consent_matches_def intro: live_at_antimono)
  then have "c \<in> set (recs (rec t s c))" by (auto intro: rec_keeps)
  then show ?thesis using assms(1) by (rule look_complete)
qed

lemma run_recs:
  "c \<in> set (recs (foldl (\<lambda>s (t, d). rec t s d) s tds)) \<Longrightarrow>
     c \<in> set (recs s) \<or> c \<in> snd ` set tds"
proof (induction tds arbitrary: s)
  case Nil
  then show ?case by simp
next
  case (Cons td tds)
  obtain t d where td: "td = (t, d)" by (cases td)
  with Cons.prems have "c \<in> set (recs (rec t s d)) \<or> c \<in> snd ` set tds"
    using Cons.IH [of "rec t s d"] by auto
  then show ?case using rec_new [of c t s d] td by auto
qed

lemma found_was_recorded:
  assumes "look now (foldl (\<lambda>s (t, d). rec t s d) s tds) tool user snap dig ses = Some c"
    and "recs s = []"
  shows "c \<in> snd ` set tds \<and> consent_matches now tool snap user dig ses c"
  using look_sound [OF assms(1)] run_recs [of c s tds] assms(2) by auto

end

interpretation store: consent_store_laws "\<lambda>t. store_record" store_lookup store_all
proof unfold_locales
  fix now s tool user snap dig ses c
  assume "store_lookup now s tool user snap dig ses = Some c"
  then show "c \<in> set (store_all s) \<and> consent_matches now tool snap user dig ses c"
    using lookupConsent_sound [of now s tool snap user dig ses c]
    by (simp add: store_lookup_def store_all_def)
next
  fix c s now tool snap user dig ses
  assume "c \<in> set (store_all s)" "consent_matches now tool snap user dig ses c"
  then show "store_lookup now s tool user snap dig ses \<noteq> None"
    using lookupConsent_None [of now s tool snap user dig ses]
    by (auto simp: store_lookup_def store_all_def)
qed (auto simp: store_record_def store_all_def)

section \<open>The consent ledger (consent.ts)\<close>

datatype consent_action = ApproveTool | ApproveCall | ApproveSampling

record consent_event =
  ce_userIdHash :: string
  ce_action :: consent_action
  ce_toolName :: string
  ce_scope :: "string list"
  ce_expiresAt :: "isodate option"
  ce_toolSnapshotHash :: string
  ce_descriptionHash :: string
  ce_inputSchemaHash :: string
  ce_serverIdentity :: string
  ce_uiTextHash :: string
  ce_recordedAt :: isodate
  ce_argScopeDigest :: "string option"
  ce_boundToSession :: "string option"

record consent_cache_key =
  ck_name :: string
  ck_descriptionHash :: string
  ck_inputSchemaHash :: string
  ck_serverIdentity :: string
  ck_toolSnapshotHash :: string
  ck_argScopeDigest :: "string option"
  ck_sessionId :: "string option"

definition event_matches :: "int \<Rightarrow> consent_cache_key \<Rightarrow> consent_event \<Rightarrow> bool" where
  "event_matches now key e =
     (ce_toolName e = ck_name key \<and>
      ce_descriptionHash e = ck_descriptionHash key \<and>
      ce_inputSchemaHash e = ck_inputSchemaHash key \<and>
      ce_serverIdentity e = ck_serverIdentity key \<and>
      ce_toolSnapshotHash e = ck_toolSnapshotHash key \<and>
      live_at now (ce_expiresAt e) \<and>
      binding_ok (ce_argScopeDigest e) (ck_argScopeDigest key) \<and>
      binding_ok (ce_boundToSession e) (ck_sessionId key))"

definition ledger_record :: "consent_event list \<Rightarrow> consent_event \<Rightarrow> consent_event list" where
  "ledger_record l e = l @ [e]"

definition hasConsent :: "int \<Rightarrow> consent_event list \<Rightarrow> consent_cache_key \<Rightarrow> bool" where
  "hasConsent now l key = list_ex (event_matches now key) l"

definition hasConsentLegacy :: "int \<Rightarrow> consent_event list \<Rightarrow> string \<Rightarrow> string \<Rightarrow> bool" where
  "hasConsentLegacy now l toolName snap =
     list_ex (\<lambda>e. ce_toolName e = toolName \<and> ce_toolSnapshotHash e = snap
                  \<and> live_at now (ce_expiresAt e)) l"

definition getConsents :: "consent_event list \<Rightarrow> string \<Rightarrow> consent_event list" where
  "getConsents l toolName = filter (\<lambda>e. ce_toolName e = toolName) l"

definition ledger_revoke :: "int \<Rightarrow> consent_event list \<Rightarrow> string \<Rightarrow> consent_event list" where
  "ledger_revoke now l toolName =
     map (\<lambda>e. if ce_toolName e = toolName \<and> no_expiry (ce_expiresAt e)
              then e\<lparr>ce_expiresAt := Some (DateMs now)\<rparr> else e) l"

lemma hasConsent_iff: "hasConsent now l key \<longleftrightarrow> (\<exists>e \<in> set l. event_matches now key e)"
  by (auto simp: hasConsent_def list_ex_iff)

lemma event_matches_revoked:
  "event_matches now key
     (if ce_toolName e = tool \<and> no_expiry (ce_expiresAt e)
      then e\<lparr>ce_expiresAt := Some (DateMs t)\<rparr> else e) \<longleftrightarrow>
   event_matches now key e \<and>
     \<not> (t \<le> now \<and> ce_toolName e = tool \<and> no_expiry (ce_expiresAt e))"
  by (auto simp: event_matches_def live_at_def no_expiry_def)

lemma hasConsent_revoke:
  "hasConsent now (ledger_revoke t l tool) key \<longleftrightarrow>
     (\<exists>e \<in> set l. event_matches now key e \<and>
        \<not> (t \<le> now \<and> ce_toolName e = tool \<and> no_expiry (ce_expiresAt e)))"
  unfolding hasConsent_iff ledger_revoke_def set_map bex_simps event_matches_revoked ..

section \<open>Properties\<close>

text \<open>Revoking a tool in the ledger withdraws, from that moment on, exactly the consents to it that
  had no expiry: consents to other tools and consents that carry their own expiry stay as they are.\<close>

theorem ledger_revocation:
  "hasConsent now (ledger_revoke t l tool) key \<longleftrightarrow>
     list_ex (\<lambda>e. event_matches now key e \<and>
       \<not> (t \<le> now \<and> ce_toolName e = tool \<and> no_expiry (ce_expiresAt e))) l"
  unfolding hasConsent_revoke by (auto simp: list_ex_iff)

end
