(* ===== verification/Firewall_Policy.thy ===== *)
theory Firewall_Policy
  imports Firewall_Consent
begin

text \<open>
  The per-call policy decision (packages/mcp-firewall/src/policy.ts) and the data of static vetting
  it reads (vetting.ts): decisions with their severity order, rules, the built-in rules and
  \<open>evaluatePolicy\<close>. A rule's \<open>evaluate\<close> is a function of the tool name, the arguments and the
  vetting result; \<open>None\<close> is the source's \<open>undefined\<close> (rule skipped).
\<close>

section \<open>Vetting results (vetting.ts)\<close>

datatype risk_severity = SevLow | SevMedium | SevHigh | SevCritical

datatype risk_category =
    CommandExecution | CredentialAccess | Exfiltration | InvisibleCharsCat | PrivilegeEscalation
  | RugPullCat | SamplingAbuseCat | Shadowing | Ssrf | SupplyChain | ToolPoisoning

datatype finding_type =
    PromptInjection | ExfiltrationAttempt | InvisibleChars | SamplingAbuse | SemanticParaphrase
  | RugPull | NormalizationTruncated | UnknownFinding

datatype vetted_field = FieldName | FieldDescription | FieldInputSchema

datatype risk_recommendation = RecAllow | RecAsk | RecDeny

record tool_risk_finding =
  rf_severity :: risk_severity
  rf_category :: risk_category
  rf_type :: finding_type
  rf_field :: vetted_field
  rf_evidenceExcerpt :: string
  rf_evidenceHash :: string
  rf_recommendation :: risk_recommendation

record vetting_result =
  vr_toolName :: string
  vr_findings :: "tool_risk_finding list"
  vr_recommendation :: risk_recommendation
  vr_blocked :: bool

fun field_text :: "vetted_field \<Rightarrow> string" where
  "field_text FieldName = ''name''"
| "field_text FieldDescription = ''description''"
| "field_text FieldInputSchema = ''inputSchema''"

section \<open>Decisions and rules\<close>

datatype invocation_decision = Allow | DryRun | AskUser | Deny

fun decision_order :: "invocation_decision \<Rightarrow> nat" where
  "decision_order Allow = 0"
| "decision_order DryRun = 1"
| "decision_order AskUser = 2"
| "decision_order Deny = 3"

text \<open>The severity order is a linear order on decisions, so \<open>\<le>\<close> and \<open>max\<close> apply to them.\<close>

instantiation invocation_decision :: linorder
begin

definition less_eq_invocation_decision :: "invocation_decision \<Rightarrow> invocation_decision \<Rightarrow> bool" where
  "less_eq_invocation_decision a b \<longleftrightarrow> decision_order a \<le> decision_order b"

definition less_invocation_decision :: "invocation_decision \<Rightarrow> invocation_decision \<Rightarrow> bool" where
  "less_invocation_decision a b \<longleftrightarrow> decision_order a < decision_order b"

instance
proof
  fix a b c :: invocation_decision
  show "a < b \<longleftrightarrow> a \<le> b \<and> \<not> b \<le> a"
    by (auto simp: less_eq_invocation_decision_def less_invocation_decision_def)
  show "a \<le> a" by (simp add: less_eq_invocation_decision_def)
  show "a \<le> b \<Longrightarrow> b \<le> c \<Longrightarrow> a \<le> c" by (simp add: less_eq_invocation_decision_def)
  show "a \<le> b \<Longrightarrow> b \<le> a \<Longrightarrow> a = b"
    by (cases a; cases b) (auto simp: less_eq_invocation_decision_def)
  show "a \<le> b \<or> b \<le> a" by (auto simp: less_eq_invocation_decision_def)
qed

end

lemmas decision_le = less_eq_invocation_decision_def less_invocation_decision_def

type_synonym tool_args = "(string \<times> json) list"

record policy_rule =
  policyId :: string
  evaluate :: "string \<Rightarrow> tool_args \<Rightarrow> vetting_result option \<Rightarrow> invocation_decision option"

definition DENY_BLOCKED_RULE :: policy_rule where
  "DENY_BLOCKED_RULE = \<lparr>policyId = ''deny-blocked-vetting'',
     evaluate = (\<lambda>name args vetting.
       case vetting of None \<Rightarrow> None | Some v \<Rightarrow> if vr_blocked v then Some Deny else None)\<rparr>"

definition worst_high :: "tool_risk_finding list \<Rightarrow> risk_severity option" where
  "worst_high fs =
     foldl (\<lambda>w f. if rf_severity f = SevCritical \<or> rf_severity f = SevHigh
                  then Some (rf_severity f) else w) None fs"

definition ASK_HIGH_RISK_RULE :: policy_rule where
  "ASK_HIGH_RISK_RULE = \<lparr>policyId = ''ask-high-risk'',
     evaluate = (\<lambda>name args vetting.
       case vetting of None \<Rightarrow> None
       | Some v \<Rightarrow> if worst_high (vr_findings v) \<noteq> None then Some AskUser else None)\<rparr>"

definition DEFAULT_RULES :: "policy_rule list" where
  "DEFAULT_RULES = [DENY_BLOCKED_RULE, ASK_HIGH_RISK_RULE]"

definition worstDecision :: "invocation_decision list \<Rightarrow> invocation_decision" where
  "worstDecision ds =
     (case ds of [] \<Rightarrow> Allow
      | d # rest \<Rightarrow> foldl (\<lambda>w d. if decision_order w < decision_order d then d else w) d rest)"

lemma worst_high_iff:
  "worst_high fs \<noteq> None \<longleftrightarrow> list_ex (\<lambda>f. rf_severity f = SevCritical \<or> rf_severity f = SevHigh) fs"
proof -
  have "foldl (\<lambda>w f. if rf_severity f = SevCritical \<or> rf_severity f = SevHigh
                  then Some (rf_severity f) else w) w0 fs \<noteq> None \<longleftrightarrow>
        w0 \<noteq> None \<or> list_ex (\<lambda>f. rf_severity f = SevCritical \<or> rf_severity f = SevHigh) fs" for w0
    by (induction fs arbitrary: w0) auto
  then show ?thesis by (simp add: worst_high_def)
qed

section \<open>Evaluation\<close>

record tool_invocation_decision =
  tid_decision :: invocation_decision
  tid_reasons :: "string list"
  tid_requiredCapabilities :: "string list"
  tid_matchedPolicyIds :: "string list"
  tid_userConsentRef :: "string option"

text \<open>The loop over the rules: decisions, matched policy ids and reasons, in rule order.\<close>

fun eval_rules ::
  "policy_rule list \<Rightarrow> string \<Rightarrow> tool_args \<Rightarrow> vetting_result option
     \<Rightarrow> invocation_decision list \<times> string list \<times> string list" where
  "eval_rules [] toolName args vetting = ([], [], [])"
| "eval_rules (r # rs) toolName args vetting =
     (let (ds, ids, reasons) = eval_rules rs toolName args vetting
      in case evaluate r toolName args vetting of
           None \<Rightarrow> (ds, ids, reasons)
         | Some d \<Rightarrow>
             (d # ds, policyId r # ids,
              (if d = Deny then [''Denied by policy: '' @ policyId r] else []) @
              (if d = AskUser then [''User confirmation required: '' @ policyId r] else []) @
              reasons))"

definition evaluatePolicy ::
  "int \<Rightarrow> string \<Rightarrow> tool_args \<Rightarrow> vetting_result option \<Rightarrow> consent_record list \<Rightarrow> policy_rule list
     \<Rightarrow> string option \<Rightarrow> string option \<Rightarrow> string option \<Rightarrow> string option
     \<Rightarrow> tool_invocation_decision" where
  "evaluatePolicy now toolName args vetting consent rules snap user digest session =
     (let (decisions0, ids, reasons0) = eval_rules rules toolName args vetting;
          validConsent = lookupConsent now consent toolName snap user digest session;
          decisions = (if validConsent \<noteq> None then filter (\<lambda>d. d \<noteq> AskUser) decisions0
                       else decisions0);
          reasons = (case validConsent of None \<Rightarrow> reasons0
                     | Some c \<Rightarrow> reasons0 @ [''User consent on file: '' @ cr_toolSnapshotHash c])
      in \<lparr>tid_decision = worstDecision (if decisions \<noteq> [] then decisions else [Allow]),
          tid_reasons = reasons,
          tid_requiredCapabilities =
            (case vetting of None \<Rightarrow> []
             | Some v \<Rightarrow> map (\<lambda>f. ''read:'' @ field_text (rf_field f))
                           (filter (\<lambda>f. rf_category f = Exfiltration) (vr_findings v))),
          tid_matchedPolicyIds = ids,
          tid_userConsentRef = map_option cr_toolSnapshotHash validConsent\<rparr>)"

section \<open>Lemmas\<close>

lemma worst_fold:
  "foldl (\<lambda>w d. if decision_order w < decision_order d then d else w) w ds =
     (Max (insert w (set ds)) :: invocation_decision)"
proof (induction ds arbitrary: w)
  case Nil
  then show ?case by simp
next
  case (Cons d ds)
  have "(if decision_order w < decision_order d then d else w) = max w d"
    by (cases w; cases d) (auto simp: max_def decision_le)
  then have "foldl (\<lambda>w d. if decision_order w < decision_order d then d else w) w (d # ds)
      = Max (insert (max w d) (set ds))"
    by (simp add: Cons.IH)
  also have "\<dots> = Max (insert w (set (d # ds)))"
    by (cases "set ds = {}") (simp_all add: max.assoc)
  finally show ?case .
qed

lemma worstDecision_Max:
  "worstDecision ds = (if ds = [] then Allow else Max (set ds))"
  by (cases ds) (auto simp: worstDecision_def worst_fold)

lemma Max_decision_iff:
  fixes S :: "invocation_decision set"
  assumes "finite S" "S \<noteq> {}"
  shows "Max S = (if Deny \<in> S then Deny else if AskUser \<in> S then AskUser
                  else if DryRun \<in> S then DryRun else Allow)"
proof (rule Max_eqI)
  show "finite S" by fact
  fix d assume "d \<in> S"
  then show "d \<le> (if Deny \<in> S then Deny else if AskUser \<in> S then AskUser
                  else if DryRun \<in> S then DryRun else Allow)"
    by (cases d) (auto simp: decision_le)
next
  obtain d where "d \<in> S" using assms(2) by blast
  then show "(if Deny \<in> S then Deny else if AskUser \<in> S then AskUser
              else if DryRun \<in> S then DryRun else Allow) \<in> S"
    by (cases d) auto
qed

lemma worstDecision_iff:
  "worstDecision ds = (if Deny \<in> set ds then Deny else if AskUser \<in> set ds then AskUser
                       else if DryRun \<in> set ds then DryRun else Allow)"
  by (auto simp: worstDecision_Max Max_decision_iff)

definition fires ::
  "invocation_decision \<Rightarrow> policy_rule list \<Rightarrow> string \<Rightarrow> tool_args \<Rightarrow> vetting_result option
     \<Rightarrow> bool" where
  "fires d rules toolName args vetting =
     list_ex (\<lambda>r. evaluate r toolName args vetting = Some d) rules"

lemma fires_Nil [simp]: "\<not> fires d [] t a v"
  by (simp add: fires_def)

lemma fires_Cons [simp]:
  "fires d (r # rs) t a v \<longleftrightarrow> evaluate r t a v = Some d \<or> fires d rs t a v"
  by (simp add: fires_def)

lemma fires_append [simp]:
  "fires d (rs @ rs') t a v \<longleftrightarrow> fires d rs t a v \<or> fires d rs' t a v"
  by (auto simp: fires_def)

lemma fires_set: "fires d rs t a v \<longleftrightarrow> (\<exists>r \<in> set rs. evaluate r t a v = Some d)"
  by (auto simp: fires_def list_ex_iff)

lemma eval_rules_decisions:
  "d \<in> set (fst (eval_rules rs t a v)) \<longleftrightarrow> fires d rs t a v"
  by (induction rs) (auto split: option.splits prod.splits)

lemma decision_cases:
  "tid_decision (evaluatePolicy now t a v cs rs snap user dig ses) =
     (if fires Deny rs t a v then Deny
      else if fires AskUser rs t a v \<and> lookupConsent now cs t snap user dig ses = None then AskUser
      else if fires DryRun rs t a v then DryRun
      else Allow)"
proof -
  obtain ds ids rsn where ev: "eval_rules rs t a v = (ds, ids, rsn)" by (metis prod_cases3)
  have mem: "d \<in> set ds \<longleftrightarrow> fires d rs t a v" for d
    using eval_rules_decisions [of d rs t a v] ev by simp
  show ?thesis
    by (cases "lookupConsent now cs t snap user dig ses")
      (auto simp: evaluatePolicy_def ev Let_def worstDecision_iff filter_empty_conv mem [symmetric])
qed

lemma deny_decision:
  "tid_decision (evaluatePolicy now t a v cs rs snap user dig ses) = Deny \<longleftrightarrow> fires Deny rs t a v"
  by (auto simp: decision_cases)

lemma consent_ref:
  "tid_userConsentRef (evaluatePolicy now t a v cs rs snap user dig ses) =
     map_option cr_toolSnapshotHash (lookupConsent now cs t snap user dig ses)"
  by (simp add: evaluatePolicy_def Let_def split: prod.splits)

section \<open>Properties\<close>

text \<open>A rule set only ever adds restrictions: extending it, in whatever order, never lowers the
  decision of a call, and reordering it changes nothing.\<close>

theorem more_rules_never_weaker:
  assumes "set rs \<subseteq> set rs'"
  shows "tid_decision (evaluatePolicy now t a v cs rs snap user dig ses)
           \<le> tid_decision (evaluatePolicy now t a v cs rs' snap user dig ses)"
proof -
  have "fires d rs t a v \<Longrightarrow> fires d rs' t a v" for d using assms by (auto simp: fires_set)
  then show ?thesis by (auto simp: decision_cases decision_le)
qed

theorem more_rules_never_weaker_witness:
  "tid_decision (evaluatePolicy 0 ''t'' [] None [] [ASK_HIGH_RISK_RULE] None None None None)
     \<le> tid_decision (evaluatePolicy 0 ''t'' [] None [] [DENY_BLOCKED_RULE, ASK_HIGH_RISK_RULE] None None None None)"
  by (rule more_rules_never_weaker) simp

end
