(* ===== verification/Resource_Path.thy ===== *)
theory Resource_Path
  imports Wa_Prelude "HOL-Library.Sublist"
begin

text \<open>
  Resource paths (packages/mcp-firewall/src/resource-path.ts): lexical normalisation of a path
  reference, classification against the credential stores, and the bounded breadth-first walk
  that collects the strings of an argument tree. \<open>decodeURIComponent\<close> is the percent decoder of
  the language on code units up to 255: a code point above that becomes the code unit 255, which
  no signature contains.
\<close>

section \<open>decodeURIComponent\<close>

text \<open>\<open>k\<close> continuation bytes \<open>%80 .. %BF\<close>, folded into the code point \<open>cp\<close>.\<close>

fun uri_cont :: "nat \<Rightarrow> nat \<Rightarrow> string \<Rightarrow> (nat \<times> string) option" where
  "uri_cont 0 cp s = Some (cp, s)"
| "uri_cont (Suc k) cp (p # a # b # s) =
     (case (hex_val a, hex_val b) of
        (Some x, Some y) \<Rightarrow>
          if p = CHR ''%'' \<and> 128 \<le> 16 * x + y \<and> 16 * x + y < 192
          then uri_cont k (cp * 64 + (16 * x + y - 128)) s else None
      | _ \<Rightarrow> None)"
| "uri_cont (Suc k) cp s = None"

lemma uri_cont_shorter: "uri_cont k cp s = Some (n, r) \<Longrightarrow> length r \<le> length s"
  by (induction k cp s rule: uri_cont.induct) (fastforce split: option.splits if_splits)+

text \<open>Number of continuation bytes, initial bits and least code point of a lead byte.\<close>

definition utf8_lead :: "nat \<Rightarrow> (nat \<times> nat \<times> nat) option" where
  "utf8_lead n =
     (if n < 128 then Some (0, n, 0)
      else if 192 \<le> n \<and> n < 224 then Some (1, n - 192, 128)
      else if 224 \<le> n \<and> n < 240 then Some (2, n - 224, 2048)
      else if 240 \<le> n \<and> n < 248 then Some (3, n - 240, 65536) else None)"

definition valid_code_point :: "nat \<Rightarrow> nat \<Rightarrow> bool" where
  "valid_code_point least cp =
     (least \<le> cp \<and> cp \<le> 1114111 \<and> \<not> (55296 \<le> cp \<and> cp \<le> 57343))"

definition code_unit :: "nat \<Rightarrow> char" where
  "code_unit cp = (if cp < 256 then char_of cp else char_of (255 :: nat))"

function uri_decode :: "string \<Rightarrow> string option" where
  "uri_decode s =
     (case s of [] \<Rightarrow> Some []
      | c # t \<Rightarrow>
          if c \<noteq> CHR ''%'' then map_option ((#) c) (uri_decode t)
          else (case t of a # b # r \<Rightarrow>
                  (case (hex_val a, hex_val b) of
                     (Some x, Some y) \<Rightarrow>
                       (case utf8_lead (16 * x + y) of None \<Rightarrow> None
                        | Some (k, bits, least) \<Rightarrow>
                            (case uri_cont k bits r of None \<Rightarrow> None
                             | Some (cp, r') \<Rightarrow>
                                 if valid_code_point least cp
                                 then map_option ((#) (code_unit cp)) (uri_decode r') else None))
                   | _ \<Rightarrow> None)
                | _ \<Rightarrow> None))"
  by pat_completeness auto
termination
  by (relation "measure length") (auto dest: uri_cont_shorter)

declare uri_decode.simps [simp del]

text \<open>The test \<open>/%[0-9a-fA-F]{2}/\<close>.\<close>

fun has_escape :: "string \<Rightarrow> bool" where
  "has_escape (p # a # b # s) =
     (p = CHR ''%'' \<and> is_hex a \<and> is_hex b \<or> has_escape (a # b # s))"
| "has_escape s = False"

section \<open>Normalisation\<close>

definition HOME_SENTINEL :: string where
  "HOME_SENTINEL = ''home''"

text \<open>\<open>.\<close> in a regular expression matches no line terminator.\<close>

definition no_newline :: "string \<Rightarrow> bool" where
  "no_newline s = list_all (\<lambda>c. c \<noteq> CHR 0x0A \<and> c \<noteq> CHR 0x0D) s"

text \<open>
  What \<open>(?:[^/]+)?(\/.*)$\<close> captures after the slashes: the run up to the first slash is
  skipped, whatever it is.
\<close>

definition uri_tail :: "string \<Rightarrow> string option" where
  "uri_tail s =
     (let r = dropWhile (\<lambda>c. c \<noteq> CHR ''/'') s
      in if r \<noteq> [] \<and> no_newline r then Some r else None)"

definition file_uri_match :: "string \<Rightarrow> string option" where
  "file_uri_match s =
     (if starts_with (ascii_lower s) ''file://'' then
        (case (if starts_with (ascii_lower s) ''file:///'' then uri_tail (drop 8 s) else None) of
           Some r \<Rightarrow> Some r
         | None \<Rightarrow> uri_tail (drop 7 s))
      else None)"

definition decodeFileUri :: "string \<Rightarrow> string option" where
  "decodeFileUri raw =
     (case file_uri_match (trim raw) of
        None \<Rightarrow> None
      | Some m \<Rightarrow> Some (case uri_decode m of Some d \<Rightarrow> d | None \<Rightarrow> m))"

definition home_aliases :: "string list" where
  "home_aliases = [''~'', ''${home}'', ''$home'', ''%userprofile%'', ''%homedrive%%homepath%'']"

definition replace_home :: "string \<Rightarrow> string" where
  "replace_home p =
     (case find (\<lambda>a. starts_with (ascii_lower p) a) home_aliases of
        None \<Rightarrow> p | Some a \<Rightarrow> HOME_SENTINEL @ drop (length a) p)"

definition forward_slashes :: "string \<Rightarrow> string" where
  "forward_slashes p = map (\<lambda>c. if c = CHR 0x5C then CHR ''/'' else c) p"

definition norm_step :: "string list \<Rightarrow> string \<Rightarrow> string list" where
  "norm_step out seg =
     (if seg = '''' \<or> seg = ''.'' then out
      else if seg = ''..'' then (if out \<noteq> [] \<and> last out \<noteq> ''..'' then butlast out else out)
      else out @ [seg])"

definition resolve_segments :: "string list \<Rightarrow> string list" where
  "resolve_segments segs = foldl norm_step [] segs"

definition normalizeResourcePath :: "string \<Rightarrow> string" where
  "normalizeResourcePath raw =
     (let p0 = trim raw;
          p1 = (if has_escape p0 then (case uri_decode p0 of Some d \<Rightarrow> d | None \<Rightarrow> p0) else p0);
          p2 = (case decodeFileUri p1 of Some f \<Rightarrow> f | None \<Rightarrow> p1);
          p3 = forward_slashes (replace_home p2)
      in CHR ''/'' # join_on ''/'' (resolve_segments (split_on (CHR ''/'') p3)))"

section \<open>Classification\<close>

datatype sensitive_path_class =
    SshKeys | AwsCredentials | GnupgKeyring | UnixAccounts | GcloudCredentials
  | AzureCredentials | Kubeconfig | VcsCredentials

definition SENSITIVE_SIGNATURES :: "(string list \<times> sensitive_path_class) list" where
  "SENSITIVE_SIGNATURES =
     [([''.ssh''], SshKeys), ([''.aws''], AwsCredentials), ([''.gnupg''], GnupgKeyring),
      ([''etc'', ''passwd''], UnixAccounts), ([''etc'', ''shadow''], UnixAccounts),
      ([''.config'', ''gcloud''], GcloudCredentials), ([''.azure''], AzureCredentials),
      ([''.kube''], Kubeconfig), ([''.git-credentials''], VcsCredentials),
      ([''.netrc''], VcsCredentials)]"

text \<open>The two inner loops: does \<open>run\<close> occur at some index \<open>i\<close> of \<open>segments\<close>?\<close>

fun run_at :: "string list \<Rightarrow> string list \<Rightarrow> bool" where
  "run_at segs [] = True"
| "run_at [] (r # rs) = False"
| "run_at (s # segs) (r # rs) = (s = r \<and> run_at segs rs)"

fun has_run :: "string list \<Rightarrow> string list \<Rightarrow> bool" where
  "has_run [] run = run_at [] run"
| "has_run (s # segs) run = (run_at (s # segs) run \<or> has_run segs run)"

record path_class =
  pc_normalized :: string
  pc_sensitiveClass :: "sensitive_path_class option"
  pc_isSensitive :: bool

definition classifyResourcePath :: "string \<Rightarrow> path_class" where
  "classifyResourcePath raw =
     (let normalized = ascii_lower (normalizeResourcePath raw);
          segments = split_on (CHR ''/'') normalized
      in case find (\<lambda>(run, cls). has_run segments run) SENSITIVE_SIGNATURES of
           Some (run, cls) \<Rightarrow> \<lparr>pc_normalized = normalized, pc_sensitiveClass = Some cls,
                               pc_isSensitive = True\<rparr>
         | None \<Rightarrow> \<lparr>pc_normalized = normalized, pc_sensitiveClass = None, pc_isSensitive = False\<rparr>)"

section \<open>The bounded walk\<close>

fun json_children :: "json \<Rightarrow> json list" where
  "json_children (JArr xs) = xs"
| "json_children (JObj kvs) = map snd kvs"
| "json_children v = []"

text \<open>
  The queue loop. \<open>left\<close> is \<open>maxNodes - visited\<close>: the loop stops at the node that would exceed it.
\<close>

fun string_walk :: "nat \<Rightarrow> nat \<Rightarrow> (json \<times> nat) list \<Rightarrow> string list" where
  "string_walk maxDepth left [] = []"
| "string_walk maxDepth 0 (x # queue) = []"
| "string_walk maxDepth (Suc left) ((v, d) # queue) =
     (case v of JStr s \<Rightarrow> s # string_walk maxDepth left queue
      | _ \<Rightarrow> if maxDepth \<le> d then string_walk maxDepth left queue
             else string_walk maxDepth left (queue @ map (\<lambda>c. (c, d + 1)) (json_children v)))"

definition MAX_DEPTH :: nat where "MAX_DEPTH = 8"

definition MAX_NODES :: nat where "MAX_NODES = 512"

definition deepStringValues :: "json \<Rightarrow> string list" where
  "deepStringValues v = string_walk MAX_DEPTH MAX_NODES [(v, 0)]"

section \<open>Lemmas: runs and segments\<close>

lemma run_at_prefix: "run_at segs run \<longleftrightarrow> prefix run segs"
  by (induction segs run rule: run_at.induct) auto

lemma has_run_sublist: "has_run segs run \<longleftrightarrow> sublist run segs"
  by (induction segs run rule: has_run.induct) (auto simp: run_at_prefix sublist_Cons_right)

definition segment_ok :: "string \<Rightarrow> bool" where
  "segment_ok s = (s \<noteq> '''' \<and> s \<noteq> ''.'' \<and> s \<noteq> ''..'')"

lemma norm_step_ok:
  "list_all segment_ok out \<Longrightarrow> list_all segment_ok (norm_step out seg)"
  by (auto simp: norm_step_def segment_ok_def list_all_iff dest: in_set_butlastD)

lemma foldl_norm_ok: "list_all segment_ok out \<Longrightarrow> list_all segment_ok (foldl norm_step out segs)"
  by (induction segs arbitrary: out) (auto intro: norm_step_ok)

lemma resolve_ok: "list_all segment_ok (resolve_segments segs)"
  by (simp add: resolve_segments_def foldl_norm_ok)

lemma foldl_norm_plain:
  "list_all segment_ok segs \<Longrightarrow> foldl norm_step out segs = out @ segs"
  by (induction segs arbitrary: out) (auto simp: norm_step_def segment_ok_def)

lemma resolve_idem: "resolve_segments (resolve_segments segs) = resolve_segments segs"
  using foldl_norm_plain [OF resolve_ok, of "[]" segs] by (simp add: resolve_segments_def)

lemma norm_step_dots [simp]:
  "norm_step out '''' = out" "norm_step out ''.'' = out"
  by (simp_all add: norm_step_def)

lemma norm_step_back:
  "segment_ok seg \<Longrightarrow> norm_step (norm_step out seg) ''..'' = out"
  by (auto simp: norm_step_def segment_ok_def)

lemma resolve_append:
  "resolve_segments (a @ b) = foldl norm_step (resolve_segments a) b"
  by (simp add: resolve_segments_def)

lemma resolve_dot: "resolve_segments (a @ ''.'' # b) = resolve_segments (a @ b)"
  by (simp add: resolve_append)

lemma resolve_empty: "resolve_segments (a @ '''' # b) = resolve_segments (a @ b)"
  by (simp add: resolve_append)

lemma resolve_updown:
  "segment_ok s \<Longrightarrow> resolve_segments (a @ s # ''..'' # b) = resolve_segments (a @ b)"
  by (simp add: resolve_append norm_step_back)

lemma foldl_norm_set: "set (foldl norm_step out segs) \<subseteq> set out \<union> set segs"
proof (induction segs arbitrary: out)
  case Nil
  then show ?case by simp
next
  case (Cons x segs)
  have "set (norm_step out x) \<subseteq> set out \<union> {x}"
    by (auto simp: norm_step_def dest: in_set_butlastD)
  then show ?case using Cons [of "norm_step out x"] by auto
qed

lemma resolve_no_slash:
  "s \<in> set (resolve_segments (split_on sep p)) \<Longrightarrow> sep \<notin> set s"
  using foldl_norm_set [of "[]" "split_on sep p"] split_on_no_sep
  by (force simp: resolve_segments_def)

text \<open>The segments of a reference once its representation is stripped.\<close>

definition path_segments :: "string \<Rightarrow> string list" where
  "path_segments p = resolve_segments (split_on (CHR ''/'') (forward_slashes p))"

lemma lower_char_slash [simp]: "ascii_lower_char c = CHR ''/'' \<longleftrightarrow> c = CHR ''/''"
proof
  assume a: "ascii_lower_char c = CHR ''/''"
  show "c = CHR ''/''"
  proof (cases "65 \<le> (of_char c :: nat) \<and> (of_char c :: nat) \<le> 90")
    case True
    with a have "(char_of ((of_char c :: nat) + 32) :: char) = CHR ''/''"
      by (simp add: ascii_lower_char_def)
    then have "(of_char (char_of ((of_char c :: nat) + 32) :: char) :: nat) = of_char CHR ''/''"
      by simp
    with True show ?thesis by simp
  next
    case False
    with a show ?thesis by (auto simp: ascii_lower_char_def)
  qed
qed (simp add: ascii_lower_char_def)

lemma ascii_lower_slash [simp]: "CHR ''/'' \<in> set (ascii_lower s) \<longleftrightarrow> CHR ''/'' \<in> set s"
  unfolding ascii_lower_def set_map image_iff
  by (metis lower_char_slash)

lemma ascii_lower_join:
  "ascii_lower (join_on ''/'' ws) = join_on ''/'' (map ascii_lower ws)"
proof (induction ws)
  case (Cons w ws)
  then show ?case by (cases ws) (auto simp: ascii_lower_def ascii_lower_char_def)
qed (simp add: ascii_lower_def)

section \<open>Lemmas: classification\<close>

lemma find_Some_ex: "(\<exists>x. find P xs = Some x) \<longleftrightarrow> list_ex P xs"
  using find_None_iff [of P xs] by (auto simp: list_ex_iff)

definition stripped_path :: "string \<Rightarrow> string" where
  "stripped_path raw =
     (let p0 = trim raw;
          p1 = (if has_escape p0 then (case uri_decode p0 of Some d \<Rightarrow> d | None \<Rightarrow> p0) else p0);
          p2 = (case decodeFileUri p1 of Some f \<Rightarrow> f | None \<Rightarrow> p1)
      in replace_home p2)"

lemma normalize_stripped:
  "normalizeResourcePath raw = CHR ''/'' # join_on ''/'' (path_segments (stripped_path raw))"
  by (simp add: normalizeResourcePath_def stripped_path_def path_segments_def Let_def)

lemma path_segments_ok: "list_all segment_ok (path_segments p)"
  by (simp add: path_segments_def resolve_ok)

lemma split_normalized:
  "split_on (CHR ''/'') (ascii_lower (CHR ''/'' # join_on ''/'' (path_segments p))) =
     [] # (if path_segments p = [] then [[]] else map ascii_lower (path_segments p))"
proof -
  have l: "ascii_lower (CHR ''/'' # w) = CHR ''/'' # ascii_lower w" for w
    by (simp add: ascii_lower_def ascii_lower_char_def)
  have ns: "\<forall>w \<in> set (map ascii_lower (path_segments p)). CHR ''/'' \<notin> set w"
    by (auto simp: path_segments_def dest: resolve_no_slash)
  show ?thesis
  proof (cases "path_segments p = []")
    case True
    then show ?thesis by (simp add: l) (simp add: ascii_lower_def)
  next
    case False
    then show ?thesis
      using split_join [OF _ ns] by (simp add: l ascii_lower_join)
  qed
qed

lemma sublist_Nil_Cons: "[] \<notin> set run \<Longrightarrow> sublist run ([] # xs) \<longleftrightarrow> sublist run xs"
  by (cases run) (auto simp: sublist_Cons_right)

lemma signatures_nonempty: "(run, cls) \<in> set SENSITIVE_SIGNATURES \<Longrightarrow> run \<noteq> [] \<and> [] \<notin> set run"
  by (auto simp: SENSITIVE_SIGNATURES_def)

lemma sensitive_segments:
  "pc_isSensitive (classifyResourcePath raw) \<longleftrightarrow>
     list_ex (\<lambda>(run, cls). sublist run (map ascii_lower (path_segments (stripped_path raw))))
       SENSITIVE_SIGNATURES"
proof -
  let ?segs = "split_on (CHR ''/'') (ascii_lower (normalizeResourcePath raw))"
  let ?ps = "map ascii_lower (path_segments (stripped_path raw))"
  have "has_run ?segs run \<longleftrightarrow> sublist run ?ps" if "(run, cls) \<in> set SENSITIVE_SIGNATURES" for run cls
    using signatures_nonempty [OF that]
    by (auto simp: has_run_sublist normalize_stripped split_normalized sublist_Nil_Cons)
  then have "list_ex (\<lambda>(run, cls). has_run ?segs run) SENSITIVE_SIGNATURES \<longleftrightarrow>
      list_ex (\<lambda>(run, cls). sublist run ?ps) SENSITIVE_SIGNATURES"
    by (auto simp: list_ex_iff)
  moreover have "pc_isSensitive (classifyResourcePath raw) \<longleftrightarrow>
      list_ex (\<lambda>(run, cls). has_run ?segs run) SENSITIVE_SIGNATURES"
    unfolding find_Some_ex [symmetric]
    by (auto simp: classifyResourcePath_def Let_def split: option.splits)
  ultimately show ?thesis by simp
qed

lemma class_only_if_sensitive:
  "pc_isSensitive (classifyResourcePath raw) \<longleftrightarrow> pc_sensitiveClass (classifyResourcePath raw) \<noteq> None"
  by (auto simp: classifyResourcePath_def Let_def split: option.splits)

section \<open>Lemmas: the bounded walk\<close>

text \<open>The strings of a tree down to depth \<open>k\<close>, and the nodes a walk of that depth visits.\<close>

fun strings_upto :: "nat \<Rightarrow> json \<Rightarrow> string list" where
  "strings_upto 0 v = (case v of JStr s \<Rightarrow> [s] | _ \<Rightarrow> [])"
| "strings_upto (Suc k) v =
     (case v of JStr s \<Rightarrow> [s] | _ \<Rightarrow> concat (map (strings_upto k) (json_children v)))"

fun nodes_upto :: "nat \<Rightarrow> json \<Rightarrow> nat" where
  "nodes_upto 0 v = 1"
| "nodes_upto (Suc k) v = 1 + sum_list (map (nodes_upto k) (json_children v))"

lemma nodes_upto_pos: "0 < nodes_upto k v"
  by (cases k) auto

definition queue_nodes :: "nat \<Rightarrow> (json \<times> nat) list \<Rightarrow> nat" where
  "queue_nodes md q = sum_list (map (\<lambda>(v, d). nodes_upto (md - d) v) q)"

lemma queue_nodes_simps [simp]:
  "queue_nodes md [] = 0"
  "queue_nodes md ((v, d) # q) = nodes_upto (md - d) v + queue_nodes md q"
  "queue_nodes md (q @ q') = queue_nodes md q + queue_nodes md q'"
  by (simp_all add: queue_nodes_def)

lemma queue_nodes_children:
  "queue_nodes md (map (\<lambda>c. (c, Suc d)) cs) = sum_list (map (nodes_upto (md - Suc d)) cs)"
  by (simp add: queue_nodes_def comp_def)

lemma nodes_node:
  "\<not> md \<le> d \<Longrightarrow>
     nodes_upto (md - d) v = 1 + sum_list (map (nodes_upto (md - Suc d)) (json_children v))"
  by (cases "md - d") (auto simp: diff_Suc split: nat.splits)

text \<open>
  The law of a bounded walk, shared by the walk over strings and the walk over keys: \<open>emit b v\<close> is
  what a node contributes (\<open>b\<close>: its depth is below the limit), \<open>emitted k v\<close> what the tree \<open>v\<close>
  contributes down to depth \<open>k\<close>.
\<close>

locale bounded_walk =
  fixes walk :: "nat \<Rightarrow> nat \<Rightarrow> (json \<times> nat) list \<Rightarrow> string list"
    and emit :: "bool \<Rightarrow> json \<Rightarrow> string list"
    and emitted :: "nat \<Rightarrow> json \<Rightarrow> string list"
  assumes walk_stop: "walk md left [] = []" "walk md 0 q = []"
    and walk_step: "walk md (Suc left) ((v, d) # q) =
          emit (d < md) v @
          walk md left (q @ (if d < md then map (\<lambda>c. (c, Suc d)) (json_children v) else []))"
    and emitted_leaf: "set (emitted 0 v) = set (emit False v)"
    and emitted_node: "set (emitted (Suc k) v) =
          set (emit True v) \<union> (\<Union>c \<in> set (json_children v). set (emitted k c))"
begin

lemma emitted_at:
  "set (emitted (md - d) v) = set (emit (d < md) v) \<union>
     (\<Union>(c, e) \<in> set (if d < md then map (\<lambda>c. (c, Suc d)) (json_children v) else []).
        set (emitted (md - e) c))"
proof (cases "d < md")
  case True
  then have "md - d = Suc (md - Suc d)" by simp
  with True show ?thesis by (simp add: emitted_node)
qed (simp add: emitted_leaf)

lemma sound: "set (walk md left q) \<subseteq> (\<Union>(v, d) \<in> set q. set (emitted (md - d) v))"
proof (induction left arbitrary: q)
  case (Suc left)
  show ?case
  proof (cases q)
    case (Cons x q')
    obtain v d where x: "x = (v, d)" by (cases x)
    show ?thesis
      using Suc [of "q' @ (if d < md then map (\<lambda>c. (c, Suc d)) (json_children v) else [])"]
      unfolding Cons x walk_step set_append list.set insert_def [symmetric] UN_insert UN_Un
        prod.case emitted_at [of md d v]
      by blast
  qed (simp add: walk_stop)
qed (simp add: walk_stop)

lemma complete:
  "queue_nodes md q \<le> left \<Longrightarrow>
     set (walk md left q) = (\<Union>(v, d) \<in> set q. set (emitted (md - d) v))"
proof (induction left arbitrary: q)
  case 0
  then show ?case
    using nodes_upto_pos [of "md - snd (hd q)" "fst (hd q)"] by (cases q) (auto simp: walk_stop)
next
  case (Suc left)
  show ?case
  proof (cases q)
    case (Cons x q')
    obtain v d where x: "x = (v, d)" by (cases x)
    let ?next = "q' @ (if d < md then map (\<lambda>c. (c, Suc d)) (json_children v) else [])"
    have "queue_nodes md ?next \<le> left"
      using Suc.prems nodes_node [of md d v] nodes_upto_pos [of "md - d" v]
      by (cases "d < md") (auto simp: Cons x queue_nodes_children)
    then have ih: "set (walk md left ?next) = (\<Union>(v, d) \<in> set ?next. set (emitted (md - d) v))"
      by (rule Suc.IH)
    show ?thesis
      unfolding Cons x walk_step set_append ih list.set UN_insert UN_Un prod.case emitted_at [of md d v]
      by blast
  qed (simp add: walk_stop)
qed

end

interpretation strings: bounded_walk string_walk "\<lambda>b v. case v of JStr s \<Rightarrow> [s] | _ \<Rightarrow> []" strings_upto
proof
  fix md left d k :: nat and v :: json and q :: "(json \<times> nat) list"
  show "string_walk md left [] = []" by simp
  show "string_walk md 0 q = []" by (cases q) auto
  show "string_walk md (Suc left) ((v, d) # q) =
      (case v of JStr s \<Rightarrow> [s] | _ \<Rightarrow> []) @ string_walk md left
        (q @ (if d < md then map (\<lambda>c. (c, Suc d)) (json_children v) else []))"
    by (cases v) auto
  show "set (strings_upto 0 v) = set (case v of JStr s \<Rightarrow> [s] | _ \<Rightarrow> [])" by simp
  show "set (strings_upto (Suc k) v) = set (case v of JStr s \<Rightarrow> [s] | _ \<Rightarrow> []) \<union>
      (\<Union>c \<in> set (json_children v). set (strings_upto k c))"
    by (cases v) auto
qed

declare string_walk.simps(3) [simp del]

lemma deep_strings_exact:
  assumes "nodes_upto MAX_DEPTH v \<le> MAX_NODES"
  shows "set (deepStringValues v) = set (strings_upto MAX_DEPTH v)"
  using strings.complete [of MAX_DEPTH "[(v, 0)]" MAX_NODES] assms
  by (simp add: deepStringValues_def)

lemma deep_strings_sound: "set (deepStringValues v) \<subseteq> set (strings_upto MAX_DEPTH v)"
  using strings.sound [of MAX_DEPTH MAX_NODES "[(v, 0)]"] by (simp add: deepStringValues_def)

section \<open>Lemmas: representations of one path\<close>

text \<open>A reference that carries no escape and no surrounding space.\<close>

definition unescaped :: "string \<Rightarrow> bool" where
  "unescaped p = (CHR ''%'' \<notin> set p \<and> p \<noteq> [] \<and> \<not> is_space (hd p) \<and> \<not> is_space (last p))"

lemma dropWhile_hd: "p \<noteq> [] \<Longrightarrow> \<not> P (hd p) \<Longrightarrow> dropWhile P p = p"
  by (cases p) auto

lemma trim_unescaped: "unescaped p \<Longrightarrow> trim p = p"
  by (simp add: trim_def unescaped_def dropWhile_hd hd_rev)

lemma has_escape_no_percent: "CHR ''%'' \<notin> set p \<Longrightarrow> \<not> has_escape p"
  by (induction p rule: has_escape.induct) auto

lemma uri_decode_no_percent: "CHR ''%'' \<notin> set p \<Longrightarrow> uri_decode p = Some p"
  by (induction p) (auto simp: uri_decode.simps)

lemma lower_slash_head [simp]: "ascii_lower (CHR ''/'' # p) = CHR ''/'' # ascii_lower p"
  by (simp add: ascii_lower_def ascii_lower_char_def)

lemma trim_slash_head: "trim (CHR ''/'' # p) = CHR ''/'' # rev (dropWhile is_space (rev p))"
  by (auto simp: trim_def is_space_def dropWhile_append dropWhile_eq_Nil_conv Let_def)

lemma decode_abs: "decodeFileUri (CHR ''/'' # p) = None"
  by (simp add: decodeFileUri_def file_uri_match_def trim_slash_head)

lemma replace_home_abs: "replace_home (CHR ''/'' # p) = CHR ''/'' # p"
  by (simp add: replace_home_def home_aliases_def)

lemma stripped_abs: "unescaped (CHR ''/'' # p) \<Longrightarrow> stripped_path (CHR ''/'' # p) = CHR ''/'' # p"
  using trim_unescaped [of "CHR ''/'' # p"] has_escape_no_percent [of "CHR ''/'' # p"]
  by (simp add: stripped_path_def decode_abs replace_home_abs unescaped_def)

lemma classify_cong:
  "path_segments (stripped_path p) = path_segments (stripped_path q) \<Longrightarrow>
     classifyResourcePath p = classifyResourcePath q"
  by (simp add: classifyResourcePath_def normalize_stripped)

lemma split_on_append:
  "split_on sep (a @ sep # b) = split_on sep a @ split_on sep b"
proof (induction a)
  case (Cons c a)
  then show ?case by (cases "split_on sep a") auto
qed simp

lemma forward_slashes_append [simp]:
  "forward_slashes (a @ b) = forward_slashes a @ forward_slashes b"
  "forward_slashes [] = []"
  "forward_slashes (CHR ''/'' # b) = CHR ''/'' # forward_slashes b"
  "forward_slashes (CHR ''.'' # b) = CHR ''.'' # forward_slashes b"
  by (simp_all add: forward_slashes_def)

lemma path_segments_dot: "path_segments (a @ ''/./'' @ b) = path_segments (a @ ''/'' @ b)"
proof -
  have e: "''/./'' @ b = CHR ''/'' # ''.'' @ CHR ''/'' # b" "''/'' @ b = CHR ''/'' # b" by simp_all
  show ?thesis
    unfolding e path_segments_def forward_slashes_append append.simps(2) split_on_append
    using resolve_dot [of "split_on (CHR ''/'') (forward_slashes a)"
        "split_on (CHR ''/'') (forward_slashes b)"]
    by simp
qed

lemma path_segments_updown:
  assumes "segment_ok s" and "CHR ''/'' \<notin> set (forward_slashes s)" and "CHR 0x5C \<notin> set s"
  shows "path_segments (a @ ''/'' @ s @ ''/../'' @ b) = path_segments (a @ ''/'' @ b)"
proof -
  have s: "forward_slashes s = s" unfolding forward_slashes_def by (rule map_idI) (use assms(3) in auto)
  have e: "''/'' @ s @ ''/../'' @ b = CHR ''/'' # s @ CHR ''/'' # ''..'' @ CHR ''/'' # b"
    "''/'' @ b = CHR ''/'' # b" by simp_all
  show ?thesis
    unfolding e path_segments_def forward_slashes_append append.simps(2) split_on_append s
    using resolve_updown [OF assms(1), of "split_on (CHR ''/'') (forward_slashes a)"
        "split_on (CHR ''/'') (forward_slashes b)"] assms(2) s
    by (simp add: split_append split_single split_on_append)
qed

lemma path_segments_backslash:
  "path_segments (a @ [CHR 0x5C] @ b) = path_segments (a @ ''/'' @ b)"
  by (simp add: path_segments_def forward_slashes_def)

lemma file_uri_tail:
  assumes "CHR ''/'' \<notin> set h" and "no_newline r"
  shows "uri_tail (h @ CHR ''/'' # r) = Some (CHR ''/'' # r)"
proof -
  have "dropWhile (\<lambda>c. c \<noteq> CHR ''/'') (h @ CHR ''/'' # r) = CHR ''/'' # r"
    using assms(1) by (induction h) auto
  then show ?thesis using assms(2) by (simp add: uri_tail_def no_newline_def)
qed

lemma stripped_file_uri:
  assumes "unescaped (''file:///'' @ h @ CHR ''/'' # r)" and "CHR ''/'' \<notin> set h" and "no_newline r"
  shows "stripped_path (''file:///'' @ h @ CHR ''/'' # r) = CHR ''/'' # r"
proof -
  let ?u = "''file:///'' @ h @ CHR ''/'' # r"
  have low: "starts_with (ascii_lower ?u) ''file:///''" "starts_with (ascii_lower ?u) ''file://''"
    by (simp_all add: ascii_lower_def ascii_lower_char_def)
  have np: "CHR ''%'' \<notin> set ?u" using assms(1) unfolding unescaped_def by blast
  have t: "trim ?u = ?u" using assms(1) by (rule trim_unescaped)
  have "file_uri_match ?u = Some (CHR ''/'' # r)"
    using low file_uri_tail [OF assms(2,3)] by (simp add: file_uri_match_def)
  moreover have "uri_decode (CHR ''/'' # r) = Some (CHR ''/'' # r)"
    using np by (intro uri_decode_no_percent) simp
  ultimately have "decodeFileUri ?u = Some (CHR ''/'' # r)"
    unfolding decodeFileUri_def t by simp
  then show ?thesis
    using has_escape_no_percent [OF np] t
    by (simp only: stripped_path_def Let_def if_False option.case replace_home_abs)
qed

lemma walk_null: "string_walk md (Suc left) ((JNull, d) # q) = string_walk md left q"
  by (simp add: strings.walk_step)

lemma walk_padding: "n \<le> m \<Longrightarrow> string_walk md n (replicate m (JNull, d) @ q) = []"
proof (induction n arbitrary: m)
  case 0
  then show ?case by (cases "replicate m (JNull, d) @ q") auto
next
  case (Suc n)
  then show ?case by (cases m) (auto simp: walk_null)
qed

section \<open>Properties\<close>

text \<open>C8. A reference is classified sensitive exactly when the lower-cased segments of its
  normalised path contain one of the credential-store signatures as a consecutive run, wherever
  it stands.\<close>

theorem sensitive_iff_signature_run:
  "pc_isSensitive (classifyResourcePath raw) \<longleftrightarrow>
     list_ex (\<lambda>(run, cls). sublist run (map ascii_lower (path_segments (stripped_path raw))))
       SENSITIVE_SIGNATURES"
  by (rule sensitive_segments)

text \<open>Dot segments, a step into a directory and back, and a Windows separator do not change
  the class of an absolute, unescaped reference.\<close>

theorem representation_invariance:
  assumes "unescaped (CHR ''/'' # a @ ''/'' @ b)"
    and "unescaped (CHR ''/'' # a @ w @ b)"
    and "w = ''/./'' \<or> w = [CHR 0x5C] \<or> w = ''/'' @ s @ ''/../''"
    and "segment_ok s" and "CHR ''/'' \<notin> set (forward_slashes s)"
  shows "classifyResourcePath (CHR ''/'' # a @ w @ b) = classifyResourcePath (CHR ''/'' # a @ ''/'' @ b)"
proof (rule classify_cong)
  have s: "CHR 0x5C \<notin> set s" using assms(5) by (auto simp: forward_slashes_def image_iff)
  have "path_segments ((CHR ''/'' # a) @ w @ b) = path_segments ((CHR ''/'' # a) @ ''/'' @ b)"
    using assms(3) path_segments_dot [of "CHR ''/'' # a" b]
      path_segments_backslash [of "CHR ''/'' # a" b]
      path_segments_updown [OF assms(4,5) s, of "CHR ''/'' # a" b]
    by auto
  then show "path_segments (stripped_path (CHR ''/'' # a @ w @ b)) =
      path_segments (stripped_path (CHR ''/'' # a @ ''/'' @ b))"
    using assms(1,2) by (simp add: stripped_abs)
qed

theorem representation_invariance_witness:
  "classifyResourcePath ''/root/x/../.ssh/id'' = classifyResourcePath ''/root/.ssh/id''"
  using representation_invariance [of "''root''" "''.ssh/id''" "''/x/../''" "''x''"]
  by (simp add: unescaped_def is_space_def Let_def segment_ok_def forward_slashes_def)

text \<open>A \<open>file:\<close> URI with three slashes loses the first segment of its path: the pattern takes it
  for a host. The class is that of the rest, so \<open>file:///etc/passwd\<close> is not sensitive although
  \<open>/etc/passwd\<close> is.\<close>

theorem file_uri_loses_first_segment:
  assumes "unescaped (''file:///'' @ h @ CHR ''/'' # r)" and "CHR ''/'' \<notin> set h" and "no_newline r"
  shows "classifyResourcePath (''file:///'' @ h @ CHR ''/'' # r) = classifyResourcePath (CHR ''/'' # r)"
proof (rule classify_cong)
  have "unescaped (CHR ''/'' # r)"
    using assms(1) by (auto simp: unescaped_def is_space_def Let_def split: if_splits)
  then show "path_segments (stripped_path (''file:///'' @ h @ CHR ''/'' # r)) =
      path_segments (stripped_path (CHR ''/'' # r))"
    using stripped_file_uri [OF assms] by (simp only: stripped_abs)
qed

lemma passwd_classes:
  "pc_isSensitive (classifyResourcePath ''/etc/passwd'')"
  "\<not> pc_isSensitive (classifyResourcePath ''/passwd'')"
  by code_simp+

theorem file_uri_loses_first_segment_witness:
  "\<not> pc_isSensitive (classifyResourcePath ''file:///etc/passwd'') \<and>
   pc_isSensitive (classifyResourcePath ''/etc/passwd'')"
  using file_uri_loses_first_segment [of "''etc''" "''passwd''"] passwd_classes
  by (simp add: unescaped_def is_space_def Let_def no_newline_def)

text \<open>The bounded walk never invents a string, and it finds every string down to depth 8 of a
  tree in which a walk of that depth meets at most 512 nodes.\<close>

theorem deep_strings_bounded:
  "set (deepStringValues v) \<subseteq> set (strings_upto MAX_DEPTH v) \<and>
   (nodes_upto MAX_DEPTH v \<le> MAX_NODES \<longrightarrow>
      set (deepStringValues v) = set (strings_upto MAX_DEPTH v))"
  using deep_strings_sound deep_strings_exact by blast

theorem deep_strings_bounded_witness:
  "''~/.ssh'' \<in> set (deepStringValues (JObj [(''w'', JArr [JNull, JStr ''~/.ssh''])]))"
  using deep_strings_bounded [of "JObj [(''w'', JArr [JNull, JStr ''~/.ssh''])]"]
  by (simp add: MAX_DEPTH_def MAX_NODES_def eval_nat_numeral)

text \<open>The node cap fails open: an array that starts with 511 nulls hides everything after
  them, whatever it is, so no string of it reaches a rule.\<close>

theorem padding_hides_strings:
  "deepStringValues (JArr (replicate (511 + n) JNull @ vs)) = []"
proof -
  have n: "MAX_NODES = Suc 511" and d: "\<not> MAX_DEPTH \<le> 0" by (simp_all add: MAX_NODES_def MAX_DEPTH_def)
  have "deepStringValues (JArr (replicate (511 + n) JNull @ vs)) =
      string_walk MAX_DEPTH 511
        (map (\<lambda>c. (c, Suc 0)) (replicate (511 + n) JNull @ vs))"
    unfolding deepStringValues_def n using d
    by (subst strings.walk_step) (simp del: replicate_Suc)
  also have "\<dots> = []"
    unfolding map_append map_replicate by (rule walk_padding) simp
  finally show ?thesis .
qed

end
