(* ===== verification/Url_Policy.thy ===== *)
theory Url_Policy
  imports Wa_Prelude "HOL-Library.Word"
begin

unbundle bit_operations_syntax

text \<open>
  URL targets (packages/mcp-firewall/src/url-policy.ts): the IPv4 and IPv6 host parsers, the
  classification of a host, and \<open>classifyUrlTarget\<close>. JavaScript's 32-bit operators are operations
  on \<open>32 word\<close>. The platform's \<open>new URL(s)\<close> is the argument \<open>parse_url\<close>: the protocol and the host
  name, or \<open>None\<close> where it throws.
\<close>

datatype ssrf_reason =
    Loopback | Unspecified | PrivateRange | LinkLocal | UniqueLocal | CloudMetadata | LocalhostName

record url_classification =
  uc_blocked :: bool
  uc_reason :: "ssrf_reason option"
  uc_host :: "string option"

section \<open>Host parsing\<close>

fun parse_octets :: "string list \<Rightarrow> nat list option" where
  "parse_octets [] = Some []"
| "parse_octets (p # ps) =
     (if p \<noteq> [] \<and> length p \<le> 3 \<and> list_all is_digit p \<and> digits_value 10 p \<le> 255
      then map_option ((#) (digits_value 10 p)) (parse_octets ps) else None)"

definition parseIpv4 :: "string \<Rightarrow> nat list option" where
  "parseIpv4 host =
     (let parts = split_on (CHR ''.'') host
      in if length parts \<noteq> 4 then None else parse_octets parts)"

text \<open>\<open>(n >>> k) & 0xff\<close> on the 32-bit value of \<open>n\<close>.\<close>

definition byte_at :: "nat \<Rightarrow> nat \<Rightarrow> nat" where
  "byte_at k n = unat ((drop_bit k (word_of_nat n :: 32 word)) AND 0xff)"

definition is_octal :: "char \<Rightarrow> bool" where
  "is_octal c = (let n = (of_char c :: nat) in 48 \<le> n \<and> n \<le> 55)"

definition hex_prefixed :: "string \<Rightarrow> bool" where
  "hex_prefixed p = (starts_with p ''0x'' \<or> starts_with p ''0X'')"

text \<open>The test \<open>/^(0[xX][0-9a-fA-F]+|0[0-7]+|\\d+)$/\<close>.\<close>

definition numeric_part :: "string \<Rightarrow> bool" where
  "numeric_part p =
     (hex_prefixed p \<and> drop 2 p \<noteq> [] \<and> list_all is_hex (drop 2 p)
      \<or> starts_with p ''0'' \<and> drop 1 p \<noteq> [] \<and> list_all is_octal (drop 1 p)
      \<or> p \<noteq> [] \<and> list_all is_digit p)"

text \<open>\<open>parseInt\<close> in base 16, 8 or 10: it stops at the first character that is no digit of the base.\<close>

definition part_value :: "string \<Rightarrow> nat" where
  "part_value p =
     (if hex_prefixed p then digits_value 16 (takeWhile is_hex (drop 2 p))
      else if starts_with p ''0'' \<and> drop 1 p \<noteq> [] \<and> list_all is_digit (drop 1 p)
      then digits_value 8 (takeWhile is_octal p)
      else digits_value 10 (takeWhile is_digit p))"

text \<open>The \<open>while\<close> loop over the short forms: \<open>unshift\<close> puts each byte in front.\<close>

function fill_octets :: "nat list \<Rightarrow> nat \<Rightarrow> nat list \<times> nat" where
  "fill_octets octets rest =
     (if length octets < 4
      then fill_octets (byte_at 0 rest # octets) (unat (drop_bit 8 (word_of_nat rest :: 32 word)))
      else (octets, rest))"
  by pat_completeness auto
termination by (relation "measure (\<lambda>(octets, rest). 4 - length octets)") auto

declare fill_octets.simps [simp del]

definition decodeAlternateIpv4 :: "string \<Rightarrow> nat list option" where
  "decodeAlternateIpv4 host =
     (if host \<noteq> [] \<and> list_all is_digit host then
        (let n = digits_value 10 host
         in if n > 0xffffffff then None
            else Some [byte_at 24 n, byte_at 16 n, byte_at 8 n, byte_at 0 n])
      else
        (let parts = split_on (CHR ''.'') host
         in if length parts < 2 \<or> length parts > 4 then None
            else if \<not> list_all numeric_part parts then None
            else
              (let values = map part_value parts
               in if list_ex (\<lambda>v. v > 255) values then None
                  else if length values = 4 then Some values
                  else (let (octets, rest) = fill_octets (butlast values) (last values)
                        in if rest = 0 then Some octets else None))))"

text \<open>\<open>h.match(/::/g)\<close> counted, and \<open>h.split("::")\<close> at the first occurrence.\<close>

fun count_double_colon :: "string \<Rightarrow> nat" where
  "count_double_colon (a # b # s) =
     (if a = CHR '':'' \<and> b = CHR '':'' then Suc (count_double_colon s)
      else count_double_colon (b # s))"
| "count_double_colon s = 0"

fun split_double_colon :: "string \<Rightarrow> string \<times> string" where
  "split_double_colon (a # b # s) =
     (if a = CHR '':'' \<and> b = CHR '':'' then ([], s)
      else (let (x, y) = split_double_colon (b # s) in (a # x, y)))"
| "split_double_colon s = (s, [])"

fun parse_groups :: "string list \<Rightarrow> nat list option" where
  "parse_groups [] = Some []"
| "parse_groups (p # ps) =
     (if p \<noteq> [] \<and> length p \<le> 4 \<and> list_all is_hex p
      then map_option ((#) (digits_value 16 p)) (parse_groups ps) else None)"

text \<open>\<open>((o0 << 8) | o1).toString(16)\<close>.\<close>

definition hex_pair :: "nat \<Rightarrow> nat \<Rightarrow> string" where
  "hex_pair hi lo =
     num_str 16 (unat (push_bit 8 (word_of_nat hi :: 32 word) OR word_of_nat lo))"

text \<open>The text up to and including the last colon, and the text after it.\<close>

definition upto_last_colon :: "string \<Rightarrow> string" where
  "upto_last_colon h = rev (dropWhile (\<lambda>c. c \<noteq> CHR '':'') (rev h))"

definition after_last_colon :: "string \<Rightarrow> string" where
  "after_last_colon h = rev (takeWhile (\<lambda>c. c \<noteq> CHR '':'') (rev h))"

definition or_else :: "'a option \<Rightarrow> 'a option \<Rightarrow> 'a option" where
  "or_else a b = (case a of Some x \<Rightarrow> Some x | None \<Rightarrow> b)"

text \<open>The dotted tail of an address, rewritten as two groups.\<close>

definition expand_v4_tail :: "string \<Rightarrow> string option" where
  "expand_v4_tail h =
     (if CHR ''.'' \<in> set h then
        (let t = after_last_colon h
         in case or_else (parseIpv4 t) (decodeAlternateIpv4 t) of
              None \<Rightarrow> None
            | Some v4 \<Rightarrow>
                (let oct = (\<lambda>i. case nth_opt v4 i of Some x \<Rightarrow> x | None \<Rightarrow> 0)
                 in Some (upto_last_colon h @ hex_pair (oct 0) (oct 1) @ '':'' @
                          hex_pair (oct 2) (oct 3))))
      else Some h)"

definition parseIpv6 :: "string \<Rightarrow> nat list option" where
  "parseIpv6 host =
     (case expand_v4_tail host of None \<Rightarrow> None
      | Some h \<Rightarrow>
          (let dcc = count_double_colon h
           in if dcc > 1 then None
              else
                (let (head, tail) =
                       (if dcc = 1 then
                          (let (a, b) = split_double_colon h
                           in (if a = [] then [] else split_on (CHR '':'') a,
                               if b = [] then [] else split_on (CHR '':'') b))
                        else (split_on (CHR '':'') h, []))
                 in if length head + length tail > 8 then None
                    else
                      (case parse_groups (head @ tail) of None \<Rightarrow> None
                       | Some groups \<Rightarrow>
                           (let missing = 8 - length groups
                            in if dcc = 1
                               then Some (take (length head) groups @ replicate missing 0 @
                                          drop (length head) groups)
                               else if missing \<noteq> 0 then None else Some groups)))))"

definition ipv6PrefixMatches :: "nat list \<Rightarrow> nat \<Rightarrow> nat list \<Rightarrow> bool" where
  "ipv6PrefixMatches groups prefixBits prefix =
     (let full = prefixBits div 16; rem = prefixBits mod 16
      in list_all (\<lambda>i. nth_opt groups i = nth_opt prefix i) [0..<full] \<and>
         (rem = 0 \<or>
          (case (nth_opt groups full, nth_opt prefix full) of
             (Some g, Some p) \<Rightarrow>
               drop_bit (16 - rem) (word_of_nat g :: 32 word) =
               drop_bit (16 - rem) (word_of_nat p :: 32 word)
           | _ \<Rightarrow> True)))"

definition embeddedIpv4 :: "nat list \<Rightarrow> nat list option" where
  "embeddedIpv4 groups =
     (case (nth_opt groups 6, nth_opt groups 7) of
        (Some g6, Some g7) \<Rightarrow> Some [byte_at 8 g6, byte_at 0 g6, byte_at 8 g7, byte_at 0 g7]
      | _ \<Rightarrow> None)"

section \<open>Classification\<close>

definition METADATA_HOSTS :: "string list" where
  "METADATA_HOSTS =
     [''metadata.google.internal'', ''metadata.goog'', ''metadata.azure.com'', ''metadata'']"

definition blocked_for :: "ssrf_reason \<Rightarrow> string \<Rightarrow> url_classification" where
  "blocked_for r host = \<lparr>uc_blocked = True, uc_reason = Some r, uc_host = Some host\<rparr>"

definition not_blocked :: "string option \<Rightarrow> url_classification" where
  "not_blocked host = \<lparr>uc_blocked = False, uc_reason = None, uc_host = host\<rparr>"

definition classifyIpv4Octets :: "nat list \<Rightarrow> string \<Rightarrow> url_classification" where
  "classifyIpv4Octets octets host =
     (let a = nth_opt octets 0; b = nth_opt octets 1;
          b_in = (\<lambda>lo hi. case b of None \<Rightarrow> False | Some x \<Rightarrow> lo \<le> x \<and> x \<le> hi)
      in if a = Some 127 then blocked_for Loopback host
         else if a = Some 0 then blocked_for Unspecified host
         else if a = Some 10 then blocked_for PrivateRange host
         else if a = Some 172 \<and> b_in 16 31 then blocked_for PrivateRange host
         else if a = Some 192 \<and> b = Some 168 then blocked_for PrivateRange host
         else if a = Some 169 \<and> b = Some 254 then
           blocked_for (if octets = [169, 254, 169, 254] then CloudMetadata else LinkLocal) host
         else if a = Some 100 \<and> b_in 64 127 then blocked_for PrivateRange host
         else not_blocked (Some host))"

definition classify_embedded :: "nat list \<Rightarrow> string \<Rightarrow> url_classification" where
  "classify_embedded groups host =
     (case embeddedIpv4 groups of Some v4 \<Rightarrow> classifyIpv4Octets v4 host
      | None \<Rightarrow> not_blocked (Some host))"

definition classify_groups :: "nat list \<Rightarrow> string \<Rightarrow> url_classification" where
  "classify_groups groups host =
     (if list_all (\<lambda>g. g = 0) groups then blocked_for Unspecified host
      else if take 6 groups = [0, 0, 0, 0, 0, 0xffff] then classify_embedded groups host
      else if take 2 groups = [0x64, 0xff9b] \<and> list_all (\<lambda>g. g = 0) (take 4 (drop 2 groups))
      then classify_embedded groups host
      else if list_all (\<lambda>(g, i). g = (if i = 7 then 1 else 0)) (zip groups [0..<length groups])
      then blocked_for Loopback host
      else if ipv6PrefixMatches groups 10 [0xfe80] then blocked_for LinkLocal host
      else if ipv6PrefixMatches groups 7 [0xfc00] then blocked_for UniqueLocal host
      else not_blocked (Some host))"

text \<open>Trim, lower case, brackets and trailing dots.\<close>

definition canonical_host :: "string \<Rightarrow> string" where
  "canonical_host rawHost =
     (let h0 = ascii_lower (trim rawHost);
          h1 = (if starts_with h0 ''['' \<and> ends_with h0 '']'' then butlast (drop 1 h0) else h0)
      in rev (dropWhile (\<lambda>c. c = CHR ''.'') (rev h1)))"

definition classifyHost :: "string \<Rightarrow> url_classification" where
  "classifyHost rawHost =
     (let host = canonical_host rawHost
      in if host = [] then not_blocked None
         else if host \<in> set METADATA_HOSTS then blocked_for CloudMetadata host
         else if host = ''localhost'' \<or> ends_with host ''.localhost''
         then blocked_for LocalhostName host
         else if CHR '':'' \<in> set host then
           (case parseIpv6 host of None \<Rightarrow> not_blocked (Some host)
            | Some groups \<Rightarrow> classify_groups groups host)
         else
           (case or_else (parseIpv4 host) (decodeAlternateIpv4 host) of
              Some octets \<Rightarrow> classifyIpv4Octets octets host
            | None \<Rightarrow> not_blocked (Some host)))"

text \<open>The two regular expressions that decide whether a string is a URL candidate.\<close>

definition is_alpha :: "char \<Rightarrow> bool" where
  "is_alpha c = (let n = (of_char (ascii_lower_char c) :: nat) in 97 \<le> n \<and> n \<le> 122)"

definition has_scheme :: "string \<Rightarrow> bool" where
  "has_scheme t =
     (case t of [] \<Rightarrow> False
      | c # r \<Rightarrow> is_alpha c \<and>
          starts_with (dropWhile (\<lambda>d. is_alpha d \<or> is_digit d \<or> d \<in> set ''+.-'') r) ''://'')"

definition looks_like_host :: "string \<Rightarrow> bool" where
  "looks_like_host t =
     (let in_name = (\<lambda>c. is_word_char c \<or> c \<in> set ''.-'');
          name = takeWhile in_name t;
          r0 = dropWhile in_name t;
          digits = (if starts_with r0 '':'' then takeWhile is_digit (drop 1 r0) else []);
          has_port = (digits \<noteq> [] \<and> length digits \<le> 5);
          r1 = (if has_port then drop (1 + length digits) r0 else r0);
          has_path = (case r1 of [] \<Rightarrow> False
                      | c # q \<Rightarrow> c \<in> set ''/?#'' \<and> list_all (\<lambda>d. d \<noteq> CHR 0x0A \<and> d \<noteq> CHR 0x0D) q)
      in name \<noteq> [] \<and> (r1 = [] \<or> has_path) \<and>
         (CHR ''.'' \<in> set name \<or> has_port \<or> has_path))"

definition classifyUrlTarget ::
  "(string \<Rightarrow> (string \<times> string) option) \<Rightarrow> string \<Rightarrow> url_classification" where
  "classifyUrlTarget parse_url raw =
     (let text = trim raw
      in if text = [] then not_blocked None
         else if \<not> has_scheme text \<and> \<not> looks_like_host text then not_blocked None
         else
           (case parse_url (if has_scheme text then text else ''http://'' @ text) of
              None \<Rightarrow> not_blocked None
            | Some (protocol, hostname) \<Rightarrow>
                if protocol \<noteq> ''http:'' \<and> protocol \<noteq> ''https:'' \<and> protocol \<noteq> ''ftp:''
                then not_blocked None
                else classifyHost hostname))"

section \<open>Lemmas: machine words\<close>

lemma byte_at_eq: "n < 2 ^ 32 \<Longrightarrow> byte_at k n = n div 2 ^ k mod 256"
proof -
  assume n: "n < 2 ^ 32"
  have m: "(0xff :: 32 word) = mask 8" by (simp add: mask_eq_exp_minus_1)
  have "byte_at k n = unat (take_bit 8 (drop_bit k (word_of_nat n :: 32 word)))"
    by (simp add: byte_at_def m take_bit_eq_mask)
  also have "\<dots> = take_bit 8 (drop_bit k (take_bit 32 (take_bit 32 n)))"
    by (simp add: unsigned_take_bit_eq unsigned_drop_bit_eq unsigned_of_nat)
  also have "\<dots> = n div 2 ^ k mod 256"
    using n by (simp add: take_bit_nat_eq_self) (simp add: take_bit_eq_mod drop_bit_eq_div)
  finally show ?thesis .
qed

lemma byte_at_less: "byte_at k n \<le> 255"
proof -
  have m: "(0xff :: 32 word) = mask 8" by (simp add: mask_eq_exp_minus_1)
  have "byte_at k n = take_bit 8 (unat (drop_bit k (word_of_nat n :: 32 word)))"
    by (simp add: byte_at_def m unsigned_take_bit_eq flip: take_bit_eq_mask)
  also have "\<dots> < 256" using take_bit_nat_less_exp [of 8] by simp
  finally show ?thesis by simp
qed

lemma unat_small: "n < 2 ^ 32 \<Longrightarrow> unat (word_of_nat n :: 32 word) = n"
  by (simp add: unsigned_of_nat take_bit_nat_eq_self)

lemma shr8_small: "n \<le> 255 \<Longrightarrow> unat (drop_bit 8 (word_of_nat n :: 32 word)) = 0"
  unfolding unsigned_drop_bit_eq by (simp add: unat_small take_bit_nat_eq_self drop_bit_eq_div)

lemma or_shift: "lo \<le> 255 \<Longrightarrow> push_bit 8 hi OR lo = hi * 256 + (lo :: nat)"
proof -
  assume lo: "lo \<le> 255"
  then have t: "lo = take_bit 8 lo" by (simp add: take_bit_nat_eq_self)
  have "push_bit 8 hi AND lo = 0"
    by (subst t) (auto intro!: bit_eqI simp only: bit_simps bit_0_eq bot_apply bot_bool_def)
  then have "push_bit 8 hi OR lo = push_bit 8 hi + lo"
    by (rule disjunctive_add_eq_or [symmetric])
  then show ?thesis by (simp add: push_bit_eq_mult)
qed

lemma hex_pair_eq:
  assumes "hi \<le> 255" "lo \<le> 255"
  shows "hex_pair hi lo = num_str 16 (hi * 256 + lo)"
proof -
  have "unat (push_bit 8 (word_of_nat hi :: 32 word)) = take_bit 32 (push_bit 8 hi)"
    using assms by (simp only: unsigned_push_bit_eq) (simp add: unat_small)
  also have "\<dots> = push_bit 8 hi"
    using assms by (intro take_bit_nat_eq_self) (simp add: push_bit_eq_mult)
  finally have "unat (push_bit 8 (word_of_nat hi :: 32 word) OR word_of_nat lo) = hi * 256 + lo"
    using assms by (simp only: unsigned_or_eq or_shift) (simp add: unat_small or_shift del: push_bit_numeral)
  then show ?thesis by (simp only: hex_pair_def)
qed

section \<open>Lemmas: what the parsers return\<close>

definition octets_ok :: "nat list \<Rightarrow> bool" where
  "octets_ok os = (length os = 4 \<and> list_all (\<lambda>b. b \<le> 255) os)"

definition groups_ok :: "nat list \<Rightarrow> bool" where
  "groups_ok gs = (length gs = 8 \<and> list_all (\<lambda>g. g < 65536) gs)"

lemma parse_octets_ok:
  "parse_octets ps = Some os \<Longrightarrow> length os = length ps \<and> list_all (\<lambda>b. b \<le> 255) os"
  by (induction ps arbitrary: os) (auto split: if_splits)

lemma parseIpv4_ok: "parseIpv4 h = Some os \<Longrightarrow> octets_ok os"
  by (auto simp: parseIpv4_def octets_ok_def Let_def dest: parse_octets_ok split: if_splits)

lemma fill_octets_ok:
  "fill_octets os r = (os', r') \<Longrightarrow> length os \<le> 4 \<Longrightarrow> list_all (\<lambda>b. b \<le> 255) os \<Longrightarrow>
     octets_ok os'"
proof (induction os r rule: fill_octets.induct)
  case (1 os r)
  then show ?case
    by (cases "length os < 4")
      (auto simp: fill_octets.simps [of os r] octets_ok_def byte_at_less)
qed

lemma decodeAlternate_ok: "decodeAlternateIpv4 h = Some os \<Longrightarrow> octets_ok os"
proof -
  assume d: "decodeAlternateIpv4 h = Some os"
  show ?thesis
  proof (cases "h \<noteq> [] \<and> list_all is_digit h")
    case True
    with d show ?thesis
      by (auto simp: decodeAlternateIpv4_def octets_ok_def Let_def byte_at_less split: if_splits)
  next
    case False
    define vs where "vs = map part_value (split_on (CHR ''.'') h)"
    from False d have v: "\<not> list_ex (\<lambda>v. v > 255) vs" and l: "length vs \<le> 4"
      and r: "length vs = 4 \<and> os = vs \<or> fill_octets (butlast vs) (last vs) = (os, 0)"
      by (auto simp: decodeAlternateIpv4_def Let_def vs_def [symmetric] split: if_splits prod.splits)
        (auto simp: vs_def)
    from v have le: "list_all (\<lambda>b. b \<le> 255) vs"
      by (auto simp: list_ex_iff list_all_iff not_less)
    from r show ?thesis
    proof
      assume "length vs = 4 \<and> os = vs"
      with le show ?thesis by (simp add: octets_ok_def)
    next
      assume f: "fill_octets (butlast vs) (last vs) = (os, 0)"
      from le have "list_all (\<lambda>b. b \<le> 255) (butlast vs)"
        by (auto simp: list_all_iff dest: in_set_butlastD)
      with f l show ?thesis by (intro fill_octets_ok [OF f]) auto
    qed
  qed
qed

lemma digits_value_bound: "list_all is_hex s \<Longrightarrow> digits_value 16 s < 16 ^ length s"
proof (induction s rule: rev_induct)
  case (snoc c s)
  then have "the (hex_val c) < 16" by (auto simp: is_hex_def hex_val_def Let_def split: if_splits)
  with snoc show ?case by (simp add: digits_value_append)
qed (simp add: digits_value_def)

lemma parse_groups_ok:
  "parse_groups ps = Some gs \<Longrightarrow> length gs = length ps \<and> list_all (\<lambda>g. g < 65536) gs"
proof (induction ps arbitrary: gs)
  case (Cons p ps)
  from Cons.prems obtain gs' where h: "list_all is_hex p" "length p \<le> 4"
    and gs: "parse_groups ps = Some gs'" "gs = digits_value 16 p # gs'"
    by (auto split: if_splits)
  have "digits_value 16 p < 16 ^ length p" using h(1) by (rule digits_value_bound)
  also have "\<dots> \<le> 16 ^ 4" using h(2) by (intro power_increasing) auto
  finally show ?case using Cons.IH gs by simp
qed simp

lemma parseIpv6_ok: "parseIpv6 h = Some gs \<Longrightarrow> groups_ok gs"
  by (auto simp: parseIpv6_def groups_ok_def Let_def list_all_iff
      split: option.splits if_splits prod.splits
      dest!: parse_groups_ok in_set_takeD in_set_dropD)

section \<open>Lemmas: the encodings of one IPv4 address\<close>

definition ipv4_octets :: "nat \<Rightarrow> nat list" where
  "ipv4_octets n = [n div 2 ^ 24, n div 2 ^ 16 mod 256, n div 2 ^ 8 mod 256, n mod 256]"

definition dotted :: "nat \<Rightarrow> string" where
  "dotted n = join_on ''.'' (map nat_str (ipv4_octets n))"

lemma ipv4_octets_ok: "n < 2 ^ 32 \<Longrightarrow> octets_ok (ipv4_octets n)"
  by (auto simp: ipv4_octets_def octets_ok_def)

lemma parse_octets_str:
  "list_all (\<lambda>b. b \<le> 255) os \<Longrightarrow> parse_octets (map nat_str os) = Some os"
proof (induction os)
  case (Cons b os)
  have "length (nat_str b) \<le> 3" using Cons.prems by (intro num_str_length) auto
  with Cons show ?case
    by (simp add: digits_value_num_str) (auto simp: list_all_iff num_str_digits)
qed simp

lemma split_dots: "os \<noteq> [] \<Longrightarrow> split_on (CHR ''.'') (join_on ''.'' (map nat_str os)) = map nat_str os"
  by (rule split_join) (auto dest: num_str_digits digit_not_punct)

lemma parse_dotted: "n < 2 ^ 32 \<Longrightarrow> parseIpv4 (dotted n) = Some (ipv4_octets n)"
  using ipv4_octets_ok [of n] split_dots [of "ipv4_octets n"] parse_octets_str [of "ipv4_octets n"]
  by (auto simp: parseIpv4_def dotted_def octets_ok_def Let_def ipv4_octets_def)

lemma digits_nat_str: "list_all is_digit (nat_str n)"
  by (simp add: list_all_iff num_str_digits)

lemma parse_digits: "list_all is_digit h \<Longrightarrow> parseIpv4 h = None"
proof -
  assume "list_all is_digit h"
  then have "CHR ''.'' \<notin> set h" by (auto simp: list_all_iff is_digit_def Let_def)
  then show ?thesis by (simp add: parseIpv4_def split_single)
qed

lemma decode_integer: "n < 2 ^ 32 \<Longrightarrow> decodeAlternateIpv4 (nat_str n) = Some (ipv4_octets n)"
  by (simp add: decodeAlternateIpv4_def digits_nat_str digits_value_num_str byte_at_eq ipv4_octets_def)

lemma join_on_set: "c \<in> set (join_on sep ws) \<Longrightarrow> c \<in> set sep \<or> (\<exists>w \<in> set ws. c \<in> set w)"
proof (induction ws)
  case (Cons w ws)
  then show ?case by (cases ws) auto
qed simp

lemma dotted_chars: "c \<in> set (dotted n) \<Longrightarrow> is_digit c \<or> c = CHR ''.''"
  using join_on_set [of c "''.''" "map nat_str (ipv4_octets n)"] num_str_digits
  by (auto simp: dotted_def)

lemma nat_str_ends: "is_digit (hd (nat_str n)) \<and> is_digit (last (nat_str n))"
  using num_str_digits [OF hd_in_set [OF num_str_ne]] num_str_digits [OF last_in_set [OF num_str_ne]]
  by simp

lemma dotted_ends: "dotted n \<noteq> [] \<and> is_digit (hd (dotted n)) \<and> is_digit (last (dotted n))"
proof -
  have a: "is_digit (hd (nat_str m)) \<and> is_digit (last (nat_str m))" for m
    by (rule nat_str_ends)
  show ?thesis by (simp add: dotted_def ipv4_octets_def a)
qed

lemma canonical_plain:
  assumes "h \<noteq> []" "\<forall>c \<in> set h. ascii_lower_char c = c \<and> \<not> is_space c" "hd h \<noteq> CHR ''[''" "last h \<noteq> CHR ''.''"
  shows "canonical_host h = h"
proof -
  have dw: "dropWhile P x = x" if "x = [] \<or> \<not> P (hd x)" for P and x :: string
    using that by (cases x) auto
  have "trim h = h"
    using assms(1,2) by (simp add: trim_def dw hd_rev)
  moreover have "ascii_lower h = h"
    using assms(2) by (simp add: ascii_lower_def map_idI)
  moreover have "\<not> starts_with h ''[''"
    using assms(1,3) by (cases h) auto
  ultimately show ?thesis
    using assms(1,4) by (simp add: canonical_host_def Let_def dw hd_rev)
qed

lemma digit_host:
  "is_digit c \<or> c = CHR ''.'' \<or> c = CHR '':'' \<or> c = CHR ''f'' \<Longrightarrow>
     ascii_lower_char c = c \<and> \<not> is_space c"
  by (auto simp: is_digit_def ascii_lower_char_def is_space_def Let_def)

lemma no_name:
  assumes "h \<noteq> []" and "is_digit (last h)"
  shows "h \<notin> set METADATA_HOSTS \<and> h \<noteq> ''localhost'' \<and> \<not> ends_with h ''.localhost''"
proof -
  have "last h \<noteq> CHR ''l'' \<and> last h \<noteq> CHR ''g'' \<and> last h \<noteq> CHR ''m'' \<and> last h \<noteq> CHR ''a'' \<and> last h \<noteq> CHR ''t''"
    using assms(2) by (auto simp: is_digit_def Let_def)
  moreover have "\<not> ends_with h ''.localhost''"
  proof
    assume "ends_with h ''.localhost''"
    then obtain r where "rev h = rev ''.localhost'' @ r" by (auto simp: ends_with_def starts_with_iff)
    then have "hd (rev h) = CHR ''t''" by simp
    with calculation assms(1) show False by (simp add: hd_rev)
  qed
  ultimately show ?thesis by (auto simp: METADATA_HOSTS_def)
qed

lemma classify_plain_host:
  assumes "canonical_host h = h" "h \<noteq> []" "is_digit (last h)"
  shows "classifyHost h =
    (if CHR '':'' \<in> set h then
       (case parseIpv6 h of None \<Rightarrow> not_blocked (Some h) | Some gs \<Rightarrow> classify_groups gs h)
     else (case or_else (parseIpv4 h) (decodeAlternateIpv4 h) of
             Some os \<Rightarrow> classifyIpv4Octets os h | None \<Rightarrow> not_blocked (Some h)))"
  using no_name [OF assms(2,3)] assms(1,2) by (simp add: classifyHost_def Let_def)

lemma classify_dotted:
  assumes n: "n < 2 ^ 32"
  shows "classifyHost (dotted n) = classifyIpv4Octets (ipv4_octets n) (dotted n)"
proof -
  have "canonical_host (dotted n) = dotted n"
    using dotted_ends [of n] dotted_chars digit_host
    by (intro canonical_plain) (auto simp: is_digit_def Let_def)
  moreover have "CHR '':'' \<notin> set (dotted n)"
    using dotted_chars digit_not_punct(2) by fastforce
  ultimately show ?thesis
    using dotted_ends [of n] by (simp add: classify_plain_host parse_dotted [OF n] or_else_def)
qed

lemma classify_integer:
  assumes n: "n < 2 ^ 32"
  shows "classifyHost (nat_str n) = classifyIpv4Octets (ipv4_octets n) (nat_str n)"
proof -
  have hd: "is_digit (hd (nat_str n)) \<and> is_digit (last (nat_str n))"
    by (rule nat_str_ends)
  then have "canonical_host (nat_str n) = nat_str n"
    using num_str_digits digit_host by (intro canonical_plain) (auto simp: is_digit_def Let_def)
  moreover have "CHR '':'' \<notin> set (nat_str n)"
    using num_str_digits digit_not_punct(2) by fastforce
  ultimately show ?thesis
    using hd by (simp add: classify_plain_host parse_digits digits_nat_str decode_integer [OF n] or_else_def)
qed

definition mapped :: "nat \<Rightarrow> string" where
  "mapped n = ''::ffff:'' @ dotted n"

lemma dotted_no_colon: "c \<in> set (dotted n) \<Longrightarrow> c \<noteq> CHR '':''"
  using dotted_chars digit_not_punct(2) by fastforce

lemma dotted_has_dot: "CHR ''.'' \<in> set (dotted n)"
  by (simp add: dotted_def ipv4_octets_def)

lemma last_colon_split:
  assumes "CHR '':'' \<notin> set t"
  shows "after_last_colon (p @ CHR '':'' # t) = t \<and> upto_last_colon (p @ CHR '':'' # t) = p @ '':''"
proof -
  have "takeWhile (\<lambda>c. c \<noteq> CHR '':'') (rev t @ CHR '':'' # q) = rev t"
    "dropWhile (\<lambda>c. c \<noteq> CHR '':'') (rev t @ CHR '':'' # q) = CHR '':'' # q" for q
    using assms by (subst takeWhile_append2 dropWhile_append2; auto)+
  then show ?thesis by (simp add: after_last_colon_def upto_last_colon_def)
qed

lemma hex_group:
  assumes "g < 65536"
  shows "num_str 16 g \<noteq> [] \<and> length (num_str 16 g) \<le> 4 \<and> list_all is_hex (num_str 16 g) \<and>
         digits_value 16 (num_str 16 g) = g \<and> CHR '':'' \<notin> set (num_str 16 g)"
proof -
  have "length (num_str 16 g) \<le> 4" using assms by (intro num_str_length) auto
  moreover have h: "is_hex c" if "c \<in> set (num_str 16 g)" for c
    using that by (intro num_str_hex [of 16]) auto
  moreover have "\<not> is_hex CHR '':''" by (simp add: is_hex_def hex_val_def Let_def)
  ultimately show ?thesis by (auto simp: list_all_iff digits_value_num_str)
qed

lemma count_no_colon: "CHR '':'' \<notin> set s \<Longrightarrow> count_double_colon s = 0"
  by (induction s rule: count_double_colon.induct) auto

lemma count_single_colon:
  "CHR '':'' \<notin> set s \<Longrightarrow> CHR '':'' \<notin> set t \<Longrightarrow> count_double_colon (s @ CHR '':'' # t) = 0"
proof (induction s rule: count_double_colon.induct, goal_cases)
  case (1 a b s)
  then show ?case by auto
next
  case 2
  then show ?case by (cases t) (auto simp: count_no_colon)
next
  case (3 v)
  then show ?case by (cases t) (auto simp: count_no_colon)
qed

lemma parse_mapped:
  assumes n: "n < 2 ^ 32"
  shows "parseIpv6 (mapped n) = Some [0, 0, 0, 0, 0, 65535, n div 65536, n mod 65536]"
proof -
  define H where "H = num_str 16 (n div 65536)"
  define L where "L = num_str 16 (n mod 65536)"
  have hi: "n div 2 ^ 24 * 256 + n div 2 ^ 16 mod 256 = n div 65536"
    and lo: "n div 2 ^ 8 mod 256 * 256 + n mod 256 = n mod 65536"
  proof -
    have "n div 2 ^ 24 = n div 65536 div 256" by (simp add: div_mult2_eq [symmetric])
    then show "n div 2 ^ 24 * 256 + n div 2 ^ 16 mod 256 = n div 65536" by simp
    have "n mod 65536 = n div 256 mod 256 * 256 + n mod 256"
      using mod_mult2_eq [of n 256 256] by simp
    then show "n div 2 ^ 8 mod 256 * 256 + n mod 256 = n mod 65536" by simp
  qed
  have "n div 2 ^ 24 \<le> 255" using less_mult_imp_div_less [of n 256 "2 ^ 24"] n by simp
  then have hp: "hex_pair (n div 2 ^ 24) (n div 2 ^ 16 mod 256) = H"
    and lp: "hex_pair (n div 2 ^ 8 mod 256) (n mod 256) = L"
    using hi lo by (simp_all add: hex_pair_eq H_def L_def less_Suc_eq_le [symmetric])
  have "CHR '':'' \<notin> set (dotted n)" using dotted_no_colon by blast
  note lc = last_colon_split [OF this, of "''::ffff''", simplified]
  have e: "expand_v4_tail (mapped n) = Some (''::ffff:'' @ H @ '':'' @ L)"
    using dotted_has_dot [of n] hp lp
    by (simp add: expand_v4_tail_def mapped_def lc parse_dotted [OF n] or_else_def ipv4_octets_def
        nth_opt_def)
  have gH: "n div 65536 < 65536" using n by (simp add: less_mult_imp_div_less)
  note h = hex_group [OF gH, folded H_def] hex_group [of "n mod 65536", folded L_def, simplified]
  have nH: "CHR '':'' \<notin> set H" and nL: "CHR '':'' \<notin> set L" and "H \<noteq> []" using h by blast+
  then obtain a H' where H: "H = a # H'" and a: "a \<noteq> CHR '':''" by (cases H) auto
  have c0: "count_double_colon (H @ CHR '':'' # L) = 0" using nH nL by (rule count_single_colon)
  then have c1: "count_double_colon (''ffff:'' @ H @ '':'' @ L) = 0"
    using a by (simp add: H)
  have "split_on (CHR '':'') (H @ CHR '':'' # L) = [H, L]"
    by (simp only: split_append [OF nH] split_single [OF nL])
  then have s: "split_on (CHR '':'') (''ffff:'' @ H @ '':'' @ L) = [''ffff'', H, L]" by simp
  have p: "parse_groups [''ffff'', H, L] = Some [65535, n div 65536, n mod 65536]"
  proof -
    have "digits_value 16 ''ffff'' = 65535 \<and> list_all is_hex ''ffff''"
      by (simp add: digits_value_def hex_val_def is_hex_def)
    with h show ?thesis by simp
  qed
  have c2: "count_double_colon (''::ffff:'' @ H @ '':'' @ L) = 1" using c1 by simp
  have d: "split_double_colon (''::ffff:'' @ H @ '':'' @ L) = ([], ''ffff:'' @ H @ '':'' @ L)"
    by simp
  have r5: "replicate 5 (0 :: nat) = [0, 0, 0, 0, 0]" by (simp add: eval_nat_numeral)
  have ne: "''ffff:'' @ H @ '':'' @ L \<noteq> []" by simp
  show ?thesis
    unfolding parseIpv6_def e option.case Let_def c2 d prod.case if_not_P [OF ne] s
    by (simp add: p r5 del: parse_groups.simps)
qed

lemma classify_mapped:
  assumes n: "n < 2 ^ 32"
  shows "classifyHost (mapped n) = classifyIpv4Octets (ipv4_octets n) (mapped n)"
proof -
  have "canonical_host (mapped n) = mapped n"
    using dotted_ends [of n] dotted_chars [of _ n]
    by (intro canonical_plain)
      (auto simp: mapped_def intro!: digit_host, auto simp: is_digit_def Let_def ascii_lower_char_def is_space_def)
  moreover have "CHR '':'' \<in> set (mapped n)" "mapped n \<noteq> []" "is_digit (last (mapped n))"
    using dotted_ends [of n] by (simp_all add: mapped_def)
  ultimately have c: "classifyHost (mapped n) =
      classify_groups [0, 0, 0, 0, 0, 65535, n div 65536, n mod 65536] (mapped n)"
    by (simp add: classify_plain_host parse_mapped [OF n])
  have gH: "n div 65536 < 2 ^ 32" "n mod 65536 < 2 ^ 32" using n by (simp_all add: less_mult_imp_div_less)
  have "n div 65536 div 256 mod 256 = n div 2 ^ 24"
    using n by (simp add: div_mult2_eq [symmetric] less_mult_imp_div_less)
  moreover have "n mod 65536 div 256 mod 256 = n div 2 ^ 8 mod 256"
    using mod_mult2_eq [of n 256 256] by simp
  moreover have "n mod 65536 mod 256 = n mod 256" by (simp add: mod_mod_cancel)
  ultimately have "embeddedIpv4 [0, 0, 0, 0, 0, 65535, n div 65536, n mod 65536] = Some (ipv4_octets n)"
    by (simp add: embeddedIpv4_def nth_opt_def byte_at_eq [OF gH(1)] byte_at_eq [OF gH(2)] ipv4_octets_def)
  then show ?thesis by (simp add: c classify_groups_def classify_embedded_def)
qed

section \<open>Lemmas: address ranges\<close>

text \<open>The ranges the module names, as base address and prefix length.\<close>

definition SSRF_CIDRS :: "(nat list \<times> nat) list" where
  "SSRF_CIDRS = [([127, 0, 0, 0], 8), ([0, 0, 0, 0], 8), ([10, 0, 0, 0], 8), ([172, 16, 0, 0], 12),
                 ([192, 168, 0, 0], 16), ([169, 254, 0, 0], 16), ([100, 64, 0, 0], 10)]"

definition address_of :: "nat list \<Rightarrow> nat" where
  "address_of os = foldl (\<lambda>acc b. acc * 256 + b) 0 os"

definition in_cidr :: "nat \<Rightarrow> nat list \<times> nat \<Rightarrow> bool" where
  "in_cidr n c = (n div 2 ^ (32 - snd c) = address_of (fst c) div 2 ^ (32 - snd c))"

lemma two_octets:
  assumes "m = 256 * a + (b :: nat)" "b < 256"
  shows "m div 256 = a" "m div 16 = 16 * a + b div 16" "m div 64 = 4 * a + b div 64" "m mod 256 = b"
  using assms by (auto simp: div_mult2_eq)

lemma lin:
  fixes a c :: nat
  shows "c < 16 \<Longrightarrow> 16 * a + c = 2753 \<longleftrightarrow> a = 172 \<and> c = 1"
    and "c < 4 \<Longrightarrow> 4 * a + c = 401 \<longleftrightarrow> a = 100 \<and> c = 1"
    and "c < 256 \<Longrightarrow> 256 * a + c = 49320 \<longleftrightarrow> a = 192 \<and> c = 168"
    and "c < 256 \<Longrightarrow> 256 * a + c = 43518 \<longleftrightarrow> a = 169 \<and> c = 254"
  by presburger+

lemma field:
  assumes "b < (256 :: nat)"
  shows "16 * a + b div 16 = 2753 \<longleftrightarrow> a = 172 \<and> 16 \<le> b \<and> b \<le> 31"
    and "4 * a + b div 64 = 401 \<longleftrightarrow> a = 100 \<and> 64 \<le> b \<and> b \<le> 127"
    and "256 * a + b = 49320 \<longleftrightarrow> a = 192 \<and> b = 168"
    and "256 * a + b = 43518 \<longleftrightarrow> a = 169 \<and> b = 254"
proof -
  have q: "b div 16 < 16" "b div 64 < 4" using assms by (simp_all add: less_mult_imp_div_less)
  have "16 * a + b div 16 = 2753 \<longleftrightarrow> a = 172 \<and> b div 16 = 1" using q(1)
    by (intro lin)
  then show "16 * a + b div 16 = 2753 \<longleftrightarrow> a = 172 \<and> 16 \<le> b \<and> b \<le> 31" by auto
  have "4 * a + b div 64 = 401 \<longleftrightarrow> a = 100 \<and> b div 64 = 1" using q(2)
    by (intro lin)
  then show "4 * a + b div 64 = 401 \<longleftrightarrow> a = 100 \<and> 64 \<le> b \<and> b \<le> 127" by auto
  show "256 * a + b = 49320 \<longleftrightarrow> a = 192 \<and> b = 168" using assms by (intro lin)
  show "256 * a + b = 43518 \<longleftrightarrow> a = 169 \<and> b = 254" using assms by (intro lin)
qed

lemma cidr_blocked:
  assumes n: "n < 2 ^ 32"
  shows "uc_blocked (classifyIpv4Octets (ipv4_octets n) h) \<longleftrightarrow> list_ex (in_cidr n) SSRF_CIDRS"
proof -
  define m where "m = n div 65536"
  define a where "a = m div 256"
  define b where "b = m mod 256"
  have m: "m = 256 * a + b" "b < 256" by (simp_all add: a_def b_def)
  have d: "n div 2 ^ 24 = m div 256" "n div 2 ^ 22 = m div 64" "n div 2 ^ 20 = m div 16"
    by (simp_all add: m_def div_mult2_eq [symmetric])
  have oct: "nth_opt (ipv4_octets n) 0 = Some a" "nth_opt (ipv4_octets n) 1 = Some b"
    using d(1) by (simp_all add: ipv4_octets_def nth_opt_def a_def b_def m_def)
  have "uc_blocked (classifyIpv4Octets (ipv4_octets n) h) \<longleftrightarrow>
      a = 127 \<or> a = 0 \<or> a = 10 \<or> a = 172 \<and> 16 \<le> b \<and> b \<le> 31 \<or> a = 192 \<and> b = 168
        \<or> a = 169 \<and> b = 254 \<or> a = 100 \<and> 64 \<le> b \<and> b \<le> 127"
    unfolding classifyIpv4Octets_def Let_def oct by (simp add: blocked_for_def not_blocked_def)
  also have "\<dots> \<longleftrightarrow> m div 256 = 127 \<or> m div 256 = 0 \<or> m div 256 = 10 \<or> m div 16 = 2753
      \<or> m = 49320 \<or> m = 43518 \<or> m div 64 = 401"
    unfolding two_octets(1-3) [OF m] unfolding m(1) by (simp only: field [OF m(2)] disj_assoc disj_ac)
  also have "\<dots> \<longleftrightarrow> list_ex (in_cidr n) SSRF_CIDRS"
    using d by (simp add: SSRF_CIDRS_def in_cidr_def address_of_def m_def)
  finally show ?thesis .
qed

lemma div_range: "0 < (k :: nat) \<Longrightarrow> g div k = q \<longleftrightarrow> q * k \<le> g \<and> g < Suc q * k"
  by (metis div_nat_eqI div_times_less_eq_dividend dividend_less_div_times mult.commute mult_Suc)

lemma prefix_range:
  assumes "g < 65536"
  shows "ipv6PrefixMatches (g # gs) 10 [0xfe80] \<longleftrightarrow> 0xfe80 \<le> g \<and> g \<le> 0xfebf"
    and "ipv6PrefixMatches (g # gs) 7 [0xfc00] \<longleftrightarrow> 0xfc00 \<le> g \<and> g \<le> 0xfdff"
proof -
  have u: "unat (drop_bit k (word_of_nat x :: 32 word)) = x div 2 ^ k" if "x < 65536" for x k
  proof -
    have "unat (drop_bit k (word_of_nat x :: 32 word)) =
        drop_bit k (take_bit LENGTH(32) (unat (word_of_nat x :: 32 word)))"
      by (rule unsigned_drop_bit_eq)
    also have "unat (word_of_nat x :: 32 word) = x" using that by (intro unat_small) simp
    also have "take_bit LENGTH(32) x = x" using that by (intro take_bit_nat_eq_self) simp
    finally show ?thesis by (simp only: drop_bit_eq_div)
  qed
  have e: "drop_bit k (word_of_nat g :: 32 word) = drop_bit k (word_of_nat p :: 32 word)
      \<longleftrightarrow> g div 2 ^ k = p div 2 ^ k" if "p < 65536" for k p
    unfolding word_unat_eq_iff u [OF assms] u [OF that] ..
  have "ipv6PrefixMatches (g # gs) 10 [0xfe80] \<longleftrightarrow> g div 64 = 0xfe80 div 64"
    using e [of "0xfe80" 6] by (simp add: ipv6PrefixMatches_def nth_opt_def)
  then show "ipv6PrefixMatches (g # gs) 10 [0xfe80] \<longleftrightarrow> 0xfe80 \<le> g \<and> g \<le> 0xfebf" by (auto simp: div_range)
  have "ipv6PrefixMatches (g # gs) 7 [0xfc00] \<longleftrightarrow> g div 512 = 0xfc00 div 512"
    using e [of "0xfc00" 9] by (simp add: ipv6PrefixMatches_def nth_opt_def)
  then show "ipv6PrefixMatches (g # gs) 7 [0xfc00] \<longleftrightarrow> 0xfc00 \<le> g \<and> g \<le> 0xfdff" by (auto simp: div_range)
qed

lemma fill_done: "length os = 4 \<Longrightarrow> fill_octets os v = (os, v)"
  by (simp add: fill_octets.simps [of os v])

lemma fill_step: "v \<le> 255 \<Longrightarrow> length os < 4 \<Longrightarrow> fill_octets os v = fill_octets (v # os) 0"
  using byte_at_eq [of v 0] shr8_small [of v] by (simp add: fill_octets.simps [of os v])

lemma fill_two: "v \<le> 255 \<Longrightarrow> fill_octets [x] v = ([0, 0, v, x], 0)"
  by (simp add: fill_step fill_done)

lemma fill_three: "v \<le> 255 \<Longrightarrow> fill_octets [x, y] v = ([0, v, x, y], 0)"
  by (simp add: fill_step fill_done)

section \<open>Properties\<close>

text \<open>C7. Every encoding of one IPv4 address gets the same verdict: dotted quad, 32-bit integer and
  IPv4-mapped IPv6 are blocked together, for the same reason, and exactly when the address lies in
  one of the loopback, unspecified, private, link-local or shared ranges.\<close>

theorem ipv4_encodings_agree:
  assumes "n < 2 ^ 32" and "h = dotted n \<or> h = nat_str n \<or> h = mapped n"
  shows "(uc_blocked (classifyHost h) \<longleftrightarrow> list_ex (in_cidr n) SSRF_CIDRS) \<and>
         uc_reason (classifyHost h) = uc_reason (classifyHost (dotted n))"
proof -
  have c: "classifyHost h = classifyIpv4Octets (ipv4_octets n) h"
    using assms(2) classify_dotted [OF assms(1)] classify_integer [OF assms(1)]
      classify_mapped [OF assms(1)] by metis
  have "uc_reason (classifyIpv4Octets os x) = uc_reason (classifyIpv4Octets os y)" for os x y
    by (simp add: classifyIpv4Octets_def Let_def blocked_for_def not_blocked_def)
  then show ?thesis
    using c classify_dotted [OF assms(1)] cidr_blocked [OF assms(1)] by metis
qed

theorem ipv4_encodings_agree_witness:
  "uc_blocked (classifyHost (nat_str 2130706433)) \<and> \<not> uc_blocked (classifyHost (mapped 134744072))"
  using ipv4_encodings_agree [of 2130706433 "nat_str 2130706433"]
    ipv4_encodings_agree [of 134744072 "mapped 134744072"]
  by (simp add: SSRF_CIDRS_def in_cidr_def address_of_def)

text \<open>Whatever a parser accepts is an address: four octets of at most 255, or eight groups below
  65536.\<close>

theorem parsed_addresses_well_formed:
  assumes "parseIpv4 h = Some os \<or> decodeAlternateIpv4 h = Some os" and "parseIpv6 h' = Some gs"
  shows "octets_ok os \<and> groups_ok gs"
  using assms parseIpv4_ok decodeAlternate_ok parseIpv6_ok by blast

theorem parsed_addresses_well_formed_witness:
  "octets_ok [0x7f, 0, 0, 1] \<and> groups_ok [0, 0, 0, 0, 0, 65535, 2130706433 div 65536, 2130706433 mod 65536]"
proof -
  have "parseIpv4 (dotted 2130706433) = Some [0x7f, 0, 0, 1]"
    using parse_dotted [of 2130706433] by (simp add: ipv4_octets_def)
  then have p: "parseIpv4 (dotted 2130706433) = Some [0x7f, 0, 0, 1] \<or>
      decodeAlternateIpv4 (dotted 2130706433) = Some [0x7f, 0, 0, 1]" ..
  show ?thesis by (rule parsed_addresses_well_formed [OF p parse_mapped]) simp
qed

text \<open>A dotted form with two or three fields is decoded with the last field in front, so the
  first octet is always 0: the host counts as unspecified whatever address it stands for.\<close>

theorem short_forms_unspecified:
  assumes "split_on (CHR ''.'') h = ps" and "length ps = 2 \<or> length ps = 3"
    and "list_all numeric_part ps" and "list_all (\<lambda>p. part_value p \<le> 255) ps"
  shows "map_option (\<lambda>os. classifyIpv4Octets os h) (decodeAlternateIpv4 h) =
         Some (blocked_for Unspecified h)"
proof -
  define vs where "vs = map part_value ps"
  have nd: "\<not> list_all is_digit h"
  proof
    assume "list_all is_digit h"
    then have "CHR ''.'' \<notin> set h" by (auto simp: list_all_iff is_digit_def Let_def)
    then show False using assms(1,2) by (auto simp: split_single)
  qed
  have l: "length vs = 2 \<or> length vs = 3" using assms(2) by (simp add: vs_def)
  have b: "list_all (\<lambda>v. v \<le> 255) vs" using assms(4) by (simp add: vs_def list_all_iff)
  then have nb: "\<not> list_ex (\<lambda>v. v > 255) vs" by (auto simp: list_all_iff list_ex_iff not_less)
  obtain os where os: "fill_octets (butlast vs) (last vs) = (os, 0)" "nth_opt os 0 = Some 0"
  proof -
    from l consider (two) x v where "vs = [x, v]" | (three) x y v where "vs = [x, y, v]"
      by (auto simp: length_Suc_conv numeral_eq_Suc)
    then show thesis
      using b that by cases (auto simp: fill_two fill_three nth_opt_def)
  qed
  have "decodeAlternateIpv4 h = Some os"
    using nd l nb assms(2,3) os(1)
    by (auto simp: decodeAlternateIpv4_def Let_def assms(1) vs_def [symmetric])
  then show ?thesis using os(2) by (simp add: classifyIpv4Octets_def)
qed

theorem short_forms_unspecified_witness:
  "map_option (\<lambda>os. classifyIpv4Octets os ''8.8.8'') (decodeAlternateIpv4 ''8.8.8'') =
   Some (blocked_for Unspecified ''8.8.8'')"
  by (rule short_forms_unspecified [of "''8.8.8''" "[''8'', ''8'', ''8'']"])
    (simp_all add: numeric_part_def part_value_def hex_prefixed_def is_digit_def digits_value_def hex_val_def)

text \<open>An IPv6 address that carries no embedded IPv4 is blocked exactly when its first group lies in
  fe80::/10 (link-local) or fc00::/7 (unique local), with the matching reason.\<close>

theorem ipv6_ranges:
  assumes "groups_ok (g # gs)" and "g \<noteq> 0" and "g \<noteq> 0x64"
  shows "uc_reason (classify_groups (g # gs) h) =
           (if 0xfe80 \<le> g \<and> g \<le> 0xfebf then Some LinkLocal
            else if 0xfc00 \<le> g \<and> g \<le> 0xfdff then Some UniqueLocal else None) \<and>
         (uc_blocked (classify_groups (g # gs) h) \<longleftrightarrow> uc_reason (classify_groups (g # gs) h) \<noteq> None)"
proof -
  have l: "length gs = 7" and b: "g < 65536" using assms(1) by (simp_all add: groups_ok_def)
  have z: "[0..<Suc (length gs)] = 0 # map Suc [0..<length gs]" by (simp add: upt_conv_Cons map_Suc_upt del: upt_Suc)
  show ?thesis
    using assms(2,3) prefix_range [OF b, of gs]
    by (simp add: classify_groups_def z blocked_for_def not_blocked_def del: upt_Suc)
qed

theorem ipv6_ranges_witness:
  "map_option (\<lambda>gs. uc_reason (classify_groups gs ''fe80::1'')) (Some [0xfe80, 0, 0, 0, 0, 0, 0, 1])
     = Some (Some LinkLocal)"
  using ipv6_ranges [where g = "0xfe80" and gs = "[0, 0, 0, 0, 0, 0, 1]" and h = "''fe80::1''"] by (simp add: groups_ok_def)

end
