(* ===== verification/Sink_Policy.thy ===== *)
theory Sink_Policy
  imports Firewall_Policy Resource_Path Url_Policy
begin

text \<open>
  The source-to-sink rules (packages/mcp-firewall/src/sink-policy.ts): which sinks a tool name
  indicates, which source an argument name indicates, the four structural rules, the rule
  collections and the descriptor-aware factory. The platform's URL parser is an argument.
\<close>

section \<open>Labels and classification\<close>

datatype data_source =
    UserInput | ToolOutput | SecretSource | FilesystemSource | EnvironmentSource | NetworkResponse
  | UnknownSource

datatype data_sink =
    NetworkSend | FilesystemWrite | ShellExec | CredentialUse | ExternalTool | ModelContext
  | UnknownSink

definition any_includes :: "string \<Rightarrow> string list \<Rightarrow> bool" where
  "any_includes t ps = list_ex (str_includes t) ps"

definition any_word :: "string \<Rightarrow> string list \<Rightarrow> bool" where
  "any_word t ws = list_ex (has_word t) ws"

definition sinksFromText :: "string \<Rightarrow> data_sink list" where
  "sinksFromText text =
     (let t = ascii_lower text
      in (if any_includes t [''exec'', ''shell'', ''bash'', ''cmd'', ''command'', ''spawn'',
                             ''subprocess'', ''process''] \<or> any_word t [''sh'', ''run'']
          then [ShellExec] else []) @
         (if any_includes t [''write'', ''create_file'', ''delete_file'', ''mkdir'', ''move_file'',
                             ''rename'', ''append'', ''truncate'', ''write_file'', ''save_file'']
             \<or> any_word t [''create'', ''delete'', ''rm'', ''mv'', ''cp'']
          then [FilesystemWrite] else []) @
         (if any_includes t [''http'', ''request'', ''fetch'', ''upload'', ''webhook'', ''curl'']
             \<or> any_word t [''post'', ''send'', ''url'']
          then [NetworkSend] else []) @
         (if any_includes t [''auth'', ''login'', ''credential'', ''token'', ''api_key'',
                             ''password'', ''secret''] \<or> any_word t [''ssh'', ''key'']
          then [CredentialUse] else []))"

text \<open>\<open>Set.prototype.add\<close>: insertion order, no duplicates.\<close>

definition set_add :: "'a list \<Rightarrow> 'a \<Rightarrow> 'a list" where
  "set_add s x = (if x \<in> set s then s else s @ [x])"

definition classifyToolSinks :: "string \<Rightarrow> string option \<Rightarrow> data_sink list" where
  "classifyToolSinks name description =
     (let s1 = foldl set_add [] (sinksFromText name);
          sinks = (if truthy description then foldl set_add s1 (sinksFromText (the description))
                   else s1)
      in if sinks \<noteq> [] then sinks else [UnknownSink])"

definition classifyToolSinksByName :: "string \<Rightarrow> data_sink list" where
  "classifyToolSinksByName toolName =
     (let sinks = sinksFromText toolName in if sinks \<noteq> [] then sinks else [UnknownSink])"

definition classifyArgSource :: "string \<Rightarrow> data_source" where
  "classifyArgSource argName =
     (let n = ascii_lower (map (\<lambda>c. if c = CHR ''_'' then CHR '' '' else c) argName)
      in if any_word n [''path'', ''file'', ''dir'', ''directory''] then FilesystemSource
         else if any_word n [''url'', ''endpoint'', ''host'', ''uri''] then NetworkResponse
         else if any_word n [''token'', ''key'', ''secret'', ''password'', ''credential'', ''auth'']
         then SecretSource
         else if any_word n [''env'', ''environ'', ''var''] then EnvironmentSource
         else UserInput)"

section \<open>The walk over argument names\<close>

fun object_keys :: "json \<Rightarrow> string list" where
  "object_keys (JObj kvs) = map fst kvs"
| "object_keys v = []"

fun key_walk :: "nat \<Rightarrow> nat \<Rightarrow> (json \<times> nat) list \<Rightarrow> string list" where
  "key_walk maxDepth left [] = []"
| "key_walk maxDepth 0 (x # queue) = []"
| "key_walk maxDepth (Suc left) ((v, d) # queue) =
     (if maxDepth \<le> d then key_walk maxDepth left queue
      else (case v of
              JArr xs \<Rightarrow> key_walk maxDepth left (queue @ map (\<lambda>c. (c, d + 1)) xs)
            | JObj kvs \<Rightarrow> map fst kvs @
                key_walk maxDepth left (queue @ map (\<lambda>kv. (snd kv, d + 1)) kvs)
            | _ \<Rightarrow> key_walk maxDepth left queue))"

definition deepArgKeys :: "json \<Rightarrow> string list" where
  "deepArgKeys v = key_walk MAX_DEPTH MAX_NODES [(v, 0)]"

section \<open>The rules\<close>

definition ssrf_text :: "string \<Rightarrow> bool" where
  "ssrf_text v =
     (let t = ascii_lower v
      in has_word t ''localhost'' \<or>
         any_includes t [''127.0.0.1'', ''169.254.'', ''::1'', ''metadata.google'', ''169.254.169.254''])"

definition isSsrfTarget :: "(string \<Rightarrow> (string \<times> string) option) \<Rightarrow> string \<Rightarrow> bool" where
  "isSsrfTarget parse_url v = (ssrf_text v \<or> uc_blocked (classifyUrlTarget parse_url v))"

definition secret_key_in :: "tool_args \<Rightarrow> bool" where
  "secret_key_in args = list_ex (\<lambda>key. classifyArgSource key = SecretSource) (deepArgKeys (JObj args))"

definition ssrf_value_in :: "(string \<Rightarrow> (string \<times> string) option) \<Rightarrow> tool_args \<Rightarrow> bool" where
  "ssrf_value_in parse_url args = list_ex (isSsrfTarget parse_url) (deepStringValues (JObj args))"

definition credential_path_in :: "tool_args \<Rightarrow> bool" where
  "credential_path_in args =
     list_ex (\<lambda>v. pc_isSensitive (classifyResourcePath v)) (deepStringValues (JObj args))"

definition SHELL_EXEC_CAPABILITY_RULE :: policy_rule where
  "SHELL_EXEC_CAPABILITY_RULE = \<lparr>policyId = ''sink-shell-exec-requires-capability'',
     evaluate = (\<lambda>toolName args vetting.
       if ShellExec \<in> set (classifyToolSinksByName toolName) then Some AskUser else None)\<rparr>"

definition SECRET_NETWORK_SINK_RULE :: policy_rule where
  "SECRET_NETWORK_SINK_RULE = \<lparr>policyId = ''sink-secret-to-network-deny'',
     evaluate = (\<lambda>toolName args vetting.
       if NetworkSend \<notin> set (classifyToolSinksByName toolName) then None
       else if secret_key_in args then Some Deny else None)\<rparr>"

definition SSRF_LOCALHOST_RULE :: "(string \<Rightarrow> (string \<times> string) option) \<Rightarrow> policy_rule" where
  "SSRF_LOCALHOST_RULE parse_url = \<lparr>policyId = ''sink-ssrf-localhost-deny'',
     evaluate = (\<lambda>toolName args vetting.
       if NetworkSend \<notin> set (classifyToolSinksByName toolName) then None
       else if ssrf_value_in parse_url args then Some Deny else None)\<rparr>"

definition CREDENTIAL_PATH_RULE :: policy_rule where
  "CREDENTIAL_PATH_RULE = \<lparr>policyId = ''sink-credential-path-deny'',
     evaluate = (\<lambda>toolName args vetting. if credential_path_in args then Some Deny else None)\<rparr>"

definition SINK_POLICY_RULES :: "(string \<Rightarrow> (string \<times> string) option) \<Rightarrow> policy_rule list" where
  "SINK_POLICY_RULES parse_url =
     [SHELL_EXEC_CAPABILITY_RULE, SECRET_NETWORK_SINK_RULE, SSRF_LOCALHOST_RULE parse_url,
      CREDENTIAL_PATH_RULE]"

definition FULL_DEFAULT_RULES :: "(string \<Rightarrow> (string \<times> string) option) \<Rightarrow> policy_rule list" where
  "FULL_DEFAULT_RULES parse_url = DEFAULT_RULES @ SINK_POLICY_RULES parse_url"

definition makeSinkAwarePolicyRule ::
  "(string \<Rightarrow> (string \<times> string) option) \<Rightarrow> string \<Rightarrow> string option \<Rightarrow> policy_rule" where
  "makeSinkAwarePolicyRule parse_url name description =
     (let sinks = classifyToolSinks name description
      in \<lparr>policyId = ''sink-aware:'' @ name,
          evaluate = (\<lambda>toolName args vetting.
            if ShellExec \<in> set sinks then Some AskUser
            else if NetworkSend \<in> set sinks \<and> (secret_key_in args \<or> ssrf_value_in parse_url args)
            then Some Deny
            else if credential_path_in args then Some Deny else None)\<rparr>)"

section \<open>Lemmas\<close>

fun keys_upto :: "nat \<Rightarrow> json \<Rightarrow> string list" where
  "keys_upto 0 v = []"
| "keys_upto (Suc k) v = object_keys v @ concat (map (keys_upto k) (json_children v))"

interpretation keys: bounded_walk key_walk "\<lambda>b v. if b then object_keys v else []" keys_upto
proof
  fix md left d k :: nat and v :: json and q :: "(json \<times> nat) list"
  show "key_walk md left [] = []" by simp
  show "key_walk md 0 q = []" by (cases q) auto
  show "key_walk md (Suc left) ((v, d) # q) =
      (if d < md then object_keys v else []) @ key_walk md left
        (q @ (if d < md then map (\<lambda>c. (c, Suc d)) (json_children v) else []))"
    by (cases v) (auto simp: comp_def)
  show "set (keys_upto 0 v) = set (if False then object_keys v else [])" by simp
  show "set (keys_upto (Suc k) v) = set (if True then object_keys v else []) \<union>
      (\<Union>c \<in> set (json_children v). set (keys_upto k c))"
    by simp
qed

lemma deep_keys_exact:
  "nodes_upto MAX_DEPTH v \<le> MAX_NODES \<Longrightarrow> set (deepArgKeys v) = set (keys_upto MAX_DEPTH v)"
  using keys.complete [of MAX_DEPTH "[(v, 0)]" MAX_NODES] by (simp add: deepArgKeys_def)

lemmas sink_rules =
  SHELL_EXEC_CAPABILITY_RULE_def SECRET_NETWORK_SINK_RULE_def SSRF_LOCALHOST_RULE_def
  CREDENTIAL_PATH_RULE_def SINK_POLICY_RULES_def FULL_DEFAULT_RULES_def DEFAULT_RULES_def
  DENY_BLOCKED_RULE_def ASK_HIGH_RISK_RULE_def

definition network_tool :: "string \<Rightarrow> bool" where
  "network_tool t = (NetworkSend \<in> set (sinksFromText t))"

definition shell_tool :: "string \<Rightarrow> bool" where
  "shell_tool t = (ShellExec \<in> set (sinksFromText t))"

lemma by_name_sinks:
  "NetworkSend \<in> set (classifyToolSinksByName t) \<longleftrightarrow> network_tool t"
  "ShellExec \<in> set (classifyToolSinksByName t) \<longleftrightarrow> shell_tool t"
  by (auto simp: classifyToolSinksByName_def network_tool_def shell_tool_def Let_def)

definition vetting_blocks :: "vetting_result option \<Rightarrow> bool" where
  "vetting_blocks v = (case v of None \<Rightarrow> False | Some r \<Rightarrow> vr_blocked r)"

definition vetting_high :: "vetting_result option \<Rightarrow> bool" where
  "vetting_high v =
     (case v of None \<Rightarrow> False
      | Some r \<Rightarrow> list_ex (\<lambda>f. rf_severity f = SevCritical \<or> rf_severity f = SevHigh) (vr_findings r))"

lemma full_rules_fire:
  "fires Deny (FULL_DEFAULT_RULES pu) t a v \<longleftrightarrow>
     vetting_blocks v \<or> network_tool t \<and> (secret_key_in a \<or> ssrf_value_in pu a) \<or> credential_path_in a"
  "fires AskUser (FULL_DEFAULT_RULES pu) t a v \<longleftrightarrow> vetting_high v \<or> shell_tool t"
  "\<not> fires DryRun (FULL_DEFAULT_RULES pu) t a v"
  by (auto simp: sink_rules by_name_sinks vetting_blocks_def vetting_high_def
      worst_high_iff [symmetric] split: option.splits)

section \<open>Properties\<close>

text \<open>C1. The full default stack decides every call as follows, whatever the consents: deny for a blocked
  tool, for a credential path, and for a secret-named argument or a forbidden address headed to a
  network tool; otherwise ask for a high-risk or shell tool, unless consent is on file; otherwise
  allow. Consent never lifts a denial.\<close>

theorem full_stack_decision:
  "tid_decision (evaluatePolicy now t a v cs (FULL_DEFAULT_RULES pu) snap user dig ses) =
     (if vetting_blocks v \<or> credential_path_in a \<or>
         network_tool t \<and> (secret_key_in a \<or> ssrf_value_in pu a) then Deny
      else if (vetting_high v \<or> shell_tool t) \<and> lookupConsent now cs t snap user dig ses = None
      then AskUser else Allow)"
  by (auto simp: decision_cases full_rules_fire)

text \<open>Nesting does not hide a secret: when some object of the argument tree, down to depth 8, has a
  member whose name reads as a secret, a network tool is denied, provided the walk of that depth
  meets at most 512 nodes.\<close>

theorem nested_secret_denied:
  assumes "nodes_upto MAX_DEPTH (JObj a) \<le> MAX_NODES"
    and "list_ex (\<lambda>k. classifyArgSource k = SecretSource) (keys_upto MAX_DEPTH (JObj a))"
    and "network_tool t"
  shows "tid_decision (evaluatePolicy now t a v cs (FULL_DEFAULT_RULES pu) snap user dig ses) = Deny"
proof -
  have "secret_key_in a"
    using assms(2) deep_keys_exact [OF assms(1)] by (auto simp: secret_key_in_def list_ex_iff)
  then show ?thesis using assms(3) by (auto simp: deny_decision full_rules_fire)
qed

theorem nested_secret_denied_witness:
  "tid_decision (evaluatePolicy 0 ''http_get'' [(''w'', JArr [JObj [(''api_token'', JNull)]])] None []
     (FULL_DEFAULT_RULES (\<lambda>s. None)) None None None None) = Deny"
proof (rule nested_secret_denied)
  show "nodes_upto MAX_DEPTH (JObj [(''w'', JArr [JObj [(''api_token'', JNull)]])]) \<le> MAX_NODES"
    by code_simp
  show "list_ex (\<lambda>k. classifyArgSource k = SecretSource)
      (keys_upto MAX_DEPTH (JObj [(''w'', JArr [JObj [(''api_token'', JNull)]])]))"
    by code_simp
  show "network_tool ''http_get''" by code_simp
qed

text \<open>The descriptor-aware rule is weaker than the fixed rules on a tool whose descriptor mentions a
  shell word: it asks and never denies, so consent lets a credential path or a secret pass that
  the full default stack denies.\<close>

theorem shell_descriptor_suspends_denial:
  assumes "ShellExec \<in> set (classifyToolSinks name desc)"
  shows "evaluate (makeSinkAwarePolicyRule pu name desc) t a v = Some AskUser \<and>
         (lookupConsent now cs t snap user dig ses = None \<or>
          tid_decision (evaluatePolicy now t a None cs (DEFAULT_RULES @ [makeSinkAwarePolicyRule pu name desc])
            snap user dig ses) = Allow)"
  using assms
  by (auto simp: makeSinkAwarePolicyRule_def Let_def decision_cases DEFAULT_RULES_def
      DENY_BLOCKED_RULE_def ASK_HIGH_RISK_RULE_def)

theorem shell_descriptor_suspends_denial_witness:
  "evaluate (makeSinkAwarePolicyRule (\<lambda>s. None) ''fetch'' (Some ''Process a file''))
     ''fetch'' [(''path'', JStr ''/root/.ssh/id_rsa'')] None = Some AskUser"
proof -
  have "ShellExec \<in> set (classifyToolSinks ''fetch'' (Some ''Process a file''))" by code_simp
  from shell_descriptor_suspends_denial [OF this] show ?thesis by blast
qed

end
