(* ===== verification/Capability_Guard.thy ===== *)
theory Capability_Guard
  imports Sink_Policy
begin

text \<open>
  Capabilities and tenants (packages/mcp-firewall/src/capability.ts): the effect class of a call,
  the capability it needs, the grant registry, cross-tenant detection and the two rule factories.
\<close>

datatype effect_class =
    ReadOnly | ReadSecret | WriteLocal | WriteExternal | ExecEffect | NetworkEffect
  | CrossTenantEffect | UnknownEffect

definition SECRET_ARG_SUBSTRINGS :: "string list" where
  "SECRET_ARG_SUBSTRINGS = [''~/.ssh'', ''~/.aws'', ''~/.gnupg'', ''/etc/shadow'', ''/etc/passwd'']"

definition classifyEffect :: "string \<Rightarrow> tool_args \<Rightarrow> effect_class" where
  "classifyEffect toolName args =
     (let name = ascii_lower toolName;
          writes = any_includes name [''write'', ''create'', ''delete'', ''mkdir'', ''move'',
                                      ''rename'', ''append'', ''truncate''];
          networks = any_includes name [''http'', ''request'', ''fetch'', ''send'', ''upload'',
                                        ''webhook'', ''post'']
      in if any_includes name [''exec'', ''shell'', ''bash'', ''spawn'', ''subprocess'', ''run_command'']
         then ExecEffect
         else if list_ex (\<lambda>(k, v). case v of JStr s \<Rightarrow> any_includes s SECRET_ARG_SUBSTRINGS | _ \<Rightarrow> False) args
         then ReadSecret
         else if any_includes name [''token'', ''auth'', ''credential'', ''secret'', ''password'', ''api_key'']
         then ReadSecret
         else if writes \<and> networks then WriteExternal
         else if writes then WriteLocal
         else if networks then NetworkEffect
         else if any_includes name [''read'', ''get'', ''list'', ''search'', ''view'', ''describe'', ''query'']
                 \<or> any_word name [''show'', ''fetch_info'']
         then ReadOnly
         else UnknownEffect)"

fun requiredCapabilityForEffect :: "effect_class \<Rightarrow> string" where
  "requiredCapabilityForEffect ExecEffect = ''exec.shell''"
| "requiredCapabilityForEffect ReadSecret = ''fs.secret''"
| "requiredCapabilityForEffect WriteLocal = ''fs.write''"
| "requiredCapabilityForEffect WriteExternal = ''fs.write_external''"
| "requiredCapabilityForEffect NetworkEffect = ''network.send''"
| "requiredCapabilityForEffect CrossTenantEffect = ''tenant.cross''"
| "requiredCapabilityForEffect UnknownEffect = ''tool.unknown''"
| "requiredCapabilityForEffect ReadOnly = ''fs.read''"

section \<open>The grant registry\<close>

record capability_grant =
  cg_principal :: string
  cg_tenant :: string
  cg_capability :: string
  cg_expiresAt :: "isodate option"

type_synonym capability_registry = "capability_grant list"

definition cap_grant :: "capability_registry \<Rightarrow> capability_grant \<Rightarrow> capability_registry" where
  "cap_grant gs g = gs @ [g]"

definition cap_revoke :: "int \<Rightarrow> capability_registry \<Rightarrow> string \<Rightarrow> string \<Rightarrow> capability_registry" where
  "cap_revoke now gs prin capability =
     map (\<lambda>g. if cg_principal g = prin \<and> cg_capability g = capability \<and> no_expiry (cg_expiresAt g)
              then g\<lparr>cg_expiresAt := Some (DateMs now)\<rparr> else g) gs"

definition hasCapability :: "int \<Rightarrow> capability_registry \<Rightarrow> string \<Rightarrow> string \<Rightarrow> string \<Rightarrow> bool" where
  "hasCapability now gs prin tenant capability =
     list_ex (\<lambda>g. cg_principal g = prin \<and> cg_tenant g = tenant \<and>
                  cg_capability g = capability \<and> live_at now (cg_expiresAt g)) gs"

section \<open>Tenants\<close>

text \<open>\<open>prefix:[^\\s/,]+\<close> and \<open>/tenants/[^/]+/\<close> somewhere in the string.\<close>

fun some_suffix :: "(string \<Rightarrow> bool) \<Rightarrow> string \<Rightarrow> bool" where
  "some_suffix P [] = P []"
| "some_suffix P (c # s) = (P (c # s) \<or> some_suffix P s)"

definition labelled_id :: "string \<Rightarrow> string \<Rightarrow> bool" where
  "labelled_id label s =
     (starts_with s label \<and>
      (case drop (length label) s of [] \<Rightarrow> False
       | c # _ \<Rightarrow> \<not> is_space c \<and> c \<noteq> CHR ''/'' \<and> c \<noteq> CHR '',''))"

definition tenant_path :: "string \<Rightarrow> bool" where
  "tenant_path s =
     (starts_with s ''/tenants/'' \<and>
      (let r = drop 9 s; name = takeWhile (\<lambda>c. c \<noteq> CHR ''/'') r
       in name \<noteq> [] \<and> name \<noteq> r))"

definition has_tenant_segment :: "string \<Rightarrow> bool" where
  "has_tenant_segment v =
     some_suffix (\<lambda>s. labelled_id ''tenant:'' s \<or> labelled_id ''org:'' s \<or> tenant_path s) v"

definition detectCrossTenantAccess :: "tool_args \<Rightarrow> string \<Rightarrow> bool" where
  "detectCrossTenantAccess args expectedTenant =
     list_ex (\<lambda>v. has_tenant_segment v \<and> \<not> str_includes v expectedTenant)
       (deepStringValues (JObj args))"

section \<open>Rule factories\<close>

definition makeCapabilityPolicyRule ::
  "int \<Rightarrow> capability_registry \<Rightarrow> string \<Rightarrow> string \<Rightarrow> policy_rule" where
  "makeCapabilityPolicyRule now registry prin tenant =
     \<lparr>policyId = ''capability-guard'',
      evaluate = (\<lambda>toolName args vetting.
        let effect = classifyEffect toolName args;
            required = requiredCapabilityForEffect effect;
            granted = hasCapability now registry prin tenant required
        in case effect of
             ExecEffect \<Rightarrow> if granted then None else Some Deny
           | ReadSecret \<Rightarrow> if granted then None else Some Deny
           | WriteExternal \<Rightarrow> if granted then None else Some Deny
           | CrossTenantEffect \<Rightarrow> if granted then None else Some Deny
           | WriteLocal \<Rightarrow> if granted then None else Some AskUser
           | NetworkEffect \<Rightarrow> if granted then None else Some AskUser
           | UnknownEffect \<Rightarrow> if granted then None else Some AskUser
           | ReadOnly \<Rightarrow> None)\<rparr>"

definition makeTenantIsolationRule :: "string \<Rightarrow> string \<Rightarrow> policy_rule" where
  "makeTenantIsolationRule prin tenant =
     \<lparr>policyId = ''tenant-isolation:'' @ prin,
      evaluate = (\<lambda>toolName args vetting.
        if detectCrossTenantAccess args tenant then Some Deny else None)\<rparr>"

section \<open>Lemmas\<close>

lemma some_suffix_iff: "some_suffix P s \<longleftrightarrow> (\<exists>a b. s = a @ b \<and> P b)"
proof (induction s)
  case (Cons c s)
  show ?case
  proof
    assume "some_suffix P (c # s)"
    then consider "P (c # s)" | a b where "s = a @ b" "P b" using Cons by auto
    then show "\<exists>a b. c # s = a @ b \<and> P b"
    proof cases
      case 1
      then have "c # s = [] @ c # s \<and> P (c # s)" by simp
      then show ?thesis by blast
    next
      case 2
      then have "c # s = (c # a) @ b \<and> P b" by simp
      then show ?thesis by blast
    qed
  next
    assume "\<exists>a b. c # s = a @ b \<and> P b"
    then obtain a b where ab: "c # s = a @ b" "P b" by blast
    then show "some_suffix P (c # s)" using Cons by (cases a) auto
  qed
qed simp

lemma capability_rule_result:
  "evaluate (makeCapabilityPolicyRule now reg p t) tool args v =
     (let e = classifyEffect tool args
      in if e = ReadOnly \<or> hasCapability now reg p t (requiredCapabilityForEffect e) then None
         else if e \<in> {ExecEffect, ReadSecret, WriteExternal, CrossTenantEffect} then Some Deny
         else Some AskUser)"
  by (cases "classifyEffect tool args") (simp_all add: makeCapabilityPolicyRule_def Let_def)

lemma hasCapability_revoke:
  "hasCapability now (cap_revoke t gs p c) p tenant c \<longleftrightarrow>
     list_ex (\<lambda>g. cg_principal g = p \<and> cg_tenant g = tenant \<and> cg_capability g = c \<and>
       live_at now (cg_expiresAt g) \<and> \<not> (no_expiry (cg_expiresAt g) \<and> t \<le> now)) gs"
proof -
  have e: "(cg_principal h = p \<and> cg_tenant h = tenant \<and> cg_capability h = c \<and> live_at now (cg_expiresAt h))
      \<longleftrightarrow> cg_principal g = p \<and> cg_tenant g = tenant \<and> cg_capability g = c \<and>
        live_at now (cg_expiresAt g) \<and> \<not> (no_expiry (cg_expiresAt g) \<and> t \<le> now)"
    if "h = (if cg_principal g = p \<and> cg_capability g = c \<and> no_expiry (cg_expiresAt g)
             then g\<lparr>cg_expiresAt := Some (DateMs t)\<rparr> else g)" for g h
    using that by (auto simp: live_at_def no_expiry_def)
  show ?thesis
    unfolding hasCapability_def cap_revoke_def list_ex_iff set_map bex_simps e [OF refl] ..
qed

end
