(* ===== verification/Taint_Tracking.thy ===== *)
theory Taint_Tracking
  imports Wa_Prelude
begin

text \<open>
  Tainted observations (packages/mcp-firewall/src/taint.ts): construction, propagation, the taint
  test and the rendering for prompt assembly. SHA-256 (\<open>sha\<close>, lower-case hex) and the adversarial
  score of vetting.ts (\<open>adv\<close>) are arguments. \<open>Buffer\<close>'s UTF-8 and base64 encodings are modelled
  on the 8-bit code units of the prelude.
\<close>

datatype trust_level = Untrusted | Verified | System

datatype content_type = TextContent | JsonContent | HtmlContent | MarkdownContent | BinaryRef

datatype taint_label =
    UserSupplied | ToolSupplied | ExternalNetwork | Secret | Credential | Filesystem
  | UntrustedDescriptor | GeneratedCode | CrossTenant

record tainted_observation =
  to_sourceTool :: string
  to_trust :: trust_level
  to_contentType :: content_type
  to_contentHash :: string
  to_sanitizers :: "string list"
  to_instructionLike :: bool
  to_adversarialScore :: real
  to_taintLabels :: "taint_label list"

definition INSTRUCTION_LIKE_PATTERNS :: "string list" where
  "INSTRUCTION_LIKE_PATTERNS =
     [''you must'', ''you should'', ''ignore previous'', ''your new task'', ''new instruction'',
      ''system:'', ''<system>'']"

definition detectInstructionLike :: "string \<Rightarrow> bool" where
  "detectInstructionLike txt =
     (let lower = ascii_lower txt in list_ex (str_includes lower) INSTRUCTION_LIKE_PATTERNS)"

text \<open>\<open>/^#{1,6}\\s/\<close>: one to six hashes, then white space.\<close>

definition markdown_heading :: "string \<Rightarrow> bool" where
  "markdown_heading s =
     (let n = length (takeWhile (\<lambda>c. c = CHR ''#'') s)
      in 1 \<le> n \<and> n \<le> 6 \<and> (case drop n s of [] \<Rightarrow> False | c # _ \<Rightarrow> is_space c))"

definition detectContentType :: "string \<Rightarrow> content_type" where
  "detectContentType content =
     (let trimmed = trim_start content
      in if starts_with trimmed ''{'' \<or> starts_with trimmed ''['' then JsonContent
         else if starts_with trimmed ''<'' then HtmlContent
         else if markdown_heading trimmed \<or> str_includes trimmed ''**'' then MarkdownContent
         else TextContent)"

record taint_opts =
  topt_trust :: "trust_level option"
  topt_sanitizers :: "string list option"
  topt_taintLabels :: "taint_label list option"

definition taintObservation ::
  "(string \<Rightarrow> string) \<Rightarrow> (string \<Rightarrow> real) \<Rightarrow> string \<Rightarrow> string \<Rightarrow> taint_opts
     \<Rightarrow> tainted_observation" where
  "taintObservation sha adv sourceTool rawContent opts =
     \<lparr>to_sourceTool = sourceTool,
      to_trust = (case topt_trust opts of None \<Rightarrow> Untrusted | Some t \<Rightarrow> t),
      to_contentType = detectContentType rawContent,
      to_contentHash = take 64 (sha rawContent),
      to_sanitizers = (case topt_sanitizers opts of None \<Rightarrow> [] | Some s \<Rightarrow> s),
      to_instructionLike = (detectInstructionLike rawContent \<or> adv rawContent > 1 / 2),
      to_adversarialScore = adv rawContent,
      to_taintLabels = (case topt_taintLabels opts of None \<Rightarrow> [] | Some l \<Rightarrow> l)\<rparr>"

definition propagateTaint ::
  "(string \<Rightarrow> string) \<Rightarrow> (string \<Rightarrow> real) \<Rightarrow> tainted_observation \<Rightarrow> string \<Rightarrow> string
     \<Rightarrow> taint_label list \<Rightarrow> trust_level option \<Rightarrow> tainted_observation" where
  "propagateTaint sha adv source derivedTool derivedContent additional trust =
     taintObservation sha adv derivedTool derivedContent
       \<lparr>topt_trust = Some (case trust of None \<Rightarrow> to_trust source | Some t \<Rightarrow> t),
        topt_sanitizers = None,
        topt_taintLabels = Some (to_taintLabels source @ additional)\<rparr>"

definition isTainted :: "tainted_observation \<Rightarrow> bool" where
  "isTainted obs =
     (to_taintLabels obs \<noteq> [] \<or> to_instructionLike obs \<or> to_adversarialScore obs > 1 / 2)"

lemma taintObservation_labels:
  "to_taintLabels (taintObservation sha adv t c opts) =
     (case topt_taintLabels opts of None \<Rightarrow> [] | Some l \<Rightarrow> l)"
  by (simp add: taintObservation_def)

lemma propagateTaint_labels [simp]:
  "to_taintLabels (propagateTaint sha adv src t c add tr) = to_taintLabels src @ add"
  by (simp add: propagateTaint_def taintObservation_labels)

lemma propagateTaint_hash [simp]:
  "to_contentHash (propagateTaint sha adv src t c add tr) = take 64 (sha c)"
  by (simp add: propagateTaint_def taintObservation_def)

text \<open>A chain of derivations: tool and content of each step, with the labels it adds.\<close>

definition propagate_chain ::
  "(string \<Rightarrow> string) \<Rightarrow> (string \<Rightarrow> real) \<Rightarrow> tainted_observation
     \<Rightarrow> (string \<times> string \<times> taint_label list) list \<Rightarrow> tainted_observation" where
  "propagate_chain sha adv obs steps =
     foldl (\<lambda>ob (t, c, add). propagateTaint sha adv ob t c add None) obs steps"

lemma propagate_chain_labels:
  "to_taintLabels (propagate_chain sha adv obs steps) =
     to_taintLabels obs @ concat (map (\<lambda>(t, c, add). add) steps)"
  unfolding propagate_chain_def
  by (induction steps arbitrary: obs) (auto simp: split_def)

section \<open>Rendering\<close>

text \<open>\<open>/^[A-Za-z0-9_.-]+$/\<close>\<close>

definition safe_tool_name :: "string \<Rightarrow> bool" where
  "safe_tool_name s =
     (s \<noteq> [] \<and> list_all (\<lambda>c. is_word_char c \<or> c = CHR ''.'' \<or> c = CHR ''-'') s)"

definition utf8_unit :: "char \<Rightarrow> nat list" where
  "utf8_unit c = (let n = of_char c in if n < 128 then [n] else [192 + n div 64, 128 + n mod 64])"

definition utf8_bytes :: "string \<Rightarrow> nat list" where
  "utf8_bytes s = concat (map utf8_unit s)"

definition b64_alphabet :: string where
  "b64_alphabet = ''ABCDEFGHIJKLMNOPQRSTUVWXYZabcdefghijklmnopqrstuvwxyz0123456789+/''"

definition b64_digit :: "nat \<Rightarrow> char" where
  "b64_digit n = b64_alphabet ! (n mod 64)"

fun base64 :: "nat list \<Rightarrow> string" where
  "base64 [] = []"
| "base64 [a] = [b64_digit (a div 4), b64_digit (16 * (a mod 4)), CHR ''='', CHR ''='']"
| "base64 [a, b] =
     [b64_digit (a div 4), b64_digit (16 * (a mod 4) + b div 16), b64_digit (4 * (b mod 16)),
      CHR ''='']"
| "base64 (a # b # c # rest) =
     [b64_digit (a div 4), b64_digit (16 * (a mod 4) + b div 16),
      b64_digit (4 * (b mod 16) + c div 64), b64_digit (c mod 64)] @ base64 rest"

record rendered_observation =
  ro_trust :: trust_level
  ro_tool :: string
  ro_content_b64 :: string
  ro_taintLabels :: "taint_label list"
  ro_contentHash :: string

definition renderTaintedObservation ::
  "tainted_observation \<Rightarrow> string \<Rightarrow> rendered_observation" where
  "renderTaintedObservation obs rawContent =
     \<lparr>ro_trust = to_trust obs,
      ro_tool = (if safe_tool_name (to_sourceTool obs) then to_sourceTool obs
                 else ''<invalid_tool_name>''),
      ro_content_b64 = base64 (utf8_bytes rawContent),
      ro_taintLabels = to_taintLabels obs,
      ro_contentHash = to_contentHash obs\<rparr>"

definition b64_char :: "char \<Rightarrow> bool" where
  "b64_char c = (c \<in> set (b64_alphabet @ ''=''))"

lemma b64_digit_ok: "b64_char (b64_digit n)"
proof -
  have "length b64_alphabet = 64" by (simp add: b64_alphabet_def)
  then have "n mod 64 < length b64_alphabet" by simp
  then have "b64_digit n \<in> set b64_alphabet" unfolding b64_digit_def by (rule nth_mem)
  then show ?thesis by (simp add: b64_char_def)
qed

lemma base64_alphabet: "c \<in> set (base64 bs) \<Longrightarrow> b64_char c"
  by (induction bs rule: base64.induct) (auto simp: b64_digit_ok b64_char_def [of "CHR ''=''"])

text \<open>The padded encoding determines the bytes, so rendering loses nothing.\<close>

lemma b64_digit_inj: "b64_digit m = b64_digit n \<longleftrightarrow> m mod 64 = n mod 64"
proof -
  have d: "distinct b64_alphabet" by (simp add: b64_alphabet_def)
  have l: "length b64_alphabet = 64" by (simp add: b64_alphabet_def)
  show ?thesis unfolding b64_digit_def using nth_eq_iff_index_eq [OF d] l by simp
qed

lemma b64_digit_not_pad [simp]: "b64_digit n \<noteq> CHR ''=''"
proof -
  have "length b64_alphabet = 64" by (simp add: b64_alphabet_def)
  then have "b64_digit n \<in> set b64_alphabet" unfolding b64_digit_def by (intro nth_mem) simp
  moreover have "CHR ''='' \<notin> set b64_alphabet" by (simp add: b64_alphabet_def)
  ultimately show ?thesis by metis
qed

lemma b64_pad_not [simp]: "CHR ''='' \<noteq> b64_digit n"
  using b64_digit_not_pad [of n] by metis

lemma radix_inj:
  fixes x x' y y' k :: nat
  assumes "k * x + y = k * x' + y'" and "y < k" and "y' < k"
  shows "x = x' \<and> y = y'"
proof -
  have "(k * x + y) div k = x" "(k * x' + y') div k = x'"
    "(k * x + y) mod k = y" "(k * x' + y') mod k = y'" using assms(2,3) by simp_all
  then show ?thesis using assms(1) by metis
qed

lemma div_mod_eq: "a div k = a' div k \<Longrightarrow> a mod k = a' mod k \<Longrightarrow> a = (a' :: nat)"
  by (metis mult_div_mod_eq)

lemma b64_one:
  fixes a a' :: nat
  assumes "a < 256" "a' < 256" "(a div 4) mod 64 = (a' div 4) mod 64"
    and "(16 * (a mod 4)) mod 64 = (16 * (a' mod 4)) mod 64"
  shows "a = a'"
proof (rule div_mod_eq)
  show "a div 4 = a' div 4" using assms(1-3) by simp
  have "16 * (a mod 4) < 64" "16 * (a' mod 4) < 64"
    using mod_less_divisor [of 4 a] mod_less_divisor [of 4 a'] by linarith+
  then show "a mod 4 = a' mod 4" using assms(4) by simp
qed

lemma b64_two:
  fixes a a' b b' :: nat
  assumes "a < 256" "a' < 256" "b < 256" "b' < 256"
    and "(a div 4) mod 64 = (a' div 4) mod 64"
    and "(16 * (a mod 4) + b div 16) mod 64 = (16 * (a' mod 4) + b' div 16) mod 64"
  shows "a = a' \<and> b div 16 = b' div 16"
proof -
  have b: "b div 16 < 16" "b' div 16 < 16" using assms by auto
  then have "16 * (a mod 4) + b div 16 < 64" "16 * (a' mod 4) + b' div 16 < 64"
    using mod_less_divisor [of 4 a] mod_less_divisor [of 4 a'] by linarith+
  then have "16 * (a mod 4) + b div 16 = 16 * (a' mod 4) + b' div 16"
    using assms(6) by simp
  then have m: "a mod 4 = a' mod 4 \<and> b div 16 = b' div 16" using b by (rule radix_inj)
  moreover have "a div 4 = a' div 4" using assms(1,2,5) by simp
  ultimately show ?thesis using div_mod_eq by blast
qed

lemma b64_three:
  fixes b b' c c' :: nat
  assumes "c < 256" "c' < 256"
    and "(4 * (b mod 16) + c div 64) mod 64 = (4 * (b' mod 16) + c' div 64) mod 64"
  shows "b mod 16 = b' mod 16 \<and> c div 64 = c' div 64"
proof -
  have c: "c div 64 < 4" "c' div 64 < 4" using assms by auto
  then have "4 * (b mod 16) + c div 64 < 64" "4 * (b' mod 16) + c' div 64 < 64"
    using mod_less_divisor [of 16 b] mod_less_divisor [of 16 b'] by linarith+
  then have "4 * (b mod 16) + c div 64 = 4 * (b' mod 16) + c' div 64"
    using assms(3) by simp
  then show ?thesis using c by (rule radix_inj)
qed

lemma b64_two_pad:
  fixes a a' b b' :: nat
  assumes "a < 256" "a' < 256" "b < 256" "b' < 256"
    and "(a div 4) mod 64 = (a' div 4) mod 64"
    and "(16 * (a mod 4) + b div 16) mod 64 = (16 * (a' mod 4) + b' div 16) mod 64"
    and "(4 * (b mod 16)) mod 64 = (4 * (b' mod 16)) mod 64"
  shows "a = a' \<and> b = b'"
  using b64_two [OF assms(1-6)] b64_three [of 0 0 b b'] assms(7) div_mod_eq [of b 16 b'] by auto

lemma base64_eq_Nil [simp]: "base64 bs = [] \<longleftrightarrow> bs = []"
  by (cases bs rule: base64.cases) auto

lemma base64_inj:
  assumes "base64 xs = base64 ys" "\<forall>x \<in> set xs. x < 256" "\<forall>y \<in> set ys. y < 256"
  shows "xs = ys"
  using assms
proof (induction xs arbitrary: ys rule: base64.induct)
  case 1
  then show ?case by (metis base64_eq_Nil)
next
  case (2 a)
  then obtain a' where ys: "ys = [a']"
    by (cases ys rule: base64.cases) auto
  show ?case using "2" b64_one [of a a'] by (simp add: ys b64_digit_inj)
next
  case (3 a b)
  then obtain a' b' where ys: "ys = [a', b']"
    by (cases ys rule: base64.cases) auto
  show ?case using "3" b64_two_pad [of a a' b b'] by (simp add: ys b64_digit_inj)
next
  case (4 a b c rest)
  then obtain a' b' c' rest' where ys: "ys = a' # b' # c' # rest'"
    by (cases ys rule: base64.cases) (auto simp: b64_digit_not_pad)
  with "4.prems" have d: "(a div 4) mod 64 = (a' div 4) mod 64"
      "(16 * (a mod 4) + b div 16) mod 64 = (16 * (a' mod 4) + b' div 16) mod 64"
      "(4 * (b mod 16) + c div 64) mod 64 = (4 * (b' mod 16) + c' div 64) mod 64"
      "c mod 64 mod 64 = c' mod 64 mod 64"
    and r: "base64 rest = base64 rest'"
    and bd: "a < 256" "a' < 256" "b < 256" "b' < 256" "c < 256" "c' < 256"
    by (simp_all add: b64_digit_inj)
  have "rest = rest'" using "4.IH" [OF r] "4.prems" ys by simp
  moreover have "a = a' \<and> b div 16 = b' div 16" by (rule b64_two [OF bd(1-4) d(1,2)])
  moreover have "b mod 16 = b' mod 16 \<and> c div 64 = c' div 64" by (rule b64_three [OF bd(5,6) d(3)])
  ultimately show ?case using ys d(4) div_mod_eq [of b 16 b'] div_mod_eq [of c 64 c'] by simp
qed

lemma utf8_unit_bounds: "x \<in> set (utf8_unit c) \<Longrightarrow> x < 256"
proof -
  have "(of_char c :: nat) < 256" by simp
  then have "(of_char c :: nat) div 64 < 4" by (simp add: less_mult_imp_div_less)
  then show "x \<in> set (utf8_unit c) \<Longrightarrow> x < 256"
    using mod_less_divisor [of 64 "of_char c"]
    by (auto simp: utf8_unit_def Let_def split: if_splits)
qed

lemma utf8_bytes_inj: "utf8_bytes s = utf8_bytes t \<Longrightarrow> s = t"
proof (induction s arbitrary: t)
  case Nil
  then show ?case by (cases t) (auto simp: utf8_bytes_def utf8_unit_def Let_def split: if_splits)
next
  case (Cons c s)
  then obtain d t' where t: "t = d # t'"
    by (cases t) (auto simp: utf8_bytes_def utf8_unit_def Let_def split: if_splits)
  have eq: "utf8_unit c @ utf8_bytes s = utf8_unit d @ utf8_bytes t'"
    using Cons.prems t by (simp add: utf8_bytes_def)
  have cd: "(of_char c :: nat) < 256" "(of_char d :: nat) < 256" by simp_all
  have "(of_char c :: nat) = of_char d \<and> utf8_bytes s = utf8_bytes t'"
    using eq cd div_mod_eq [of "of_char c" 64 "of_char d"]
    by (auto simp: utf8_unit_def Let_def split: if_splits)
  then show ?case using Cons.IH [of t'] t by simp
qed

lemma render_content_inj:
  "ro_content_b64 (renderTaintedObservation ob a) = ro_content_b64 (renderTaintedObservation ob' b)
     \<Longrightarrow> a = b"
  using base64_inj [of "utf8_bytes a" "utf8_bytes b"] utf8_bytes_inj [of a b] utf8_unit_bounds
  by (auto simp: renderTaintedObservation_def utf8_bytes_def)

section \<open>Properties\<close>

lemma propagate_trust: "to_trust (propagate_chain sha adv obs steps) = to_trust obs"
  unfolding propagate_chain_def
  by (induction steps arbitrary: obs) (auto simp: propagateTaint_def taintObservation_def split_def)

text \<open>Taint is never laundered: along any chain of derivations the labels of the source stay on the
  derived observation, in order and followed by the labels of the steps, and its trust is that of
  the source, whatever tools and contents the chain goes through; so a labelled source stays tainted.\<close>

theorem taint_survives_derivation:
  "to_taintLabels (propagate_chain sha adv obs steps) =
     to_taintLabels obs @ concat (map (\<lambda>(t, c, add). add) steps) \<and>
   to_trust (propagate_chain sha adv obs steps) = to_trust obs \<and>
   (isTainted (propagate_chain sha adv obs steps) \<or> to_taintLabels obs = [])"
  by (auto simp: propagate_chain_labels propagate_trust isTainted_def)

text \<open>A rendered observation cannot smuggle text into a prompt: its content is in the base64
  alphabet, its tool name is a plain identifier or the placeholder, and two contents are rendered
  alike only when they are equal.\<close>

theorem rendering_is_inert_and_faithful:
  "list_all b64_char (ro_content_b64 (renderTaintedObservation ob raw)) \<and>
   (safe_tool_name (ro_tool (renderTaintedObservation ob raw)) \<or>
    ro_tool (renderTaintedObservation ob raw) = ''<invalid_tool_name>'') \<and>
   (ro_content_b64 (renderTaintedObservation ob raw) = ro_content_b64 (renderTaintedObservation ob' raw')
      \<longleftrightarrow> raw = raw')"
proof -
  have "raw = raw'" if "ro_content_b64 (renderTaintedObservation ob raw) =
      ro_content_b64 (renderTaintedObservation ob' raw')"
    using that by (rule render_content_inj)
  then show ?thesis
    using base64_alphabet by (auto simp: renderTaintedObservation_def list_all_iff)
qed

end
