(* ===== verification/Provenance_Gate.thy ===== *)
theory Provenance_Gate
  imports Sink_Policy Taint_Tracking
begin

text \<open>
  The provenance gate (packages/mcp-firewall/src/provenance-policy.ts): the two rules built from
  the observations a caller threads into a request. SHA-256 in hex is the argument \<open>sha\<close>.
\<close>

definition PROVENANCE_SENSITIVE_LABELS :: "taint_label list" where
  "PROVENANCE_SENSITIVE_LABELS = [Secret, Credential]"

definition PROVENANCE_DENY_SINKS :: "data_sink list" where
  "PROVENANCE_DENY_SINKS = [NetworkSend, CredentialUse, ShellExec, FilesystemWrite]"

definition hasSensitiveLabels :: "tainted_observation \<Rightarrow> bool" where
  "hasSensitiveLabels obs = list_ex (\<lambda>l. l \<in> set PROVENANCE_SENSITIVE_LABELS) (to_taintLabels obs)"

definition sinkDenied :: "data_sink list \<Rightarrow> bool" where
  "sinkDenied sinks = list_ex (\<lambda>s. s \<in> set PROVENANCE_DENY_SINKS) sinks"

definition contentHash :: "(string \<Rightarrow> string) \<Rightarrow> string \<Rightarrow> string" where
  "contentHash sha v = take 64 (sha v)"

definition makeTaintProvenanceRules ::
  "(string \<Rightarrow> string) \<Rightarrow> tainted_observation list \<Rightarrow> data_sink list \<Rightarrow> policy_rule list" where
  "makeTaintProvenanceRules sha provenance sinks =
     (let sensitive = filter hasSensitiveLabels provenance;
          dangerousSink = sinkDenied sinks;
          sensitiveHashes = map to_contentHash sensitive
      in [\<lparr>policyId = ''sink-tainted-provenance-deny'',
           evaluate = (\<lambda>toolName args vetting.
             if \<not> dangerousSink \<or> sensitive = [] then None else Some Deny)\<rparr>,
          \<lparr>policyId = ''sink-tainted-identity-deny'',
           evaluate = (\<lambda>toolName args vetting.
             if \<not> dangerousSink \<or> sensitiveHashes = [] then None
             else if list_ex (\<lambda>v. contentHash sha v \<in> set sensitiveHashes) (deepStringValues (JObj args))
             then Some Deny else None)\<rparr>])"

definition collectInputTaintLabels :: "tainted_observation list option \<Rightarrow> taint_label list" where
  "collectInputTaintLabels provenance =
     (case provenance of None \<Rightarrow> []
      | Some os \<Rightarrow> foldl set_add [] (concat (map to_taintLabels os)))"

section \<open>Lemmas\<close>

lemma set_add_set: "set (foldl set_add s xs) = set s \<union> set xs"
  by (induction xs arbitrary: s) (auto simp: set_add_def)

lemma set_add_distinct: "distinct s \<Longrightarrow> distinct (foldl set_add s xs)"
  by (induction xs arbitrary: s) (auto simp: set_add_def)

lemma provenance_deny:
  "fires Deny (makeTaintProvenanceRules sha prov sinks) t a v \<longleftrightarrow>
     sinkDenied sinks \<and> list_ex hasSensitiveLabels prov"
  by (auto simp: makeTaintProvenanceRules_def Let_def filter_empty_conv list_ex_iff)

lemma provenance_only_denies:
  "fires d (makeTaintProvenanceRules sha prov sinks) t a v \<Longrightarrow> d = Deny"
  by (auto simp: makeTaintProvenanceRules_def Let_def split: if_splits)

end
