(* ===== verification/Tool_Vetting.thy ===== *)
theory Tool_Vetting
  imports Firewall_Policy
begin

text \<open>
  Static vetting of a tool descriptor (packages/mcp-firewall/src/vetting.ts): the aggregation of
  findings, the rug-pull check against a baseline snapshot, the cache key, and the asynchronous
  variant with a semantic detector. The per-field text scan \<open>scanText\<close> (banks of regular
  expressions and the n-gram classifier) is an argument \<open>scan\<close>, SHA-256 is \<open>sha\<close> and
  \<open>JSON.stringify\<close> of the schema is \<open>enc\<close>. Two punctuation marks of the excerpts (ellipsis, arrow)
  stand for code units above 255.
\<close>

record mcp_tool_entry =
  te_name :: string
  te_description :: string
  te_inputSchema :: json

record tool_snapshot =
  ts_descriptionHash :: string
  ts_inputSchemaHash :: string

fun recommendation_order :: "risk_recommendation \<Rightarrow> nat" where
  "recommendation_order RecAllow = 0"
| "recommendation_order RecAsk = 1"
| "recommendation_order RecDeny = 2"

definition worstRecommendation :: "tool_risk_finding list \<Rightarrow> risk_recommendation" where
  "worstRecommendation fs =
     (if fs = [] then RecAllow
      else foldl (\<lambda>worst f. if recommendation_order worst < recommendation_order (rf_recommendation f)
                            then rf_recommendation f else worst) RecAllow fs)"

definition fieldHash :: "(string \<Rightarrow> string) \<Rightarrow> string \<Rightarrow> string" where
  "fieldHash sha v = take 16 (sha v)"

definition descriptorHash :: "(string \<Rightarrow> string) \<Rightarrow> string \<Rightarrow> string" where
  "descriptorHash sha v = sha v"

definition excerpt :: "string \<Rightarrow> nat \<Rightarrow> string" where
  "excerpt txt mx = (if length txt \<le> mx then txt else take mx txt @ [CHR 0x85])"

definition buildVettingCacheKey ::
  "(string \<Rightarrow> string) \<Rightarrow> (json \<Rightarrow> string) \<Rightarrow> mcp_tool_entry \<Rightarrow> string \<Rightarrow> string" where
  "buildVettingCacheKey sha enc entry serverIdentity =
     fieldHash sha (te_name entry) @ '':'' @ fieldHash sha (te_description entry) @ '':'' @
     fieldHash sha (enc (te_inputSchema entry)) @ '':'' @ fieldHash sha serverIdentity"

definition rug_pull_finding :: "vetted_field \<Rightarrow> string \<Rightarrow> string \<Rightarrow> tool_risk_finding" where
  "rug_pull_finding field oldHash newHash =
     \<lparr>rf_severity = SevHigh, rf_category = RugPullCat, rf_type = RugPull, rf_field = field,
      rf_evidenceExcerpt =
        excerpt (''descriptor mutation: '' @ field_text field @ '' changed (hash '' @
                 take 8 oldHash @ [CHR 0x1A] @ take 8 newHash @ '')'') 120,
      rf_evidenceHash = take 16 newHash, rf_recommendation = RecAsk\<rparr>"

definition baseline_findings ::
  "(string \<Rightarrow> string) \<Rightarrow> (json \<Rightarrow> string) \<Rightarrow> mcp_tool_entry \<Rightarrow> tool_snapshot option
     \<Rightarrow> tool_risk_finding list" where
  "baseline_findings sha enc entry baseline =
     (case baseline of None \<Rightarrow> []
      | Some b \<Rightarrow>
          (let descHash = descriptorHash sha (te_description entry);
               schemaHash = descriptorHash sha (enc (te_inputSchema entry))
           in (if descHash \<noteq> ts_descriptionHash b
               then [rug_pull_finding FieldDescription (ts_descriptionHash b) descHash] else []) @
              (if schemaHash \<noteq> ts_inputSchemaHash b
               then [rug_pull_finding FieldInputSchema (ts_inputSchemaHash b) schemaHash] else [])))"

definition vetting_of :: "string \<Rightarrow> tool_risk_finding list \<Rightarrow> vetting_result" where
  "vetting_of name findings =
     \<lparr>vr_toolName = name, vr_findings = findings,
      vr_recommendation = worstRecommendation findings,
      vr_blocked = (worstRecommendation findings = RecDeny)\<rparr>"

definition vetTool ::
  "(string \<Rightarrow> string) \<Rightarrow> (json \<Rightarrow> string)
     \<Rightarrow> (string \<Rightarrow> vetted_field \<Rightarrow> string \<Rightarrow> tool_risk_finding list)
     \<Rightarrow> mcp_tool_entry \<Rightarrow> tool_snapshot option \<Rightarrow> vetting_result" where
  "vetTool sha enc scan entry baseline =
     vetting_of (te_name entry)
       (scan (te_description entry) FieldDescription (te_name entry) @
        scan (enc (te_inputSchema entry)) FieldInputSchema (te_name entry) @
        scan (te_name entry) FieldName (te_name entry) @
        baseline_findings sha enc entry baseline)"

definition vetTools ::
  "(string \<Rightarrow> string) \<Rightarrow> (json \<Rightarrow> string)
     \<Rightarrow> (string \<Rightarrow> vetted_field \<Rightarrow> string \<Rightarrow> tool_risk_finding list)
     \<Rightarrow> mcp_tool_entry list \<Rightarrow> vetting_result list" where
  "vetTools sha enc scan entries = map (\<lambda>e. vetTool sha enc scan e None) entries"

text \<open>
  A semantic detector: score and matched category. The excerpt of a semantic finding prints the
  score with \<open>toFixed(3)\<close>; the printed form is the argument \<open>fixed3\<close>.
\<close>

type_synonym semantic_detector = "string \<Rightarrow> real \<times> string option"

definition semantic_finding ::
  "(string \<Rightarrow> string) \<Rightarrow> (real \<Rightarrow> string) \<Rightarrow> semantic_detector \<Rightarrow> string \<Rightarrow> vetted_field
     \<Rightarrow> tool_risk_finding list" where
  "semantic_finding sha fixed3 detect txt field =
     (let (score, cat) = detect txt
      in if score < 82 / 100 then []
         else [\<lparr>rf_severity = (if score \<ge> 9 / 10 then SevCritical else SevMedium),
                rf_category = ToolPoisoning, rf_type = SemanticParaphrase, rf_field = field,
                rf_evidenceExcerpt =
                  excerpt (''[semantic score='' @ fixed3 score @ '' category='' @
                           (case cat of None \<Rightarrow> ''unknown'' | Some c \<Rightarrow> c) @ ''] '' @
                           excerpt txt 80) 120,
                rf_evidenceHash = fieldHash sha txt,
                rf_recommendation = (if score \<ge> 9 / 10 then RecDeny else RecAsk)\<rparr>])"

definition vetToolAsync ::
  "(string \<Rightarrow> string) \<Rightarrow> (json \<Rightarrow> string)
     \<Rightarrow> (string \<Rightarrow> vetted_field \<Rightarrow> string \<Rightarrow> tool_risk_finding list) \<Rightarrow> (real \<Rightarrow> string)
     \<Rightarrow> mcp_tool_entry \<Rightarrow> tool_snapshot option \<Rightarrow> semantic_detector option \<Rightarrow> vetting_result" where
  "vetToolAsync sha enc scan fixed3 entry baseline detector =
     (let result = vetTool sha enc scan entry baseline
      in case detector of None \<Rightarrow> result
         | Some detect \<Rightarrow>
             vetting_of (te_name entry)
               (vr_findings result @
                semantic_finding sha fixed3 detect (te_description entry) FieldDescription @
                semantic_finding sha fixed3 detect (enc (te_inputSchema entry)) FieldInputSchema @
                semantic_finding sha fixed3 detect (te_name entry) FieldName))"

lemma worst_rec_foldl:
  "foldl (\<lambda>worst f. if recommendation_order worst < recommendation_order (rf_recommendation f)
            then rf_recommendation f else worst) w fs =
   (if RecDeny \<in> insert w (rf_recommendation ` set fs) then RecDeny
    else if RecAsk \<in> insert w (rf_recommendation ` set fs) then RecAsk else RecAllow)"
proof (induction fs arbitrary: w)
  case Nil
  then show ?case by (cases w) auto
next
  case (Cons f fs)
  show ?case
    by (cases w; cases "rf_recommendation f") (simp_all add: Cons.IH)
qed

lemma worstRecommendation_iff:
  "worstRecommendation fs =
     (if RecDeny \<in> rf_recommendation ` set fs then RecDeny
      else if RecAsk \<in> rf_recommendation ` set fs then RecAsk else RecAllow)"
  by (simp add: worstRecommendation_def worst_rec_foldl)

lemma worstRecommendation_deny:
  "worstRecommendation fs = RecDeny \<longleftrightarrow> (\<exists>f \<in> set fs. rf_recommendation f = RecDeny)"
  by (force simp: worstRecommendation_iff image_iff)

lemma vetting_of_blocked:
  "vr_blocked (vetting_of n fs) \<longleftrightarrow> (\<exists>f \<in> set fs. rf_recommendation f = RecDeny)"
  by (simp add: vetting_of_def worstRecommendation_deny)

section \<open>Properties\<close>

text \<open>A descriptor that changed since its baseline is never vetted as clean: when the description or
  the schema hashes differently, the tool carries a rug-pull finding and its recommendation is at
  least to ask; the change alone does not block it.\<close>

theorem rug_pull_is_flagged:
  assumes "descriptorHash sha (te_description e) \<noteq> ts_descriptionHash b \<or>
           descriptorHash sha (enc (te_inputSchema e)) \<noteq> ts_inputSchemaHash b"
  shows "list_ex (\<lambda>f. rf_type f = RugPull) (vr_findings (vetTool sha enc scan e (Some b))) \<and>
         vr_recommendation (vetTool sha enc scan e (Some b)) \<noteq> RecAllow \<and>
         (vr_blocked (vetTool sha enc scan e (Some b)) \<longleftrightarrow> vr_blocked (vetTool sha enc scan e None))"
proof -
  have f: "f \<in> set (baseline_findings sha enc e (Some b)) \<Longrightarrow> rf_recommendation f = RecAsk \<and> rf_type f = RugPull" for f
    by (auto simp: baseline_findings_def rug_pull_finding_def Let_def split: if_splits)
  obtain g where g: "g \<in> set (baseline_findings sha enc e (Some b))"
    using assms by (cases "baseline_findings sha enc e (Some b)")
      (auto simp: baseline_findings_def Let_def split: if_splits)
  have "vr_recommendation (vetTool sha enc scan e (Some b)) \<noteq> RecAllow"
  proof -
    have "RecAsk \<in> rf_recommendation ` set (vr_findings (vetTool sha enc scan e (Some b)))"
      using f [OF g] g by (force simp: vetTool_def vetting_of_def)
    then show ?thesis
      by (simp add: vetTool_def vetting_of_def worstRecommendation_iff)
  qed
  moreover have "vr_blocked (vetTool sha enc scan e (Some b)) \<longleftrightarrow> vr_blocked (vetTool sha enc scan e None)"
    using f by (fastforce simp: vetTool_def vetting_of_blocked baseline_findings_def [of sha enc e None])
  ultimately show ?thesis
    using f [OF g] g by (auto simp: vetTool_def vetting_of_def list_ex_iff)
qed

theorem rug_pull_is_flagged_witness:
  "vr_recommendation (vetTool (\<lambda>s. s) (\<lambda>j. ''{}'') (\<lambda>x f n. [])
     \<lparr>te_name = ''t'', te_description = ''new'', te_inputSchema = JNull\<rparr>
     (Some \<lparr>ts_descriptionHash = ''old'', ts_inputSchemaHash = ''{}''\<rparr>)) \<noteq> RecAllow"
  using rug_pull_is_flagged [of "\<lambda>s. s" "\<lparr>te_name = ''t'', te_description = ''new'', te_inputSchema = JNull\<rparr>"
      "\<lparr>ts_descriptionHash = ''old'', ts_inputSchemaHash = ''{}''\<rparr>" "\<lambda>j. ''{}''" "\<lambda>x f n. []"]
  by (simp add: descriptorHash_def)

end
