(* ===== verification/Security_Profile.thy ===== *)
theory Security_Profile
  imports Capability_Guard Provenance_Gate Tool_Vetting
begin

text \<open>
  Operator-reviewed security profiles (packages/mcp-firewall/src/security-profile.ts): the registry,
  the snapshot hash, the resolution of a call's security context, the profile rules and the hardened
  rule stack. The closures that supply the current snapshot hash are the argument \<open>snap\<close>: the hash
  of the request under evaluation. SHA-256, \<open>JSON.stringify\<close> and \<open>new URL\<close> are arguments.
\<close>

section \<open>Profiles\<close>

datatype tenant_scope = SameTenant | CrossTenantAllowed

record tool_security_profile =
  sp_toolSnapshotHash :: string
  sp_effects :: "effect_class list"
  sp_sinks :: "data_sink list"
  sp_capabilitiesRequired :: "string list"
  sp_sensitiveArgPaths :: "string list option"
  sp_resultTaintLabels :: "taint_label list option"
  sp_tenantScope :: "tenant_scope option"

type_synonym profile_registry = "(string \<times> tool_security_profile) list"

definition profile_register :: "profile_registry \<Rightarrow> tool_security_profile \<Rightarrow> profile_registry" where
  "profile_register r p = AList.update (sp_toolSnapshotHash p) p r"

definition profile_lookup :: "profile_registry \<Rightarrow> string \<Rightarrow> tool_security_profile option" where
  "profile_lookup r h = map_of r h"

definition computeToolSnapshotHash ::
  "(string \<Rightarrow> string) \<Rightarrow> (json \<Rightarrow> string) \<Rightarrow> mcp_tool_entry \<Rightarrow> string \<Rightarrow> string" where
  "computeToolSnapshotHash sha enc entry serverId =
     sha (serverId @ [CHR 0x00] @ te_name entry @ [CHR 0x00] @ sha (te_description entry) @ [CHR 0x00] @
          sha (enc (te_inputSchema entry)))"

section \<open>Security context\<close>

text \<open>The secret-shaped values of \<open>SECRET_VALUE_RE\<close>.\<close>

definition in_class :: "(nat \<times> nat) list \<Rightarrow> char \<Rightarrow> bool" where
  "in_class ranges c = list_ex (\<lambda>(lo, hi). lo \<le> (of_char c :: nat) \<and> (of_char c :: nat) \<le> hi) ranges"

definition prefix_then :: "string \<Rightarrow> (char \<Rightarrow> bool) \<Rightarrow> nat \<Rightarrow> string \<Rightarrow> bool" where
  "prefix_then p cls n s = (starts_with s p \<and> n \<le> length (takeWhile cls (drop (length p) s)))"

definition private_key_header :: "string \<Rightarrow> bool" where
  "private_key_header s =
     (starts_with s ''-----BEGIN '' \<and>
      (let r = drop 11 s; n = length (takeWhile (in_class [(65, 90), (32, 32)]) r)
       in list_ex (\<lambda>k. starts_with (drop k r) ''PRIVATE KEY-----'') [0..<Suc n]))"

definition secret_value :: "string \<Rightarrow> bool" where
  "secret_value v =
     some_suffix (\<lambda>s.
       prefix_then ''sk-'' (in_class [(65, 90), (97, 122), (48, 57), (95, 95), (45, 45)]) 16 s \<or>
       private_key_header s \<or>
       prefix_then ''ghp_'' (in_class [(65, 90), (97, 122), (48, 57)]) 20 s \<or>
       prefix_then ''AKIA'' (in_class [(48, 57), (65, 90)]) 16 s) v"

datatype unprofiled_tool_policy = AllowReadHeuristic | AskUnprofiled | DenyUnprofiled

datatype effect_provenance = TrustedProfile | StructuralSignal | Heuristic | UnknownProvenance

record security_context =
  rc_snapshotHash :: "string option"
  rc_profile :: "tool_security_profile option"
  rc_effect :: effect_class
  rc_sinks :: "data_sink list"
  rc_capabilitiesRequired :: "string list"
  rc_provenance :: effect_provenance
  rc_resultTaintLabels :: "taint_label list"

definition find_profile :: "profile_registry option \<Rightarrow> string option \<Rightarrow> tool_security_profile option" where
  "find_profile registry snap =
     (if truthy snap then (case registry of None \<Rightarrow> None | Some r \<Rightarrow> profile_lookup r (the snap)) else None)"

definition resolveToolSecurityContext ::
  "(string \<Rightarrow> (string \<times> string) option) \<Rightarrow> profile_registry option \<Rightarrow> string option \<Rightarrow> string
     \<Rightarrow> tool_args \<Rightarrow> security_context" where
  "resolveToolSecurityContext parse_url registry snap toolName args =
     (case find_profile registry snap of
        Some p \<Rightarrow>
          \<lparr>rc_snapshotHash = snap, rc_profile = Some p,
           rc_effect = (case sp_effects p of [] \<Rightarrow> ReadOnly | e # _ \<Rightarrow> e),
           rc_sinks = sp_sinks p, rc_capabilitiesRequired = sp_capabilitiesRequired p,
           rc_provenance = TrustedProfile,
           rc_resultTaintLabels = (case sp_resultTaintLabels p of None \<Rightarrow> [] | Some l \<Rightarrow> l)\<rparr>
      | None \<Rightarrow>
          (let vs = deepStringValues (JObj args);
               ctx = (\<lambda>effect prov.
                 \<lparr>rc_snapshotHash = snap, rc_profile = None, rc_effect = effect,
                  rc_sinks = classifyToolSinks toolName None, rc_capabilitiesRequired = [],
                  rc_provenance = prov, rc_resultTaintLabels = []\<rparr>);
               heuristic = classifyEffect toolName args
           in if list_ex (\<lambda>v. pc_isSensitive (classifyResourcePath v)) vs
              then ctx ReadSecret StructuralSignal
              else if list_ex (\<lambda>v. uc_host (classifyUrlTarget parse_url v) \<noteq> None) vs
              then ctx NetworkEffect StructuralSignal
              else if list_ex secret_value vs then ctx ReadSecret StructuralSignal
              else ctx heuristic
                     (if heuristic = UnknownEffect then UnknownProvenance else Heuristic)))"

definition classifyToolEffect ::
  "(string \<Rightarrow> (string \<times> string) option) \<Rightarrow> profile_registry option \<Rightarrow> string option \<Rightarrow> string
     \<Rightarrow> tool_args \<Rightarrow> effect_class" where
  "classifyToolEffect parse_url registry snap toolName args =
     rc_effect (resolveToolSecurityContext parse_url registry snap toolName args)"

section \<open>Rules\<close>

text \<open>The third copy of the key walk, with its bounds written out.\<close>

fun keys_of_walk :: "nat \<Rightarrow> (json \<times> nat) list \<Rightarrow> string list" where
  "keys_of_walk left [] = []"
| "keys_of_walk 0 (x # queue) = []"
| "keys_of_walk (Suc left) ((v, d) # queue) =
     (if 8 \<le> d then keys_of_walk left queue
      else (case v of
              JArr xs \<Rightarrow> keys_of_walk left (queue @ map (\<lambda>c. (c, d + 1)) xs)
            | JObj kvs \<Rightarrow> map fst kvs @ keys_of_walk left (queue @ map (\<lambda>kv. (snd kv, d + 1)) kvs)
            | _ \<Rightarrow> keys_of_walk left queue))"

definition deepArgKeysOf :: "json \<Rightarrow> string list" where
  "deepArgKeysOf v = keys_of_walk 512 [(v, 0)]"

fun effects_decision :: "effect_class list \<Rightarrow> invocation_decision option" where
  "effects_decision [] = None"
| "effects_decision (e # es) =
     (if e = CrossTenantEffect then Some Deny
      else if e = UnknownEffect then Some AskUser
      else if e = ExecEffect \<or> e = ReadSecret \<or> e = WriteLocal \<or> e = WriteExternal then Some AskUser
      else effects_decision es)"

definition makeProfileAuthoritativeRule ::
  "(string \<Rightarrow> (string \<times> string) option) \<Rightarrow> profile_registry \<Rightarrow> string option \<Rightarrow> policy_rule" where
  "makeProfileAuthoritativeRule parse_url registry snap =
     \<lparr>policyId = ''profile-authoritative'',
      evaluate = (\<lambda>toolName args vetting.
        case find_profile (Some registry) snap of
          None \<Rightarrow> None
        | Some p \<Rightarrow>
            (let paths = (case sp_sensitiveArgPaths p of None \<Rightarrow> [] | Some l \<Rightarrow> l)
             in if NetworkSend \<in> set (sp_sinks p) \<and>
                   (list_ex (\<lambda>key. key \<in> set paths \<or> classifyArgSource key = SecretSource)
                      (deepArgKeysOf (JObj args)) \<or>
                    list_ex (\<lambda>v. uc_blocked (classifyUrlTarget parse_url v)) (deepStringValues (JObj args)))
                then Some Deny
                else effects_decision (sp_effects p)))\<rparr>"

definition makeUnknownProfileFailSafeRule ::
  "(string \<Rightarrow> (string \<times> string) option) \<Rightarrow> invocation_decision option \<Rightarrow> profile_registry option
     \<Rightarrow> string option \<Rightarrow> policy_rule" where
  "makeUnknownProfileFailSafeRule parse_url unknownEffectDecision registry snap =
     \<lparr>policyId = ''unknown-profile-fail-safe'',
      evaluate = (\<lambda>toolName args vetting.
        let vs = deepStringValues (JObj args);
            nameEffect = classifyEffect toolName args;
            layeredEffect = classifyToolEffect parse_url None None toolName args
        in if (case (registry, snap) of (Some r, Some h) \<Rightarrow> profile_lookup r h \<noteq> None | _ \<Rightarrow> False)
           then None
           else if list_ex (\<lambda>v. uc_host (classifyUrlTarget parse_url v) \<noteq> None) vs \<and> list_ex secret_value vs
           then Some Deny
           else if layeredEffect = UnknownEffect
           then Some (case unknownEffectDecision of None \<Rightarrow> AskUser | Some d \<Rightarrow> d)
           else if layeredEffect = NetworkEffect \<and> nameEffect \<noteq> NetworkEffect then Some AskUser
           else None)\<rparr>"

definition evaluateUnprofiledToolPolicy ::
  "security_context \<Rightarrow> unprofiled_tool_policy \<Rightarrow> invocation_decision option" where
  "evaluateUnprofiledToolPolicy ctx policy =
     (if policy = AllowReadHeuristic then None
      else if rc_effect ctx = ReadOnly
      then Some (if policy = DenyUnprofiled then Deny else AskUser)
      else None)"

definition makeHardenedRuleStack ::
  "(string \<Rightarrow> (string \<times> string) option) \<Rightarrow> profile_registry option \<Rightarrow> invocation_decision option
     \<Rightarrow> string option \<Rightarrow> policy_rule list" where
  "makeHardenedRuleStack parse_url registry unknownEffectDecision snap =
     FULL_DEFAULT_RULES parse_url @
     (case registry of None \<Rightarrow> [] | Some r \<Rightarrow> [makeProfileAuthoritativeRule parse_url r snap]) @
     [makeUnknownProfileFailSafeRule parse_url unknownEffectDecision registry snap]"

section \<open>Lemmas\<close>

lemma keys_of_walk: "keys_of_walk left q = key_walk 8 left q"
  by (induction left q rule: keys_of_walk.induct) (auto split: json.splits)

lemma deepArgKeysOf_eq: "deepArgKeysOf v = deepArgKeys v"
  by (simp add: deepArgKeysOf_def deepArgKeys_def keys_of_walk MAX_DEPTH_def MAX_NODES_def)

text \<open>A registry behaves like a map from snapshot hashes.\<close>

lemma lookup_register:
  "profile_lookup (profile_register r p) h =
     (if h = sp_toolSnapshotHash p then Some p else profile_lookup r h)"
  by (simp add: profile_lookup_def profile_register_def update_conv')

lemma hardened_includes_defaults:
  "fires d (FULL_DEFAULT_RULES pu) t a v \<Longrightarrow> fires d (makeHardenedRuleStack pu reg und snap) t a v"
  by (simp add: makeHardenedRuleStack_def)

lemma effects_rule_paths:
  assumes "list_all (\<lambda>p. CHR ''.'' \<in> set p) paths"
    and "list_all (\<lambda>k. CHR ''.'' \<notin> set k) ks"
  shows "list_ex (\<lambda>key. key \<in> set paths \<or> P key) ks \<longleftrightarrow> list_ex P ks"
  using assms by (auto simp: list_ex_iff list_all_iff)

section \<open>Properties\<close>

text \<open>A dotted sensitive argument path has no effect: the rule compares the paths of a profile with
  single argument names, so when every declared path is dotted and no argument name is, the
  decision is that of the same profile with no sensitive path at all.\<close>

theorem dotted_sensitive_paths_ignored:
  assumes "profile_lookup reg h = Some p" and "h \<noteq> []" and "sp_toolSnapshotHash p = h"
    and "sp_sensitiveArgPaths p = Some paths"
    and "list_all (\<lambda>q. CHR ''.'' \<in> set q) paths"
    and "list_all (\<lambda>k. CHR ''.'' \<notin> set k) (deepArgKeysOf (JObj args))"
  shows "evaluate (makeProfileAuthoritativeRule pu reg (Some h)) tool args v =
         evaluate (makeProfileAuthoritativeRule pu
           (profile_register reg (p\<lparr>sp_sensitiveArgPaths := None\<rparr>)) (Some h)) tool args v"
  using assms(1-4) effects_rule_paths [OF assms(5,6), of "\<lambda>key. classifyArgSource key = SecretSource"]
  by (auto simp: makeProfileAuthoritativeRule_def find_profile_def truthy_def lookup_register)

definition sample_profile :: tool_security_profile where
  "sample_profile = \<lparr>sp_toolSnapshotHash = ''h'', sp_effects = [], sp_sinks = [NetworkSend],
     sp_capabilitiesRequired = [], sp_sensitiveArgPaths = Some [''payload.body''],
     sp_resultTaintLabels = None, sp_tenantScope = None\<rparr>"

theorem dotted_sensitive_paths_ignored_witness:
  "evaluate (makeProfileAuthoritativeRule (\<lambda>s. None) (profile_register [] sample_profile) (Some ''h''))
     ''put'' [(''payload'', JObj [(''body'', JStr ''x'')])] None = None"
proof -
  let ?reg = "profile_register [] sample_profile"
  let ?args = "[(''payload'', JObj [(''body'', JStr ''x'')])]"
  have "list_all (\<lambda>k. CHR ''.'' \<notin> set k) (deepArgKeysOf (JObj ?args))" by code_simp
  then have "evaluate (makeProfileAuthoritativeRule (\<lambda>s. None) ?reg (Some ''h'')) ''put'' ?args None =
      evaluate (makeProfileAuthoritativeRule (\<lambda>s. None)
        (profile_register ?reg (sample_profile\<lparr>sp_sensitiveArgPaths := None\<rparr>)) (Some ''h'')) ''put'' ?args None"
    by (intro dotted_sensitive_paths_ignored [of _ _ _ "[''payload.body'']"])
      (simp_all add: lookup_register sample_profile_def)
  also have "\<dots> = None" by code_simp
  finally show ?thesis .
qed

end
