(* ===== verification/Canonical_Json.thy ===== *)
theory Canonical_Json
  imports Wa_Prelude "HOL-Library.List_Lexorder" "HOL-Library.Char_ord" "HOL-Library.Multiset"
begin

text \<open>
  Deterministic serialisation: \<open>stableStringify\<close> of packages/mcp-firewall/src/gateway.ts, which
  feeds the argument digests of consent and approval, and \<open>serializeValue\<close> of
  packages/aep/src/canonical.ts, which feeds the signatures of evidence records. Strings compare by
  code unit (\<open>List_Lexorder\<close> on code units). Numbers are integers that JavaScript prints without
  an exponent.
\<close>

section \<open>JSON.stringify on scalars\<close>

definition int_str :: "int \<Rightarrow> string" where
  "int_str i = (if i < 0 then CHR ''-'' # nat_str (nat (- i)) else nat_str (nat i))"

definition json_escape :: "char \<Rightarrow> string" where
  "json_escape c =
     (let n = (of_char c :: nat)
      in if n = 34 then [CHR 0x5C, c]
         else if n = 92 then [CHR 0x5C, c]
         else if n = 8 then [CHR 0x5C, CHR ''b'']
         else if n = 9 then [CHR 0x5C, CHR ''t'']
         else if n = 10 then [CHR 0x5C, CHR ''n'']
         else if n = 12 then [CHR 0x5C, CHR ''f'']
         else if n = 13 then [CHR 0x5C, CHR ''r'']
         else if n < 32 then [CHR 0x5C, CHR ''u'', CHR ''0'', CHR ''0'', digit_char (n div 16),
                              digit_char (n mod 16)]
         else [c])"

definition json_quote :: "string \<Rightarrow> string" where
  "json_quote s = CHR 0x22 # concat (map json_escape s) @ [CHR 0x22]"

section \<open>The two serialisers\<close>

fun stableStringify :: "json \<Rightarrow> string" where
  "stableStringify JUndef = ''null''"
| "stableStringify JNull = ''null''"
| "stableStringify (JBool b) = (if b then ''true'' else ''false'')"
| "stableStringify (JNum i) = int_str i"
| "stableStringify (JStr s) = json_quote s"
| "stableStringify (JArr xs) = ''['' @ join_on '','' (map stableStringify xs) @ '']''"
| "stableStringify (JObj kvs) =
     (let entries = sort_key fst (filter (\<lambda>(k, v, s). v \<noteq> JUndef)
                      (map (\<lambda>(k, v). (k, v, stableStringify v)) kvs))
      in ''{'' @ join_on '','' (map (\<lambda>(k, v, s). json_quote k @ '':'' @ s) entries) @ ''}'')"

fun compareUtf16 :: "string \<Rightarrow> string \<Rightarrow> int" where
  "compareUtf16 (a # s) (b # t) =
     (let diff = (of_char a :: int) - of_char b in if diff \<noteq> 0 then diff else compareUtf16 s t)"
| "compareUtf16 s t = int (length s) - int (length t)"

fun serializeValue :: "json \<Rightarrow> string option" where
  "serializeValue JUndef = None"
| "serializeValue JNull = Some ''null''"
| "serializeValue (JBool b) = Some (if b then ''true'' else ''false'')"
| "serializeValue (JNum i) = Some (int_str i)"
| "serializeValue (JStr s) = Some (json_quote s)"
| "serializeValue (JArr xs) =
     Some (''['' @ join_on '',''
             (map (\<lambda>v. case serializeValue v of None \<Rightarrow> ''null'' | Some s \<Rightarrow> s) xs) @ '']'')"
| "serializeValue (JObj kvs) =
     (let sorted = sort_key fst (map (\<lambda>(k, v). (k, serializeValue v)) kvs);
          pairs = List.map_filter
                    (\<lambda>(k, s). map_option (\<lambda>t. json_quote k @ '':'' @ t) s) sorted
      in Some (''{'' @ join_on '','' pairs @ ''}''))"

definition canonicalJson :: "json \<Rightarrow> string" where
  "canonicalJson v = (case serializeValue v of None \<Rightarrow> ''null'' | Some s \<Rightarrow> s)"

section \<open>JSON.stringify\<close>

text \<open>\<open>JSON.stringify\<close> of a value that is not undefined: members in their order, those that are undefined left out.\<close>

fun json_stringify :: "json \<Rightarrow> string" where
  "json_stringify JUndef = ''null''"
| "json_stringify JNull = ''null''"
| "json_stringify (JBool b) = (if b then ''true'' else ''false'')"
| "json_stringify (JNum i) = int_str i"
| "json_stringify (JStr s) = json_quote s"
| "json_stringify (JArr xs) = ''['' @ join_on '','' (map json_stringify xs) @ '']''"
| "json_stringify (JObj kvs) =
     ''{'' @ join_on '','' (map (\<lambda>(k, v, s). json_quote k @ '':'' @ s)
       (filter (\<lambda>(k, v, s). v \<noteq> JUndef) (map (\<lambda>(k, v). (k, v, json_stringify v)) kvs))) @ ''}''"

section \<open>Canonical values\<close>

text \<open>
  The value a serialisation stands for: undefined members are dropped, undefined elsewhere is
  null, and members are listed in key order.
\<close>

fun canonical_value :: "json \<Rightarrow> json" where
  "canonical_value JUndef = JNull"
| "canonical_value (JArr xs) = JArr (map canonical_value xs)"
| "canonical_value (JObj kvs) =
     JObj (sort_key fst (map (\<lambda>(k, v). (k, canonical_value v)) (filter (\<lambda>(k, v). v \<noteq> JUndef) kvs)))"
| "canonical_value v = v"

fun print_json :: "json \<Rightarrow> string" where
  "print_json JUndef = ''null''"
| "print_json JNull = ''null''"
| "print_json (JBool b) = (if b then ''true'' else ''false'')"
| "print_json (JNum i) = int_str i"
| "print_json (JStr s) = json_quote s"
| "print_json (JArr xs) = ''['' @ join_on '','' (map print_json xs) @ '']''"
| "print_json (JObj kvs) =
     ''{'' @ join_on '','' (map (\<lambda>(k, v). json_quote k @ '':'' @ print_json v) kvs) @ ''}''"

fun no_undef :: "json \<Rightarrow> bool" where
  "no_undef JUndef = False"
| "no_undef (JArr xs) = list_all no_undef xs"
| "no_undef (JObj kvs) = list_all (\<lambda>(k, v). no_undef v) kvs"
| "no_undef v = True"

lemma sort_key_map_snd:
  "sort_key fst (map (\<lambda>(k, v). (k, f k v)) kvs) = map (\<lambda>(k, v). (k, f k v)) (sort_key fst kvs)"
proof -
  have i: "insort_key fst (k, f k v) (map (\<lambda>(k, v). (k, f k v)) xs) =
      map (\<lambda>(k, v). (k, f k v)) (insort_key fst (k, v) xs)" for k v xs
    by (induction xs) auto
  show ?thesis by (induction kvs) (auto simp: i)
qed

lemma filter_sort_fst: "sort_key fst (filter P kvs) = filter P (sort_key fst kvs)"
  by (metis filter_sort)

lemma stable_print: "stableStringify v = print_json (canonical_value v)"
proof (induction v rule: stableStringify.induct)
  case (6 xs)
  then show ?case by (simp cong: map_cong)
next
  case (7 kvs)
  let ?F = "filter (\<lambda>(k, v). v \<noteq> JUndef) kvs"
  have f: "filter (\<lambda>(k, v, s). v \<noteq> JUndef) (map (\<lambda>(k, v). (k, v, stableStringify v)) kvs) =
      map (\<lambda>(k, v). (k, v, stableStringify v)) ?F"
    by (induction kvs) auto
  have "stableStringify v = print_json (canonical_value v)" if "(k, v) \<in> set (sort_key fst ?F)" for k v
    using that 7 by auto
  then have m: "map (\<lambda>(k, v). json_quote k @ '':'' @ stableStringify v) (sort_key fst ?F) =
      map (\<lambda>(k, v). json_quote k @ '':'' @ print_json (canonical_value v)) (sort_key fst ?F)"
    by (auto simp: map_eq_conv)
  have s1: "sort_key fst (map (\<lambda>(k, v). (k, v, stableStringify v)) ?F) =
      map (\<lambda>(k, v). (k, v, stableStringify v)) (sort_key fst ?F)"
    and s2: "sort_key fst (map (\<lambda>(k, v). (k, canonical_value v)) ?F) =
      map (\<lambda>(k, v). (k, canonical_value v)) (sort_key fst ?F)"
    by (rule sort_key_map_snd)+
  show ?case
    unfolding stableStringify.simps canonical_value.simps print_json.simps Let_def f s1 s2
    using m by (simp add: comp_def split_def del: map_eq_conv)
qed simp_all

lemma serialize_print: "canonicalJson v = print_json (canonical_value v)"
  and serialize_None: "serializeValue v = None \<longleftrightarrow> v = JUndef"
proof (induction v rule: serializeValue.induct)
  case (6 xs)
  {
    case 1
    then show ?case using 6 by (simp add: canonicalJson_def cong: map_cong)
  next
    case 2
    then show ?case by simp
  }
next
  case (7 kvs)
  {
    case 1
    let ?S = "sort_key fst kvs"
    have e: "serializeValue v = (if v = JUndef then None else Some (print_json (canonical_value v)))"
      if "(k, v) \<in> set ?S" for k v
    proof -
      have "canonicalJson v = print_json (canonical_value v)" "serializeValue v = None \<longleftrightarrow> v = JUndef"
        using that 7 by auto
      then show ?thesis by (cases "serializeValue v") (auto simp: canonicalJson_def)
    qed
    have s: "sort_key fst (map (\<lambda>(k, v). (k, serializeValue v)) kvs) =
        map (\<lambda>(k, v). (k, serializeValue v)) ?S"
      by (rule sort_key_map_snd)
    have "List.map_filter (\<lambda>(k, s). map_option (\<lambda>t. json_quote k @ '':'' @ t) s)
          (map (\<lambda>(k, v). (k, serializeValue v)) S) =
        map (\<lambda>(k, v). json_quote k @ '':'' @ print_json (canonical_value v))
          (filter (\<lambda>(k, v). v \<noteq> JUndef) S)" if "set S \<subseteq> set ?S" for S
      using that
    proof (induction S)
      case (Cons kv S)
      obtain k v where "kv = (k, v)" by (cases kv)
      with Cons e [of k v] show ?case by (auto simp: List.map_filter_simps)
    qed (simp add: List.map_filter_simps)
    then have p: "List.map_filter (\<lambda>(k, s). map_option (\<lambda>t. json_quote k @ '':'' @ t) s)
          (map (\<lambda>(k, v). (k, serializeValue v)) ?S) =
        map (\<lambda>(k, v). json_quote k @ '':'' @ print_json (canonical_value v))
          (filter (\<lambda>(k, v). v \<noteq> JUndef) ?S)" by simp
    have s2: "sort_key fst (map (\<lambda>(k, v). (k, canonical_value v)) (filter (\<lambda>(k, v). v \<noteq> JUndef) kvs)) =
      map (\<lambda>(k, v). (k, canonical_value v)) (filter (\<lambda>(k, v). v \<noteq> JUndef) ?S)"
      unfolding filter_sort_fst [symmetric] by (rule sort_key_map_snd)
    show ?case
      unfolding canonicalJson_def serializeValue.simps canonical_value.simps print_json.simps Let_def
        s p s2 option.case
      by (simp add: comp_def split_def)
  next
    case 2
    then show ?case by (simp add: Let_def)
  }
qed (auto simp: canonicalJson_def)

section \<open>Unique decoding\<close>

text \<open>What may follow a value: nothing, a comma or a closing bracket.\<close>

definition value_end :: "string \<Rightarrow> bool" where
  "value_end r = (r = [] \<or> hd r \<in> set '',]}'')"

lemma digit_char_inj: "m < 16 \<Longrightarrow> n < 16 \<Longrightarrow> digit_char m = digit_char n \<longleftrightarrow> m = n"
  using hex_val_digit by (metis option.inject)

lemma escape_ne: "json_escape c \<noteq> [] \<and> hd (json_escape c) \<noteq> CHR 0x22"
  by (auto simp: json_escape_def Let_def)

text \<open>The code unit an escape stands for, and the length of the escape.\<close>

definition escape_value :: "string \<Rightarrow> nat \<times> nat" where
  "escape_value s =
     (case s of a # b # t \<Rightarrow>
        if a \<noteq> CHR 0x5C then (of_char a, 1)
        else if b = CHR ''b'' then (8, 2)
        else if b = CHR ''t'' then (9, 2)
        else if b = CHR ''n'' then (10, 2)
        else if b = CHR ''f'' then (12, 2)
        else if b = CHR ''r'' then (13, 2)
        else if b = CHR ''u'' then (case t of x # y # h # l # u \<Rightarrow> (the (hex_val h) * 16 + the (hex_val l), 6) | _ \<Rightarrow> (0, 0))
        else (of_char b, 2)
      | [a] \<Rightarrow> (of_char a, 1) | [] \<Rightarrow> (0, 0))"

lemma escape_value: "escape_value (json_escape c @ r) = (of_char c, length (json_escape c))"
proof -
  define n where "n = (of_char c :: nat)"
  note d = json_escape_def Let_def n_def [symmetric] escape_value_def
  consider "n = 34" | "n = 92" | "n = 8" | "n = 9" | "n = 10" | "n = 12" | "n = 13"
    | "n < 32" "n \<noteq> 8" "n \<noteq> 9" "n \<noteq> 10" "n \<noteq> 12" "n \<noteq> 13" | "32 \<le> n" "n \<noteq> 34" "n \<noteq> 92" by linarith
  then show ?thesis
  proof cases
    case 1
    then have "(of_char c :: nat) = of_char CHR 0x22" by (simp add: n_def)
    then have "c = CHR 0x22" by (simp only: of_char_eq_iff)
    then show ?thesis by (simp add: json_escape_def escape_value_def)
  next
    case 2
    then have "(of_char c :: nat) = of_char CHR 0x5C" by (simp add: n_def)
    then have "c = CHR 0x5C" by (simp only: of_char_eq_iff)
    then show ?thesis by (simp add: json_escape_def escape_value_def)
  next
    case 8
    then have "n div 16 < 16" by (simp add: less_mult_imp_div_less)
    with 8 show ?thesis by (simp add: d)
  next
    case 9
    then have "c \<noteq> CHR 0x5C" by (auto simp: n_def)
    with 9 show ?thesis by (cases r) (simp_all add: d)
  qed (simp_all add: d)
qed

lemma escape_inj: "json_escape c @ r = json_escape d @ r' \<Longrightarrow> c = d \<and> r = r'"
proof -
  assume eq: "json_escape c @ r = json_escape d @ r'"
  have "(of_char c :: nat, length (json_escape c)) = (of_char d, length (json_escape d))"
    unfolding escape_value [of c r, symmetric] escape_value [of d r', symmetric] eq ..
  then have "(of_char c :: nat) = of_char d" by simp
  then have "c = d" by (simp only: of_char_eq_iff)
  with eq show ?thesis by simp
qed

lemma escapes_inj:
  "concat (map json_escape s) @ CHR 0x22 # r = concat (map json_escape t) @ CHR 0x22 # r' \<Longrightarrow>
     s = t \<and> r = r'"
proof (induction s arbitrary: t)
  case Nil
  then show ?case using escape_ne [of "hd t"] by (cases t; cases "json_escape (hd t)") auto
next
  case (Cons c s)
  show ?case
  proof (cases t)
    case Nil
    with Cons.prems escape_ne [of c] show ?thesis by (cases "json_escape c") auto
  next
    case (Cons d t')
    with Cons.prems have "json_escape c @ (concat (map json_escape s) @ CHR 0x22 # r) =
        json_escape d @ (concat (map json_escape t') @ CHR 0x22 # r')" by simp
    then show ?thesis using escape_inj Cons.IH [of t'] Cons by blast
  qed
qed

lemma quote_inj: "json_quote s @ r = json_quote t @ r' \<Longrightarrow> s = t \<and> r = r'"
  using escapes_inj [of s r t r'] by (simp add: json_quote_def)

lemma value_end_not_digit: "value_end r \<Longrightarrow> r = [] \<or> \<not> is_digit (hd r)"
  by (auto simp: value_end_def is_digit_def Let_def)

lemma nat_str_end:
  assumes "nat_str m @ r = nat_str n @ r'" and "value_end r" and "value_end r'"
  shows "m = n \<and> r = r'"
proof -
  have t: "takeWhile is_digit (nat_str k @ q) = nat_str k" if "value_end q" for k q
    using value_end_not_digit [OF that] num_str_digits
    by (cases q) (auto simp: takeWhile_append takeWhile_eq_all_conv)
  have "takeWhile is_digit (nat_str m @ r) = takeWhile is_digit (nat_str n @ r')"
    using assms(1) by (rule arg_cong)
  then have "nat_str m = nat_str n" unfolding t [OF assms(2)] t [OF assms(3)] .
  then show ?thesis using assms(1) by (simp add: nat_str_inj)
qed

lemma nat_str_head: "nat_str n = c # s \<Longrightarrow> is_digit c"
  using num_str_digits [of c n] by simp

lemma int_str_end:
  assumes eq: "int_str i @ r = int_str j @ r'" and "value_end r" and "value_end r'"
  shows "i = j \<and> r = r'"
proof -
  obtain c s c' s' where h: "nat_str (nat i) = c # s" "nat_str (nat j) = c' # s'"
    by (meson neq_Nil_conv num_str_ne)
  then have d: "c \<noteq> CHR ''-''" "c' \<noteq> CHR ''-''"
    using nat_str_head by (force simp: is_digit_def)+
  show ?thesis
  proof (cases "i < 0"; cases "j < 0")
    assume neg: "i < 0" "j < 0"
    with assms nat_str_end [of "nat (- i)" r "nat (- j)" r'] have "nat (- i) = nat (- j) \<and> r = r'"
      by (simp add: int_str_def)
    with neg show ?thesis by linarith
  next
    assume "\<not> i < 0" "\<not> j < 0"
    moreover from this have "nat i = nat j \<and> r = r'"
      using assms nat_str_end [of "nat i" r "nat j" r'] by (simp add: int_str_def)
    ultimately show ?thesis by linarith
  qed (use eq h d in \<open>simp_all add: int_str_def\<close>)
qed

lemma items_inj:
  assumes item: "\<And>x y r r'. x \<in> set xs \<Longrightarrow> y \<in> set ys \<Longrightarrow> value_end r \<Longrightarrow> value_end r' \<Longrightarrow>
                    f x @ r = f y @ r' \<Longrightarrow> x = y \<and> r = r'"
    and head: "\<And>z. z \<in> set xs \<union> set ys \<Longrightarrow> f z \<noteq> [] \<and> hd (f z) \<noteq> cl"
    and cl: "cl \<in> set '']}''"
    and eq: "join_on '','' (map f xs) @ cl # r = join_on '','' (map f ys) @ cl # r'"
  shows "xs = ys \<and> r = r'"
  using item head eq
proof (induction xs arbitrary: ys)
  case Nil
  have j: "join_on '','' (f y # ws) = f y @ (if ws = [] then [] else CHR '','' # join_on '','' ws)" for y ws
    by (cases ws) auto
  show ?case
  proof (cases ys)
    case Nil
    with \<open>join_on '','' (map f []) @ cl # r = _\<close> show ?thesis by simp
  next
    case (Cons y ys')
    then have "f y \<noteq> [] \<and> hd (f y) \<noteq> cl" using Nil.prems(2) by simp
    moreover have "cl # r = (f y @ (if map f ys' = [] then [] else CHR '','' # join_on '','' (map f ys'))) @ cl # r'"
      using Nil.prems(3) unfolding Cons list.map j by simp
    ultimately show ?thesis by (cases "f y") auto
  qed
next
  case (Cons x xs)
  have j: "join_on '','' (f y # ws) @ q = f y @ ((if ws = [] then [] else CHR '','' # join_on '','' ws) @ q)"
    for y ws q by (cases ws) auto
  have ends: "value_end ((if map f ws = [] then [] else CHR '','' # join_on '','' (map f ws)) @ cl # q)" for ws q
    using cl by (auto simp: value_end_def)
  show ?case
  proof (cases ys)
    case Nil
    have "f x \<noteq> [] \<and> hd (f x) \<noteq> cl" using Cons.prems(2) by simp
    then show ?thesis using Cons.prems(3) Nil j [of x "map f xs" "cl # r"] by (cases "f x") auto
  next
    case (Cons y ys')
    have e: "f x @ ((if map f xs = [] then [] else CHR '','' # join_on '','' (map f xs)) @ cl # r) =
        f y @ ((if map f ys' = [] then [] else CHR '','' # join_on '','' (map f ys')) @ cl # r')"
      using Cons.prems(3) unfolding Cons list.map j .
    have m: "x \<in> set (x # xs)" "y \<in> set ys" by (simp_all add: Cons)
    note xy = Cons.prems(1) [OF m ends ends e]
    from xy have "join_on '','' (map f xs) @ cl # r = join_on '','' (map f ys') @ cl # r'"
      using cl by (auto split: if_splits)
    then have "xs = ys' \<and> r = r'"
      using Cons.prems(1,2) Cons by (intro Cons.IH) auto
    with xy Cons show ?thesis by simp
  qed
qed

lemma int_str_head: "int_str i @ r = c # s \<Longrightarrow> is_digit c \<or> c = CHR ''-''"
proof -
  assume a: "int_str i @ r = c # s"
  obtain d t where "nat_str (nat i) = d # t" by (meson neq_Nil_conv num_str_ne)
  with a show ?thesis using nat_str_head [of "nat i" d t] by (auto simp: int_str_def split: if_splits)
qed

lemma print_head:
  "print_json v @ r = c # s \<Longrightarrow> no_undef v \<Longrightarrow>
     (case v of JNull \<Rightarrow> c = CHR ''n'' | JBool b \<Rightarrow> c = (if b then CHR ''t'' else CHR ''f'')
      | JNum i \<Rightarrow> is_digit c \<or> c = CHR ''-'' | JStr t \<Rightarrow> c = CHR 0x22 | JArr xs \<Rightarrow> c = CHR ''[''
      | JObj kvs \<Rightarrow> c = CHR ''{'' | JUndef \<Rightarrow> False)"
  by (cases v) (auto simp: json_quote_def dest: int_str_head split: if_splits)

lemma int_str_ne: "int_str i \<noteq> []"
  by (simp add: int_str_def)

lemma print_ne: "print_json v \<noteq> []"
  by (cases v) (auto simp: json_quote_def int_str_ne)

lemma print_no_close: "no_undef v \<Longrightarrow> print_json v \<noteq> [] \<and> hd (print_json v) \<noteq> CHR '']'' \<and> hd (print_json v) \<noteq> CHR ''}''"
  using print_ne [of v] print_head [of v "[]" "hd (print_json v)" "tl (print_json v)"]
  by (cases v) (auto simp: is_digit_def split: if_splits)

definition same_kind :: "json \<Rightarrow> json \<Rightarrow> bool" where
  "same_kind v w =
     (case (v, w) of (JNull, JNull) \<Rightarrow> True | (JBool b, JBool c) \<Rightarrow> b = c | (JNum i, JNum j) \<Rightarrow> True
      | (JStr s, JStr t) \<Rightarrow> True | (JArr xs, JArr ys) \<Rightarrow> True | (JObj ks, JObj ls) \<Rightarrow> True
      | _ \<Rightarrow> False)"

lemma print_kind:
  assumes "print_json v @ r = print_json w @ r'" "no_undef v" "no_undef w"
  shows "same_kind v w"
proof -
  obtain c s where c: "print_json w @ r' = c # s" using print_ne [of w] by (cases "print_json w") auto
  show ?thesis
    using print_head [OF c assms(3)] print_head [OF trans [OF assms(1) c] assms(2)]
    by (cases v; cases w) (auto simp: same_kind_def is_digit_def split: if_splits)
qed

lemma print_inj:
  "print_json v @ r = print_json w @ r' \<Longrightarrow> no_undef v \<Longrightarrow> no_undef w \<Longrightarrow> value_end r \<Longrightarrow>
     value_end r' \<Longrightarrow> v = w \<and> r = r'"
proof (induction v arbitrary: w r r')
  case (JArr xs)
  then obtain ys where w: "w = JArr ys" using print_kind [OF JArr.prems(1-3)] by (cases w) (auto simp: same_kind_def)
  have "xs = ys \<and> r = r'"
  proof (rule items_inj [of xs ys print_json "CHR '']''"])
    show "join_on '','' (map print_json xs) @ CHR '']'' # r = join_on '','' (map print_json ys) @ CHR '']'' # r'"
      using JArr.prems(1) w by simp
    show "x = y \<and> q = q'" if "x \<in> set xs" "y \<in> set ys" "value_end q" "value_end q'"
      "print_json x @ q = print_json y @ q'" for x y q q'
      using JArr.IH [OF that(1,5)] JArr.prems(2,3) that w by (auto simp: list_all_iff)
    show "print_json z \<noteq> [] \<and> hd (print_json z) \<noteq> CHR '']''" if "z \<in> set xs \<union> set ys" for z
      using that print_no_close [of z] JArr.prems(2,3) w by (auto simp: list_all_iff)
  qed simp
  with w show ?case by simp
next
  case (JObj kvs)
  then obtain lvs where w: "w = JObj lvs" using print_kind [OF JObj.prems(1-3)] by (cases w) (auto simp: same_kind_def)
  let ?f = "\<lambda>(k, v). json_quote k @ '':'' @ print_json v"
  have "kvs = lvs \<and> r = r'"
  proof (rule items_inj [of kvs lvs ?f "CHR ''}''"])
    show "join_on '','' (map ?f kvs) @ CHR ''}'' # r = join_on '','' (map ?f lvs) @ CHR ''}'' # r'"
      using JObj.prems(1) w by simp
    show "x = y \<and> q = q'" if a: "x \<in> set kvs" "y \<in> set lvs" "value_end q" "value_end q'"
      "?f x @ q = ?f y @ q'" for x y q q'
    proof -
      obtain k v l u where x: "x = (k, v)" and y: "y = (l, u)" by (cases x; cases y)
      have "json_quote k @ ('':'' @ print_json v @ q) = json_quote l @ ('':'' @ print_json u @ q')"
        using a(5) x y by simp
      from quote_inj [OF this] have kl: "k = l \<and> print_json v @ q = print_json u @ q'" by simp
      have "v = u \<and> q = q'"
        using JObj.IH [of "(k, v)" v q u q'] kl a JObj.prems(2,3) w x y by (auto simp: list_all_iff)
      with kl x y show ?thesis by simp
    qed
    show "?f z \<noteq> [] \<and> hd (?f z) \<noteq> CHR ''}''" if "z \<in> set kvs \<union> set lvs" for z
      by (cases z) (simp add: json_quote_def)
  qed simp
  with w show ?case by simp
next
  case (JNum i)
  then obtain j where "w = JNum j" using print_kind [OF JNum.prems(1-3)] by (cases w) (auto simp: same_kind_def)
  with JNum int_str_end [of i r j r'] show ?case by simp
next
  case (JStr s)
  then obtain t where "w = JStr t" using print_kind [OF JStr.prems(1-3)] by (cases w) (auto simp: same_kind_def)
  with JStr quote_inj [of s r t r'] show ?case by simp
next
  case (JBool b)
  then have "w = JBool b" using print_kind [OF JBool.prems(1-3)] by (cases w) (auto simp: same_kind_def)
  with JBool show ?case by simp
next
  case JNull
  then have "w = JNull" using print_kind [OF JNull.prems(1-3)] by (cases w) (auto simp: same_kind_def)
  with JNull show ?case by simp
qed simp

lemma canonical_no_undef: "no_undef (canonical_value v)"
  by (induction v) (auto simp: list_all_iff)

lemma stable_inj: "stableStringify v = stableStringify w \<longleftrightarrow> canonical_value v = canonical_value w"
  using print_inj [of "canonical_value v" "[]" "canonical_value w" "[]"] canonical_no_undef
  by (auto simp: stable_print value_end_def)

lemma compare_order:
  "(compareUtf16 s t < 0 \<longleftrightarrow> s < t) \<and> (compareUtf16 s t = 0 \<longleftrightarrow> s = t)"
proof (induction s t rule: compareUtf16.induct, goal_cases)
  case (1 a s b t)
  have e: "(of_char c :: int) = int (of_char c)" for c :: char
    by (rule of_nat_of_char [symmetric])
  have "of_char a < (of_char b :: int) \<longleftrightarrow> a < b" "(of_char a :: int) = of_char b \<longleftrightarrow> a = b"
    unfolding e less_char_def of_nat_less_iff of_nat_eq_iff of_char_eq_iff by simp_all
  with 1 show ?case by (auto simp: Let_def)
next
  case (2 t)
  then show ?case by (cases t) auto
next
  case (3 s)
  then show ?case by (cases s) auto
qed

section \<open>Properties\<close>


text \<open>Listing the members of an object in another order does not change its canonical text.\<close>

theorem member_order_irrelevant:
  assumes "mset kvs = mset lvs" and "distinct (map fst kvs)"
  shows "stableStringify (JObj kvs) = stableStringify (JObj lvs)"
proof -
  let ?P = "\<lambda>(k, v). v \<noteq> JUndef" and ?g = "\<lambda>(k, v). (k, canonical_value v)"
  have "mset (map ?g (filter ?P kvs)) = mset (map ?g (filter ?P lvs))"
    using assms(1) by (simp add: mset_filter)
  moreover have "inj_on fst (set (map ?g (filter ?P kvs)))"
    using assms(2) by (auto simp: inj_on_def dest: eq_key_imp_eq_value)
  ultimately have "sort_key fst (map ?g (filter ?P kvs)) = sort_key fst (map ?g (filter ?P lvs))"
    by (intro sort_key_inj_key_eq) simp_all
  then show ?thesis by (simp only: stable_inj canonical_value.simps)
qed

theorem member_order_irrelevant_witness:
  "stableStringify (JObj [(''b'', JNum 1), (''a'', JNull)]) =
   stableStringify (JObj [(''a'', JNull), (''b'', JNum 1)])"
  by (rule member_order_irrelevant) simp_all

text \<open>The serialiser of evidence records and that of the gateway give the same text on every value,
  and the comparison of the former is the lexicographic order on code units.\<close>

theorem canonicalisers_agree:
  "canonicalJson v = stableStringify v \<and> (compareUtf16 s t < 0 \<longleftrightarrow> s < t) \<and>
   (compareUtf16 s t = 0 \<longleftrightarrow> s = t)"
  using compare_order by (simp add: serialize_print stable_print)

end
