(* ===== verification/Firewall_Verdict.thy ===== *)
theory Firewall_Verdict
  imports Firewall_Policy Taint_Tracking
begin

text \<open>
  The layered verdict (packages/mcp-firewall/src/verdict.ts) and its metrics (observability.ts):
  \<open>composeVerdict\<close> from vetting, policy decision, taint and consent, the mapping of a verdict to
  counters, and the in-memory recorder with its snapshot.
\<close>

datatype detection_verdict = DetBlocked | DetWarned | DetMissed | DetNotApplicable
datatype policy_verdict = PolAllow | PolDeny | PolAsk
datatype containment_verdict = Contained | Escaped | NotExecuted
datatype consent_verdict = ConsentValid | ConsentInvalid | ConsentNotRequired
datatype taint_verdict = Clean | Tainted

record security_verdict =
  sv_detection :: detection_verdict
  sv_policy :: policy_verdict
  sv_containment :: containment_verdict
  sv_consent :: consent_verdict
  sv_taint :: taint_verdict
  sv_final :: policy_verdict

definition detection_of :: "vetting_result option \<Rightarrow> detection_verdict" where
  "detection_of vetting =
     (case vetting of None \<Rightarrow> DetNotApplicable
      | Some v \<Rightarrow>
          if vr_blocked v \<or>
             list_ex (\<lambda>f. rf_severity f = SevCritical \<or> rf_severity f = SevHigh) (vr_findings v)
          then DetBlocked
          else if list_ex (\<lambda>f. rf_severity f = SevMedium) (vr_findings v) then DetWarned
          else DetMissed)"

definition policy_of :: "invocation_decision \<Rightarrow> policy_verdict" where
  "policy_of d = (if d = Deny then PolDeny else if d = AskUser then PolAsk else PolAllow)"

definition composeVerdict ::
  "vetting_result option \<Rightarrow> tool_invocation_decision \<Rightarrow> tainted_observation option \<Rightarrow> bool
     \<Rightarrow> security_verdict" where
  "composeVerdict vetting decision taint hasCons =
     (let detection = detection_of vetting;
          policy = policy_of (tid_decision decision);
          taintVerdict = (case taint of None \<Rightarrow> Clean
                          | Some ob \<Rightarrow> if isTainted ob then Tainted else Clean);
          containment =
            (if detection = DetMissed then
               (if policy = PolDeny then Contained
                else if taintVerdict = Tainted \<and> policy \<noteq> PolAllow then Contained
                else if policy = PolAllow \<and> taintVerdict \<noteq> Tainted then Escaped
                else NotExecuted)
             else NotExecuted);
          consent =
            (if hasCons then ConsentValid
             else if policy = PolAllow \<and> detection \<noteq> DetBlocked then ConsentNotRequired
             else ConsentInvalid)
      in \<lparr>sv_detection = detection, sv_policy = policy, sv_containment = containment,
          sv_consent = consent, sv_taint = taintVerdict, sv_final = policy\<rparr>)"

lemmas compose_defs = composeVerdict_def Let_def

section \<open>Metrics (observability.ts)\<close>

datatype firewall_metric =
    DETECTION_BLOCK_TOTAL | POLICY_DENY_TOTAL | CONSENT_ASK_TOTAL
  | DETECTOR_MISS_CONTAINED_TOTAL | UNSAFE_ESCAPE_TOTAL | RUGPULL_TOTAL | TAINT_BLOCK_TOTAL

definition FIREWALL_METRIC_NAMES :: "firewall_metric list" where
  "FIREWALL_METRIC_NAMES =
     [DETECTION_BLOCK_TOTAL, POLICY_DENY_TOTAL, CONSENT_ASK_TOTAL,
      DETECTOR_MISS_CONTAINED_TOTAL, UNSAFE_ESCAPE_TOTAL, RUGPULL_TOTAL, TAINT_BLOCK_TOTAL]"

type_synonym metrics_recorder = "(firewall_metric \<times> nat) list"

definition counter_get :: "metrics_recorder \<Rightarrow> firewall_metric \<Rightarrow> nat" where
  "counter_get m name = (case map_of m name of None \<Rightarrow> 0 | Some n \<Rightarrow> n)"

definition metrics_increment :: "metrics_recorder \<Rightarrow> firewall_metric \<Rightarrow> metrics_recorder" where
  "metrics_increment m name = AList.update name (counter_get m name + 1) m"

definition metrics_snapshot :: "metrics_recorder \<Rightarrow> (firewall_metric \<times> nat) list" where
  "metrics_snapshot m = map (\<lambda>name. (name, counter_get m name)) FIREWALL_METRIC_NAMES"

definition metrics_reset :: "metrics_recorder \<Rightarrow> metrics_recorder" where
  "metrics_reset m = []"

definition verdictToMetrics :: "security_verdict \<Rightarrow> firewall_metric list" where
  "verdictToMetrics v =
     (if sv_detection v = DetBlocked then [DETECTION_BLOCK_TOTAL] else []) @
     (if sv_policy v = PolDeny then [POLICY_DENY_TOTAL] else []) @
     (if sv_policy v = PolAsk then [CONSENT_ASK_TOTAL] else []) @
     (if sv_detection v = DetMissed \<and> sv_containment v = Contained
      then [DETECTOR_MISS_CONTAINED_TOTAL] else []) @
     (if sv_detection v = DetMissed \<and> sv_containment v = Escaped
      then [UNSAFE_ESCAPE_TOTAL] else []) @
     (if sv_taint v = Tainted then [TAINT_BLOCK_TOTAL] else [])"

text \<open>Recording a sequence of gateway verdicts, each through \<open>verdictToMetrics\<close>.\<close>

definition record_verdict :: "metrics_recorder \<Rightarrow> security_verdict \<Rightarrow> metrics_recorder" where
  "record_verdict m v = foldl metrics_increment m (verdictToMetrics v)"

lemma counter_increment:
  "counter_get (metrics_increment m name) name' =
     counter_get m name' + (if name' = name then 1 else 0)"
  by (simp add: counter_get_def metrics_increment_def update_conv' split: option.splits)

lemma counter_foldl:
  "counter_get (foldl metrics_increment m names) name = counter_get m name + count_list names name"
  by (induction names arbitrary: m) (auto simp: counter_increment)

lemma counter_record:
  "counter_get (foldl record_verdict m vs) name =
     counter_get m name + sum_list (map (\<lambda>v. count_list (verdictToMetrics v) name) vs)"
  by (induction vs arbitrary: m) (auto simp: record_verdict_def counter_foldl)

lemma snapshot_counter:
  "map_of (metrics_snapshot m) name = Some (counter_get m name)"
  by (cases name) (simp_all add: metrics_snapshot_def FIREWALL_METRIC_NAMES_def)

lemma deny_metric_once:
  "count_list (verdictToMetrics v) POLICY_DENY_TOTAL = (if sv_policy v = PolDeny then 1 else 0)"
  by (auto simp: verdictToMetrics_def)

lemma escape_metric_once:
  "count_list (verdictToMetrics v) UNSAFE_ESCAPE_TOTAL =
     (if sv_detection v = DetMissed \<and> sv_containment v = Escaped then 1 else 0)"
  by (auto simp: verdictToMetrics_def)

lemma sum_list_indicator:
  "sum_list (map (\<lambda>v. if P v then 1 else (0::nat)) vs) = length (filter P vs)"
  by (induction vs) auto

section \<open>Properties\<close>

text \<open>A verdict says escaped exactly when vetting ran and found nothing, the call was let through and
  the result is untainted; and a call that ran after a miss with a tainted result is reported as
  not executed, although it was.\<close>

theorem escape_and_tainted_run:
  "(sv_containment (composeVerdict (Some v) d taint c) = Escaped \<longleftrightarrow>
      detection_of (Some v) = DetMissed \<and> policy_of (tid_decision d) = PolAllow \<and>
      \<not> (case taint of None \<Rightarrow> False | Some ob \<Rightarrow> isTainted ob)) \<and>
   sv_containment (composeVerdict (Some (v\<lparr>vr_findings := [], vr_blocked := False\<rparr>))
     (d\<lparr>tid_decision := Allow\<rparr>) (Some (ob\<lparr>to_taintLabels := [Secret]\<rparr>)) c) = NotExecuted"
  by (cases "policy_of (tid_decision d)")
    (auto simp: composeVerdict_def Let_def isTainted_def detection_of_def policy_of_def split: option.splits if_splits)

text \<open>The counters are exact: after any sequence of verdicts the snapshot shows, on top of the
  starting value, as many denials, confirmations and escapes as the sequence held.\<close>

theorem metrics_count_verdicts:
  "map_of (metrics_snapshot (foldl record_verdict m vs)) POLICY_DENY_TOTAL =
     Some (counter_get m POLICY_DENY_TOTAL + length (filter (\<lambda>v. sv_policy v = PolDeny) vs)) \<and>
   map_of (metrics_snapshot (foldl record_verdict m vs)) UNSAFE_ESCAPE_TOTAL =
     Some (counter_get m UNSAFE_ESCAPE_TOTAL +
       length (filter (\<lambda>v. sv_detection v = DetMissed \<and> sv_containment v = Escaped) vs))"
  by (simp add: snapshot_counter counter_record deny_metric_once escape_metric_once
      sum_list_indicator)

end
