(* ===== verification/Mcp_Gateway.thy ===== *)
theory Mcp_Gateway
  imports Security_Profile Canonical_Json Firewall_Verdict
begin

text \<open>
  The gateway (packages/mcp-firewall/src/gateway.ts): identities, server cards, scope leases,
  approval receipts, the state-changing heuristic and the stateful \<open>MCPGateway\<close> that runs vetting,
  the rule stack, consent and the verdict for each request. What the platform supplies is the
  record \<open>platform\<close>: SHA-256 in hex, \<open>JSON.stringify\<close>, the static scanner of vetting.ts and the
  URL parser. The current time is an argument in milliseconds.
\<close>

record platform =
  pf_sha :: "string \<Rightarrow> string"
  pf_stringify :: "json \<Rightarrow> string"
  pf_scan :: "string \<Rightarrow> vetted_field \<Rightarrow> string \<Rightarrow> tool_risk_finding list"
  pf_parse_url :: "string \<Rightarrow> (string \<times> string) option"

section \<open>Identities, cards, leases, receipts\<close>

record request_identity =
  ri_principalHash :: string
  ri_sessionId :: string
  ri_parentSessionId :: "string option"
  ri_issuedAt :: int

definition createRequestIdentity ::
  "platform \<Rightarrow> int \<Rightarrow> string \<Rightarrow> string \<Rightarrow> string option \<Rightarrow> request_identity" where
  "createRequestIdentity pf now who sessionId parent =
     \<lparr>ri_principalHash = take 16 (pf_sha pf who), ri_sessionId = sessionId,
      ri_parentSessionId = parent, ri_issuedAt = now\<rparr>"

record server_card =
  sc_serverId :: string
  sc_displayName :: "string option"
  sc_toolManifestDigest :: string
  sc_registeredAt :: int
  sc_declaredCapabilities :: "string list option"
  sc_operatorVerified :: bool

definition buildServerCard ::
  "platform \<Rightarrow> int \<Rightarrow> string \<Rightarrow> string option \<Rightarrow> mcp_tool_entry list \<Rightarrow> string list option
     \<Rightarrow> bool option \<Rightarrow> server_card" where
  "buildServerCard pf now serverId displayName tools caps verified =
     (let manifest = pf_stringify pf (JArr (map (\<lambda>t.
            JObj [(''name'', JStr (te_name t)), (''schema'', te_inputSchema t)]) tools))
      in \<lparr>sc_serverId = serverId, sc_displayName = displayName,
          sc_toolManifestDigest = pf_sha pf manifest, sc_registeredAt = now,
          sc_declaredCapabilities = caps,
          sc_operatorVerified = (case verified of None \<Rightarrow> False | Some b \<Rightarrow> b)\<rparr>)"

record scope_lease =
  sl_leaseId :: string
  sl_principalHash :: string
  sl_serverId :: string
  sl_grantedTools :: "string list"
  sl_expiresAt :: int
  sl_stateChanging :: bool
  sl_maxInvocations :: "int option"
  sl_invocationCount :: int

text \<open>\<open>fmt\<close> prints a time with \<open>toISOString\<close>; \<open>uuid\<close> is the random salt of the call.\<close>

definition createScopeLease ::
  "platform \<Rightarrow> (int \<Rightarrow> string) \<Rightarrow> int \<Rightarrow> string \<Rightarrow> string \<Rightarrow> string \<Rightarrow> string list \<Rightarrow> int option
     \<Rightarrow> bool option \<Rightarrow> int option \<Rightarrow> scope_lease" where
  "createScopeLease pf fmt now uuid who serverId tools ttlSeconds stateChanging maxInvocations =
     (let ttl = (case ttlSeconds of None \<Rightarrow> 300 | Some t \<Rightarrow> t);
          expiry = now + ttl * 1000
      in \<lparr>sl_leaseId = take 16 (pf_sha pf (who @ serverId @ fmt expiry @ uuid)),
          sl_principalHash = who, sl_serverId = serverId, sl_grantedTools = tools,
          sl_expiresAt = expiry,
          sl_stateChanging = (case stateChanging of None \<Rightarrow> False | Some b \<Rightarrow> b),
          sl_maxInvocations = maxInvocations, sl_invocationCount = 0\<rparr>)"

definition isScopeLeaseValid :: "int \<Rightarrow> scope_lease \<Rightarrow> bool" where
  "isScopeLeaseValid now l =
     (if sl_expiresAt l \<le> now then False
      else (case sl_maxInvocations l of None \<Rightarrow> True
            | Some m \<Rightarrow> if sl_invocationCount l \<ge> m then False else True))"

record approval_receipt =
  ar_receiptId :: string
  ar_leaseId :: "string option"
  ar_principalHash :: string
  ar_toolName :: string
  ar_uiTextHash :: string
  ar_toolDescriptorHash :: string
  ar_argsDigest :: string
  ar_approvedAt :: int
  ar_expiresAt :: int

definition args_digest :: "platform \<Rightarrow> json \<Rightarrow> string" where
  "args_digest pf args = take 16 (pf_sha pf (stableStringify args))"

definition createApprovalReceipt ::
  "platform \<Rightarrow> (int \<Rightarrow> string) \<Rightarrow> int \<Rightarrow> string option \<Rightarrow> string \<Rightarrow> string \<Rightarrow> string \<Rightarrow> string \<Rightarrow> json
     \<Rightarrow> int option \<Rightarrow> approval_receipt" where
  "createApprovalReceipt pf fmt now leaseId who toolName uiText toolDescriptor args ttlSeconds =
     (let ttl = (case ttlSeconds of None \<Rightarrow> 60 | Some t \<Rightarrow> t)
      in \<lparr>ar_receiptId = take 16 (pf_sha pf (who @ toolName @ fmt now)), ar_leaseId = leaseId,
          ar_principalHash = who, ar_toolName = toolName,
          ar_uiTextHash = take 16 (pf_sha pf uiText),
          ar_toolDescriptorHash = take 16 (pf_sha pf toolDescriptor),
          ar_argsDigest = args_digest pf args, ar_approvedAt = now,
          ar_expiresAt = now + ttl * 1000\<rparr>)"

definition STATE_CHANGING_PATTERNS :: "string list" where
  "STATE_CHANGING_PATTERNS =
     [''write'', ''create'', ''delete'', ''remove'', ''modify'', ''update'', ''commit'', ''push'',
      ''publish'', ''deploy'', ''execute'', ''run'', ''post'', ''send'', ''submit'', ''upload'',
      ''install'', ''import'', ''drop'', ''insert'', ''truncate'', ''rename'', ''move'', ''mkdir'',
      ''patch'', ''merge'', ''kill'', ''format'', ''apply'']"

definition isStateChangingTool :: "mcp_tool_entry \<Rightarrow> bool" where
  "isStateChangingTool tool =
     any_word (ascii_lower (te_name tool @ '' '' @ te_description tool)) STATE_CHANGING_PATTERNS"

section \<open>The gateway\<close>

datatype gateway_profile = LegacyProfile | HardenedProfile | CustomProfile

text \<open>The stack the constructor chose; the hardened one reads the profile registry at each call.\<close>

datatype rule_stack = CallerRules "policy_rule list" | HardenedRules "invocation_decision option" | LegacyRules

record gateway =
  gw_stack :: rule_stack
  gw_requested :: gateway_profile
  gw_effective :: gateway_profile
  gw_serverCards :: "(string \<times> server_card) list"
  gw_vettingCache :: "(string \<times> vetting_result) list"
  gw_consentRecords :: "consent_record list"
  gw_capabilityRegistry :: "capability_registry option"
  gw_profileRegistry :: "profile_registry option"
  gw_tenantEnforcement :: bool
  gw_unprofiledToolPolicy :: unprofiled_tool_policy

definition makeGateway ::
  "policy_rule list option \<Rightarrow> gateway_profile option \<Rightarrow> server_card list \<Rightarrow> capability_registry option
     \<Rightarrow> profile_registry option \<Rightarrow> invocation_decision option \<Rightarrow> bool option
     \<Rightarrow> unprofiled_tool_policy option \<Rightarrow> gateway" where
  "makeGateway rules securityProfile cards caps profiles unknownDecision tenantEnforcement unprofiled =
     (let requested = (case securityProfile of None \<Rightarrow> HardenedProfile | Some p \<Rightarrow> p);
          effective = (if rules \<noteq> None \<and> requested \<noteq> LegacyProfile then CustomProfile else requested)
      in \<lparr>gw_stack = (case rules of Some rs \<Rightarrow> CallerRules rs
                      | None \<Rightarrow> if effective = HardenedProfile then HardenedRules unknownDecision
                               else LegacyRules),
          gw_requested = requested, gw_effective = effective,
          gw_serverCards = foldl (\<lambda>m c. AList.update (sc_serverId c) c m) [] cards,
          gw_vettingCache = [], gw_consentRecords = [], gw_capabilityRegistry = caps,
          gw_profileRegistry = profiles,
          gw_tenantEnforcement = (case tenantEnforcement of None \<Rightarrow> False | Some b \<Rightarrow> b),
          gw_unprofiledToolPolicy =
            (case unprofiled of Some p \<Rightarrow> p
             | None \<Rightarrow> if effective = HardenedProfile then AskUnprofiled else AllowReadHeuristic)\<rparr>)"

definition gateway_rules :: "platform \<Rightarrow> gateway \<Rightarrow> string option \<Rightarrow> policy_rule list" where
  "gateway_rules pf g snap =
     (case gw_stack g of CallerRules rs \<Rightarrow> rs
      | HardenedRules d \<Rightarrow> makeHardenedRuleStack (pf_parse_url pf) (gw_profileRegistry g) d snap
      | LegacyRules \<Rightarrow> DEFAULT_RULES)"

definition registerServerCard :: "gateway \<Rightarrow> server_card \<Rightarrow> gateway" where
  "registerServerCard g scard =
     g\<lparr>gw_serverCards := AList.update (sc_serverId scard) scard (gw_serverCards g)\<rparr>"

definition registerToolSecurityProfile ::
  "platform \<Rightarrow> gateway \<Rightarrow> mcp_tool_entry \<Rightarrow> string \<Rightarrow> tool_security_profile \<Rightarrow> string + gateway" where
  "registerToolSecurityProfile pf g entry serverId p =
     (case gw_profileRegistry g of
        None \<Rightarrow> Inl ''registerToolSecurityProfile requires a profileRegistry in MCPGatewayOptions''
      | Some r \<Rightarrow>
          Inr (g\<lparr>gw_profileRegistry := Some (profile_register r
                   (p\<lparr>sp_toolSnapshotHash :=
                      computeToolSnapshotHash (pf_sha pf) (pf_stringify pf) entry serverId\<rparr>))\<rparr>))"

definition expired_at :: "int \<Rightarrow> isodate option \<Rightarrow> bool" where
  "expired_at now e = (case e of Some (DateMs t) \<Rightarrow> t \<le> now | _ \<Rightarrow> False)"

definition addConsentRecord :: "int \<Rightarrow> gateway \<Rightarrow> consent_record \<Rightarrow> gateway" where
  "addConsentRecord now g c =
     g\<lparr>gw_consentRecords :=
         filter (\<lambda>c. \<not> expired_at now (cr_expiresAt c)) (gw_consentRecords g @ [c])\<rparr>"

definition VETTING_CACHE_CAP :: nat where "VETTING_CACHE_CAP = 500"

text \<open>The cache step of \<open>evaluate\<close>: the result, and the cache after the call.\<close>

definition cached_vetting ::
  "platform \<Rightarrow> (string \<times> vetting_result) list \<Rightarrow> mcp_tool_entry \<Rightarrow> string
     \<Rightarrow> vetting_result \<times> (string \<times> vetting_result) list" where
  "cached_vetting pf cache tool key =
     (case map_of cache key of
        Some v \<Rightarrow> (v, cache)
      | None \<Rightarrow>
          (let v = vetTool (pf_sha pf) (pf_stringify pf) (pf_scan pf) tool None;
               c = AList.delete key cache @ [(key, v)]
           in (v, if length c > VETTING_CACHE_CAP then tl c else c)))"

record gateway_request =
  rq_identity :: request_identity
  rq_serverId :: string
  rq_tool :: mcp_tool_entry
  rq_args :: tool_args
  rq_inputProvenance :: "tainted_observation list option"
  rq_tenant :: "string option"

record gateway_decision =
  gd_invocation :: tool_invocation_decision
  gd_stateChanging :: bool
  gd_serverCard :: "server_card option"
  gd_resultTrustLevel :: trust_level
  gd_capabilityEffect :: effect_class
  gd_resultTaintLabels :: "taint_label list option"
  gd_principalHash :: string
  gd_sessionId :: string
  gd_toolManifestDigest :: "string option"
  gd_policyDecision :: invocation_decision
  gd_securityProfile :: gateway_profile
  gd_inputTaintLabels :: "taint_label list option"
  gd_verdict :: security_verdict

definition constant_rule :: "string \<Rightarrow> invocation_decision option \<Rightarrow> policy_rule" where
  "constant_rule pid d = \<lparr>policyId = pid, evaluate = (\<lambda>toolName args vetting. d)\<rparr>"

definition high_risk_effect :: "effect_class \<Rightarrow> bool" where
  "high_risk_effect e = (e = ExecEffect \<or> e = ReadSecret \<or> e = WriteExternal \<or> e = CrossTenantEffect)"

text \<open>The rules \<open>evaluate\<close> appends for one request, in the order it pushes them.\<close>

definition request_rules ::
  "platform \<Rightarrow> int \<Rightarrow> gateway \<Rightarrow> gateway_request \<Rightarrow> security_context \<Rightarrow> policy_rule list" where
  "request_rules pf now g req resolved =
     (let verified = (case map_of (gw_serverCards g) (rq_serverId req) of
                        None \<Rightarrow> False | Some c \<Rightarrow> sc_operatorVerified c);
          trusted = (rc_provenance resolved = TrustedProfile);
          who = ri_principalHash (rq_identity req);
          tenant = (case rq_tenant req of Some t \<Rightarrow> t
                    | None \<Rightarrow> if gw_tenantEnforcement g then ''__tenant_unspecified__'' else rq_serverId req);
          required = rc_capabilitiesRequired resolved
      in (case gw_capabilityRegistry g of
            Some caps \<Rightarrow> if \<not> trusted then [makeCapabilityPolicyRule now caps who tenant] else []
          | None \<Rightarrow> []) @
         (if trusted \<and> required \<noteq> [] \<and> gw_capabilityRegistry g = None
          then [constant_rule ''profile-capability-registry-unavailable'' (Some AskUser)] else []) @
         (case gw_capabilityRegistry g of
            Some caps \<Rightarrow>
              if trusted \<and> required \<noteq> []
              then [constant_rule ''profile-capability-required''
                      (if list_all (hasCapability now caps who tenant) required then None
                       else if high_risk_effect (rc_effect resolved) then Some Deny else Some AskUser)]
              else []
          | None \<Rightarrow> []) @
         (if gw_tenantEnforcement g then
            (if \<not> truthy (rq_tenant req)
             then [constant_rule ''tenant-enforcement-missing-tenant'' (Some Deny)]
             else [makeTenantIsolationRule who (the (rq_tenant req))])
          else []) @
         (if \<not> trusted \<and> \<not> verified \<and> gw_unprofiledToolPolicy g \<noteq> AllowReadHeuristic then
            (case evaluateUnprofiledToolPolicy resolved (gw_unprofiledToolPolicy g) of
               None \<Rightarrow> []
             | Some d \<Rightarrow> [constant_rule
                 (if gw_unprofiledToolPolicy g = DenyUnprofiled then ''unprofiled-tool-deny''
                  else ''unprofiled-tool-ask_user'') (Some d)])
          else []) @
         (case rq_inputProvenance req of
            None \<Rightarrow> []
          | Some prov \<Rightarrow>
              if prov = [] then []
              else makeTaintProvenanceRules (pf_sha pf) prov
                     (if trusted then rc_sinks resolved
                      else classifyToolSinks (te_name (rq_tool req)) (Some (te_description (rq_tool req))))))"

definition request_snapshot :: "platform \<Rightarrow> gateway \<Rightarrow> gateway_request \<Rightarrow> string option" where
  "request_snapshot pf g req =
     (case gw_profileRegistry g of None \<Rightarrow> None
      | Some r \<Rightarrow> Some (computeToolSnapshotHash (pf_sha pf) (pf_stringify pf) (rq_tool req) (rq_serverId req)))"

definition request_context :: "platform \<Rightarrow> gateway \<Rightarrow> gateway_request \<Rightarrow> security_context" where
  "request_context pf g req =
     resolveToolSecurityContext (pf_parse_url pf) (gw_profileRegistry g) (request_snapshot pf g req)
       (te_name (rq_tool req)) (rq_args req)"

definition gateway_evaluate ::
  "platform \<Rightarrow> int \<Rightarrow> gateway \<Rightarrow> gateway_request \<Rightarrow> gateway_decision \<times> gateway" where
  "gateway_evaluate pf now g req =
     (let key = buildVettingCacheKey (pf_sha pf) (pf_stringify pf) (rq_tool req) (rq_serverId req);
          (vetting, cache) = cached_vetting pf (gw_vettingCache g) (rq_tool req) key;
          scard = map_of (gw_serverCards g) (rq_serverId req);
          resolved = request_context pf g req;
          rules = gateway_rules pf g (request_snapshot pf g req) @ request_rules pf now g req resolved;
          invocation = evaluatePolicy now (te_name (rq_tool req)) (rq_args req) (Some vetting)
                         (gw_consentRecords g) rules (Some key)
                         (Some (ri_principalHash (rq_identity req)))
                         (Some (args_digest pf (JObj (rq_args req))))
                         (Some (ri_sessionId (rq_identity req)))
      in (\<lparr>gd_invocation = invocation,
           gd_stateChanging = isStateChangingTool (rq_tool req),
           gd_serverCard = scard,
           gd_resultTrustLevel =
             (if tid_decision invocation = Allow \<and> (case scard of None \<Rightarrow> False | Some c \<Rightarrow> sc_operatorVerified c)
              then Verified else Untrusted),
           gd_capabilityEffect = rc_effect resolved,
           gd_resultTaintLabels =
             (case rc_profile resolved of None \<Rightarrow> None
              | Some p \<Rightarrow> (case sp_resultTaintLabels p of None \<Rightarrow> None
                           | Some l \<Rightarrow> if l = [] then None else Some l)),
           gd_principalHash = ri_principalHash (rq_identity req),
           gd_sessionId = ri_sessionId (rq_identity req),
           gd_toolManifestDigest = map_option sc_toolManifestDigest scard,
           gd_policyDecision = tid_decision invocation,
           gd_securityProfile = gw_effective g,
           gd_inputTaintLabels =
             (case rq_inputProvenance req of None \<Rightarrow> None
              | Some prov \<Rightarrow> if prov = [] then None else Some (collectInputTaintLabels (Some prov))),
           gd_verdict = composeVerdict (Some vetting) invocation None
                          (truthy (tid_userConsentRef invocation))\<rparr>,
          g\<lparr>gw_vettingCache := cache\<rparr>))"

definition wrapResult ::
  "platform \<Rightarrow> (string \<Rightarrow> real) \<Rightarrow> string \<Rightarrow> string \<Rightarrow> gateway_decision \<Rightarrow> taint_label list option
     \<Rightarrow> tainted_observation" where
  "wrapResult pf adv toolName rawResult decision labels =
     taintObservation (pf_sha pf) adv toolName rawResult
       \<lparr>topt_trust = Some (gd_resultTrustLevel decision), topt_sanitizers = None, topt_taintLabels = labels\<rparr>"

definition wrapResultVerdict :: "tainted_observation \<Rightarrow> gateway_decision \<Rightarrow> security_verdict" where
  "wrapResultVerdict obs prior =
     composeVerdict None (gd_invocation prior) (Some obs)
       (truthy (tid_userConsentRef (gd_invocation prior)))"

section \<open>Lemmas: the decision of a request\<close>

definition all_rules :: "platform \<Rightarrow> int \<Rightarrow> gateway \<Rightarrow> gateway_request \<Rightarrow> policy_rule list" where
  "all_rules pf now g req =
     gateway_rules pf g (request_snapshot pf g req) @ request_rules pf now g req (request_context pf g req)"

definition request_key :: "platform \<Rightarrow> gateway_request \<Rightarrow> string" where
  "request_key pf req = buildVettingCacheKey (pf_sha pf) (pf_stringify pf) (rq_tool req) (rq_serverId req)"

definition request_vetting :: "platform \<Rightarrow> gateway \<Rightarrow> gateway_request \<Rightarrow> vetting_result" where
  "request_vetting pf g req = fst (cached_vetting pf (gw_vettingCache g) (rq_tool req) (request_key pf req))"

definition request_consent :: "platform \<Rightarrow> int \<Rightarrow> gateway \<Rightarrow> gateway_request \<Rightarrow> consent_record option" where
  "request_consent pf now g req =
     lookupConsent now (gw_consentRecords g) (te_name (rq_tool req)) (Some (request_key pf req))
       (Some (ri_principalHash (rq_identity req))) (Some (args_digest pf (JObj (rq_args req))))
       (Some (ri_sessionId (rq_identity req)))"

abbreviation decided :: "platform \<Rightarrow> int \<Rightarrow> gateway \<Rightarrow> gateway_request \<Rightarrow> invocation_decision" where
  "decided pf now g req \<equiv> tid_decision (gd_invocation (fst (gateway_evaluate pf now g req)))"

abbreviation request_fires ::
  "invocation_decision \<Rightarrow> platform \<Rightarrow> int \<Rightarrow> gateway \<Rightarrow> gateway_request \<Rightarrow> bool" where
  "request_fires d pf now g req \<equiv>
     fires d (all_rules pf now g req) (te_name (rq_tool req)) (rq_args req) (Some (request_vetting pf g req))"

lemma gateway_invocation:
  "gd_invocation (fst (gateway_evaluate pf now g req)) =
     evaluatePolicy now (te_name (rq_tool req)) (rq_args req) (Some (request_vetting pf g req))
       (gw_consentRecords g) (all_rules pf now g req) (Some (request_key pf req))
       (Some (ri_principalHash (rq_identity req))) (Some (args_digest pf (JObj (rq_args req))))
       (Some (ri_sessionId (rq_identity req)))"
  by (simp add: gateway_evaluate_def all_rules_def request_key_def request_vetting_def Let_def
      split: prod.splits)

lemma gateway_state:
  "snd (gateway_evaluate pf now g req) =
     g\<lparr>gw_vettingCache := snd (cached_vetting pf (gw_vettingCache g) (rq_tool req) (request_key pf req))\<rparr>"
  by (simp add: gateway_evaluate_def request_key_def Let_def split: prod.splits)

lemma gateway_decided:
  "decided pf now g req =
     (if request_fires Deny pf now g req then Deny
      else if request_fires AskUser pf now g req \<and> request_consent pf now g req = None then AskUser
      else if request_fires DryRun pf now g req then DryRun
      else Allow)"
  unfolding gateway_invocation decision_cases request_consent_def ..

lemma gateway_consent_ref:
  "tid_userConsentRef (gd_invocation (fst (gateway_evaluate pf now g req))) =
     map_option cr_toolSnapshotHash (request_consent pf now g req)"
  unfolding gateway_invocation consent_ref request_consent_def ..

lemma evaluate_constant [simp]: "evaluate (constant_rule pid r) t a v = r"
  by (simp add: constant_rule_def)

lemma evaluate_tenant [simp]:
  "evaluate (makeTenantIsolationRule who tn) t a v = (if detectCrossTenantAccess a tn then Some Deny else None)"
  by (simp add: makeTenantIsolationRule_def)

text \<open>Denials contributed by the tenant and the provenance guards of a request.\<close>

lemma tenant_guard:
  assumes "gw_tenantEnforcement g"
  shows "fires Deny (request_rules pf now g req ctx) t a v \<or>
         truthy (rq_tenant req) \<and> \<not> detectCrossTenantAccess a (the (rq_tenant req))"
  using assms by (cases "truthy (rq_tenant req)") (simp_all add: request_rules_def Let_def)

lemma provenance_guard:
  assumes "rq_inputProvenance req = Some prov" and "list_ex hasSensitiveLabels prov"
    and "sinkDenied (if rc_provenance ctx = TrustedProfile then rc_sinks ctx
                     else classifyToolSinks (te_name (rq_tool req)) (Some (te_description (rq_tool req))))"
  shows "fires Deny (request_rules pf now g req ctx) t a v"
proof -
  have "prov \<noteq> []" using assms(2) by auto
  then show ?thesis using assms provenance_deny by (auto simp: request_rules_def Let_def)
qed

lemma capability_guard:
  assumes "gw_capabilityRegistry g = Some caps" and "rc_provenance ctx \<noteq> TrustedProfile"
    and "evaluate (makeCapabilityPolicyRule now caps (ri_principalHash (rq_identity req))
           (case rq_tenant req of Some t \<Rightarrow> t
            | None \<Rightarrow> if gw_tenantEnforcement g then ''__tenant_unspecified__'' else rq_serverId req)) t a v = Some d"
  shows "fires d (request_rules pf now g req ctx) t a v"
  using assms by (simp add: request_rules_def Let_def)

lemma hardened_deny:
  assumes "gw_stack g = HardenedRules d" and "fires Deny (FULL_DEFAULT_RULES (pf_parse_url pf)) t a v"
  shows "fires Deny (gateway_rules pf g snap) t a v"
  using assms hardened_includes_defaults by (simp add: gateway_rules_def)

section \<open>Lemmas: the gateway as a consent store\<close>

definition gateway_lookup ::
  "int \<Rightarrow> gateway \<Rightarrow> string \<Rightarrow> string option \<Rightarrow> string option \<Rightarrow> string option \<Rightarrow> string option
     \<Rightarrow> consent_record option" where
  "gateway_lookup now g tool user snap digest session =
     lookupConsent now (gw_consentRecords g) tool snap user digest session"

lemma live_not_expired: "live_at now e \<Longrightarrow> \<not> expired_at now e"
  by (auto simp: live_at_def expired_at_def split: option.splits isodate.splits)

interpretation gateway_store: consent_store_laws addConsentRecord gateway_lookup gw_consentRecords
proof unfold_locales
  fix now and g :: gateway and tool user snap dig ses c
  assume "gateway_lookup now g tool user snap dig ses = Some c"
  then show "c \<in> set (gw_consentRecords g) \<and> consent_matches now tool snap user dig ses c"
    unfolding gateway_lookup_def by (rule lookupConsent_sound)
next
  fix c and g :: gateway and now tool snap user dig ses
  assume "c \<in> set (gw_consentRecords g)" "consent_matches now tool snap user dig ses c"
  then show "gateway_lookup now g tool user snap dig ses \<noteq> None"
    using lookupConsent_None [of now "gw_consentRecords g" tool snap user dig ses]
    by (auto simp: gateway_lookup_def)
qed (auto simp: addConsentRecord_def live_not_expired split: if_splits)

section \<open>Lemmas: the vetting cache\<close>

datatype gateway_event =
    EvEvaluate int gateway_request | EvConsent int consent_record | EvCard server_card
  | EvProfile mcp_tool_entry string tool_security_profile

fun gateway_step :: "platform \<Rightarrow> gateway \<Rightarrow> gateway_event \<Rightarrow> gateway" where
  "gateway_step pf g (EvEvaluate now req) = snd (gateway_evaluate pf now g req)"
| "gateway_step pf g (EvConsent now c) = addConsentRecord now g c"
| "gateway_step pf g (EvCard c) = registerServerCard g c"
| "gateway_step pf g (EvProfile entry sid p) =
     (case registerToolSecurityProfile pf g entry sid p of Inl _ \<Rightarrow> g | Inr g' \<Rightarrow> g')"

text \<open>Every cached result is that of a vetted tool with the entry's key, and the cap holds.\<close>

definition cache_ok :: "platform \<Rightarrow> gateway \<Rightarrow> bool" where
  "cache_ok pf g =
     (length (gw_vettingCache g) \<le> VETTING_CACHE_CAP \<and> distinct (map fst (gw_vettingCache g)) \<and>
      (\<forall>(k, v) \<in> set (gw_vettingCache g). \<exists>tool sid.
         k = buildVettingCacheKey (pf_sha pf) (pf_stringify pf) tool sid \<and>
         v = vetTool (pf_sha pf) (pf_stringify pf) (pf_scan pf) tool None))"

lemma cached_vetting_ok:
  assumes "length cache \<le> VETTING_CACHE_CAP" "distinct (map fst cache)"
  shows "length (snd (cached_vetting pf cache tool key)) \<le> VETTING_CACHE_CAP \<and>
         distinct (map fst (snd (cached_vetting pf cache tool key))) \<and>
         set (snd (cached_vetting pf cache tool key)) \<subseteq>
           insert (key, vetTool (pf_sha pf) (pf_stringify pf) (pf_scan pf) tool None) (set cache)"
proof (cases "map_of cache key")
  case None
  let ?c = "AList.delete key cache @ [(key, vetTool (pf_sha pf) (pf_stringify pf) (pf_scan pf) tool None)]"
  have "length (AList.delete key cache) \<le> length cache" by (simp add: AList.delete_eq)
  then have "length ?c \<le> Suc VETTING_CACHE_CAP" using assms(1) by simp
  moreover have "distinct (map fst ?c)" using assms(2) by (simp add: AList.delete_keys distinct_removeAll)
  moreover have "set ?c \<subseteq> insert (key, vetTool (pf_sha pf) (pf_stringify pf) (pf_scan pf) tool None) (set cache)"
    by (auto simp: AList.delete_eq)
  moreover have "set (tl ?c) \<subseteq> set ?c" by (rule list.set_sel(2) [THEN subsetI]) auto
  ultimately show ?thesis
    using None by (auto simp: cached_vetting_def Let_def map_tl distinct_tl)
qed (use assms in \<open>auto simp: cached_vetting_def\<close>)

interpretation gateway_cache: kept_invariant "gateway_step pf" "cache_ok pf" for pf
proof
  fix g e
  assume ok: "cache_ok pf g"
  show "cache_ok pf (gateway_step pf g e)"
  proof (cases e)
    case (EvEvaluate now req)
    let ?c = "snd (cached_vetting pf (gw_vettingCache g) (rq_tool req) (request_key pf req))"
    have "length ?c \<le> VETTING_CACHE_CAP \<and> distinct (map fst ?c) \<and>
        set ?c \<subseteq> insert (request_key pf req, vetTool (pf_sha pf) (pf_stringify pf) (pf_scan pf) (rq_tool req) None)
          (set (gw_vettingCache g))"
      using ok by (intro cached_vetting_ok) (simp_all add: cache_ok_def)
    then show ?thesis
      using ok EvEvaluate by (fastforce simp: cache_ok_def gateway_state request_key_def)
  qed (use ok in \<open>auto simp: cache_ok_def addConsentRecord_def registerServerCard_def
      registerToolSecurityProfile_def split: option.splits\<close>)
qed

section \<open>Lemmas: what a request needs\<close>

lemma all_rules_deny:
  "request_fires Deny pf now g req \<Longrightarrow> decided pf now g req = Deny"
  by (simp add: gateway_decided)

lemma request_rule_fires:
  "fires d (request_rules pf now g req (request_context pf g req)) (te_name (rq_tool req)) (rq_args req)
     (Some (request_vetting pf g req)) \<Longrightarrow> request_fires d pf now g req"
  by (simp add: all_rules_def)

lemma stack_fires:
  "fires d (gateway_rules pf g (request_snapshot pf g req)) (te_name (rq_tool req)) (rq_args req)
     (Some (request_vetting pf g req)) \<Longrightarrow> request_fires d pf now g req"
  by (simp add: all_rules_def)

lemma hardened_fires:
  "gw_stack g = HardenedRules u \<Longrightarrow>
     fires d (FULL_DEFAULT_RULES (pf_parse_url pf)) (te_name (rq_tool req)) (rq_args req)
       (Some (request_vetting pf g req)) \<Longrightarrow> request_fires d pf now g req"
  by (rule stack_fires) (simp add: gateway_rules_def hardened_includes_defaults)

text \<open>A platform and a request for the concrete instances below.\<close>

definition sample_platform :: platform where
  "sample_platform = \<lparr>pf_sha = (\<lambda>s. s), pf_stringify = stableStringify,
     pf_scan = (\<lambda>text field name. []), pf_parse_url = (\<lambda>s. None)\<rparr>"

definition sample_request :: "string \<Rightarrow> tool_args \<Rightarrow> string option \<Rightarrow> gateway_request" where
  "sample_request name args tenant =
     \<lparr>rq_identity = \<lparr>ri_principalHash = ''p'', ri_sessionId = ''s'', ri_parentSessionId = None, ri_issuedAt = 0\<rparr>,
      rq_serverId = ''srv'',
      rq_tool = \<lparr>te_name = name, te_description = '''', te_inputSchema = JObj []\<rparr>,
      rq_args = args, rq_inputProvenance = None, rq_tenant = tenant\<rparr>"

definition sample_gateway :: gateway where
  "sample_gateway = makeGateway None None [] (Some []) None None (Some True) (Some AllowReadHeuristic)"

section \<open>Properties\<close>




text \<open>C4. When the caller threads an observation labelled secret or credential into a call and the tool
  touches a dangerous sink, the call is denied whatever its arguments, its rule stack and its
  consent.\<close>

theorem threaded_secret_denied:
  assumes "rq_inputProvenance req = Some prov" and "list_ex hasSensitiveLabels prov"
    and "sinkDenied (if rc_provenance (request_context pf g req) = TrustedProfile
                     then rc_sinks (request_context pf g req)
                     else classifyToolSinks (te_name (rq_tool req)) (Some (te_description (rq_tool req))))"
  shows "decided pf now g req = Deny"
  using provenance_guard [OF assms] request_rule_fires all_rules_deny by blast

text \<open>With a capability registry and no trusted profile, a call whose effect is high-risk and not
  granted to the principal in the tenant is denied, and any other effect that is not read-only and
  not granted runs only with consent.\<close>

theorem ungranted_effect_blocked:
  assumes "gw_capabilityRegistry g = Some caps"
    and "rc_provenance (request_context pf g req) \<noteq> TrustedProfile"
    and "rq_tenant req = Some tn"
    and "classifyEffect (te_name (rq_tool req)) (rq_args req) = e" and "e \<noteq> ReadOnly"
    and "\<not> hasCapability now caps (ri_principalHash (rq_identity req)) tn (requiredCapabilityForEffect e)"
  shows "decided pf now g req = Deny \<or>
         \<not> high_risk_effect e \<and> (decided pf now g req = AskUser \<or> request_consent pf now g req \<noteq> None)"
proof -
  have ev: "evaluate (makeCapabilityPolicyRule now caps (ri_principalHash (rq_identity req))
           (case rq_tenant req of Some t \<Rightarrow> t
            | None \<Rightarrow> if gw_tenantEnforcement g then ''__tenant_unspecified__'' else rq_serverId req))
         (te_name (rq_tool req)) (rq_args req) (Some (request_vetting pf g req)) =
       Some (if high_risk_effect e then Deny else AskUser)"
    using assms(3-6) by (auto simp: capability_rule_result high_risk_effect_def Let_def)
  from capability_guard [OF assms(1,2) ev] request_rule_fires
  have f: "request_fires (if high_risk_effect e then Deny else AskUser) pf now g req" by blast
  then show ?thesis
    using gateway_decided [of pf now g req] by (cases "high_risk_effect e") auto
qed

text \<open>C3. Consent is never borrowed: when a decision cites consent, a record for exactly this tool,
  this principal and this descriptor was recorded, still live, and its argument digest and session,
  when it has them, are those of the call.\<close>

theorem cited_consent_was_recorded:
  assumes "gw_consentRecords g0 = []"
    and "g = foldl (\<lambda>g (t, c). addConsentRecord t g c) g0 history"
    and "tid_userConsentRef (gd_invocation (fst (gateway_evaluate pf now g req))) = Some h"
  shows "list_ex (\<lambda>(t, c).
           cr_toolSnapshotHash c = h \<and> cr_toolName c = te_name (rq_tool req) \<and>
           cr_userIdHash c = ri_principalHash (rq_identity req) \<and>
           live_at now (cr_expiresAt c) \<and>
           (request_key pf req = [] \<or> h = request_key pf req) \<and>
           binding_ok (cr_argScopeDigest c) (Some (args_digest pf (JObj (rq_args req)))) \<and>
           binding_ok (cr_boundToSession c) (Some (ri_sessionId (rq_identity req)))) history"
proof -
  obtain c where c: "request_consent pf now g req = Some c" and h: "cr_toolSnapshotHash c = h"
    using assms(3) by (auto simp: gateway_consent_ref)
  from c have "c \<in> snd ` set history \<and>
      consent_matches now (te_name (rq_tool req)) (Some (request_key pf req))
        (Some (ri_principalHash (rq_identity req))) (Some (args_digest pf (JObj (rq_args req))))
        (Some (ri_sessionId (rq_identity req))) c"
    using gateway_store.found_was_recorded [of now g0 history "te_name (rq_tool req)"
        "Some (ri_principalHash (rq_identity req))" "Some (request_key pf req)"
        "Some (args_digest pf (JObj (rq_args req)))" "Some (ri_sessionId (rq_identity req))" c] assms(1,2)
    by (simp add: request_consent_def gateway_lookup_def)
  then show ?thesis
    using h by (force simp: list_ex_iff consent_matches_def truthy_def)
qed

text \<open>After any sequence of requests, consents and registrations, the vetting cache holds at most
  500 entries under distinct keys, and the vetting of the next request is the fresh vetting of a
  tool whose cache key is that of the request.\<close>

theorem vetting_cache_sound:
  assumes "g = foldl (gateway_step pf) (makeGateway rules prof cards caps profiles unk tenf unp) events"
  shows "length (gw_vettingCache g) \<le> VETTING_CACHE_CAP \<and> distinct (map fst (gw_vettingCache g)) \<and>
         (\<exists>tool sid. request_key pf req = buildVettingCacheKey (pf_sha pf) (pf_stringify pf) tool sid \<and>
            request_vetting pf g req = vetTool (pf_sha pf) (pf_stringify pf) (pf_scan pf) tool None)"
proof -
  have "cache_ok pf g"
    unfolding assms by (rule gateway_cache.run_inv) (simp add: cache_ok_def makeGateway_def Let_def)
  then show ?thesis
    unfolding cache_ok_def request_vetting_def cached_vetting_def
    by (cases "map_of (gw_vettingCache g) (request_key pf req)")
      (auto simp: Let_def request_key_def dest: map_of_SomeD)
qed

theorem vetting_cache_sound_witness:
  "length (gw_vettingCache (foldl (gateway_step sample_platform)
     (makeGateway None None [] None None None None None)
     [EvEvaluate 0 (sample_request ''get'' [] None), EvEvaluate 1 (sample_request ''put'' [] None)])) \<le> 500"
  using vetting_cache_sound [OF refl, where rules = None and prof = None and cards = "[]" and caps = None
      and profiles = None and unk = None and tenf = None and unp = None and pf = sample_platform
      and events = "[EvEvaluate 0 (sample_request ''get'' [] None), EvEvaluate 1 (sample_request ''put'' [] None)]"]
  by (simp only: VETTING_CACHE_CAP_def)

text \<open>The cache is first-in first-out, not least-recently-used: a hit does not move its entry, so
  the oldest entry is evicted by the next miss even when it was used just before.\<close>

theorem cache_hit_not_refreshed:
  assumes "length cache = VETTING_CACHE_CAP" and "distinct (map fst cache)"
    and "cache = (k0, v0) # rest" and "map_of cache k1 = None"
  shows "cached_vetting pf cache t0 k0 = (v0, cache) \<and>
         map_of (snd (cached_vetting pf (snd (cached_vetting pf cache t0 k0)) t1 k1)) k0 = None"
proof -
  have hit: "cached_vetting pf cache t0 k0 = (v0, cache)"
    using assms(3) by (simp add: cached_vetting_def)
  have k1: "k1 \<notin> fst ` set cache" using assms(4) by (simp add: map_of_eq_None_iff)
  have "map_of rest k0 = None" using assms(2,3) by (simp add: map_of_eq_None_iff)
  moreover have "k0 \<noteq> k1" using k1 assms(3) by auto
  ultimately have "map_of (snd (cached_vetting pf cache t1 k1)) k0 = None"
    using assms(1,3,4) k1 by (simp add: cached_vetting_def Let_def map_add_def)
  with hit show ?thesis by simp
qed

theorem cache_hit_not_refreshed_witness:
  "map_of (snd (cached_vetting sample_platform
     (map (\<lambda>i. (nat_str i, vetting_of '''' [])) [0..<500]) (rq_tool (sample_request ''get'' [] None)) ''x'')) ''0'' = None"
proof -
  let ?c = "map (\<lambda>i. (nat_str i, vetting_of '''' [])) [0..<500]"
  let ?tool = "rq_tool (sample_request ''get'' [] None)"
  have l: "length ?c = VETTING_CACHE_CAP" by (simp add: VETTING_CACHE_CAP_def)
  have d: "distinct (map fst ?c)" by (simp add: distinct_map inj_on_def nat_str_inj comp_def)
  have e: "?c = (''0'', vetting_of '''' []) # map (\<lambda>i. (nat_str i, vetting_of '''' [])) [1..<500]"
  proof -
    have "[0..<500] = (0 :: nat) # [1..<500]" by (simp add: upt_conv_Cons)
    moreover have "nat_str 0 = ''0''" by code_simp
    ultimately show ?thesis by (simp del: upt_Suc)
  qed
  have n: "map_of ?c ''x'' = None"
  proof -
    have "\<not> is_digit (CHR ''x'')" by (simp add: is_digit_def)
    then have "nat_str i \<noteq> ''x''" for i using num_str_digits [of "CHR ''x''" i] by (metis list.set_intros(1))
    then have "''x'' \<notin> nat_str ` {0..<500}" by force
    then show ?thesis by (simp add: map_of_eq_None_iff image_image)
  qed
  have "cached_vetting sample_platform ?c ?tool ''0'' = (vetting_of '''' [], ?c) \<and>
      map_of (snd (cached_vetting sample_platform
        (snd (cached_vetting sample_platform ?c ?tool ''0'')) ?tool ''x'')) ''0'' = None"
    by (rule cache_hit_not_refreshed [OF l d e n])
  then show ?thesis by (metis snd_conv)
qed


theorem threaded_secret_denied_witness:
  "decided sample_platform 0 sample_gateway
     (sample_request ''http_post'' [] (Some ''t'')
        \<lparr>rq_inputProvenance := Some [taintObservation (\<lambda>s. s) (\<lambda>s. 0) ''vault'' ''k''
           \<lparr>topt_trust = None, topt_sanitizers = None, topt_taintLabels = Some [Secret]\<rparr>]\<rparr>) = Deny"
proof -
  let ?o = "taintObservation (\<lambda>s. s) (\<lambda>s. 0) ''vault'' ''k''
    \<lparr>topt_trust = None, topt_sanitizers = None, topt_taintLabels = Some [Secret]\<rparr>"
  let ?r = "sample_request ''http_post'' [] (Some ''t'')\<lparr>rq_inputProvenance := Some [?o]\<rparr>"
  have "rq_inputProvenance ?r = Some [?o]" by simp
  moreover have "list_ex hasSensitiveLabels [?o]"
    by (simp add: hasSensitiveLabels_def PROVENANCE_SENSITIVE_LABELS_def taintObservation_def)
  moreover have "rc_provenance (request_context sample_platform sample_gateway ?r) \<noteq> TrustedProfile"
    by (simp add: request_context_def request_snapshot_def sample_gateway_def makeGateway_def Let_def
        resolveToolSecurityContext_def find_profile_def truthy_def Let_def)
  moreover have "sinkDenied (classifyToolSinks ''http_post'' (Some ''''))" by code_simp
  ultimately show ?thesis
    using threaded_secret_denied [of ?r "[?o]" sample_platform sample_gateway 0]
    by (simp add: sample_request_def)
qed

theorem ungranted_effect_blocked_witness:
  "decided sample_platform 0 sample_gateway (sample_request ''bash'' [] (Some ''t'')) = Deny"
proof -
  let ?r = "sample_request ''bash'' [] (Some ''t'')"
  have e: "classifyEffect ''bash'' [] = ExecEffect" by code_simp
  have "rc_provenance (request_context sample_platform sample_gateway ?r) \<noteq> TrustedProfile"
    by (simp add: request_context_def request_snapshot_def sample_gateway_def makeGateway_def Let_def
        resolveToolSecurityContext_def find_profile_def truthy_def Let_def)
  then show ?thesis
    using ungranted_effect_blocked [of sample_gateway "[]" sample_platform ?r "''t''" ExecEffect 0] e
    by (simp add: sample_gateway_def makeGateway_def Let_def sample_request_def hasCapability_def high_risk_effect_def)
qed

theorem cited_consent_was_recorded_witness:
  "list_ex (\<lambda>(t, c). cr_toolName c = ''get'' \<and> cr_userIdHash c = ''p'')
     [(0 :: int, \<lparr>cr_userIdHash = ''p'', cr_toolName = ''get'', cr_expiresAt = None,
       cr_toolSnapshotHash = request_key sample_platform (sample_request ''get'' [] None),
       cr_argScopeDigest = None, cr_boundToSession = None\<rparr>)]"
proof -
  let ?r = "sample_request ''get'' [] None"
  let ?c = "\<lparr>cr_userIdHash = ''p'', cr_toolName = ''get'', cr_expiresAt = None,
       cr_toolSnapshotHash = request_key sample_platform ?r,
       cr_argScopeDigest = None, cr_boundToSession = None\<rparr>"
  let ?g = "foldl (\<lambda>g (t, c). addConsentRecord t g c) sample_gateway [(0, ?c)]"
  have "gw_consentRecords sample_gateway = []" by (simp add: sample_gateway_def makeGateway_def Let_def)
  moreover have "request_consent sample_platform 1 ?g ?r = Some ?c"
    by (simp add: request_consent_def addConsentRecord_def expired_at_def lookupConsent_def
        consent_matches_def live_at_def sample_gateway_def makeGateway_def Let_def sample_request_def
        request_key_def)
  then have "tid_userConsentRef (gd_invocation (fst (gateway_evaluate sample_platform 1 ?g ?r))) =
      Some (request_key sample_platform ?r)"
    by (simp add: gateway_consent_ref)
  ultimately show ?thesis
    using cited_consent_was_recorded [OF _ refl, of sample_gateway sample_platform 1 "[(0, ?c)]" ?r]
    by (simp add: sample_request_def)
qed

end
