(* ===== verification/Resource_Pool.thy ===== *)
theory Resource_Pool
  imports Wa_Prelude "HOL-Library.Multiset"
begin

text \<open>
  The in-memory resource pool (packages/core/src/workflow/ResourcePool.ts) as a state machine over
  the synchronous blocks of its asynchronous code: \<open>acquire\<close> runs up to its first \<open>await\<close>, and the
  event \<open>Continue\<close> runs one task from the settling of the promise it awaits to its next \<open>await\<close>.
  A task is one call of \<open>acquire\<close>, numbered by its position. Capacities and weights are integers;
  an absent capacity is the source's \<open>Infinity\<close>.
\<close>

section \<open>State\<close>

record waiter =
  wt_task :: nat
  wt_weight :: int
  wt_priority :: int
  wt_cancelled :: bool

record slot =
  sl_capacity :: "int option"
  sl_inUse :: int
  sl_waiters :: "waiter list"
  sl_leaseMs :: int

text \<open>
  Where a call of \<open>acquire\<close> stands: queued for a claim, granted it but not yet resumed, rejected but
  not yet rolled back, holding a lease, released, or failed.
\<close>

datatype phase = Waiting string int | Granted string int | Rejected | Held | Released | Failed

record ptask =
  pt_todo :: "(string \<times> int) list"
  pt_priority :: int
  pt_aborted :: bool
  pt_leaseOpt :: int
  pt_acquired :: "(string \<times> int) list"
  pt_phase :: phase
  pt_lease :: int

record pool =
  po_slots :: "string \<Rightarrow> slot option"
  po_tasks :: "ptask list"

definition new_slot :: slot where
  "new_slot = \<lparr>sl_capacity = None, sl_inUse = 0, sl_waiters = [], sl_leaseMs = 0\<rparr>"

definition getOrCreateSlot :: "pool \<Rightarrow> string \<Rightarrow> slot" where
  "getOrCreateSlot p k = (case po_slots p k of None \<Rightarrow> new_slot | Some s \<Rightarrow> s)"

definition put_slot :: "string \<Rightarrow> slot \<Rightarrow> pool \<Rightarrow> pool" where
  "put_slot k s p = p\<lparr>po_slots := (po_slots p)(k \<mapsto> s)\<rparr>"

definition set_task :: "nat \<Rightarrow> ptask \<Rightarrow> pool \<Rightarrow> pool" where
  "set_task i t p = p\<lparr>po_tasks := (po_tasks p)[i := t]\<rparr>"

definition set_phase :: "nat \<Rightarrow> phase \<Rightarrow> pool \<Rightarrow> pool" where
  "set_phase i ph p = set_task i ((po_tasks p ! i)\<lparr>pt_phase := ph\<rparr>) p"

definition fits :: "slot \<Rightarrow> int \<Rightarrow> bool" where
  "fits s w = (case sl_capacity s of None \<Rightarrow> True | Some c \<Rightarrow> sl_inUse s + w \<le> c)"

section \<open>Operations\<close>

text \<open>The loop of \<open>#drain\<close>: every turn shifts a waiter or stops, so the queue length bounds it.\<close>

fun drain_loop :: "nat \<Rightarrow> string \<Rightarrow> pool \<Rightarrow> pool" where
  "drain_loop 0 k p = p"
| "drain_loop (Suc n) k p =
     (let s = getOrCreateSlot p k
      in case sl_waiters s of
           [] \<Rightarrow> p
         | w # ws \<Rightarrow>
             if wt_cancelled w then drain_loop n k (put_slot k (s\<lparr>sl_waiters := ws\<rparr>) p)
             else if \<not> fits s (wt_weight w) then p
             else drain_loop n k
                    (set_phase (wt_task w) (Granted k (wt_weight w))
                      (put_slot k (s\<lparr>sl_waiters := ws, sl_inUse := sl_inUse s + wt_weight w\<rparr>) p)))"

definition drain :: "string \<Rightarrow> pool \<Rightarrow> pool" where
  "drain k p = (case po_slots p k of None \<Rightarrow> p | Some s \<Rightarrow> drain_loop (length (sl_waiters s)) k p)"

definition releaseOne :: "pool \<Rightarrow> string \<times> int \<Rightarrow> pool" where
  "releaseOne p kw =
     (case po_slots p (fst kw) of None \<Rightarrow> p
      | Some s \<Rightarrow> drain (fst kw) (put_slot (fst kw) (s\<lparr>sl_inUse := max 0 (sl_inUse s - snd kw)\<rparr>) p))"

definition insert_waiter :: "waiter \<Rightarrow> waiter list \<Rightarrow> waiter list" where
  "insert_waiter w ws =
     takeWhile (\<lambda>v. \<not> wt_priority v < wt_priority w) ws @ [w] @
     dropWhile (\<lambda>v. \<not> wt_priority v < wt_priority w) ws"

text \<open>
  \<open>#acquireOne\<close> on behalf of task \<open>i\<close>. A waiter whose signal is already aborted is inserted and
  removed at once.
\<close>

definition acquireOne :: "nat \<Rightarrow> string \<Rightarrow> int \<Rightarrow> pool \<Rightarrow> pool" where
  "acquireOne i k w p =
     (let s = getOrCreateSlot p k;
          p1 = put_slot k s p;
          t = po_tasks p ! i
      in if (case sl_capacity s of None \<Rightarrow> False | Some c \<Rightarrow> c < w) then set_phase i Rejected p1
         else if sl_waiters s = [] \<and> fits s w
         then set_phase i (Granted k w) (put_slot k (s\<lparr>sl_inUse := sl_inUse s + w\<rparr>) p)
         else if pt_aborted t then set_phase i Rejected p1
         else set_phase i (Waiting k w)
                (put_slot k (s\<lparr>sl_waiters :=
                   insert_waiter \<lparr>wt_task = i, wt_weight = w, wt_priority = pt_priority t,
                                  wt_cancelled = False\<rparr> (sl_waiters s)\<rparr>) p))"

text \<open>Claims on one key are summed, in the order of first mention; weights up to 0 are skipped.\<close>

definition merge_step :: "(string \<times> int) list \<Rightarrow> string \<times> int option \<Rightarrow> (string \<times> int) list" where
  "merge_step m c =
     (let w = (case snd c of None \<Rightarrow> 1 | Some x \<Rightarrow> x)
      in if w \<le> 0 then m
         else AList.update (fst c) ((case map_of m (fst c) of None \<Rightarrow> 0 | Some x \<Rightarrow> x) + w) m)"

definition merge_claims :: "(string \<times> int option) list \<Rightarrow> (string \<times> int) list" where
  "merge_claims claims = foldl merge_step [] claims"

definition effective_lease :: "pool \<Rightarrow> ptask \<Rightarrow> int" where
  "effective_lease p t =
     (if pt_leaseOpt t \<noteq> 0 then pt_leaseOpt t
      else foldl (\<lambda>l a. case po_slots p (fst a) of None \<Rightarrow> l
                        | Some s \<Rightarrow> if sl_leaseMs s > l then sl_leaseMs s else l)
             0 (pt_acquired t))"

text \<open>The head of the claim loop: the next claim, or the lease when none is left.\<close>

definition next_claim :: "nat \<Rightarrow> pool \<Rightarrow> pool" where
  "next_claim i p =
     (let t = po_tasks p ! i
      in case pt_todo t of
           [] \<Rightarrow> set_task i (t\<lparr>pt_phase := Held, pt_lease := effective_lease p t\<rparr>) p
         | (k, w) # rest \<Rightarrow> acquireOne i k w (set_task i (t\<lparr>pt_todo := rest\<rparr>) p))"

text \<open>
  \<open>acquire\<close> up to its first \<open>await\<close>. The new task starts as rejected with nothing to roll back and
  leaves that phase in \<open>next_claim\<close>. No claims: a lease that holds nothing.
\<close>

definition acquire :: "(string \<times> int option) list \<Rightarrow> int \<Rightarrow> bool \<Rightarrow> int \<Rightarrow> pool \<Rightarrow> pool" where
  "acquire claims prio aborted leaseMs p =
     next_claim (length (po_tasks p))
       (p\<lparr>po_tasks := po_tasks p @
          [\<lparr>pt_todo = merge_claims claims, pt_priority = prio, pt_aborted = aborted,
            pt_leaseOpt = leaseMs, pt_acquired = [], pt_phase = Rejected, pt_lease = 0\<rparr>]\<rparr>)"

text \<open>What runs when the promise a task awaits has settled: go on, or roll back and throw.\<close>

definition resume_task :: "nat \<Rightarrow> pool \<Rightarrow> pool" where
  "resume_task i p =
     (let t = po_tasks p ! i
      in case pt_phase t of
           Granted k w \<Rightarrow> next_claim i (set_task i (t\<lparr>pt_acquired := pt_acquired t @ [(k, w)],
                                                     pt_phase := Rejected\<rparr>) p)
         | Rejected \<Rightarrow> foldl releaseOne (set_phase i Failed p) (pt_acquired t)
         | _ \<Rightarrow> p)"

text \<open>\<open>release()\<close> of a lease, idempotent, and the lease timer.\<close>

definition doRelease :: "nat \<Rightarrow> pool \<Rightarrow> pool" where
  "doRelease i p =
     (let t = po_tasks p ! i
      in if pt_phase t = Held then foldl releaseOne (set_phase i Released p) (pt_acquired t) else p)"

definition lease_timeout :: "nat \<Rightarrow> pool \<Rightarrow> pool" where
  "lease_timeout i p = (if pt_lease (po_tasks p ! i) > 0 then doRelease i p else p)"

text \<open>The abort listener: it only acts on a task that is still queued.\<close>

definition onAbort :: "nat \<Rightarrow> pool \<Rightarrow> pool" where
  "onAbort i p =
     (let t = po_tasks p ! i;
          p1 = set_task i (t\<lparr>pt_aborted := True\<rparr>) p
      in case pt_phase t of
           Waiting k w \<Rightarrow>
             (let s = getOrCreateSlot p1 k
              in set_phase i Rejected
                   (put_slot k (s\<lparr>sl_waiters := filter (\<lambda>v. wt_task v \<noteq> i) (sl_waiters s)\<rparr>) p1))
         | _ \<Rightarrow> p1)"

definition configure :: "string \<Rightarrow> int option option \<Rightarrow> int option \<Rightarrow> pool \<Rightarrow> pool" where
  "configure k cap leaseMs p =
     (let s = getOrCreateSlot p k;
          s1 = (case cap of None \<Rightarrow> s | Some c \<Rightarrow> s\<lparr>sl_capacity := c\<rparr>);
          s2 = (case leaseMs of None \<Rightarrow> s1 | Some l \<Rightarrow> s1\<lparr>sl_leaseMs := l\<rparr>)
      in drain k (put_slot k s2 p))"

text \<open>One entry of the snapshot \<open>inspect\<close> returns: capacity, units in use, queue length.\<close>

definition inspect :: "pool \<Rightarrow> string \<Rightarrow> (int option \<times> int \<times> nat) option" where
  "inspect p k = (case po_slots p k of None \<Rightarrow> None
                  | Some s \<Rightarrow> Some (sl_capacity s, sl_inUse s, length (sl_waiters s)))"

datatype pool_event =
    Acquire "(string \<times> int option) list" int bool int | Continue nat | Release nat | Timeout nat
  | Abort nat

definition pool_step :: "pool \<Rightarrow> pool_event \<Rightarrow> pool" where
  "pool_step p e =
     (case e of
        Acquire cs pr ab l \<Rightarrow> acquire cs pr ab l p
      | Continue i \<Rightarrow> if i < length (po_tasks p) then resume_task i p else p
      | Release i \<Rightarrow> if i < length (po_tasks p) then doRelease i p else p
      | Timeout i \<Rightarrow> if i < length (po_tasks p) then lease_timeout i p else p
      | Abort i \<Rightarrow> if i < length (po_tasks p) then onAbort i p else p)"

section \<open>The invariant\<close>

text \<open>What a task holds of a key.\<close>

definition claims_on :: "string \<Rightarrow> (string \<times> int) list \<Rightarrow> int" where
  "claims_on k cs = sum_list (map (\<lambda>(k', w). if k' = k then w else 0) cs)"

definition held :: "string \<Rightarrow> ptask \<Rightarrow> int" where
  "held k t =
     (case pt_phase t of
        Granted k' w \<Rightarrow> (if k' = k then w else 0) + claims_on k (pt_acquired t)
      | Waiting k' w \<Rightarrow> claims_on k (pt_acquired t)
      | Rejected \<Rightarrow> claims_on k (pt_acquired t)
      | Held \<Rightarrow> claims_on k (pt_acquired t)
      | Released \<Rightarrow> 0
      | Failed \<Rightarrow> 0)"

definition total_held :: "pool \<Rightarrow> string \<Rightarrow> int" where
  "total_held p k = sum_list (map (held k) (po_tasks p))"

definition task_ok :: "ptask \<Rightarrow> bool" where
  "task_ok t =
     (list_all (\<lambda>kw. 0 < snd kw) (pt_todo t) \<and> list_all (\<lambda>kw. 0 < snd kw) (pt_acquired t) \<and>
      (case pt_phase t of Granted k w \<Rightarrow> 0 < w | Waiting k w \<Rightarrow> 0 < w | _ \<Rightarrow> True))"

definition queue_ok :: "ptask list \<Rightarrow> string \<Rightarrow> waiter list \<Rightarrow> bool" where
  "queue_ok ts k ws =
     (distinct (map wt_task ws) \<and> sorted_wrt (\<lambda>v w. wt_priority w \<le> wt_priority v) ws \<and>
      (\<forall>w \<in> set ws. wt_task w < length ts \<and> \<not> wt_cancelled w \<and>
                    pt_phase (ts ! wt_task w) = Waiting k (wt_weight w)))"

definition waiters_ok :: "pool \<Rightarrow> string \<Rightarrow> bool" where
  "waiters_ok p k = queue_ok (po_tasks p) k (sl_waiters (getOrCreateSlot p k))"

definition within_capacity :: "slot \<Rightarrow> bool" where
  "within_capacity s = (case sl_capacity s of None \<Rightarrow> True | Some c \<Rightarrow> sl_inUse s \<le> c)"

text \<open>
  The accounting of a pool, with \<open>xs\<close> the claims of a lease in the middle of its release: units in
  use are the units held, no more than the capacity, and queues hold exactly waiting tasks.
\<close>

definition pool_ok :: "(string \<times> int) list \<Rightarrow> pool \<Rightarrow> bool" where
  "pool_ok xs p =
     (list_all task_ok (po_tasks p) \<and> list_all (\<lambda>kw. 0 < snd kw) xs \<and>
      (\<forall>k. sl_inUse (getOrCreateSlot p k) = total_held p k + claims_on k xs \<and>
           within_capacity (getOrCreateSlot p k) \<and>
           waiters_ok p k))"

section \<open>Lemmas\<close>

lemma queue_ok_update:
  "queue_ok ts k ws \<Longrightarrow> (\<forall>w \<in> set ws. wt_task w \<noteq> i) \<Longrightarrow> queue_ok (ts[i := t]) k ws"
  by (auto simp: queue_ok_def)

lemma queue_ok_member:
  "queue_ok ts k ws \<Longrightarrow> w \<in> set ws \<Longrightarrow>
     wt_task w < length ts \<and> \<not> wt_cancelled w \<and> pt_phase (ts ! wt_task w) = Waiting k (wt_weight w)"
  by (simp add: queue_ok_def)

lemma queue_ok_filter: "queue_ok ts k ws \<Longrightarrow> queue_ok ts k (filter P ws)"
  by (simp add: queue_ok_def distinct_map_filter sorted_wrt_filter)

lemma get_put [simp]: "getOrCreateSlot (put_slot k s p) k' = (if k' = k then s else getOrCreateSlot p k')"
  by (simp add: getOrCreateSlot_def put_slot_def)

lemma get_set_task [simp]: "getOrCreateSlot (set_task i t p) k = getOrCreateSlot p k"
  by (simp add: getOrCreateSlot_def set_task_def)

lemma tasks_put [simp]: "po_tasks (put_slot k s p) = po_tasks p"
  by (simp add: put_slot_def)

lemma tasks_set_task [simp]: "po_tasks (set_task i t p) = (po_tasks p)[i := t]"
  by (simp add: set_task_def)

lemma put_self: "po_slots p k = Some s \<Longrightarrow> put_slot k (getOrCreateSlot p k) p = p"
  by (simp add: put_slot_def getOrCreateSlot_def fun_upd_idem)

lemma claims_on_simps [simp]:
  "claims_on k [] = 0" "claims_on k ((k', w) # cs) = (if k' = k then w else 0) + claims_on k cs"
  "claims_on k (cs @ ds) = claims_on k cs + claims_on k ds"
  by (simp_all add: claims_on_def)

lemma claims_nonneg: "list_all (\<lambda>kw. 0 < snd kw) cs \<Longrightarrow> 0 \<le> claims_on k cs"
  by (induction cs) auto

lemma held_nonneg: "task_ok t \<Longrightarrow> 0 \<le> held k t"
  using claims_nonneg [of "pt_acquired t" k]
  by (auto simp: task_ok_def held_def split: phase.splits)

lemma total_nonneg: "list_all task_ok (po_tasks p) \<Longrightarrow> 0 \<le> total_held p k"
  unfolding total_held_def by (rule sum_list_nonneg) (auto simp: list_all_iff held_nonneg)

lemma sum_list_map_update:
  "i < length xs \<Longrightarrow> sum_list (map f (xs[i := x])) = sum_list (map f xs) - f (xs ! i) + (f x :: int)"
  by (induction xs arbitrary: i) (auto split: nat.splits)

lemma total_set_task:
  "i < length (po_tasks p) \<Longrightarrow>
     total_held (set_task i t p) k = total_held p k - held k (po_tasks p ! i) + held k t"
  by (simp add: total_held_def sum_list_map_update)

lemma total_put [simp]: "total_held (put_slot k s p) k' = total_held p k'"
  by (simp add: total_held_def)

lemma pool_okD:
  assumes "pool_ok xs p"
  shows "list_all task_ok (po_tasks p)" "list_all (\<lambda>kw. 0 < snd kw) xs"
    "sl_inUse (getOrCreateSlot p k) = total_held p k + claims_on k xs"
    "within_capacity (getOrCreateSlot p k)"
    "waiters_ok p k"
  using assms by (auto simp: pool_ok_def)

definition is_waiting :: "phase \<Rightarrow> bool" where
  "is_waiting ph = (case ph of Waiting k w \<Rightarrow> True | _ \<Rightarrow> False)"

text \<open>A task that is in no queue may change as long as the accounting balances.\<close>

lemma update_task_ok:
  assumes ok: "pool_ok xs p" and i: "i < length (po_tasks p)"
    and nw: "\<not> is_waiting (pt_phase (po_tasks p ! i))" and t: "task_ok t"
    and ys: "list_all (\<lambda>kw. 0 < snd kw) ys"
    and bal: "\<And>k. held k t + claims_on k ys = held k (po_tasks p ! i) + claims_on k xs"
  shows "pool_ok ys (set_task i t p)"
  unfolding pool_ok_def
proof (intro conjI allI)
  show "list_all task_ok (po_tasks (set_task i t p))"
    using ok t by (auto simp: pool_ok_def list_all_iff dest!: set_update_subset_insert [THEN subsetD])
  show "list_all (\<lambda>kw. 0 < snd kw) ys" by fact
next
  fix k
  show "sl_inUse (getOrCreateSlot (set_task i t p) k) = total_held (set_task i t p) k + claims_on k ys"
    using ok bal [of k] by (simp add: pool_ok_def total_set_task [OF i])
  show "within_capacity (getOrCreateSlot (set_task i t p) k)"
    using pool_okD(4) [OF ok, of k] by simp
  have "\<forall>w \<in> set (sl_waiters (getOrCreateSlot p k)). wt_task w \<noteq> i"
    using pool_okD(5) [OF ok, of k] nw by (auto simp: waiters_ok_def is_waiting_def dest: queue_ok_member)
  then show "waiters_ok (set_task i t p) k"
    using pool_okD(5) [OF ok, of k] by (simp add: waiters_ok_def queue_ok_update)
qed

text \<open>Moving a task from a queue, or from the rejected phase, with its slot.\<close>

lemma admit_ok:
  assumes ok: "pool_ok xs p" and s: "getOrCreateSlot p k = s" and ws: "sl_waiters s = w # ws"
    and fit: "fits s (wt_weight w)"
  shows "pool_ok xs (set_phase (wt_task w) (Granted k (wt_weight w))
          (put_slot k (s\<lparr>sl_waiters := ws, sl_inUse := sl_inUse s + wt_weight w\<rparr>) p))"
proof -
  let ?j = "wt_task w" and ?p = "put_slot k (s\<lparr>sl_waiters := ws, sl_inUse := sl_inUse s + wt_weight w\<rparr>) p"
  let ?t = "(po_tasks p ! wt_task w)\<lparr>pt_phase := Granted k (wt_weight w)\<rparr>"
  have wk: "waiters_ok p k" and wks: "waiters_ok p k'" for k' using ok by (auto simp: pool_ok_def)
  have j: "?j < length (po_tasks p)" and ph: "pt_phase (po_tasks p ! ?j) = Waiting k (wt_weight w)"
    using wk s ws by (auto simp: waiters_ok_def dest: queue_ok_member)
  have tj: "task_ok (po_tasks p ! ?j)" using ok j by (auto simp: pool_ok_def list_all_length)
  have hk: "held k' ?t = held k' (po_tasks p ! ?j) + (if k' = k then wt_weight w else 0)" for k'
    using ph by (simp add: held_def)
  have tok: "task_ok ?t" using tj ph by (simp add: task_ok_def)
  define q where "q = set_task ?j ?t ?p"
  have slot_q: "getOrCreateSlot q k' = getOrCreateSlot ?p k'" and tasks_q: "po_tasks q = (po_tasks p)[?j := ?t]"
    and tot_q: "total_held q k' = total_held p k' + (if k' = k then wt_weight w else 0)" for k'
    using j by (simp_all add: q_def total_set_task hk)
  have "pool_ok xs q"
    unfolding pool_ok_def
  proof (intro conjI allI)
    show "list_all task_ok (po_tasks q)"
      using ok tok by (auto simp: tasks_q pool_ok_def list_all_iff dest!: set_update_subset_insert [THEN subsetD])
    show "list_all (\<lambda>kw. 0 < snd kw) xs" by (rule pool_okD(2) [OF ok])
  next
    fix k'
    show "sl_inUse (getOrCreateSlot q k') = total_held q k' + claims_on k' xs"
      using pool_okD(3) [OF ok, of k'] s by (auto simp: slot_q tot_q)
    show "within_capacity (getOrCreateSlot q k')"
      using pool_okD(4) [OF ok, of k'] fit s by (auto simp: slot_q fits_def within_capacity_def split: option.splits)
    have "\<forall>v \<in> set (if k' = k then ws else sl_waiters (getOrCreateSlot p k')). wt_task v \<noteq> ?j"
      using wk wks [of k'] s ws ph by (auto simp: waiters_ok_def queue_ok_def) (metis imageI)
    moreover have "queue_ok (po_tasks p) k' (if k' = k then ws else sl_waiters (getOrCreateSlot p k'))"
      using wk wks [of k'] s ws by (auto simp: waiters_ok_def queue_ok_def)
    ultimately show "waiters_ok q k'"
      by (auto simp: waiters_ok_def slot_q tasks_q queue_ok_update split: if_splits)
  qed
  then show ?thesis by (simp add: q_def set_phase_def)
qed

lemma drain_loop_ok: "pool_ok xs p \<Longrightarrow> pool_ok xs (drain_loop n k p)"
proof (induction n arbitrary: p)
  case (Suc n)
  show ?case
  proof (cases "sl_waiters (getOrCreateSlot p k)")
    case (Cons w ws)
    have "\<not> wt_cancelled w" using pool_okD(5) [OF Suc.prems, of k] Cons by (auto simp: waiters_ok_def dest: queue_ok_member)
    then show ?thesis
      using Suc.IH admit_ok [OF Suc.prems refl Cons] Suc.prems Cons by (auto simp: Let_def)
  qed (use Suc.prems in simp)
qed simp

lemma drain_ok: "pool_ok xs p \<Longrightarrow> pool_ok xs (drain k p)"
  by (simp add: drain_def drain_loop_ok split: option.splits)

lemma releaseOne_ok:
  assumes ok: "pool_ok ((k, w) # xs) p"
  shows "pool_ok xs (releaseOne p (k, w))"
proof -
  have w: "0 < w" "list_all (\<lambda>kw. 0 < snd kw) xs" using ok by (auto simp: pool_ok_def)
  have n: "0 \<le> total_held p k" "0 \<le> claims_on k xs"
    using ok w total_nonneg [of p k] claims_nonneg [of xs k] by (auto simp: pool_ok_def)
  have u: "sl_inUse (getOrCreateSlot p k) = total_held p k + w + claims_on k xs"
    using ok by (simp add: pool_ok_def)
  then have "sl_inUse (getOrCreateSlot p k) \<noteq> 0" using n w by linarith
  then obtain s where s: "po_slots p k = Some s" "getOrCreateSlot p k = s"
    by (cases "po_slots p k") (auto simp: getOrCreateSlot_def new_slot_def)
  have m: "max 0 (sl_inUse s - w) = sl_inUse s - w" using u n s by simp
  have "pool_ok xs (put_slot k (s\<lparr>sl_inUse := sl_inUse s - w\<rparr>) p)"
    unfolding pool_ok_def
  proof (intro conjI allI)
    fix k'
    let ?q = "put_slot k (s\<lparr>sl_inUse := sl_inUse s - w\<rparr>) p"
    show "sl_inUse (getOrCreateSlot ?q k') = total_held ?q k' + claims_on k' xs"
      using pool_okD(3) [OF ok, of k'] s by auto
    show "within_capacity (getOrCreateSlot ?q k')"
      using pool_okD(4) [OF ok, of k'] s w by (auto simp: within_capacity_def split: option.splits)
    show "waiters_ok ?q k'" using pool_okD(5) [OF ok, of k'] s by (auto simp: waiters_ok_def)
  qed (use ok w in \<open>auto simp: pool_ok_def\<close>)
  then show ?thesis by (simp add: releaseOne_def s m drain_ok)
qed

lemma release_all_ok: "pool_ok xs p \<Longrightarrow> pool_ok [] (foldl releaseOne p xs)"
proof (induction xs arbitrary: p)
  case (Cons kw xs)
  then show ?case using releaseOne_ok [of "fst kw" "snd kw" xs p] by simp
qed simp

lemma set_phase_task: "set_phase i ph p = set_task i ((po_tasks p ! i)\<lparr>pt_phase := ph\<rparr>) p"
  by (simp add: set_phase_def)

lemma put_slot_ok:
  assumes ok: "pool_ok xs p" and s: "sl_inUse s = sl_inUse (getOrCreateSlot p k)"
    "sl_capacity s = sl_capacity (getOrCreateSlot p k)" "sl_waiters s = sl_waiters (getOrCreateSlot p k)"
  shows "pool_ok xs (put_slot k s p)"
  unfolding pool_ok_def
proof (intro conjI allI)
  fix k'
  show "sl_inUse (getOrCreateSlot (put_slot k s p) k') = total_held (put_slot k s p) k' + claims_on k' xs"
    using pool_okD(3) [OF ok, of k'] s by auto
  show "within_capacity (getOrCreateSlot (put_slot k s p) k')"
    using pool_okD(4) [OF ok, of k'] s by (auto simp: within_capacity_def split: option.splits)
  show "waiters_ok (put_slot k s p) k'"
    using pool_okD(5) [OF ok, of k'] s by (auto simp: waiters_ok_def)
qed (use pool_okD(1,2) [OF ok] in auto)

text \<open>Taking units for a task that is in no queue.\<close>

lemma grant_ok:
  assumes ok: "pool_ok xs p" and i: "i < length (po_tasks p)"
    and ph: "pt_phase (po_tasks p ! i) = Rejected" and s: "getOrCreateSlot p k = s"
    and fit: "fits s w" and w: "0 < w"
  shows "pool_ok xs (set_phase i (Granted k w) (put_slot k (s\<lparr>sl_inUse := sl_inUse s + w\<rparr>) p))"
proof -
  let ?p = "put_slot k (s\<lparr>sl_inUse := sl_inUse s + w\<rparr>) p"
  let ?t = "(po_tasks p ! i)\<lparr>pt_phase := Granted k w\<rparr>"
  define q where "q = set_task i ?t ?p"
  have hk: "held k' ?t = held k' (po_tasks p ! i) + (if k' = k then w else 0)" for k'
    using ph by (simp add: held_def)
  have tok: "task_ok ?t" using pool_okD(1) [OF ok] i w by (auto simp: list_all_length task_ok_def)
  have slot_q: "getOrCreateSlot q k' = getOrCreateSlot ?p k'" and tasks_q: "po_tasks q = (po_tasks p)[i := ?t]"
    and tot_q: "total_held q k' = total_held p k' + (if k' = k then w else 0)" for k'
    using i by (simp_all add: q_def total_set_task hk)
  have "pool_ok xs q"
    unfolding pool_ok_def
  proof (intro conjI allI)
    show "list_all task_ok (po_tasks q)"
      using ok tok by (auto simp: tasks_q pool_ok_def list_all_iff dest!: set_update_subset_insert [THEN subsetD])
    show "list_all (\<lambda>kw. 0 < snd kw) xs" by (rule pool_okD(2) [OF ok])
  next
    fix k'
    show "sl_inUse (getOrCreateSlot q k') = total_held q k' + claims_on k' xs"
      using pool_okD(3) [OF ok, of k'] s by (auto simp: slot_q tot_q)
    show "within_capacity (getOrCreateSlot q k')"
      using pool_okD(4) [OF ok, of k'] fit s by (auto simp: slot_q fits_def within_capacity_def split: option.splits)
    have "\<forall>v \<in> set (sl_waiters (getOrCreateSlot p k')). wt_task v \<noteq> i"
      using pool_okD(5) [OF ok, of k'] ph by (auto simp: waiters_ok_def queue_ok_def)
    then show "waiters_ok q k'"
      using pool_okD(5) [OF ok, of k'] s by (auto simp: waiters_ok_def slot_q tasks_q queue_ok_update)
  qed
  then show ?thesis by (simp add: q_def set_phase_def)
qed

lemma set_insert_waiter: "set (insert_waiter w ws) = insert w (set ws)"
  unfolding insert_waiter_def
  by (metis (no_types, lifting) Un_insert_right append_Cons append_Nil list.simps(15) set_append takeWhile_dropWhile_id)

lemma mset_insert_waiter: "mset (insert_waiter w ws) = add_mset w (mset ws)"
proof -
  have "mset ws = mset (takeWhile (\<lambda>v. \<not> wt_priority v < wt_priority w) ws) +
                  mset (dropWhile (\<lambda>v. \<not> wt_priority v < wt_priority w) ws)"
    by (simp flip: mset_append)
  then show ?thesis by (simp add: insert_waiter_def)
qed

lemma distinct_insert_waiter:
  "distinct (map wt_task (insert_waiter w ws)) \<longleftrightarrow> wt_task w \<notin> wt_task ` set ws \<and> distinct (map wt_task ws)"
proof -
  have "mset (map wt_task (insert_waiter w ws)) = mset (map wt_task (w # ws))"
    unfolding mset_map mset_insert_waiter by simp
  then have "distinct (map wt_task (insert_waiter w ws)) = distinct (map wt_task (w # ws))"
    by (rule mset_eq_imp_distinct_iff)
  then show ?thesis by simp
qed

lemma sorted_insert_waiter:
  assumes "sorted_wrt (\<lambda>v w. wt_priority w \<le> wt_priority v) ws"
  shows "sorted_wrt (\<lambda>v w. wt_priority w \<le> wt_priority v) (insert_waiter w ws)"
  using assms
proof (induction ws)
  case (Cons v ws)
  then show ?case
    by (auto simp: insert_waiter_def sorted_wrt_append dest: set_takeWhileD set_dropWhileD)
qed (simp add: insert_waiter_def)

lemma enqueue_ok:
  assumes ok: "pool_ok xs p" and i: "i < length (po_tasks p)"
    and ph: "pt_phase (po_tasks p ! i) = Rejected" and s: "getOrCreateSlot p k = s" and w: "0 < w"
    and v: "wt_task v = i" "wt_weight v = w" "\<not> wt_cancelled v"
  shows "pool_ok xs (set_phase i (Waiting k w)
           (put_slot k (s\<lparr>sl_waiters := insert_waiter v (sl_waiters s)\<rparr>) p))"
proof -
  let ?p = "put_slot k (s\<lparr>sl_waiters := insert_waiter v (sl_waiters s)\<rparr>) p"
  let ?t = "(po_tasks p ! i)\<lparr>pt_phase := Waiting k w\<rparr>"
  define q where "q = set_task i ?t ?p"
  have hk: "held k' ?t = held k' (po_tasks p ! i)" for k' using ph by (simp add: held_def)
  have tok: "task_ok ?t" using pool_okD(1) [OF ok] i w by (auto simp: list_all_length task_ok_def)
  have slot_q: "getOrCreateSlot q k' = getOrCreateSlot ?p k'" and tasks_q: "po_tasks q = (po_tasks p)[i := ?t]"
    and tot_q: "total_held q k' = total_held p k'" for k'
    using i by (simp_all add: q_def total_set_task hk)
  have "pool_ok xs q"
    unfolding pool_ok_def
  proof (intro conjI allI)
    show "list_all task_ok (po_tasks q)"
      using ok tok by (auto simp: tasks_q pool_ok_def list_all_iff dest!: set_update_subset_insert [THEN subsetD])
    show "list_all (\<lambda>kw. 0 < snd kw) xs" by (rule pool_okD(2) [OF ok])
  next
    fix k'
    show "sl_inUse (getOrCreateSlot q k') = total_held q k' + claims_on k' xs"
      using pool_okD(3) [OF ok, of k'] s by (auto simp: slot_q tot_q)
    show "within_capacity (getOrCreateSlot q k')"
      using pool_okD(4) [OF ok, of k'] s by (auto simp: slot_q within_capacity_def split: option.splits)
    have ne: "\<forall>u \<in> set (sl_waiters (getOrCreateSlot p k'')). wt_task u \<noteq> i" for k''
      using pool_okD(5) [OF ok, of k''] ph by (auto simp: waiters_ok_def queue_ok_def)
    have old: "queue_ok (po_tasks q) k'' (sl_waiters (getOrCreateSlot p k''))" for k''
      using pool_okD(5) [OF ok, of k''] ne [of k''] by (simp add: waiters_ok_def tasks_q queue_ok_update)
    have "queue_ok (po_tasks q) k (insert_waiter v (sl_waiters s))"
      using old [of k] ne [of k] s v i by (auto simp: queue_ok_def distinct_insert_waiter set_insert_waiter tasks_q sorted_insert_waiter)
    then show "waiters_ok q k'" using old [of k'] by (simp add: waiters_ok_def slot_q)
  qed
  then show ?thesis by (simp add: q_def set_phase_def)
qed

lemma acquireOne_ok:
  assumes ok: "pool_ok xs p" and i: "i < length (po_tasks p)"
    and ph: "pt_phase (po_tasks p ! i) = Rejected" and w: "0 < w"
  shows "pool_ok xs (acquireOne i k w p)"
proof -
  have t: "(po_tasks p ! i)\<lparr>pt_phase := Rejected\<rparr> = po_tasks p ! i" using ph by simp
  have p1: "pool_ok xs (put_slot k (getOrCreateSlot p k) p)" by (rule put_slot_ok [OF ok]) simp_all
  have same: "set_phase i Rejected (put_slot k (getOrCreateSlot p k) p) = put_slot k (getOrCreateSlot p k) p"
    by (simp add: set_phase_def set_task_def t put_slot_def)
  show ?thesis
    using p1 grant_ok [OF ok i ph refl _ w] enqueue_ok [OF ok i ph refl w]
    by (simp add: acquireOne_def Let_def same)
qed

lemma next_claim_ok:
  assumes ok: "pool_ok xs p" and i: "i < length (po_tasks p)" and ph: "pt_phase (po_tasks p ! i) = Rejected"
  shows "pool_ok xs (next_claim i p)"
proof -
  let ?t = "po_tasks p ! i"
  have tok: "task_ok ?t" using pool_okD(1) [OF ok] i by (auto simp: list_all_length)
  have nw: "\<not> is_waiting (pt_phase ?t)" using ph by (simp add: is_waiting_def)
  show ?thesis
  proof (cases "pt_todo ?t")
    case Nil
    have "pool_ok xs (set_task i (?t\<lparr>pt_phase := Held, pt_lease := effective_lease p ?t\<rparr>) p)"
      by (rule update_task_ok [OF ok i nw]) (use tok ph pool_okD(2) [OF ok] in \<open>auto simp: task_ok_def held_def\<close>)
    then show ?thesis using Nil by (simp add: next_claim_def Let_def)
  next
    case (Cons kw rest)
    obtain k w where kw: "kw = (k, w)" by force
    have "pool_ok xs (set_task i (?t\<lparr>pt_todo := rest\<rparr>) p)"
      by (rule update_task_ok [OF ok i nw]) (use tok ph Cons pool_okD(2) [OF ok] in \<open>auto simp: task_ok_def held_def\<close>)
    then have "pool_ok xs (acquireOne i k w (set_task i (?t\<lparr>pt_todo := rest\<rparr>) p))"
      by (rule acquireOne_ok) (use i ph tok Cons kw in \<open>auto simp: task_ok_def\<close>)
    then show ?thesis using Cons kw by (simp add: next_claim_def Let_def)
  qed
qed

lemma AList_update_pos:
  "list_all (\<lambda>kw. 0 < snd kw) m \<Longrightarrow> 0 < (w::int) \<Longrightarrow> list_all (\<lambda>kw. 0 < snd kw) (AList.update k w m)"
  by (induction m) auto

lemma merge_step_pos: "list_all (\<lambda>kw. 0 < snd kw) m \<Longrightarrow> list_all (\<lambda>kw. 0 < snd kw) (merge_step m c)"
proof -
  assume m: "list_all (\<lambda>kw. 0 < snd kw) m"
  then have "0 \<le> (case map_of m (fst c) of None \<Rightarrow> 0 | Some x \<Rightarrow> x)"
    by (auto simp: list_all_iff dest!: map_of_SomeD split: option.splits)
  then show ?thesis using m by (auto simp: merge_step_def Let_def intro!: AList_update_pos)
qed

lemma merge_claims_pos: "list_all (\<lambda>kw. 0 < snd kw) (merge_claims claims)"
proof -
  have "list_all (\<lambda>kw. 0 < snd kw) m \<Longrightarrow> list_all (\<lambda>kw. 0 < snd kw) (foldl merge_step m claims)" for m
    by (induction claims arbitrary: m) (simp_all add: merge_step_pos)
  from this [of "[]"] show ?thesis by (simp add: merge_claims_def)
qed

lemma acquire_ok:
  assumes ok: "pool_ok xs p"
  shows "pool_ok xs (acquire claims prio ab l p)"
  unfolding acquire_def
proof (rule next_claim_ok)
  let ?t = "\<lparr>pt_todo = merge_claims claims, pt_priority = prio, pt_aborted = ab,
            pt_leaseOpt = l, pt_acquired = [], pt_phase = Rejected, pt_lease = 0\<rparr>"
  let ?p = "p\<lparr>po_tasks := po_tasks p @ [?t]\<rparr>"
  have g: "getOrCreateSlot ?p k = getOrCreateSlot p k" for k by (simp add: getOrCreateSlot_def)
  have h: "total_held ?p k = total_held p k" for k by (simp add: total_held_def held_def)
  have "task_ok ?t" by (simp add: task_ok_def merge_claims_pos)
  moreover have "waiters_ok ?p k" for k
    using pool_okD(5) [OF ok, of k] by (auto simp: waiters_ok_def queue_ok_def g nth_append)
  ultimately show "pool_ok xs ?p" using ok by (auto simp: pool_ok_def g h)
qed (simp_all add: nth_append)

lemma resume_task_ok:
  assumes ok: "pool_ok [] p" and i: "i < length (po_tasks p)"
  shows "pool_ok [] (resume_task i p)"
proof -
  let ?t = "po_tasks p ! i"
  have tok: "task_ok ?t" using pool_okD(1) [OF ok] i by (auto simp: list_all_length)
  show ?thesis
  proof (cases "pt_phase ?t")
    case (Granted k w)
    have "pool_ok [] (set_task i (?t\<lparr>pt_acquired := pt_acquired ?t @ [(k, w)], pt_phase := Rejected\<rparr>) p)"
      by (rule update_task_ok [OF ok i])
         (use tok Granted in \<open>auto simp: task_ok_def held_def is_waiting_def split: if_splits\<close>)
    then show ?thesis using next_claim_ok [of "[]" _ i] i Granted by (simp add: resume_task_def Let_def)
  next
    case Rejected
    have "pool_ok (pt_acquired ?t) (set_task i (?t\<lparr>pt_phase := Failed\<rparr>) p)"
      by (rule update_task_ok [OF ok i])
         (use tok Rejected in \<open>auto simp: task_ok_def held_def is_waiting_def\<close>)
    then show ?thesis using Rejected by (simp add: resume_task_def Let_def set_phase_def release_all_ok)
  qed (use ok in \<open>simp_all add: resume_task_def Let_def\<close>)
qed

lemma doRelease_ok:
  assumes ok: "pool_ok [] p" and i: "i < length (po_tasks p)"
  shows "pool_ok [] (doRelease i p)"
proof (cases "pt_phase (po_tasks p ! i) = Held")
  case True
  have tok: "task_ok (po_tasks p ! i)" using pool_okD(1) [OF ok] i by (auto simp: list_all_length)
  have "pool_ok (pt_acquired (po_tasks p ! i)) (set_task i ((po_tasks p ! i)\<lparr>pt_phase := Released\<rparr>) p)"
    by (rule update_task_ok [OF ok i]) (use tok True in \<open>auto simp: task_ok_def held_def is_waiting_def\<close>)
  then show ?thesis using True by (simp add: doRelease_def Let_def set_phase_def release_all_ok)
qed (use ok in \<open>simp add: doRelease_def Let_def\<close>)

lemma abort_flag_ok:
  assumes ok: "pool_ok xs p" and i: "i < length (po_tasks p)"
  shows "pool_ok xs (set_task i ((po_tasks p ! i)\<lparr>pt_aborted := True\<rparr>) p)"
    (is "pool_ok xs (set_task i ?t p)")
proof -
  have tok: "task_ok ?t" using pool_okD(1) [OF ok] i by (auto simp: list_all_length task_ok_def)
  have hk: "held k ?t = held k (po_tasks p ! i)" for k by (simp add: held_def split: phase.splits)
  have q: "queue_ok ((po_tasks p)[i := ?t]) k ws" if "queue_ok (po_tasks p) k ws" for k ws
    using that i by (auto simp: queue_ok_def nth_list_update)
  show ?thesis
    using ok tok i
    by (auto simp: pool_ok_def total_set_task hk waiters_ok_def q list_all_iff
             dest!: set_update_subset_insert [THEN subsetD])
qed

lemma cancel_ok:
  assumes ok: "pool_ok xs p" and i: "i < length (po_tasks p)" and ph: "pt_phase (po_tasks p ! i) = Waiting k w"
    and s: "getOrCreateSlot p k = s"
  shows "pool_ok xs (set_phase i Rejected
           (put_slot k (s\<lparr>sl_waiters := filter (\<lambda>v. wt_task v \<noteq> i) (sl_waiters s)\<rparr>) p))"
proof -
  let ?p = "put_slot k (s\<lparr>sl_waiters := filter (\<lambda>v. wt_task v \<noteq> i) (sl_waiters s)\<rparr>) p"
  let ?t = "(po_tasks p ! i)\<lparr>pt_phase := Rejected\<rparr>"
  define q where "q = set_task i ?t ?p"
  have hk: "held k' ?t = held k' (po_tasks p ! i)" for k' using ph by (simp add: held_def)
  have tok: "task_ok ?t" using pool_okD(1) [OF ok] i by (auto simp: list_all_length task_ok_def)
  have slot_q: "getOrCreateSlot q k' = getOrCreateSlot ?p k'" and tasks_q: "po_tasks q = (po_tasks p)[i := ?t]"
    and tot_q: "total_held q k' = total_held p k'" for k'
    using i by (simp_all add: q_def total_set_task hk)
  have "pool_ok xs q"
    unfolding pool_ok_def
  proof (intro conjI allI)
    show "list_all task_ok (po_tasks q)"
      using ok tok by (auto simp: tasks_q pool_ok_def list_all_iff dest!: set_update_subset_insert [THEN subsetD])
    show "list_all (\<lambda>kw. 0 < snd kw) xs" by (rule pool_okD(2) [OF ok])
  next
    fix k'
    show "sl_inUse (getOrCreateSlot q k') = total_held q k' + claims_on k' xs"
      using pool_okD(3) [OF ok, of k'] s by (auto simp: slot_q tot_q)
    show "within_capacity (getOrCreateSlot q k')"
      using pool_okD(4) [OF ok, of k'] s by (auto simp: slot_q within_capacity_def split: option.splits)
    have ne: "\<forall>v \<in> set (sl_waiters (getOrCreateSlot p k')). wt_task v \<noteq> i" if "k' \<noteq> k"
      using pool_okD(5) [OF ok, of k'] ph that by (auto simp: waiters_ok_def queue_ok_def)
    have "queue_ok (po_tasks p) k' (sl_waiters (getOrCreateSlot p k'))"
      using pool_okD(5) [OF ok, of k'] by (simp add: waiters_ok_def)
    then have "queue_ok ((po_tasks p)[i := ?t]) k' (sl_waiters (getOrCreateSlot ?p k'))"
    proof (cases "k' = k")
      case True
      with \<open>queue_ok (po_tasks p) k' (sl_waiters (getOrCreateSlot p k'))\<close> s
      have "queue_ok (po_tasks p) k' (filter (\<lambda>v. wt_task v \<noteq> i) (sl_waiters s))"
        by (simp add: queue_ok_filter)
      then show ?thesis using True by (simp add: queue_ok_update)
    next
      case False
      then show ?thesis using ne \<open>queue_ok (po_tasks p) k' (sl_waiters (getOrCreateSlot p k'))\<close>
        by (simp add: queue_ok_update)
    qed
    then show "waiters_ok q k'" by (simp add: waiters_ok_def slot_q tasks_q)
  qed
  then show ?thesis by (simp add: q_def set_phase_def)
qed

lemma onAbort_ok:
  assumes ok: "pool_ok xs p" and i: "i < length (po_tasks p)"
  shows "pool_ok xs (onAbort i p)"
proof -
  let ?p = "set_task i ((po_tasks p ! i)\<lparr>pt_aborted := True\<rparr>) p"
  have "pool_ok xs ?p" by (rule abort_flag_ok [OF ok i])
  then show ?thesis
    using i cancel_ok [of xs ?p i] by (auto simp: onAbort_def Let_def split: phase.splits)
qed

lemma pool_step_ok: "pool_ok [] p \<Longrightarrow> pool_ok [] (pool_step p e)"
  by (cases e)
     (auto simp: pool_step_def lease_timeout_def acquire_ok resume_task_ok doRelease_ok onAbort_ok)

interpretation pool_runs: kept_invariant pool_step "pool_ok []"
  by unfold_locales (rule pool_step_ok)

definition empty_pool :: pool where
  "empty_pool = \<lparr>po_slots = (\<lambda>_. None), po_tasks = []\<rparr>"

definition configured :: "(string \<times> int) list \<Rightarrow> pool" where
  "configured cs = foldl (\<lambda>p (k, c). configure k (Some (Some c)) None p) empty_pool cs"

lemma drain_empty: "sl_waiters s = [] \<Longrightarrow> drain k (put_slot k s p) = put_slot k s p"
  by (simp add: drain_def put_slot_def)

lemma configure_ok:
  assumes ok: "pool_ok [] p" and e: "po_tasks p = []" and c: "0 \<le> c"
  shows "pool_ok [] (configure k (Some (Some c)) l p) \<and> po_tasks (configure k (Some (Some c)) l p) = []"
proof -
  have ws: "sl_waiters (getOrCreateSlot p k') = []" for k'
    using pool_okD(5) [OF ok, of k'] e by (cases "sl_waiters (getOrCreateSlot p k')") (auto simp: waiters_ok_def queue_ok_def)
  have u: "sl_inUse (getOrCreateSlot p k') = 0" for k'
    using pool_okD(3) [OF ok, of k'] e by (simp add: total_held_def)
  have t0: "total_held p k' = 0" for k' using e by (simp add: total_held_def)
  define s where "s = (let s1 = (getOrCreateSlot p k)\<lparr>sl_capacity := Some c\<rparr>
                       in case l of None \<Rightarrow> s1 | Some x \<Rightarrow> s1\<lparr>sl_leaseMs := x\<rparr>)"
  have s: "sl_inUse s = 0" "sl_capacity s = Some c" "sl_waiters s = []"
    using u ws by (simp_all add: s_def Let_def split: option.splits)
  have conf: "configure k (Some (Some c)) l p = put_slot k s p"
    unfolding configure_def Let_def option.case drain_empty [OF s(3), unfolded s_def Let_def]
    by (simp add: s_def Let_def)
  have "pool_ok [] (put_slot k s p)"
    using ok s c e ws t0 u
    by (auto simp: pool_ok_def within_capacity_def waiters_ok_def queue_ok_def split: option.splits)
  then show ?thesis using e by (simp add: conf)
qed

lemma configured_ok: "\<forall>kc \<in> set cs. 0 \<le> snd kc \<Longrightarrow> pool_ok [] (configured cs)"
proof -
  have "pool_ok [] p \<and> po_tasks p = [] \<Longrightarrow> \<forall>kc \<in> set cs. 0 \<le> snd kc \<Longrightarrow>
          pool_ok [] (foldl (\<lambda>p (k, c). configure k (Some (Some c)) None p) p cs)" for p
    by (induction cs arbitrary: p) (auto simp: configure_ok split_beta)
  moreover have "pool_ok [] empty_pool"
    by (simp add: pool_ok_def empty_pool_def getOrCreateSlot_def new_slot_def total_held_def
        within_capacity_def waiters_ok_def queue_ok_def)
  moreover assume "\<forall>kc \<in> set cs. 0 \<le> snd kc"
  ultimately show ?thesis by (simp add: configured_def empty_pool_def)
qed

lemma run_ok: "\<forall>kc \<in> set cs. 0 \<le> snd kc \<Longrightarrow> pool_ok [] (foldl pool_step (configured cs) es)"
  by (rule pool_runs.run_inv [OF configured_ok])

lemma claims_absent: "k \<notin> fst ` set m \<Longrightarrow> claims_on k m = 0"
  by (induction m) auto

lemma map_of_claims: "distinct (map fst m) \<Longrightarrow>
   (case map_of m k of None \<Rightarrow> 0 | Some x \<Rightarrow> x) = claims_on k m"
  by (induction m) (auto simp: claims_absent)

lemma claims_update: "distinct (map fst m) \<Longrightarrow>
   claims_on k (AList.update k' v m) = (if k' = k then v else claims_on k m)"
  by (induction m) (auto simp: claims_absent)

definition claim_weight :: "string \<Rightarrow> string \<times> int option \<Rightarrow> int" where
  "claim_weight k c = (if fst c = k then max 0 (case snd c of None \<Rightarrow> 1 | Some x \<Rightarrow> x) else 0)"

lemma merge_step_sum:
  assumes "distinct (map fst m)"
  shows "distinct (map fst (merge_step m c)) \<and> claims_on k (merge_step m c) = claims_on k m + claim_weight k c"
  using assms by (auto simp: merge_step_def claim_weight_def Let_def claims_update map_of_claims
      AList.distinct_update)

lemma merge_fold_sum:
  "distinct (map fst m) \<Longrightarrow>
     distinct (map fst (foldl merge_step m cs)) \<and>
     claims_on k (foldl merge_step m cs) = claims_on k m + sum_list (map (claim_weight k) cs)"
  by (induction cs arbitrary: m) (auto simp: merge_step_sum)

lemma merge_claims_ops: "\<forall>kw \<in> set (merge_claims cs). 0 < snd kw"
  using merge_claims_pos by (simp add: list_all_iff)

section \<open>Properties\<close>



text \<open>
  Nothing leaks: once every call of \<open>acquire\<close> has failed or been released, every slot is back to
  zero units in use and an empty queue, whatever happened before.
\<close>
theorem pool_no_leak:
  assumes "\<forall>kc \<in> set cs. 0 \<le> snd kc" and "p = foldl pool_step (configured cs) es"
    and "\<forall>t \<in> set (po_tasks p). pt_phase t = Released \<or> pt_phase t = Failed"
  shows "sl_inUse (getOrCreateSlot p k) = 0 \<and> sl_waiters (getOrCreateSlot p k) = []"
proof -
  have ok: "pool_ok [] p" using run_ok [OF assms(1), of es] assms(2) by simp
  have "\<forall>t \<in> set (po_tasks p). held k t = 0" using assms(3) by (auto simp: held_def)
  then have "total_held p k = 0" unfolding total_held_def by (metis (no_types, lifting) map_idI map_eq_conv sum_list_0)
  moreover have "sl_waiters (getOrCreateSlot p k) = []"
  proof (cases "sl_waiters (getOrCreateSlot p k)")
    case (Cons w ws)
    then have "wt_task w < length (po_tasks p) \<and> pt_phase (po_tasks p ! wt_task w) = Waiting k (wt_weight w)"
      using queue_ok_member pool_okD(5) [OF ok, of k] unfolding waiters_ok_def by fastforce
    then show ?thesis using assms(3) nth_mem by fastforce
  qed simp
  ultimately show ?thesis using pool_okD(3) [OF ok, of k] by simp
qed

theorem pool_no_leak_witness:
  "let p = foldl pool_step (configured [(''gpu'', 2)])
             [Acquire [(''gpu'', Some 3)] 0 False 0, Continue 0, Acquire [(''gpu'', None)] 0 False 0, Continue 1, Release 1]
   in sl_inUse (getOrCreateSlot p ''gpu'') = 0"
  using pool_no_leak [of "[(''gpu'', 2)]" _
      "[Acquire [(''gpu'', Some 3)] 0 False 0, Continue 0, Acquire [(''gpu'', None)] 0 False 0, Continue 1, Release 1]"
      "''gpu''", OF _ refl]
  by code_simp

text \<open>
  Claims on one key are merged: a call of \<open>acquire\<close> asks each key once, for the sum of the
  positive weights claimed on it (weight 1 when none is given), so no call queues behind itself.
\<close>
theorem merged_claims_exact:
  "distinct (map fst (merge_claims cs)) \<and> (\<forall>kw \<in> set (merge_claims cs). 0 < snd kw) \<and>
   claims_on k (merge_claims cs) = sum_list (map (claim_weight k) cs)"
  using merge_fold_sum [of "[]" cs k] merge_claims_ops [of cs] by (simp add: merge_claims_def)

theorem merged_claims_exact_witness:
  "merge_claims [(''db'', Some 1), (''gpu'', None), (''db'', Some 2), (''net'', Some 0)] = [(''db'', 3), (''gpu'', 1)] \<and>
   distinct (map fst (merge_claims [(''db'', Some 1), (''gpu'', None), (''db'', Some 2), (''net'', Some 0)]))"
  using merged_claims_exact [of "[(''db'', Some 1), (''gpu'', None), (''db'', Some 2), (''net'', Some 0)]" "''db''"]
  by code_simp

text \<open>
  A queue is served by priority: in every reachable state each queue is in descending order of
  priority and holds exactly calls that wait for this key with the queued weight, each once, so the
  call \<open>#drain\<close> admits next has the highest priority of those that wait.
\<close>
theorem queue_by_priority:
  assumes "\<forall>kc \<in> set cs. 0 \<le> snd kc" and "p = foldl pool_step (configured cs) es"
  shows "sorted_wrt (\<lambda>v w. wt_priority w \<le> wt_priority v) (sl_waiters (getOrCreateSlot p k)) \<and>
         distinct (map wt_task (sl_waiters (getOrCreateSlot p k))) \<and>
         (\<forall>w \<in> set (sl_waiters (getOrCreateSlot p k)).
            wt_task w < length (po_tasks p) \<and> pt_phase (po_tasks p ! wt_task w) = Waiting k (wt_weight w))"
  using pool_okD(5) [OF run_ok [OF assms(1), of es], of k] assms(2) by (simp add: waiters_ok_def queue_ok_def)

theorem queue_by_priority_witness:
  "let p = foldl pool_step (configured [(''gpu'', 1)])
             [Acquire [(''gpu'', None)] 0 False 0, Acquire [(''gpu'', None)] 1 False 0, Acquire [(''gpu'', None)] 5 False 0]
   in map wt_task (sl_waiters (getOrCreateSlot p ''gpu'')) = [2, 1] \<and>
      sorted_wrt (\<lambda>v w. wt_priority w \<le> wt_priority v) (sl_waiters (getOrCreateSlot p ''gpu''))"
  using queue_by_priority [of "[(''gpu'', 1)]" _
      "[Acquire [(''gpu'', None)] 0 False 0, Acquire [(''gpu'', None)] 1 False 0, Acquire [(''gpu'', None)] 5 False 0]"
      "''gpu''", OF _ refl]
  by code_simp

definition crossed_claims :: pool where
  "crossed_claims = foldl pool_step (configured [(''a'', 1), (''b'', 1)])
     [Acquire [(''a'', None), (''b'', None)] 0 False 0, Acquire [(''b'', None), (''a'', None)] 0 False 0,
      Continue 0, Continue 1]"


definition aborted_head :: pool where
  "aborted_head = foldl pool_step (configured [(''gpu'', 3)])
     [Acquire [(''gpu'', Some 1)] 0 False 0, Continue 0, Acquire [(''gpu'', Some 3)] 0 False 0,
      Acquire [(''gpu'', Some 1)] 0 False 0, Abort 1, Continue 1]"

text \<open>
  Aborting the call at the head of a queue does not serve the queue: with three units, one in
  use, a call for three waiting and a call for one behind it, the abort of the first leaves the second
  queued although it fits, and it stays there until some lease is released.
\<close>
theorem aborted_head_stalls:
  "map pt_phase (po_tasks aborted_head) = [Held, Failed, Waiting ''gpu'' 1] \<and>
   fits (getOrCreateSlot aborted_head ''gpu'') 1 \<and>
   pool_step aborted_head (Continue 2) = aborted_head \<and>
   map pt_phase (po_tasks (drain ''gpu'' aborted_head)) = [Held, Failed, Granted ''gpu'' 1]"
proof -
  have ph: "map pt_phase (po_tasks aborted_head) = [Held, Failed, Waiting ''gpu'' 1]" by code_simp
  have len: "length (po_tasks aborted_head) = 3" using length_map [of pt_phase "po_tasks aborted_head"] by (simp add: ph)
  have "pt_phase (po_tasks aborted_head ! 2) = map pt_phase (po_tasks aborted_head) ! 2" using len by simp
  then have "pt_phase (po_tasks aborted_head ! 2) = Waiting ''gpu'' 1" by (simp add: ph)
  then have "pool_step aborted_head (Continue 2) = aborted_head"
    by (simp add: pool_step_def resume_task_def Let_def)
  moreover have "fits (getOrCreateSlot aborted_head ''gpu'') 1" by code_simp
  moreover have "map pt_phase (po_tasks (drain ''gpu'' aborted_head)) = [Held, Failed, Granted ''gpu'' 1]" by code_simp
  ultimately show ?thesis using ph by blast
qed

end
