(* ===== verification/Kv_Backend.thy ===== *)
theory Kv_Backend
  imports Wa_Prelude
begin

text \<open>
  The key-value interface \<open>KvBackend\<close> (packages/core/src/checkpoint/index.ts) as a locale, and its
  map-backed provider \<open>MemoryKvBackend\<close> (packages/core/src/workflow/store.ts). The values are the
  texts the clients store; a client that stores \<open>JSON.stringify\<close> of a record and reads it back with
  \<open>JSON.parse\<close> keeps the record itself as the value.
\<close>

section \<open>The interface\<close>

locale kv_backend =
  fixes get :: "'m \<Rightarrow> string \<Rightarrow> 'v option"
    and put :: "string \<Rightarrow> 'v \<Rightarrow> 'm \<Rightarrow> 'm"
    and del :: "string \<Rightarrow> 'm \<Rightarrow> 'm"
    and listing :: "string \<Rightarrow> 'm \<Rightarrow> string list"
    and ok :: "'m \<Rightarrow> bool"
  assumes get_put: "get (put k v m) k' = (if k' = k then Some v else get m k')"
    and get_del: "get (del k m) k' = (if k' = k then None else get m k')"
    and listing_exact: "set (listing p m) = {k. starts_with k p \<and> get m k \<noteq> None}"
    and listing_distinct: "ok m \<Longrightarrow> distinct (listing p m)"
    and ok_put: "ok m \<Longrightarrow> ok (put k v m)"
    and ok_del: "ok m \<Longrightarrow> ok (del k m)"
begin

lemma get_put_same: "get (put k v m) k = Some v"
  by (simp add: get_put)

lemma get_put_other: "k' \<noteq> k \<Longrightarrow> get (put k v m) k' = get m k'"
  by (simp add: get_put)

lemma get_del_all: "get (foldl (\<lambda>m k. del k m) m ks) k' = (if k' \<in> set ks then None else get m k')"
  by (induction ks arbitrary: m) (auto simp: get_del)

lemma clear_prefix:
  "get (foldl (\<lambda>m k. del k m) m (listing p m)) k' = (if starts_with k' p then None else get m k')"
  by (auto simp: get_del_all listing_exact)

lemma ok_del_all: "ok m \<Longrightarrow> ok (foldl (\<lambda>m k. del k m) m ks)"
  by (induction ks arbitrary: m) (auto simp: ok_del)

end

section \<open>The map-backed provider\<close>

type_synonym 'v kv = "(string \<times> 'v) list"

definition kv_get :: "'v kv \<Rightarrow> string \<Rightarrow> 'v option" where
  "kv_get m k = map_of m k"

definition kv_put :: "string \<Rightarrow> 'v \<Rightarrow> 'v kv \<Rightarrow> 'v kv" where
  "kv_put k v m = AList.update k v m"

definition kv_delete :: "string \<Rightarrow> 'v kv \<Rightarrow> 'v kv" where
  "kv_delete k m = AList.delete k m"

definition kv_list :: "string \<Rightarrow> 'v kv \<Rightarrow> string list" where
  "kv_list p m = filter (\<lambda>k. starts_with k p) (map fst m)"

definition kv_ok :: "'v kv \<Rightarrow> bool" where
  "kv_ok m = distinct (map fst m)"

interpretation mem: kv_backend kv_get kv_put kv_delete kv_list kv_ok
proof unfold_locales
  fix m :: "'v kv" and k k' p v
  show "kv_get (kv_put k v m) k' = (if k' = k then Some v else kv_get m k')"
    by (auto simp: kv_get_def kv_put_def update_conv)
  show "kv_get (kv_delete k m) k' = (if k' = k then None else kv_get m k')"
    by (auto simp: kv_get_def kv_delete_def delete_conv)
  show "set (kv_list p m) = {k. starts_with k p \<and> kv_get m k \<noteq> None}"
    by (auto simp: kv_list_def kv_get_def dom_map_of_conv_image_fst [symmetric])
  show "distinct (kv_list p m)" if "kv_ok m" using that by (simp add: kv_list_def kv_ok_def)
  show "kv_ok (kv_put k v m)" if "kv_ok m" using that by (simp add: kv_put_def kv_ok_def distinct_update)
  show "kv_ok (kv_delete k m)" if "kv_ok m" using that by (simp add: kv_delete_def kv_ok_def distinct_delete)
qed

lemma kv_put_get [simp]: "kv_get (kv_put k v m) k' = (if k' = k then Some v else kv_get m k')"
  by (rule mem.get_put)

lemma kv_delete_get [simp]: "kv_get (kv_delete k m) k' = (if k' = k then None else kv_get m k')"
  by (rule mem.get_del)

lemma kv_empty_get [simp]: "kv_get [] k = None"
  by (simp add: kv_get_def)

text \<open>A key is read back from its colon-separated parts when its first part has no colon.\<close>

lemma colon_split:
  assumes "CHR '':'' \<notin> set b" "CHR '':'' \<notin> set b'"
  shows "b @ CHR '':'' # p = b' @ CHR '':'' # p' \<longleftrightarrow> b = b' \<and> p = p'"
proof
  assume eq: "b @ CHR '':'' # p = b' @ CHR '':'' # p'"
  have t: "takeWhile (\<lambda>c. c \<noteq> CHR '':'') (x @ CHR '':'' # q) = x" if "CHR '':'' \<notin> set x" for x q
    using that by (induction x) auto
  from eq have "b = b'" using t [OF assms(1)] t [OF assms(2)] by metis
  then show "b = b' \<and> p = p'" using eq by simp
qed simp

end
