(* ===== verification/Branch_Workspace.thy ===== *)
theory Branch_Workspace
  imports Kv_Backend "HOL-Library.List_Lexorder" "HOL-Library.Char_ord" "HOL-Library.Multiset"
begin

text \<open>
  The branchable workspace (packages/core/src/workspace/BranchableWorkspace.ts): branches of a file
  tree in one key-value store, copied on write, with structured differences and merges.
  A workspace object is its branch id; the store is passed along. The value of a \<open>wsmeta:\<close> key is the
  parent field of the stored record. Walks of the parent chain carry the number of links they may
  still follow and return \<open>None\<close> when it runs out; \<open>walk_fuel\<close> is enough on every store that has no
  cycle of parents, and no number is enough on one that has.
  The order of \<open>localeCompare\<close> is a parameter \<open>le\<close> of the operations that sort by it.
\<close>

section \<open>Keys and store\<close>

datatype ws_value = Meta "string option" | Text string

type_synonym ws_kv = "ws_value kv"

definition metaKey :: "string \<Rightarrow> string" where
  "metaKey b = ''wsmeta:'' @ b"

definition branchFilePrefix :: "string \<Rightarrow> string" where
  "branchFilePrefix b = ''wsfile:'' @ b @ '':''"

definition branchTombPrefix :: "string \<Rightarrow> string" where
  "branchTombPrefix b = ''wstomb:'' @ b @ '':''"

definition fileKey :: "string \<Rightarrow> string \<Rightarrow> string" where
  "fileKey b path = ''wsfile:'' @ b @ '':'' @ path"

definition tombKey :: "string \<Rightarrow> string \<Rightarrow> string" where
  "tombKey b path = ''wstomb:'' @ b @ '':'' @ path"

definition text_at :: "ws_kv \<Rightarrow> string \<Rightarrow> string option" where
  "text_at kv k = (case kv_get kv k of Some (Text s) \<Rightarrow> Some s | _ \<Rightarrow> None)"

text \<open>The constructor's check of a branch id.\<close>

definition valid_branch_id :: "string \<Rightarrow> bool" where
  "valid_branch_id b = (b \<noteq> [] \<and> list_all (\<lambda>c. c \<noteq> CHR '':'' \<and> \<not> is_space c) b)"

section \<open>Reading\<close>

text \<open>\<open>#parentOf\<close>, with the test of the cursor that follows every call of it.\<close>

definition parentOf :: "ws_kv \<Rightarrow> string \<Rightarrow> string option" where
  "parentOf kv b = (case kv_get kv (metaKey b) of
                      Some (Meta (Some p)) \<Rightarrow> if p = [] then None else Some p
                    | _ \<Rightarrow> None)"

definition walk_fuel :: "ws_kv \<Rightarrow> nat" where
  "walk_fuel kv = length kv + 1"

text \<open>What one branch records of a path: a tombstone, a content, or nothing.\<close>

datatype branch_record = Deleted | Content string | Absent

definition record_at :: "ws_kv \<Rightarrow> string \<Rightarrow> string \<Rightarrow> branch_record" where
  "record_at kv b path =
     (if truthy (text_at kv (tombKey b path)) then Deleted
      else case text_at kv (fileKey b path) of Some c \<Rightarrow> Content c | None \<Rightarrow> Absent)"

fun read_loop :: "nat \<Rightarrow> ws_kv \<Rightarrow> string \<Rightarrow> string \<Rightarrow> string option option" where
  "read_loop 0 kv cursor path = None"
| "read_loop (Suc n) kv cursor path =
     (case record_at kv cursor path of
        Deleted \<Rightarrow> Some None
      | Content c \<Rightarrow> Some (Some c)
      | Absent \<Rightarrow> (case parentOf kv cursor of None \<Rightarrow> Some None | Some p \<Rightarrow> read_loop n kv p path))"

definition ws_read :: "ws_kv \<Rightarrow> string \<Rightarrow> string \<Rightarrow> string option option" where
  "ws_read kv b path = read_loop (walk_fuel kv) kv b path"

fun exists_loop :: "nat \<Rightarrow> ws_kv \<Rightarrow> string \<Rightarrow> string \<Rightarrow> bool option" where
  "exists_loop 0 kv cursor path = None"
| "exists_loop (Suc n) kv cursor path =
     (if truthy (text_at kv (tombKey cursor path)) then Some False
      else if text_at kv (fileKey cursor path) \<noteq> None then Some True
      else case parentOf kv cursor of None \<Rightarrow> Some False | Some p \<Rightarrow> exists_loop n kv p path)"

definition ws_exists :: "ws_kv \<Rightarrow> string \<Rightarrow> string \<Rightarrow> bool option" where
  "ws_exists kv b path = exists_loop (walk_fuel kv) kv b path"

text \<open>
  \<open>list\<close>. The sets of the source are lists without repetition; a turn handles the tombstones of a
  branch before its files.
\<close>

definition tomb_paths :: "ws_kv \<Rightarrow> string \<Rightarrow> string list" where
  "tomb_paths kv b = map (drop (length (branchTombPrefix b))) (kv_list (branchTombPrefix b) kv)"

definition file_paths :: "ws_kv \<Rightarrow> string \<Rightarrow> string list" where
  "file_paths kv b = map (drop (length (branchFilePrefix b))) (kv_list (branchFilePrefix b) kv)"

fun list_loop :: "nat \<Rightarrow> ws_kv \<Rightarrow> string \<Rightarrow> string list \<Rightarrow> string list \<Rightarrow> string list option" where
  "list_loop 0 kv cursor visible tombstoned = None"
| "list_loop (Suc n) kv cursor visible tombstoned =
     (let tombs = foldl (\<lambda>ts p. if p \<in> set visible then ts else List.insert p ts) tombstoned (tomb_paths kv cursor);
          vis = foldl (\<lambda>vs p. if p \<in> set tombs then vs else List.insert p vs) visible (file_paths kv cursor)
      in case parentOf kv cursor of None \<Rightarrow> Some vis | Some p \<Rightarrow> list_loop n kv p vis tombs)"

definition ws_list :: "ws_kv \<Rightarrow> string \<Rightarrow> string list option" where
  "ws_list kv b = (case list_loop (walk_fuel kv) kv b [] [] of None \<Rightarrow> None | Some vs \<Rightarrow> Some (sort vs))"

fun ancestorChain_loop :: "nat \<Rightarrow> ws_kv \<Rightarrow> string \<Rightarrow> string list option" where
  "ancestorChain_loop 0 kv cursor = None"
| "ancestorChain_loop (Suc n) kv cursor =
     (case parentOf kv cursor of
        None \<Rightarrow> Some [cursor]
      | Some p \<Rightarrow> (case ancestorChain_loop n kv p of None \<Rightarrow> None | Some ch \<Rightarrow> Some (cursor # ch)))"

definition ancestorChain :: "ws_kv \<Rightarrow> string \<Rightarrow> string list option" where
  "ancestorChain kv b = ancestorChain_loop (walk_fuel kv) kv b"

definition isAncestor :: "ws_kv \<Rightarrow> string \<Rightarrow> string \<Rightarrow> bool option" where
  "isAncestor kv b candidate =
     (if candidate = b then Some True
      else case ancestorChain kv b of None \<Rightarrow> None | Some ch \<Rightarrow> Some (candidate \<in> set ch))"

definition commonAncestor :: "ws_kv \<Rightarrow> string \<Rightarrow> string \<Rightarrow> string option option" where
  "commonAncestor kv b other =
     (case ancestorChain kv b of None \<Rightarrow> None
      | Some ours \<Rightarrow>
          (case ancestorChain kv other of None \<Rightarrow> None
           | Some theirs \<Rightarrow> Some (find (\<lambda>x. x \<in> set ours) theirs)))"

section \<open>Writing and forking\<close>

definition ws_init :: "string \<Rightarrow> string option \<Rightarrow> ws_kv \<Rightarrow> ws_kv" where
  "ws_init b parent kv =
     (case kv_get kv (metaKey b) of Some _ \<Rightarrow> kv | None \<Rightarrow> kv_put (metaKey b) (Meta parent) kv)"

definition ws_write :: "string \<Rightarrow> string \<Rightarrow> string \<Rightarrow> ws_kv \<Rightarrow> ws_kv" where
  "ws_write b path content kv = kv_put (fileKey b path) (Text content) (kv_delete (tombKey b path) kv)"

definition ws_remove :: "string \<Rightarrow> string \<Rightarrow> ws_kv \<Rightarrow> ws_kv" where
  "ws_remove b path kv = kv_put (tombKey b path) (Text ''1'') (kv_delete (fileKey b path) kv)"

datatype ws_error = BadBranchId string | NotAnAncestor string string | NoCommonAncestor string string

definition ws_fork :: "string \<Rightarrow> string \<Rightarrow> ws_kv \<Rightarrow> ws_error + ws_kv" where
  "ws_fork b child kv =
     (if valid_branch_id child then Inr (ws_init child (Some b) kv) else Inl (BadBranchId child))"

definition openOrCreateRoot :: "string \<Rightarrow> ws_kv \<Rightarrow> ws_error + ws_kv" where
  "openOrCreateRoot b kv =
     (if valid_branch_id b then Inr (ws_init b None kv) else Inl (BadBranchId b))"

section \<open>Differences and merges\<close>

datatype change_kind = Added | Modified | Removed

record file_change =
  fc_path :: string
  fc_kind :: change_kind
  fc_content :: "string option"

datatype conflict_reason = BothModified | ModifiedVsDeleted | DeletedVsModified

record merge_conflict =
  mc_path :: string
  mc_ours :: "string option"
  mc_theirs :: "string option"
  mc_reason :: conflict_reason

datatype merge_strategy = FailOnConflict | Ours | Theirs

record merge_result =
  mr_applied :: "string list"
  mr_conflicts :: "merge_conflict list"

text \<open>The two inner loops of \<open>diff\<close>: the paths already visited, and the changes found.\<close>

type_synonym diff_state = "string list \<times> file_change list"

definition diff_tomb :: "(string \<Rightarrow> string option) \<Rightarrow> diff_state \<Rightarrow> string \<Rightarrow> diff_state" where
  "diff_tomb base st path =
     (if path \<in> set (fst st) then st
      else (path # fst st,
            if base path \<noteq> None
            then snd st @ [\<lparr>fc_path = path, fc_kind = Removed, fc_content = None\<rparr>] else snd st))"

definition diff_file ::
    "(string \<Rightarrow> string option) \<Rightarrow> (string \<Rightarrow> string option) \<Rightarrow> diff_state \<Rightarrow> string \<Rightarrow> diff_state" where
  "diff_file base ours st path =
     (if path \<in> set (fst st) then st
      else (path # fst st,
            case ours path of
              None \<Rightarrow> snd st
            | Some c \<Rightarrow>
                (case base path of
                   None \<Rightarrow> snd st @ [\<lparr>fc_path = path, fc_kind = Added, fc_content = Some c\<rparr>]
                 | Some d \<Rightarrow>
                     if d \<noteq> c then snd st @ [\<lparr>fc_path = path, fc_kind = Modified, fc_content = Some c\<rparr>]
                     else snd st)))"

fun diff_loop ::
    "nat \<Rightarrow> ws_kv \<Rightarrow> string \<Rightarrow> (string \<Rightarrow> string option) \<Rightarrow> (string \<Rightarrow> string option) \<Rightarrow> string \<Rightarrow>
     diff_state \<Rightarrow> diff_state option" where
  "diff_loop 0 kv baseId base ours cursor st = None"
| "diff_loop (Suc n) kv baseId base ours cursor st =
     (if cursor = baseId then Some st
      else let st1 = foldl (diff_tomb base) st (tomb_paths kv cursor);
               st2 = foldl (diff_file base ours) st1 (file_paths kv cursor)
           in case parentOf kv cursor of
                None \<Rightarrow> Some st2
              | Some p \<Rightarrow> diff_loop n kv baseId base ours p st2)"

text \<open>\<open>Array.prototype.sort\<close> with a comparison: a stable insertion sort.\<close>

fun insert_change :: "(string \<Rightarrow> string \<Rightarrow> bool) \<Rightarrow> file_change \<Rightarrow> file_change list \<Rightarrow> file_change list" where
  "insert_change le c [] = [c]"
| "insert_change le c (d # ds) = (if le (fc_path c) (fc_path d) then c # d # ds else d # insert_change le c ds)"

definition sort_changes :: "(string \<Rightarrow> string \<Rightarrow> bool) \<Rightarrow> file_change list \<Rightarrow> file_change list" where
  "sort_changes le cs = foldr (insert_change le) cs []"

text \<open>
  \<open>diff\<close> on a store whose parent chains end: the two reads it makes of a path are those of the
  branch and of the base. The outer \<open>None\<close> is a walk that does not end.
\<close>

definition read_value :: "ws_kv \<Rightarrow> string \<Rightarrow> string \<Rightarrow> string option" where
  "read_value kv b path = (case ws_read kv b path of None \<Rightarrow> None | Some r \<Rightarrow> r)"

definition ws_diff ::
    "(string \<Rightarrow> string \<Rightarrow> bool) \<Rightarrow> ws_kv \<Rightarrow> string \<Rightarrow> string \<Rightarrow> (ws_error + file_change list) option" where
  "ws_diff le kv b baseId =
     (case isAncestor kv b baseId of
        None \<Rightarrow> None
      | Some False \<Rightarrow> Some (Inl (NotAnAncestor baseId b))
      | Some True \<Rightarrow>
          (case diff_loop (walk_fuel kv) kv baseId (read_value kv baseId) (read_value kv b) b ([], []) of
             None \<Rightarrow> None
           | Some st \<Rightarrow> Some (Inr (sort_changes le (snd st)))))"

definition classifyConflict :: "file_change \<Rightarrow> file_change \<Rightarrow> merge_conflict option" where
  "classifyConflict ours theirs =
     (if fc_kind ours = Removed \<and> fc_kind theirs = Removed then None
      else if fc_kind ours \<in> {Added, Modified} \<and> fc_kind theirs \<in> {Added, Modified} \<and>
              fc_content ours = fc_content theirs then None
      else if fc_kind ours = Removed \<and> fc_kind theirs \<in> {Added, Modified}
      then Some \<lparr>mc_path = fc_path ours, mc_ours = None, mc_theirs = fc_content theirs,
                  mc_reason = DeletedVsModified\<rparr>
      else if fc_kind theirs = Removed \<and> fc_kind ours \<in> {Added, Modified}
      then Some \<lparr>mc_path = fc_path ours, mc_ours = fc_content ours, mc_theirs = None,
                  mc_reason = ModifiedVsDeleted\<rparr>
      else Some \<lparr>mc_path = fc_path ours, mc_ours = fc_content ours, mc_theirs = fc_content theirs,
                  mc_reason = BothModified\<rparr>)"

definition apply_change :: "string \<Rightarrow> file_change \<Rightarrow> ws_kv \<Rightarrow> ws_kv" where
  "apply_change b t kv =
     (if fc_kind t = Removed then ws_remove b (fc_path t) kv
      else case fc_content t of None \<Rightarrow> kv | Some c \<Rightarrow> ws_write b (fc_path t) c kv)"

text \<open>One turn of the merge loop over the other side's changes.\<close>

definition merge_step ::
    "string \<Rightarrow> merge_strategy \<Rightarrow> (string \<Rightarrow> file_change option) \<Rightarrow> ws_kv \<times> merge_result \<Rightarrow> file_change \<Rightarrow>
     ws_kv \<times> merge_result" where
  "merge_step b strategy ourMap st t =
     (let (kv, res) = st;
          done = res\<lparr>mr_applied := mr_applied res @ [fc_path t]\<rparr>
      in case ourMap (fc_path t) of
           None \<Rightarrow> (apply_change b t kv, done)
         | Some u \<Rightarrow>
             (case classifyConflict u t of
                None \<Rightarrow> (kv, done)
              | Some conflict \<Rightarrow>
                  (case strategy of
                     FailOnConflict \<Rightarrow> (kv, res\<lparr>mr_conflicts := mr_conflicts res @ [conflict]\<rparr>)
                   | Theirs \<Rightarrow> (apply_change b t kv, done)
                   | Ours \<Rightarrow> (kv, done))))"

definition ws_merge ::
    "(string \<Rightarrow> string \<Rightarrow> bool) \<Rightarrow> merge_strategy \<Rightarrow> string \<Rightarrow> string \<Rightarrow> ws_kv \<Rightarrow>
     (ws_error + ws_kv \<times> merge_result) option" where
  "ws_merge le strategy b other kv =
     (case commonAncestor kv b other of
        None \<Rightarrow> None
      | Some None \<Rightarrow> Some (Inl (NoCommonAncestor b other))
      | Some (Some base) \<Rightarrow>
          (case ws_diff le kv b base of
             None \<Rightarrow> None
           | Some (Inl e) \<Rightarrow> Some (Inl e)
           | Some (Inr ours) \<Rightarrow>
               (case ws_diff le kv other base of
                  None \<Rightarrow> None
                | Some (Inl e) \<Rightarrow> Some (Inl e)
                | Some (Inr theirs) \<Rightarrow>
                    Some (Inr (foldl (merge_step b strategy (map_of (rev (map (\<lambda>c. (fc_path c, c)) ours))))
                                 (kv, \<lparr>mr_applied = [], mr_conflicts = []\<rparr>) theirs)))))"

section \<open>Keys\<close>

lemma valid_no_colon: "valid_branch_id b \<Longrightarrow> CHR '':'' \<notin> set b"
  by (auto simp: valid_branch_id_def list_all_iff)

lemma key_eqs [simp]:
  "metaKey b = metaKey b' \<longleftrightarrow> b = b'"
  "fileKey b p \<noteq> metaKey b'" "metaKey b' \<noteq> fileKey b p"
  "tombKey b p \<noteq> metaKey b'" "metaKey b' \<noteq> tombKey b p"
  "fileKey b p \<noteq> tombKey b' p'" "tombKey b' p' \<noteq> fileKey b p"
  by (simp_all add: metaKey_def fileKey_def tombKey_def)

lemma branch_key_eqs:
  assumes "valid_branch_id b" "valid_branch_id b'"
  shows "fileKey b p = fileKey b' p' \<longleftrightarrow> b = b' \<and> p = p'" "tombKey b p = tombKey b' p' \<longleftrightarrow> b = b' \<and> p = p'"
  using colon_split [OF valid_no_colon [OF assms(1)] valid_no_colon [OF assms(2)], of p p']
  by (simp_all add: fileKey_def tombKey_def)

lemma prefix_keys:
  "branchFilePrefix b @ p = fileKey b p" "branchTombPrefix b @ p = tombKey b p"
  by (simp_all add: branchFilePrefix_def branchTombPrefix_def fileKey_def tombKey_def)

lemma drop_prefix [simp]:
  "drop (length (branchTombPrefix b)) (tombKey b p) = p" "drop (length (branchFilePrefix b)) (fileKey b p) = p"
  by (simp_all flip: prefix_keys)

lemma tomb_paths_iff: "p \<in> set (tomb_paths kv b) \<longleftrightarrow> kv_get kv (tombKey b p) \<noteq> None"
proof -
  have "p \<in> set (tomb_paths kv b) \<longleftrightarrow> (\<exists>q. kv_get kv (tombKey b q) \<noteq> None \<and> p = q)"
    unfolding tomb_paths_def set_map mem.listing_exact
    by (auto simp: starts_with_iff prefix_keys image_iff)
  then show ?thesis by blast
qed

lemma file_paths_iff: "p \<in> set (file_paths kv b) \<longleftrightarrow> kv_get kv (fileKey b p) \<noteq> None"
proof -
  have "p \<in> set (file_paths kv b) \<longleftrightarrow> (\<exists>q. kv_get kv (fileKey b q) \<noteq> None \<and> p = q)"
    unfolding file_paths_def set_map mem.listing_exact
    by (auto simp: starts_with_iff prefix_keys image_iff)
  then show ?thesis by blast
qed

section \<open>The invariant of a store\<close>

definition has_meta :: "ws_kv \<Rightarrow> string \<Rightarrow> bool" where
  "has_meta kv b = (kv_get kv (metaKey b) \<noteq> None)"

text \<open>Records have the types the keys promise, and only initialised branches have records.\<close>

definition ws_typed :: "ws_kv \<Rightarrow> bool" where
  "ws_typed kv =
     ((\<forall>b p v. kv_get kv (tombKey b p) = Some v \<longrightarrow> v = Text ''1'') \<and>
      (\<forall>b p v. kv_get kv (fileKey b p) = Some v \<longrightarrow> (\<exists>s. v = Text s)) \<and>
      (\<forall>b p. valid_branch_id b \<and> record_at kv b p \<noteq> Absent \<longrightarrow> has_meta kv b) \<and>
      (\<forall>b v. kv_get kv (metaKey b) = Some v \<longrightarrow>
         v = Meta None \<or> (\<exists>p. v = Meta (Some p) \<and> valid_branch_id p \<and> has_meta kv p)))"

text \<open>Parents were initialised before their children: the rank of a branch is its turn.\<close>

definition ws_ranked :: "ws_kv \<Rightarrow> bool" where
  "ws_ranked kv =
     (\<exists>rank :: string \<Rightarrow> nat. (\<forall>b. rank b \<le> card {b. has_meta kv b}) \<and>
                         (\<forall>b p. parentOf kv b = Some p \<longrightarrow> rank p < rank b))"

definition ws_ok :: "ws_kv \<Rightarrow> bool" where
  "ws_ok kv = (kv_ok kv \<and> ws_typed kv \<and> ws_ranked kv)"

lemma metas_finite: "finite {b. has_meta kv b}"
proof -
  have "metaKey ` {b. has_meta kv b} \<subseteq> fst ` set kv"
    by (auto simp: has_meta_def kv_get_def dom_map_of_conv_image_fst [symmetric])
  then have "finite (metaKey ` {b. has_meta kv b})" by (rule finite_subset) simp
  then show ?thesis by (rule finite_imageD) (simp add: inj_on_def)
qed

lemma metas_bounded: "card {b. has_meta kv b} \<le> length kv"
proof -
  have "metaKey ` {b. has_meta kv b} \<subseteq> fst ` set kv"
    by (auto simp: has_meta_def kv_get_def dom_map_of_conv_image_fst [symmetric])
  then have "card (metaKey ` {b. has_meta kv b}) \<le> card (fst ` set kv)" by (intro card_mono) auto
  moreover have "card (metaKey ` {b. has_meta kv b}) = card {b. has_meta kv b}"
    by (rule card_image) (simp add: inj_on_def)
  moreover have "card (fst ` set kv) \<le> length kv"
    using card_length [of "map fst kv"] by simp
  ultimately show ?thesis by simp
qed

lemma typed_tomb: "ws_typed kv \<Longrightarrow> truthy (text_at kv (tombKey b p)) \<longleftrightarrow> kv_get kv (tombKey b p) \<noteq> None"
  by (cases "kv_get kv (tombKey b p)") (fastforce simp: ws_typed_def text_at_def truthy_def)+

lemma typed_file: "ws_typed kv \<Longrightarrow> text_at kv (fileKey b p) \<noteq> None \<longleftrightarrow> kv_get kv (fileKey b p) \<noteq> None"
  by (cases "kv_get kv (fileKey b p)") (fastforce simp: ws_typed_def text_at_def)+

lemma typed_record: "ws_typed kv \<Longrightarrow> valid_branch_id b \<Longrightarrow> record_at kv b p \<noteq> Absent \<Longrightarrow> has_meta kv b"
  unfolding ws_typed_def by blast

lemma parent_valid: "ws_typed kv \<Longrightarrow> parentOf kv b = Some p \<Longrightarrow> valid_branch_id p \<and> has_meta kv p \<and> has_meta kv b"
  by (fastforce simp: ws_typed_def parentOf_def has_meta_def split: option.splits ws_value.splits if_splits)

section \<open>Walks of the parent chain\<close>

fun view :: "ws_kv \<Rightarrow> string list \<Rightarrow> string \<Rightarrow> string option" where
  "view kv [] path = None"
| "view kv (b # bs) path =
     (case record_at kv b path of Deleted \<Rightarrow> None | Content c \<Rightarrow> Some c | Absent \<Rightarrow> view kv bs path)"

lemma chain_exists: "\<forall>b p. parentOf kv b = Some p \<longrightarrow> rank p < (rank b :: nat) \<Longrightarrow> rank b < n \<Longrightarrow>
    \<exists>ch. ancestorChain_loop n kv b = Some ch"
proof (induction n arbitrary: b)
  case (Suc n)
  show ?case
  proof (cases "parentOf kv b")
    case (Some p)
    then have "rank p < n" using Suc.prems by (metis less_Suc_eq_le order_less_le_trans)
    then obtain ch where "ancestorChain_loop n kv p = Some ch" using Suc.IH [OF Suc.prems(1)] by blast
    then show ?thesis using Some by simp
  qed simp
qed simp

lemma chain_total: assumes "ws_ok kv" obtains ch where "ancestorChain kv b = Some ch"
proof -
  obtain rank where r: "rank b \<le> card {b. has_meta kv b}" "\<forall>b p. parentOf kv b = Some p \<longrightarrow> rank p < (rank b :: nat)"
    using assms unfolding ws_ok_def ws_ranked_def by blast
  have "rank b < walk_fuel kv" using r(1) metas_bounded [of kv] by (simp add: walk_fuel_def)
  then show thesis using chain_exists [OF r(2)] that unfolding ancestorChain_def by blast
qed

lemma chain_head: "ancestorChain_loop n kv b = Some ch \<Longrightarrow> \<exists>r. ch = b # r"
  by (cases n) (auto split: option.splits)

lemma chain_fuel: "ancestorChain_loop n kv b = Some ch \<Longrightarrow> n \<le> m \<Longrightarrow> ancestorChain_loop m kv b = Some ch"
proof (induction n arbitrary: b ch m)
  case (Suc n)
  obtain m' where m: "m = Suc m'" "n \<le> m'" using Suc.prems(2) by (cases m) auto
  show ?case
  proof (cases "parentOf kv b")
    case (Some p)
    then obtain r where "ancestorChain_loop n kv p = Some r" "ch = b # r"
      using Suc.prems(1) by (auto split: option.splits)
    then show ?thesis using Suc.IH [of p r m'] Some m by simp
  qed (use Suc.prems(1) m in simp)
qed simp

lemma chain_suffix:
  "ancestorChain_loop n kv b = Some (xs @ c # ys) \<Longrightarrow> \<exists>m \<le> n. ancestorChain_loop m kv c = Some (c # ys)"
proof (induction xs arbitrary: n b)
  case Nil
  then have "b = c" using chain_head by fastforce
  then show ?case using Nil by auto
next
  case (Cons x xs)
  obtain n' where n: "n = Suc n'" using Cons.prems by (cases n) auto
  obtain p where "ancestorChain_loop n' kv p = Some (xs @ c # ys)"
    using Cons.prems unfolding n by (auto split: option.splits)
  then obtain m where "m \<le> n'" "ancestorChain_loop m kv c = Some (c # ys)" using Cons.IH by blast
  then show ?case using n by (intro exI [of _ m]) simp
qed

lemma chain_of_member:
  "ancestorChain kv b = Some (xs @ c # ys) \<Longrightarrow> ancestorChain kv c = Some (c # ys)"
  unfolding ancestorChain_def using chain_suffix chain_fuel by blast

lemma chain_distinct: "ancestorChain_loop n kv b = Some ch \<Longrightarrow> distinct ch"
proof (induction n arbitrary: b ch)
  case (Suc n)
  show ?case
  proof (cases "parentOf kv b")
    case (Some p)
    then obtain r where r: "ancestorChain_loop n kv p = Some r" "ch = b # r"
      using Suc.prems by (auto split: option.splits)
    have "b \<notin> set r"
    proof
      assume "b \<in> set r"
      then obtain xs ys where "r = xs @ b # ys" by (auto dest: split_list)
      then obtain m where "ancestorChain_loop m kv b = Some (b # ys)" using chain_suffix r by blast
      then have "ancestorChain_loop (max m (Suc n)) kv b = Some (b # ys)" by (rule chain_fuel) simp
      moreover have "ancestorChain_loop (max m (Suc n)) kv b = Some ch" using Suc.prems by (rule chain_fuel) simp
      ultimately show False using r \<open>r = xs @ b # ys\<close> by simp
    qed
    then show ?thesis using Suc.IH r by simp
  qed (use Suc.prems in auto)
qed simp

lemma read_loop_view: "ancestorChain_loop n kv b = Some ch \<Longrightarrow> read_loop n kv b path = Some (view kv ch path)"
  by (induction n arbitrary: b ch) (auto split: option.splits branch_record.splits)

lemma read_view: "ancestorChain kv b = Some ch \<Longrightarrow> ws_read kv b path = Some (view kv ch path)"
  by (simp add: ancestorChain_def ws_read_def read_loop_view)

lemma exists_loop_view:
  "ancestorChain_loop n kv b = Some ch \<Longrightarrow> exists_loop n kv b path = Some (view kv ch path \<noteq> None)"
  by (induction n arbitrary: b ch) (auto simp: record_at_def split: option.splits branch_record.splits)

lemma read_value_view: "ancestorChain kv b = Some ch \<Longrightarrow> read_value kv b path = view kv ch path"
  by (simp add: read_value_def read_view)

lemma view_append:
  "view kv (xs @ ys) path = (if \<exists>b \<in> set xs. record_at kv b path \<noteq> Absent then view kv xs path else view kv ys path)"
  by (induction xs) (auto split: branch_record.splits)

section \<open>Effects of the operations on records and parents\<close>

lemma text_at_put [simp]: "text_at (kv_put k v kv) k' = (if k' = k then (case v of Text s \<Rightarrow> Some s | Meta p \<Rightarrow> None) else text_at kv k')"
  by (simp add: text_at_def)

lemma text_at_delete [simp]: "text_at (kv_delete k kv) k' = (if k' = k then None else text_at kv k')"
  by (simp add: text_at_def)

lemma record_write:
  "valid_branch_id b \<Longrightarrow> valid_branch_id b' \<Longrightarrow>
     record_at (ws_write b path c kv) b' p = (if b' = b \<and> p = path then Content c else record_at kv b' p)"
  by (auto simp: record_at_def ws_write_def branch_key_eqs truthy_def)

lemma record_remove:
  "valid_branch_id b \<Longrightarrow> valid_branch_id b' \<Longrightarrow>
     record_at (ws_remove b path kv) b' p = (if b' = b \<and> p = path then Deleted else record_at kv b' p)"
  by (auto simp: record_at_def ws_remove_def branch_key_eqs truthy_def)

lemma record_init [simp]: "record_at (ws_init b par kv) b' p = record_at kv b' p"
  by (simp add: record_at_def ws_init_def split: option.splits)

lemma meta_write [simp]:
  "has_meta (ws_write b path c kv) b' = has_meta kv b'" "has_meta (ws_remove b path kv) b' = has_meta kv b'"
  "parentOf (ws_write b path c kv) b' = parentOf kv b'" "parentOf (ws_remove b path kv) b' = parentOf kv b'"
  by (simp_all add: has_meta_def parentOf_def ws_write_def ws_remove_def)

lemma meta_init: "has_meta (ws_init b par kv) b' \<longleftrightarrow> b' = b \<or> has_meta kv b'"
  by (auto simp: has_meta_def ws_init_def split: option.splits)

lemma parent_init:
  "parentOf (ws_init b par kv) b' =
     (if b' = b \<and> \<not> has_meta kv b then (case par of Some p \<Rightarrow> if p = [] then None else Some p | None \<Rightarrow> None)
      else parentOf kv b')"
  by (auto simp: has_meta_def parentOf_def ws_init_def split: option.splits)

lemma kv_ok_ops:
  "kv_ok kv \<Longrightarrow> kv_ok (ws_write b path c kv)" "kv_ok kv \<Longrightarrow> kv_ok (ws_remove b path kv)"
  "kv_ok kv \<Longrightarrow> kv_ok (ws_init b par kv)"
  by (simp_all add: ws_write_def ws_remove_def ws_init_def mem.ok_put mem.ok_del split: option.splits)

lemma typed_write:
  assumes "ws_typed kv" "valid_branch_id b" "has_meta kv b"
  shows "ws_typed (ws_write b path c kv)"
  unfolding ws_typed_def
proof (intro conjI)
  show "\<forall>b' p v. kv_get (ws_write b path c kv) (tombKey b' p) = Some v \<longrightarrow> v = Text ''1''"
    using assms(1) by (auto simp: ws_typed_def ws_write_def split: if_splits)
  show "\<forall>b' p v. kv_get (ws_write b path c kv) (fileKey b' p) = Some v \<longrightarrow> (\<exists>s. v = Text s)"
    using assms(1) by (auto simp: ws_typed_def ws_write_def split: if_splits)
  show "\<forall>b' p. valid_branch_id b' \<and> record_at (ws_write b path c kv) b' p \<noteq> Absent \<longrightarrow>
          has_meta (ws_write b path c kv) b'"
    using assms(2,3) typed_record [OF assms(1)] by (auto simp: record_write split: if_splits)
  show "\<forall>b' v. kv_get (ws_write b path c kv) (metaKey b') = Some v \<longrightarrow>
      v = Meta None \<or> (\<exists>p. v = Meta (Some p) \<and> valid_branch_id p \<and> has_meta (ws_write b path c kv) p)"
    unfolding meta_write using assms(1) by (simp add: ws_typed_def ws_write_def)
qed

lemma typed_remove:
  assumes "ws_typed kv" "valid_branch_id b" "has_meta kv b"
  shows "ws_typed (ws_remove b path kv)"
  unfolding ws_typed_def
proof (intro conjI)
  show "\<forall>b' p v. kv_get (ws_remove b path kv) (tombKey b' p) = Some v \<longrightarrow> v = Text ''1''"
    using assms(1) by (auto simp: ws_typed_def ws_remove_def split: if_splits)
  show "\<forall>b' p v. kv_get (ws_remove b path kv) (fileKey b' p) = Some v \<longrightarrow> (\<exists>s. v = Text s)"
    using assms(1) by (auto simp: ws_typed_def ws_remove_def split: if_splits)
  show "\<forall>b' p. valid_branch_id b' \<and> record_at (ws_remove b path kv) b' p \<noteq> Absent \<longrightarrow>
          has_meta (ws_remove b path kv) b'"
    using assms(2,3) typed_record [OF assms(1)] by (auto simp: record_remove split: if_splits)
  show "\<forall>b' v. kv_get (ws_remove b path kv) (metaKey b') = Some v \<longrightarrow>
      v = Meta None \<or> (\<exists>p. v = Meta (Some p) \<and> valid_branch_id p \<and> has_meta (ws_remove b path kv) p)"
    unfolding meta_write using assms(1) by (simp add: ws_typed_def ws_remove_def)
qed

lemma ranked_meta:
  "ws_ranked kv \<Longrightarrow> (\<And>b. has_meta kv' b = has_meta kv b) \<Longrightarrow> (\<And>b. parentOf kv' b = parentOf kv b) \<Longrightarrow> ws_ranked kv'"
  by (simp add: ws_ranked_def)

lemma write_ok: "ws_ok kv \<Longrightarrow> valid_branch_id b \<Longrightarrow> has_meta kv b \<Longrightarrow> ws_ok (ws_write b path c kv)"
  by (simp add: ws_ok_def kv_ok_ops typed_write ranked_meta [of kv])

lemma remove_ok: "ws_ok kv \<Longrightarrow> valid_branch_id b \<Longrightarrow> has_meta kv b \<Longrightarrow> ws_ok (ws_remove b path kv)"
  by (simp add: ws_ok_def kv_ok_ops typed_remove ranked_meta [of kv])

text \<open>A branch that is initialised on a parent that has been.\<close>

lemma init_ranked:
  assumes ok: "ws_ok kv" and new: "\<not> has_meta kv b"
    and par: "\<forall>p. par = Some p \<longrightarrow> valid_branch_id p \<and> has_meta kv p"
  shows "ws_ranked (ws_init b par kv)"
proof -
  obtain rank where r: "\<And>b. rank b \<le> card {b. has_meta kv b}" "\<And>b p. parentOf kv b = Some p \<Longrightarrow> rank p < (rank b :: nat)"
    using ok unfolding ws_ok_def ws_ranked_def by blast
  have metas: "{x. has_meta (ws_init b par kv) x} = insert b {b. has_meta kv b}" by (auto simp: meta_init)
  have crd: "card {x. has_meta (ws_init b par kv) x} = Suc (card {b. has_meta kv b})"
    using new metas_finite [of kv] unfolding metas by simp
  let ?r = "rank (b := Suc (card {b. has_meta kv b}))"
  have ty: "ws_typed kv" using ok by (simp add: ws_ok_def)
  have "?r x \<le> card {x. has_meta (ws_init b par kv) x}" for x using r(1) [of x] by (auto simp: crd)
  moreover have "?r p < ?r x" if "parentOf (ws_init b par kv) x = Some p" for x p
  proof (cases "x = b")
    case True
    then have "par = Some p" using that new by (auto simp: parent_init split: option.splits if_splits)
    then have "p \<noteq> b" using par new by auto
    then show ?thesis using True r(1) [of p] by auto
  next
    case False
    then have px: "parentOf kv x = Some p" using that by (simp add: parent_init)
    then have "p \<noteq> b" using parent_valid [OF ty] new by auto
    then show ?thesis using r(2) [OF px] False by simp
  qed
  ultimately show ?thesis unfolding ws_ranked_def by blast
qed

lemma init_ok:
  assumes ok: "ws_ok kv" and par: "\<forall>p. par = Some p \<longrightarrow> valid_branch_id p \<and> has_meta kv p"
  shows "ws_ok (ws_init b par kv)"
proof (cases "has_meta kv b")
  case True
  then show ?thesis using ok by (auto simp: ws_init_def has_meta_def split: option.splits)
next
  case False
  have ty: "ws_typed kv" and kvok: "kv_ok kv" using ok by (simp_all add: ws_ok_def)
  have "ws_typed (ws_init b par kv)"
    unfolding ws_typed_def
  proof (intro conjI)
    show "\<forall>b' p v. kv_get (ws_init b par kv) (tombKey b' p) = Some v \<longrightarrow> v = Text ''1''"
      "\<forall>b' p v. kv_get (ws_init b par kv) (fileKey b' p) = Some v \<longrightarrow> (\<exists>s. v = Text s)"
      using ty by (simp_all add: ws_typed_def ws_init_def split: option.splits)
    show "\<forall>b' p. valid_branch_id b' \<and> record_at (ws_init b par kv) b' p \<noteq> Absent \<longrightarrow> has_meta (ws_init b par kv) b'"
      using ty by (auto simp: ws_typed_def meta_init)
    show "\<forall>b' v. kv_get (ws_init b par kv) (metaKey b') = Some v \<longrightarrow>
        v = Meta None \<or> (\<exists>p. v = Meta (Some p) \<and> valid_branch_id p \<and> has_meta (ws_init b par kv) p)"
    proof (intro allI impI)
      fix b' v
      assume g: "kv_get (ws_init b par kv) (metaKey b') = Some v"
      show "v = Meta None \<or> (\<exists>p. v = Meta (Some p) \<and> valid_branch_id p \<and> has_meta (ws_init b par kv) p)"
      proof (cases "b' = b")
        case True
        then have "v = Meta par" using g False by (auto simp: ws_init_def has_meta_def)
        then show ?thesis using par by (cases par) (auto simp: meta_init)
      next
        case False
        then have "kv_get kv (metaKey b') = Some v" using g by (simp add: ws_init_def split: option.splits)
        then have "v = Meta None \<or> (\<exists>p. v = Meta (Some p) \<and> valid_branch_id p \<and> has_meta kv p)"
          using ty unfolding ws_typed_def by blast
        then show ?thesis by (auto simp: meta_init)
      qed
    qed
  qed
  then show ?thesis using kvok init_ranked [OF ok False par] by (simp add: ws_ok_def kv_ok_ops)
qed

lemma apply_change_ok: "ws_ok kv \<Longrightarrow> valid_branch_id b \<Longrightarrow> has_meta kv b \<Longrightarrow> ws_ok (apply_change b t kv)"
  by (simp add: apply_change_def write_ok remove_ok split: option.splits)

lemma apply_change_meta [simp]:
  "has_meta (apply_change b t kv) b' = has_meta kv b'" "parentOf (apply_change b t kv) b' = parentOf kv b'"
  by (simp_all add: apply_change_def split: option.splits)

lemma merge_step_meta:
  "has_meta (fst (merge_step b strategy om st t)) b' = has_meta (fst st) b'"
  "parentOf (fst (merge_step b strategy om st t)) b' = parentOf (fst st) b'"
  by (auto simp: merge_step_def Let_def split: prod.splits option.splits merge_strategy.splits)

lemma merge_step_ok:
  "ws_ok (fst st) \<Longrightarrow> valid_branch_id b \<Longrightarrow> has_meta (fst st) b \<Longrightarrow> ws_ok (fst (merge_step b strategy om st t))"
  by (auto simp: merge_step_def Let_def apply_change_ok split: prod.splits option.splits merge_strategy.splits)

lemma merge_fold_meta:
  "has_meta (fst (foldl (merge_step b strategy om) st ts)) b' = has_meta (fst st) b'"
  "parentOf (fst (foldl (merge_step b strategy om) st ts)) b' = parentOf (fst st) b'"
  by (induction ts arbitrary: st) (auto simp: merge_step_meta)

lemma merge_fold_ok:
  "ws_ok (fst st) \<Longrightarrow> valid_branch_id b \<Longrightarrow> has_meta (fst st) b \<Longrightarrow>
     ws_ok (fst (foldl (merge_step b strategy om) st ts))"
  by (induction ts arbitrary: st) (auto simp: merge_step_ok merge_step_meta)

section \<open>Differences\<close>

text \<open>The change \<open>diff\<close> reports of a path: how the branch's content differs from the base's.\<close>

definition expected_change :: "(string \<Rightarrow> string option) \<Rightarrow> (string \<Rightarrow> string option) \<Rightarrow> string \<Rightarrow> file_change option" where
  "expected_change ours base path =
     (case ours path of
        None \<Rightarrow> (case base path of None \<Rightarrow> None
                 | Some _ \<Rightarrow> Some \<lparr>fc_path = path, fc_kind = Removed, fc_content = None\<rparr>)
      | Some c \<Rightarrow>
          (case base path of None \<Rightarrow> Some \<lparr>fc_path = path, fc_kind = Added, fc_content = Some c\<rparr>
           | Some d \<Rightarrow> if d \<noteq> c then Some \<lparr>fc_path = path, fc_kind = Modified, fc_content = Some c\<rparr> else None))"

definition visit :: "string list \<Rightarrow> string list \<Rightarrow> string list" where
  "visit vs ps = foldl (\<lambda>vs p. if p \<in> set vs then vs else p # vs) vs ps"

lemma visit_set [simp]: "set (visit vs ps) = set vs \<union> set ps"
  unfolding visit_def by (induction ps arbitrary: vs) auto

lemma visit_distinct: "distinct vs \<Longrightarrow> distinct (visit vs ps)"
  unfolding visit_def by (induction ps arbitrary: vs) auto

definition changes_of :: "(string \<Rightarrow> file_change option) \<Rightarrow> string list \<Rightarrow> file_change list" where
  "changes_of f vs = List.map_filter f (rev vs)"

lemma changes_of_cons: "changes_of f (p # vs) = changes_of f vs @ (case f p of None \<Rightarrow> [] | Some c \<Rightarrow> [c])"
  by (simp add: changes_of_def map_filter_def split: option.splits)

lemma visit_fold:
  assumes old: "\<And>p ws cs. p \<in> set ws \<Longrightarrow> step (ws, cs) p = (ws, cs)"
    and new: "\<And>p ws cs. p \<in> set ps \<Longrightarrow> p \<notin> set ws \<Longrightarrow> set vs \<subseteq> set ws \<Longrightarrow>
                step (ws, cs) p = (p # ws, cs @ (case f p of None \<Rightarrow> [] | Some c \<Rightarrow> [c]))"
  shows "foldl step (vs, changes_of f vs) ps = (visit vs ps, changes_of f (visit vs ps))"
  using new
proof (induction ps arbitrary: vs)
  case (Cons p ps)
  show ?case
  proof (cases "p \<in> set vs")
    case True
    then show ?thesis using Cons by (simp add: old visit_def)
  next
    case False
    have "foldl step (p # vs, changes_of f (p # vs)) ps = (visit (p # vs) ps, changes_of f (visit (p # vs) ps))"
      by (rule Cons.IH) (use Cons.prems in auto)
    then show ?thesis using Cons.prems [of p vs] False by (simp add: visit_def changes_of_cons)
  qed
qed (simp add: visit_def)

lemma tomb_fold:
  assumes "\<And>p. p \<in> set ps \<Longrightarrow> p \<notin> set vs \<Longrightarrow> ours p = None"
  shows "foldl (diff_tomb base) (vs, changes_of (expected_change ours base) vs) ps =
         (visit vs ps, changes_of (expected_change ours base) (visit vs ps))"
proof (rule visit_fold)
  fix p ws cs
  assume "p \<in> set ps" "p \<notin> set ws" "set vs \<subseteq> set ws"
  moreover from this have "ours p = None" using assms by blast
  ultimately show "diff_tomb base (ws, cs) p =
      (p # ws, cs @ (case expected_change ours base p of None \<Rightarrow> [] | Some c \<Rightarrow> [c]))"
    by (auto simp: diff_tomb_def expected_change_def split: option.splits)
qed (simp add: diff_tomb_def)

lemma file_fold:
  assumes "\<And>p. p \<in> set ps \<Longrightarrow> p \<notin> set vs \<Longrightarrow> ours p \<noteq> None"
  shows "foldl (diff_file base ours) (vs, changes_of (expected_change ours base) vs) ps =
         (visit vs ps, changes_of (expected_change ours base) (visit vs ps))"
proof (rule visit_fold)
  fix p ws cs
  assume "p \<in> set ps" "p \<notin> set ws" "set vs \<subseteq> set ws"
  moreover from this have "ours p \<noteq> None" using assms by blast
  ultimately show "diff_file base ours (ws, cs) p =
      (p # ws, cs @ (case expected_change ours base p of None \<Rightarrow> [] | Some c \<Rightarrow> [c]))"
    by (auto simp: diff_file_def expected_change_def split: option.splits)
qed (simp add: diff_file_def)

definition touched :: "ws_kv \<Rightarrow> string list \<Rightarrow> string set" where
  "touched kv bs = {p. \<exists>b \<in> set bs. record_at kv b p \<noteq> Absent}"

lemma touched_simps [simp]:
  "touched kv [] = {}" "touched kv (xs @ ys) = touched kv xs \<union> touched kv ys"
  by (auto simp: touched_def)

lemma record_absent: "ws_typed kv \<Longrightarrow>
    record_at kv b p = Absent \<longleftrightarrow> kv_get kv (tombKey b p) = None \<and> kv_get kv (fileKey b p) = None"
  using typed_tomb [of kv b p] typed_file [of kv b p]
  by (cases "kv_get kv (fileKey b p)") (auto simp: record_at_def split: option.splits)

lemma touched_branch: "ws_typed kv \<Longrightarrow> touched kv [b] = set (tomb_paths kv b) \<union> set (file_paths kv b)"
  using record_absent by (auto simp: touched_def tomb_paths_iff file_paths_iff)

text \<open>One branch of the walk: the branches before it are done, so its own records decide.\<close>

lemma diff_branch:
  assumes ty: "ws_typed kv" and ours: "ours = view kv (dn @ b # rest)" and vs: "set vs = touched kv dn"
  shows "\<exists>ws. foldl (diff_file base ours)
              (foldl (diff_tomb base) (vs, changes_of (expected_change ours base) vs) (tomb_paths kv b)) (file_paths kv b) =
            (ws, changes_of (expected_change ours base) ws) \<and>
          set ws = touched kv (dn @ [b]) \<and> (distinct vs \<longrightarrow> distinct ws)"
proof -
  have here: "ours p = view kv (b # rest) p" if "p \<notin> set vs" for p
    using that vs unfolding ours view_append by (auto simp: touched_def)
  have 1: "ours p = None" if "p \<in> set (tomb_paths kv b)" "p \<notin> set vs" for p
    using that here typed_tomb [OF ty] by (simp add: tomb_paths_iff record_at_def)
  have 2: "ours p \<noteq> None" if "p \<in> set (file_paths kv b)" "p \<notin> set (visit vs (tomb_paths kv b))" for p
    using that here typed_tomb [OF ty, of b p] typed_file [OF ty, of b p]
    by (auto simp: tomb_paths_iff file_paths_iff record_at_def)
  let ?ws = "visit (visit vs (tomb_paths kv b)) (file_paths kv b)"
  have "set ?ws = touched kv (dn @ [b])"
    by (simp add: vs touched_branch [OF ty] Un_assoc)
  moreover have "foldl (diff_tomb base) (vs, changes_of (expected_change ours base) vs) (tomb_paths kv b) =
      (visit vs (tomb_paths kv b), changes_of (expected_change ours base) (visit vs (tomb_paths kv b)))"
    by (rule tomb_fold) (rule 1)
  moreover have "foldl (diff_file base ours) (visit vs (tomb_paths kv b),
        changes_of (expected_change ours base) (visit vs (tomb_paths kv b))) (file_paths kv b) =
      (?ws, changes_of (expected_change ours base) ?ws)"
    by (rule file_fold) (rule 2)
  ultimately show ?thesis by (intro exI [of _ ?ws]) (simp add: visit_distinct)
qed

lemma diff_loop_exact:
  assumes ty: "ws_typed kv"
  shows "ancestorChain_loop n kv c = Some (pre @ base # post) \<Longrightarrow> base \<notin> set pre \<Longrightarrow>
     ours = view kv (dn @ pre @ base # post) \<Longrightarrow> set vs = touched kv dn \<Longrightarrow> distinct vs \<Longrightarrow>
     \<exists>ws. diff_loop n kv base bv ours c (vs, changes_of (expected_change ours bv) vs) =
            Some (ws, changes_of (expected_change ours bv) ws) \<and> set ws = touched kv (dn @ pre) \<and> distinct ws"
proof (induction pre arbitrary: n c dn vs)
  case Nil
  then have "c = base" using chain_head by fastforce
  moreover obtain n' where "n = Suc n'" using Nil by (cases n) auto
  ultimately show ?case using Nil by simp
next
  case (Cons x pre)
  have x: "x = c" using chain_head [OF Cons.prems(1)] by simp
  obtain n' where n: "n = Suc n'" using Cons.prems by (cases n) auto
  obtain p where p: "parentOf kv c = Some p" "ancestorChain_loop n' kv p = Some (pre @ base # post)"
    using Cons.prems(1) unfolding n by (cases "parentOf kv c") (auto split: option.splits)
  obtain ws where ws: "foldl (diff_file bv ours)
      (foldl (diff_tomb bv) (vs, changes_of (expected_change ours bv) vs) (tomb_paths kv c)) (file_paths kv c) =
      (ws, changes_of (expected_change ours bv) ws)" "set ws = touched kv (dn @ [c])" "distinct ws"
    using diff_branch [OF ty, of ours dn c "pre @ base # post" vs bv] Cons.prems x by auto
  have cb: "c \<noteq> base" using Cons.prems(2) x by auto
  obtain us where "diff_loop n' kv base bv ours p (ws, changes_of (expected_change ours bv) ws) =
      Some (us, changes_of (expected_change ours bv) us)" "set us = touched kv ((dn @ [c]) @ pre)" "distinct us"
    using Cons.IH [OF p(2), of "dn @ [c]" ws] Cons.prems x ws by auto
  then show ?case using cb by (simp add: n p ws Let_def x)
qed

lemma insert_change_set: "set (insert_change le c cs) = insert c (set cs)"
  by (induction cs) auto

lemma insert_change_paths: "mset (map fc_path (insert_change le c cs)) = add_mset (fc_path c) (mset (map fc_path cs))"
  by (induction cs) auto

lemma sort_changes_set [simp]: "set (sort_changes le cs) = set cs"
  unfolding sort_changes_def by (induction cs) (auto simp: insert_change_set)

lemma sort_changes_paths: "mset (map fc_path (sort_changes le cs)) = mset (map fc_path cs)"
  unfolding sort_changes_def by (induction cs) (simp_all add: insert_change_paths del: mset_map)

lemma expected_path: "expected_change ours base p = Some c \<Longrightarrow> fc_path c = p"
  by (auto simp: expected_change_def split: option.splits if_splits)

lemma changes_of_set: "set (changes_of (expected_change ours base) vs) = {c. \<exists>p \<in> set vs. expected_change ours base p = Some c}"
  by (auto simp: changes_of_def map_filter_def image_iff) (metis option.distinct(1) option.sel)

lemma changes_of_distinct: "distinct vs \<Longrightarrow> distinct (map fc_path (changes_of (expected_change ours base) vs))"
proof (induction vs)
  case (Cons p vs)
  have "p \<notin> fc_path ` set (changes_of (expected_change ours base) vs)"
    using Cons.prems expected_path by (fastforce simp: changes_of_set)
  then show ?case
    using Cons expected_path by (auto simp: changes_of_cons split: option.splits)
qed (simp add: changes_of_def map_filter_def)

text \<open>What a successful \<open>diff\<close> returns, for a base that is an ancestor.\<close>

lemma diff_exact:
  assumes ok: "ws_ok kv" and d: "ws_diff le kv b base = Some (Inr cs)"
  shows "distinct (map fc_path cs) \<and>
         set cs = {c. \<exists>p. expected_change (read_value kv b) (read_value kv base) p = Some c}"
proof -
  have ty: "ws_typed kv" using ok by (simp add: ws_ok_def)
  obtain ch where ch: "ancestorChain kv b = Some ch" using chain_total [OF ok] .
  have mem: "base \<in> set ch"
    using d ch chain_head unfolding ws_diff_def isAncestor_def ancestorChain_def
    by (fastforce split: if_splits bool.splits option.splits)
  then obtain pre post where sp: "ch = pre @ base # post" "base \<notin> set pre" by (meson split_list_first)
  have rb: "read_value kv b = view kv (pre @ base # post)"
    using read_value_view [OF ch] sp by (simp add: fun_eq_iff)
  have rbase: "read_value kv base = view kv (base # post)"
    using read_value_view chain_of_member ch sp by (fastforce simp: fun_eq_iff)
  let ?f = "expected_change (read_value kv b) (read_value kv base)"
  obtain ws where ws: "diff_loop (walk_fuel kv) kv base (read_value kv base) (read_value kv b) b ([], []) =
      Some (ws, changes_of ?f ws)" "set ws = touched kv pre" "distinct ws"
    using diff_loop_exact [OF ty, of "walk_fuel kv" b pre base post "read_value kv b" "[]" "[]" "read_value kv base"]
      ch sp rb unfolding ancestorChain_def by (auto simp: changes_of_def map_filter_def)
  have "cs = sort_changes le (changes_of ?f ws)"
    using d ws(1) unfolding ws_diff_def by (simp split: option.splits bool.splits)
  moreover have "?f p = None" if "p \<notin> touched kv pre" for p
  proof -
    have "read_value kv b p = read_value kv base p" using that unfolding rb rbase view_append by (auto simp: touched_def)
    then show ?thesis by (simp add: expected_change_def split: option.splits)
  qed
  ultimately show ?thesis
    using changes_of_distinct [OF ws(3)] sort_changes_paths [THEN mset_eq_imp_distinct_iff] ws(2)
    by (auto simp: changes_of_set)
qed

lemma diff_total:
  assumes ok: "ws_ok kv"
  shows "ws_diff le kv b base \<noteq> None"
proof -
  have ty: "ws_typed kv" using ok by (simp add: ws_ok_def)
  obtain ch where ch: "ancestorChain kv b = Some ch" using chain_total [OF ok] .
  show ?thesis
  proof (cases "base \<in> set ch")
    case True
    then obtain pre post where sp: "ch = pre @ base # post" "base \<notin> set pre" by (meson split_list_first)
    have rb: "read_value kv b = view kv (pre @ base # post)"
      using read_value_view [OF ch] sp by (simp add: fun_eq_iff)
    have "\<exists>ws. diff_loop (walk_fuel kv) kv base (read_value kv base) (read_value kv b) b ([], []) = Some ws"
      using diff_loop_exact [OF ty, of "walk_fuel kv" b pre base post "read_value kv b" "[]" "[]" "read_value kv base"]
        ch sp rb unfolding ancestorChain_def by (auto simp: changes_of_def map_filter_def)
    then show ?thesis using ch by (auto simp: ws_diff_def isAncestor_def split: option.splits bool.splits)
  next
    case False
    then have "base \<noteq> b" using ch chain_head unfolding ancestorChain_def by fastforce
    then show ?thesis using False ch by (simp add: ws_diff_def isAncestor_def)
  qed
qed

section \<open>Listing\<close>

lemma insert_fold_set:
  "set (foldl (\<lambda>ts p. if p \<in> set vs then ts else List.insert p ts) ts ps) = set ts \<union> (set ps - set vs)"
  by (induction ps arbitrary: ts) auto

lemma insert_fold_distinct:
  "distinct ts \<Longrightarrow> distinct (foldl (\<lambda>ts p. if p \<in> set vs then ts else List.insert p ts) ts ps)"
  by (induction ps arbitrary: ts) auto

lemma view_touched: "p \<notin> touched kv xs \<Longrightarrow> view kv (xs @ ys) p = view kv ys p"
  by (auto simp: view_append touched_def)

lemma view_touched_eq: "p \<in> touched kv xs \<Longrightarrow> view kv (xs @ ys) p = view kv xs p"
  by (auto simp: view_append touched_def)

lemma view_some_touched: "view kv xs p \<noteq> None \<Longrightarrow> p \<in> touched kv xs"
  by (induction xs) (auto simp: touched_def split: branch_record.splits)

lemma list_loop_exact:
  assumes ty: "ws_typed kv"
  shows "ancestorChain_loop n kv b = Some ch \<Longrightarrow> distinct vis \<Longrightarrow> set vis = {p. view kv dn p \<noteq> None} \<Longrightarrow>
     set tombs = touched kv dn - set vis \<Longrightarrow>
     \<exists>vs. list_loop n kv b vis tombs = Some vs \<and> distinct vs \<and> set vs = {p. view kv (dn @ ch) p \<noteq> None}"
proof (induction n arbitrary: b ch dn vis tombs)
  case (Suc n)
  define tb where "tb = foldl (\<lambda>ts p. if p \<in> set vis then ts else List.insert p ts) tombs (tomb_paths kv b)"
  define vb where "vb = foldl (\<lambda>vs p. if p \<in> set tb then vs else List.insert p vs) vis (file_paths kv b)"
  have d: "distinct vb" unfolding vb_def by (rule insert_fold_distinct) (rule Suc.prems(2))
  have ts: "set tb = set tombs \<union> (set (tomb_paths kv b) - set vis)" unfolding tb_def by (rule insert_fold_set)
  have vs: "set vb = set vis \<union> (set (file_paths kv b) - set tb)" unfolding vb_def by (rule insert_fold_set)
  have unfold_loop: "list_loop (Suc n) kv b vis tombs =
      (case parentOf kv b of None \<Rightarrow> Some vb | Some p \<Rightarrow> list_loop n kv p vb tb)"
    unfolding list_loop.simps Let_def vb_def tb_def by (rule refl)
  have con: "view kv [b] p \<noteq> None \<longleftrightarrow> p \<in> set (file_paths kv b) \<and> p \<notin> set (tomb_paths kv b)" for p
    using typed_tomb [OF ty, of b p] typed_file [OF ty, of b p]
    by (auto simp: tomb_paths_iff file_paths_iff record_at_def)
  have v: "p \<in> set vb \<longleftrightarrow> view kv (dn @ [b]) p \<noteq> None" for p
    using Suc.prems(3,4) con [of p] view_some_touched [of kv dn p]
    by (cases "p \<in> touched kv dn") (auto simp: vs ts view_touched view_touched_eq)
  have t: "set tb = touched kv (dn @ [b]) - set vb"
    using Suc.prems(3,4) view_some_touched [of kv dn] by (auto simp: vs ts touched_branch [OF ty])
  show ?case
  proof (cases "parentOf kv b")
    case None
    then have "ch = [b]" using Suc.prems(1) by simp
    then show ?thesis using None d v unfolding unfold_loop by auto
  next
    case (Some p)
    then obtain r where r: "ancestorChain_loop n kv p = Some r" "ch = b # r"
      using Suc.prems(1) by (auto split: option.splits)
    have "\<exists>vs. list_loop n kv p vb tb = Some vs \<and> distinct vs \<and> set vs = {p. view kv ((dn @ [b]) @ r) p \<noteq> None}"
      by (rule Suc.IH [OF r(1) d]) (use v t in auto)
    then show ?thesis using Some r unfolding unfold_loop by simp
  qed
qed simp

lemma list_exact:
  assumes ok: "ws_ok kv"
  shows "\<exists>vs. ws_list kv b = Some vs \<and> sorted vs \<and> distinct vs \<and> set vs = {p. read_value kv b p \<noteq> None}"
proof -
  obtain ch where ch: "ancestorChain kv b = Some ch" using chain_total [OF ok] .
  have "\<exists>vs. list_loop (walk_fuel kv) kv b [] [] = Some vs \<and> distinct vs \<and> set vs = {p. view kv ([] @ ch) p \<noteq> None}"
    by (rule list_loop_exact) (use ok ch in \<open>auto simp: ws_ok_def ancestorChain_def touched_def\<close>)
  then show ?thesis by (auto simp: ws_list_def read_value_view [OF ch])
qed

section \<open>Reads after updates\<close>

lemma chain_valid:
  "ws_typed kv \<Longrightarrow> valid_branch_id b \<Longrightarrow> ancestorChain_loop n kv b = Some ch \<Longrightarrow> \<forall>x \<in> set ch. valid_branch_id x"
proof (induction n arbitrary: b ch)
  case (Suc n)
  show ?case
  proof (cases "parentOf kv b")
    case (Some p)
    then obtain r where r: "ancestorChain_loop n kv p = Some r" "ch = b # r"
      using Suc.prems(3) by (auto split: option.splits)
    moreover have "valid_branch_id p" using parent_valid [OF Suc.prems(1) Some] by simp
    ultimately show ?thesis using Suc.IH [OF Suc.prems(1)] Suc.prems(2) by simp
  qed (use Suc.prems in auto)
qed simp

lemma chain_loop_same:
  "(\<And>x. parentOf kv' x = parentOf kv x) \<Longrightarrow> ancestorChain_loop n kv' b = ancestorChain_loop n kv b"
  by (induction n arbitrary: b) (simp_all split: option.splits)

lemma chain_same:
  assumes "ws_ok kv" "ws_ok kv'" "\<And>x. parentOf kv' x = parentOf kv x"
  shows "ancestorChain kv' b = ancestorChain kv b"
proof -
  obtain ch ch' where ch: "ancestorChain kv b = Some ch" "ancestorChain kv' b = Some ch'"
    using chain_total [OF assms(1)] chain_total [OF assms(2)] by metis
  let ?n = "max (walk_fuel kv) (walk_fuel kv')"
  have "ancestorChain_loop ?n kv b = Some ch" using ch(1) unfolding ancestorChain_def by (rule chain_fuel) simp
  moreover have "ancestorChain_loop ?n kv' b = Some ch'" using ch(2) unfolding ancestorChain_def by (rule chain_fuel) simp
  ultimately show ?thesis using ch chain_loop_same [OF assms(3)] by simp
qed

lemma view_cong: "\<forall>x \<in> set ch. record_at kv' x p = record_at kv x p \<Longrightarrow> view kv' ch p = view kv ch p"
  by (induction ch) (auto split: branch_record.splits)

lemma read_some: "ws_ok kv \<Longrightarrow> ws_read kv b p = Some (read_value kv b p)"
  using chain_total [of kv b] by (metis read_value_view read_view)

lemma read_unchanged:
  assumes "ws_ok kv" "ws_ok kv'" "\<And>x. parentOf kv' x = parentOf kv x" "ancestorChain kv c = Some ch"
    "\<forall>x \<in> set ch. record_at kv' x p = record_at kv x p"
  shows "read_value kv' c p = read_value kv c p"
  using assms chain_same [OF assms(1-3)] by (simp add: read_value_view view_cong)

lemma read_updated:
  assumes ok: "ws_ok kv" and ok': "ws_ok kv'" and par: "\<And>x. parentOf kv' x = parentOf kv x"
    and b: "valid_branch_id b" and c: "valid_branch_id c"
    and upd: "\<And>x q. valid_branch_id x \<Longrightarrow> record_at kv' x q = (if x = b \<and> q = path then r else record_at kv x q)"
    and ch: "ancestorChain kv c = Some ch"
  shows "c = b \<Longrightarrow> r \<noteq> Absent \<Longrightarrow>
           read_value kv' c p = (if p = path then (case r of Content s \<Rightarrow> Some s | _ \<Rightarrow> None) else read_value kv c p)"
    and "b \<notin> set ch \<Longrightarrow> read_value kv' c p = read_value kv c p"
proof -
  have v: "\<forall>x \<in> set ch. valid_branch_id x"
    using chain_valid [OF _ c] ok ch by (auto simp: ws_ok_def ancestorChain_def)
  have ch': "ancestorChain kv' c = Some ch" using chain_same [OF ok ok' par] ch by simp
  show "read_value kv' c p = read_value kv c p" if "b \<notin> set ch"
    by (rule read_unchanged [OF ok ok' par ch]) (use v that upd in auto)
  assume cb: "c = b" and r: "r \<noteq> Absent"
  obtain rest where rest: "ch = b # rest" using ch chain_head cb unfolding ancestorChain_def by blast
  show "read_value kv' c p = (if p = path then (case r of Content s \<Rightarrow> Some s | _ \<Rightarrow> None) else read_value kv c p)"
  proof (cases "p = path")
    case True
    then show ?thesis
      using upd [OF b, of p] r unfolding read_value_view [OF ch'] rest by (simp split: branch_record.splits)
  next
    case False
    have "read_value kv' c p = read_value kv c p"
      by (rule read_unchanged [OF ok ok' par ch]) (use v False upd in auto)
    then show ?thesis using False by simp
  qed
qed

lemma read_write:
  assumes "ws_ok kv" "valid_branch_id b" "has_meta kv b"
  shows "read_value (ws_write b path s kv) b p = (if p = path then Some s else read_value kv b p)"
proof -
  obtain ch where ch: "ancestorChain kv b = Some ch" using chain_total [OF assms(1)] .
  show ?thesis
    using read_updated(1) [OF assms(1) write_ok [OF assms] _ assms(2) assms(2) record_write [OF assms(2)] ch]
    by simp
qed

lemma read_remove:
  assumes "ws_ok kv" "valid_branch_id b" "has_meta kv b"
  shows "read_value (ws_remove b path kv) b p = (if p = path then None else read_value kv b p)"
proof -
  obtain ch where ch: "ancestorChain kv b = Some ch" using chain_total [OF assms(1)] .
  show ?thesis
    using read_updated(1) [OF assms(1) remove_ok [OF assms] _ assms(2) assms(2) record_remove [OF assms(2)] ch]
    by simp
qed

lemma read_others:
  assumes "ws_ok kv" "valid_branch_id b" "has_meta kv b" "valid_branch_id c" "ancestorChain kv c = Some ch" "b \<notin> set ch"
  shows "read_value (ws_write b path s kv) c p = read_value kv c p" "read_value (ws_remove b path kv) c p = read_value kv c p"
  using read_updated(2) [OF assms(1) write_ok [OF assms(1-3)] _ assms(2,4) record_write [OF assms(2)] assms(5,6)]
    read_updated(2) [OF assms(1) remove_ok [OF assms(1-3)] _ assms(2,4) record_remove [OF assms(2)] assms(5,6)]
  by simp_all

section \<open>Merges\<close>

text \<open>The specification: a three-way merge of whole files against the common base.\<close>

definition three_way :: "merge_strategy \<Rightarrow> string option \<Rightarrow> string option \<Rightarrow> string option \<Rightarrow> string option" where
  "three_way strategy base ours theirs =
     (if theirs = base then ours
      else if ours = base then theirs
      else if ours = theirs then ours
      else if strategy = Theirs then theirs else ours)"

definition proper_change :: "file_change \<Rightarrow> bool" where
  "proper_change c = (fc_kind c = Removed \<longleftrightarrow> fc_content c = None)"

definition takes :: "merge_strategy \<Rightarrow> file_change option \<Rightarrow> file_change \<Rightarrow> bool" where
  "takes strategy u t = (case u of None \<Rightarrow> True | Some u \<Rightarrow> classifyConflict u t \<noteq> None \<and> strategy = Theirs)"

definition conflict_of :: "merge_strategy \<Rightarrow> file_change option \<Rightarrow> file_change \<Rightarrow> merge_conflict option" where
  "conflict_of strategy u t =
     (case u of None \<Rightarrow> None | Some u \<Rightarrow> if strategy = FailOnConflict then classifyConflict u t else None)"

lemma apply_read:
  assumes "ws_ok kv" "valid_branch_id b" "has_meta kv b" "proper_change t"
  shows "read_value (apply_change b t kv) b p = (if p = fc_path t then fc_content t else read_value kv b p)"
  using assms read_write [OF assms(1-3)] read_remove [OF assms(1-3)]
  by (auto simp: apply_change_def proper_change_def split: option.splits)

lemma merge_step_read:
  assumes "ws_ok (fst st)" "valid_branch_id b" "has_meta (fst st) b" "proper_change t"
  shows "read_value (fst (merge_step b strategy om st t)) b p =
           (if p = fc_path t \<and> takes strategy (om p) t then fc_content t else read_value (fst st) b p)"
  using apply_read [OF assms]
  by (cases st) (auto simp: merge_step_def takes_def Let_def split: option.splits merge_strategy.splits)

lemma merge_fold_read:
  "ws_ok (fst st) \<Longrightarrow> valid_branch_id b \<Longrightarrow> has_meta (fst st) b \<Longrightarrow> distinct (map fc_path ts) \<Longrightarrow>
   \<forall>t \<in> set ts. proper_change t \<Longrightarrow>
     read_value (fst (foldl (merge_step b strategy om) st ts)) b p =
       (case map_of (map (\<lambda>t. (fc_path t, t)) ts) p of
          None \<Rightarrow> read_value (fst st) b p
        | Some t \<Rightarrow> if takes strategy (om p) t then fc_content t else read_value (fst st) b p)"
proof (induction ts arbitrary: st)
  case (Cons t ts)
  have no: "map_of (map (\<lambda>t. (fc_path t, t)) ts) (fc_path t) = None"
    using Cons.prems(4) by (auto simp: map_of_eq_None_iff)
  have st: "ws_ok (fst (merge_step b strategy om st t))" "has_meta (fst (merge_step b strategy om st t)) b"
    using Cons.prems by (simp_all add: merge_step_ok merge_step_meta)
  have r: "read_value (fst (merge_step b strategy om st t)) b q =
      (if q = fc_path t \<and> takes strategy (om q) t then fc_content t else read_value (fst st) b q)" for q
    by (rule merge_step_read) (use Cons.prems in auto)
  show ?case
    using Cons.IH [OF st(1) Cons.prems(2) st(2)] Cons.prems(4,5) no
    by (auto simp: r split: option.splits)
qed simp

lemma merge_fold_result:
  "mr_applied (snd (foldl (merge_step b strategy om) st ts)) =
     mr_applied (snd st) @ map fc_path (filter (\<lambda>t. conflict_of strategy (om (fc_path t)) t = None) ts)"
  "mr_conflicts (snd (foldl (merge_step b strategy om) st ts)) =
     mr_conflicts (snd st) @ List.map_filter (\<lambda>t. conflict_of strategy (om (fc_path t)) t) ts"
  by (induction ts arbitrary: st)
     (auto simp: merge_step_def conflict_of_def map_filter_def Let_def
       split: prod.splits option.splits merge_strategy.splits)

lemma map_of_changes:
  assumes "distinct (map fc_path cs)" "set cs = {c. \<exists>p. f p = Some c}" "\<And>p c. f p = Some c \<Longrightarrow> fc_path c = p"
  shows "map_of (map (\<lambda>c. (fc_path c, c)) cs) p = f p"
proof (cases "f p")
  case None
  have "p \<notin> fc_path ` set cs" using assms(2,3) None by auto
  then have "map_of (map (\<lambda>c. (fc_path c, c)) cs) p = None" by (auto simp: map_of_eq_None_iff image_iff)
  then show ?thesis using None by simp
next
  case (Some c)
  then have "(p, c) \<in> set (map (\<lambda>c. (fc_path c, c)) cs)" using assms(2,3) by force
  moreover have "distinct (map fst (map (\<lambda>c. (fc_path c, c)) cs))" using assms(1) by (simp add: comp_def)
  ultimately show ?thesis using Some by (simp add: map_of_is_SomeI)
qed

lemma map_of_changes_rev:
  "distinct (map fc_path cs) \<Longrightarrow> map_of (rev (map (\<lambda>c. (fc_path c, c)) cs)) = map_of (map (\<lambda>c. (fc_path c, c)) cs)"
  by (rule map_of_inject_set [THEN iffD2]) (auto simp: comp_def simp flip: rev_map)

lemma expected_proper: "expected_change ours base p = Some c \<Longrightarrow> proper_change c"
  by (auto simp: expected_change_def proper_change_def split: option.splits if_splits)

lemma expected_none: "expected_change ours base p = None \<longleftrightarrow> ours p = base p"
  by (auto simp: expected_change_def split: option.splits)

lemma expected_content: "expected_change ours base p = Some c \<Longrightarrow> fc_content c = ours p"
  by (auto simp: expected_change_def split: option.splits if_splits)

lemma classify_none:
  "expected_change ours base p = Some u \<Longrightarrow> expected_change theirs base p = Some t \<Longrightarrow>
     classifyConflict u t = None \<longleftrightarrow> ours p = theirs p"
  by (auto simp: expected_change_def classifyConflict_def split: option.splits if_splits)

lemma classify_sides:
  "expected_change ours base p = Some u \<Longrightarrow> expected_change theirs base p = Some t \<Longrightarrow>
     classifyConflict u t = Some c \<Longrightarrow> mc_path c = p \<and> mc_ours c = ours p \<and> mc_theirs c = theirs p"
  by (auto simp: expected_change_def classifyConflict_def split: option.splits if_splits)

text \<open>A successful merge, in terms of the reads of the two branches and of the common base.\<close>

definition merge_base :: "ws_kv \<Rightarrow> string \<Rightarrow> string \<Rightarrow> string" where
  "merge_base kv b other = (case commonAncestor kv b other of Some (Some base) \<Rightarrow> base | _ \<Rightarrow> [])"

lemma merge_exact:
  assumes ok: "ws_ok kv" and b: "valid_branch_id b" "has_meta kv b"
    and m: "ws_merge le strategy b other kv = Some (Inr (kv', res))"
  defines "base \<equiv> merge_base kv b other"
  shows "ws_ok kv'" "\<And>x. parentOf kv' x = parentOf kv x"
    "read_value kv' b p = three_way strategy (read_value kv base p) (read_value kv b p) (read_value kv other p)"
    "(p, o', t') \<in> set (map (\<lambda>c. (mc_path c, mc_ours c, mc_theirs c)) (mr_conflicts res)) \<longleftrightarrow>
       strategy = FailOnConflict \<and> o' = read_value kv b p \<and> t' = read_value kv other p \<and>
       read_value kv other p \<noteq> read_value kv base p \<and> read_value kv b p \<noteq> read_value kv base p \<and>
       read_value kv b p \<noteq> read_value kv other p"
    "p \<in> set (mr_applied res) \<longleftrightarrow> read_value kv other p \<noteq> read_value kv base p \<and>
       \<not> (strategy = FailOnConflict \<and> read_value kv b p \<noteq> read_value kv base p \<and>
          read_value kv b p \<noteq> read_value kv other p)"
proof -
  have ca: "commonAncestor kv b other = Some (Some base)"
    using m unfolding ws_merge_def base_def merge_base_def by (auto split: option.splits)
  obtain ours theirs where d: "ws_diff le kv b base = Some (Inr ours)" "ws_diff le kv other base = Some (Inr theirs)"
    and f: "foldl (merge_step b strategy (map_of (rev (map (\<lambda>c. (fc_path c, c)) ours))))
              (kv, \<lparr>mr_applied = [], mr_conflicts = []\<rparr>) theirs = (kv', res)"
    using m ca unfolding ws_merge_def by (auto split: option.splits sum.splits)
  let ?o = "expected_change (read_value kv b) (read_value kv base)"
  let ?t = "expected_change (read_value kv other) (read_value kv base)"
  note od = diff_exact [OF ok d(1)] and td = diff_exact [OF ok d(2)]
  have om: "map_of (rev (map (\<lambda>c. (fc_path c, c)) ours)) = ?o"
    using od map_of_changes [OF _ _ expected_path] by (simp add: map_of_changes_rev fun_eq_iff)
  have tm: "map_of (map (\<lambda>c. (fc_path c, c)) theirs) = ?t"
    using td map_of_changes [OF _ _ expected_path] by (simp add: fun_eq_iff)
  let ?st = "(kv, \<lparr>mr_applied = [], mr_conflicts = []\<rparr>)"
  have f': "foldl (merge_step b strategy ?o) ?st theirs = (kv', res)" using f unfolding om .
  show "ws_ok kv'" using merge_fold_ok [of ?st b strategy ?o theirs] ok b f' by simp
  show "parentOf kv' x = parentOf kv x" for x using merge_fold_meta(2) [of b strategy ?o ?st theirs x] f' by simp
  have proper: "\<forall>t \<in> set theirs. proper_change t" using td expected_proper by blast
  have r: "read_value kv' b p =
      (case ?t p of None \<Rightarrow> read_value kv b p
       | Some t \<Rightarrow> if takes strategy (?o p) t then fc_content t else read_value kv b p)"
    using merge_fold_read [of ?st b theirs strategy ?o p] ok b td proper f' tm
    by (simp split: option.splits)
  show "read_value kv' b p = three_way strategy (read_value kv base p) (read_value kv b p) (read_value kv other p)"
  proof (cases "?t p")
    case None
    then have "read_value kv other p = read_value kv base p" by (simp add: expected_none)
    then show ?thesis using r unfolding None by (simp add: three_way_def)
  next
    case (Some t)
    then have tb: "read_value kv other p \<noteq> read_value kv base p" using expected_none by (metis option.distinct(1))
    show ?thesis
    proof (cases "?o p")
      case None
      then have "read_value kv b p = read_value kv base p" by (simp add: expected_none)
      then show ?thesis using r tb expected_content [OF Some] unfolding Some None by (simp add: three_way_def takes_def)
    next
      case u: (Some u)
      then have "read_value kv b p \<noteq> read_value kv base p" using expected_none by (metis option.distinct(1))
      then show ?thesis
        using r Some u tb expected_content [OF Some] classify_none [OF u Some] by (simp add: three_way_def takes_def)
    qed
  qed
  have conf: "conflict_of strategy (?o q) t = None \<longleftrightarrow>
      \<not> (strategy = FailOnConflict \<and> read_value kv b q \<noteq> read_value kv base q \<and> read_value kv b q \<noteq> read_value kv other q)"
    if t: "?t q = Some t" for q t
  proof (cases "?o q")
    case None
    then have "read_value kv b q = read_value kv base q" by (simp add: expected_none)
    then show ?thesis unfolding None by (simp add: conflict_of_def)
  next
    case u: (Some u)
    then have "read_value kv b q \<noteq> read_value kv base q" using expected_none by (metis option.distinct(1))
    then show ?thesis unfolding u using classify_none [OF u t] by (simp add: conflict_of_def)
  qed
  have tq: "?t q = Some t \<Longrightarrow> read_value kv other q \<noteq> read_value kv base q" for q t
    using expected_none by (metis option.distinct(1))
  have mem: "t \<in> set theirs \<longleftrightarrow> ?t (fc_path t) = Some t" for t
    using td expected_path [of "read_value kv other" "read_value kv base"] by auto
  have ex: "read_value kv other p \<noteq> read_value kv base p \<Longrightarrow> \<exists>t. ?t p = Some t \<and> fc_path t = p"
    using expected_none expected_path by (metis option.exhaust)
  have "mr_applied res = map fc_path (filter (\<lambda>t. conflict_of strategy (?o (fc_path t)) t = None) theirs)"
    using merge_fold_result(1) [of b strategy ?o ?st theirs] f' by simp
  then have ap: "p \<in> set (mr_applied res) \<longleftrightarrow> (\<exists>t. ?t p = Some t \<and> fc_path t = p \<and> conflict_of strategy (?o p) t = None)"
    using mem by auto
  then show "p \<in> set (mr_applied res) \<longleftrightarrow> read_value kv other p \<noteq> read_value kv base p \<and>
       \<not> (strategy = FailOnConflict \<and> read_value kv b p \<noteq> read_value kv base p \<and>
          read_value kv b p \<noteq> read_value kv other p)"
    using conf tq ex by blast
  have cs: "mr_conflicts res = List.map_filter (\<lambda>t. conflict_of strategy (?o (fc_path t)) t) theirs"
    using merge_fold_result(2) [of b strategy ?o ?st theirs] f' by simp
  have side: "mc_path c = q \<and> mc_ours c = read_value kv b q \<and> mc_theirs c = read_value kv other q"
    if "?t q = Some t" "conflict_of strategy (?o q) t = Some c" for q t c
    using that classify_sides [of "read_value kv b" "read_value kv base" q _ "read_value kv other" t c]
    by (auto simp: conflict_of_def split: option.splits if_splits)
  have cm: "c \<in> set (mr_conflicts res) \<longleftrightarrow> (\<exists>t. ?t (fc_path t) = Some t \<and> conflict_of strategy (?o (fc_path t)) t = Some c)" for c
    unfolding cs map_filter_def using mem by (auto simp: image_iff)
  show "(p, o', t') \<in> set (map (\<lambda>c. (mc_path c, mc_ours c, mc_theirs c)) (mr_conflicts res)) \<longleftrightarrow>
       strategy = FailOnConflict \<and> o' = read_value kv b p \<and> t' = read_value kv other p \<and>
       read_value kv other p \<noteq> read_value kv base p \<and> read_value kv b p \<noteq> read_value kv base p \<and>
       read_value kv b p \<noteq> read_value kv other p" (is "?l \<longleftrightarrow> ?r")
  proof
    assume ?l
    then obtain c where c: "c \<in> set (mr_conflicts res)" "mc_path c = p" "mc_ours c = o'" "mc_theirs c = t'" by auto
    then obtain t where t: "?t (fc_path t) = Some t" "conflict_of strategy (?o (fc_path t)) t = Some c" using cm by blast
    then show ?r using side [OF t] c conf [OF t(1)] tq [OF t(1)] by auto
  next
    assume r: ?r
    then obtain t where t: "?t p = Some t" "fc_path t = p" using ex by blast
    then obtain c where "conflict_of strategy (?o p) t = Some c" using conf [OF t(1)] r by (cases "conflict_of strategy (?o p) t") auto
    then show ?l using cm side [OF t(1)] t r by (force simp: image_iff)
  qed
qed

section \<open>Runs\<close>

text \<open>
  The operations of workspace objects that were obtained from \<open>openOrCreateRoot\<close> or \<open>fork\<close>: their
  ids are valid and their branches initialised. An operation that throws leaves the store as it is.
\<close>

datatype ws_event =
    OpenRoot string | Fork string string | Write string string string | Remove string string
  | Merge string string merge_strategy

definition open_branch :: "ws_kv \<Rightarrow> string \<Rightarrow> bool" where
  "open_branch kv b = (valid_branch_id b \<and> has_meta kv b)"

definition ws_step :: "(string \<Rightarrow> string \<Rightarrow> bool) \<Rightarrow> ws_kv \<Rightarrow> ws_event \<Rightarrow> ws_kv" where
  "ws_step le kv e =
     (case e of
        OpenRoot b \<Rightarrow> (case openOrCreateRoot b kv of Inl _ \<Rightarrow> kv | Inr kv' \<Rightarrow> kv')
      | Fork b child \<Rightarrow> if open_branch kv b then (case ws_fork b child kv of Inl _ \<Rightarrow> kv | Inr kv' \<Rightarrow> kv') else kv
      | Write b path c \<Rightarrow> if open_branch kv b then ws_write b path c kv else kv
      | Remove b path \<Rightarrow> if open_branch kv b then ws_remove b path kv else kv
      | Merge b other s \<Rightarrow>
          if open_branch kv b \<and> open_branch kv other
          then (case ws_merge le s b other kv of Some (Inr (kv', _)) \<Rightarrow> kv' | _ \<Rightarrow> kv) else kv)"

lemma ws_step_ok: "ws_ok kv \<Longrightarrow> ws_ok (ws_step le kv e)"
  by (cases e)
     (auto simp: ws_step_def openOrCreateRoot_def ws_fork_def open_branch_def init_ok write_ok remove_ok
       intro: merge_exact(1) split: option.splits sum.splits)

interpretation ws_runs: kept_invariant "ws_step le" ws_ok
  by unfold_locales (rule ws_step_ok)

lemma empty_store_ok: "ws_ok []"
  by (auto simp: ws_ok_def kv_ok_def ws_typed_def ws_ranked_def record_at_def text_at_def truthy_def
      parentOf_def has_meta_def intro: exI [of _ "\<lambda>_. 0"])

lemma run_store_ok: "ws_ok (foldl (ws_step le) [] es)"
  by (rule ws_runs.run_inv) (rule empty_store_ok)

text \<open>Forking an open branch onto an id that is not in use.\<close>

lemma fork_chain:
  assumes ok: "ws_ok kv" and b: "valid_branch_id b" "has_meta kv b" and c: "valid_branch_id c" "\<not> has_meta kv c"
    and ch: "ancestorChain kv b = Some ch"
  shows "ancestorChain (ws_init c (Some b) kv) c = Some (c # ch)"
    and "\<And>x. x \<noteq> c \<Longrightarrow> ancestorChain (ws_init c (Some b) kv) x = ancestorChain kv x"
proof -
  let ?kv = "ws_init c (Some b) kv"
  have ok': "ws_ok ?kv" by (rule init_ok) (use ok b in auto)
  have ty: "ws_typed kv" using ok by (simp add: ws_ok_def)
  have same: "ancestorChain_loop n ?kv x = Some r" if "ancestorChain_loop n kv x = Some r" "x \<noteq> c" for n x r
    using that
  proof (induction n arbitrary: x r)
    case (Suc n)
    have p: "parentOf ?kv x = parentOf kv x" using Suc.prems(2) by (simp add: parent_init)
    show ?case
    proof (cases "parentOf kv x")
      case (Some y)
      then have "y \<noteq> c" using parent_valid [OF ty] c by blast
      obtain s where "ancestorChain_loop n kv y = Some s" "r = x # s"
        using Some Suc.prems(1) by (auto split: option.splits)
      then show ?thesis using Suc.IH \<open>y \<noteq> c\<close> Some p by simp
    qed (use Suc.prems p in simp)
  qed simp
  have other: "ancestorChain ?kv x = ancestorChain kv x" if "x \<noteq> c" for x
  proof -
    obtain r r' where r: "ancestorChain kv x = Some r" "ancestorChain ?kv x = Some r'"
      using chain_total [OF ok] chain_total [OF ok'] by metis
    let ?n = "max (walk_fuel kv) (walk_fuel ?kv)"
    have "ancestorChain_loop ?n ?kv x = Some r"
      using r(1) that unfolding ancestorChain_def by (intro same) (auto elim: chain_fuel)
    moreover have "ancestorChain_loop ?n ?kv x = Some r'" using r(2) unfolding ancestorChain_def by (rule chain_fuel) simp
    ultimately show ?thesis using r by simp
  qed
  show "\<And>x. x \<noteq> c \<Longrightarrow> ancestorChain ?kv x = ancestorChain kv x" by (rule other)
  have "b \<noteq> c" using b c by auto
  then have cb: "ancestorChain ?kv b = Some ch" using other ch by simp
  obtain r where r: "ancestorChain ?kv c = Some r" using chain_total [OF ok'] .
  have par: "parentOf ?kv c = Some b" using b c by (simp add: parent_init valid_branch_id_def)
  have "ancestorChain_loop (Suc (walk_fuel ?kv)) ?kv c = Some (c # ch)"
    using cb par by (simp add: ancestorChain_def)
  moreover have "ancestorChain_loop (Suc (walk_fuel ?kv)) ?kv c = Some r"
    using r unfolding ancestorChain_def by (rule chain_fuel) simp
  ultimately show "ancestorChain ?kv c = Some (c # ch)" using r by simp
qed

lemma fork_reads:
  assumes ok: "ws_ok kv" and b: "valid_branch_id b" "has_meta kv b" and c: "valid_branch_id c" "\<not> has_meta kv c"
  shows "read_value (ws_init c (Some b) kv) c p = read_value kv b p"
    and "x \<noteq> c \<Longrightarrow> read_value (ws_init c (Some b) kv) x p = read_value kv x p"
proof -
  let ?kv = "ws_init c (Some b) kv"
  obtain ch where ch: "ancestorChain kv b = Some ch" using chain_total [OF ok] .
  have v: "view ?kv xs p = view kv xs p" for xs by (rule view_cong) simp
  have "record_at kv c p = Absent" using typed_record [OF _ c(1)] ok c(2) by (auto simp: ws_ok_def)
  then show "read_value ?kv c p = read_value kv b p"
    using read_value_view [OF fork_chain(1) [OF assms ch]] read_value_view [OF ch] by (simp add: v)
  show "read_value ?kv x p = read_value kv x p" if "x \<noteq> c"
    using chain_total [OF ok, of x] fork_chain(2) [OF assms ch that] by (metis read_value_view v)
qed

section \<open>Properties\<close>

text \<open>
  Every walk ends. In every store the workspace operations can build, for every branch and path,
  \<open>read\<close> returns, \<open>exists\<close> says whether \<open>read\<close> finds a content, and \<open>list\<close> returns exactly the
  readable paths, sorted and without repetition.
\<close>
theorem walks_end_and_agree:
  "let kv = foldl (ws_step le) [] es
   in ws_read kv b path = Some (read_value kv b path) \<and>
      ws_exists kv b path = Some (read_value kv b path \<noteq> None) \<and>
      (\<exists>vs. ws_list kv b = Some vs \<and> sorted vs \<and> distinct vs \<and> set vs = {p. read_value kv b p \<noteq> None})"
proof -
  let ?kv = "foldl (ws_step le) [] es"
  note ok = run_store_ok [of le es]
  obtain ch where ch: "ancestorChain ?kv b = Some ch" using chain_total [OF ok] .
  have "ws_exists ?kv b path = Some (read_value ?kv b path \<noteq> None)"
    using ch exists_loop_view by (simp add: ws_exists_def ancestorChain_def read_value_view [OF ch])
  then show ?thesis using read_some [OF ok] list_exact [OF ok, of b] by (simp add: Let_def)
qed

text \<open>
  Branches are isolated and copied on write. A fork onto an unused id sees exactly the files of
  its parent and changes no other branch; a write or a removal is read back on its branch, leaves the
  other paths of the branch alone, and is invisible on every branch that does not descend from it.
\<close>
theorem branch_isolation:
  assumes "kv = foldl (ws_step le) [] es" and "open_branch kv b"
  shows "(valid_branch_id c \<and> \<not> has_meta kv c \<and> ws_fork b c kv = Inr forked \<longrightarrow>
            read_value forked c p = read_value kv b p \<and> (x \<noteq> c \<longrightarrow> read_value forked x p = read_value kv x p)) \<and>
         read_value (ws_write b path s kv) b p = (if p = path then Some s else read_value kv b p) \<and>
         read_value (ws_remove b path kv) b p = (if p = path then None else read_value kv b p) \<and>
         (valid_branch_id d \<and> ancestorChain kv d = Some ch \<and> b \<notin> set ch \<longrightarrow>
            read_value (ws_write b path s kv) d p = read_value kv d p \<and>
            read_value (ws_remove b path kv) d p = read_value kv d p)"
proof -
  have ok: "ws_ok kv" using assms(1) run_store_ok by simp
  have b: "valid_branch_id b" "has_meta kv b" using assms(2) by (simp_all add: open_branch_def)
  have "valid_branch_id c \<and> \<not> has_meta kv c \<and> ws_fork b c kv = Inr forked \<longrightarrow>
      read_value forked c p = read_value kv b p \<and> (x \<noteq> c \<longrightarrow> read_value forked x p = read_value kv x p)"
    using fork_reads(1) [OF ok b, of c p] fork_reads(2) [OF ok b, of c x p] by (auto simp: ws_fork_def)
  then show ?thesis
    using read_write [OF ok b] read_remove [OF ok b] read_others [OF ok b] by blast
qed

definition demo_store :: ws_kv where
  "demo_store = foldl (ws_step (\<le>)) []
     [OpenRoot ''r'', Write ''r'' ''f'' ''1'', Write ''r'' ''g'' ''1'', Fork ''r'' ''a'', Fork ''r'' ''b'',
      Write ''a'' ''f'' ''2'', Remove ''b'' ''g'', Write ''b'' ''f'' ''3'']"

theorem branch_isolation_witness:
  "(let kv = demo_store
    in read_value (ws_write ''a'' ''h'' ''x'' kv) ''a'' ''h'' = Some ''x'' \<and>
       read_value (ws_write ''a'' ''h'' ''x'' kv) ''b'' ''f'' = Some ''3'') \<and>
   (case ws_fork ''a'' ''c'' demo_store of Inr kv \<Rightarrow> read_value kv ''c'' ''f'' = Some ''2'' | Inl _ \<Rightarrow> False)"
proof -
  have o: "open_branch demo_store ''a''" by code_simp
  have c: "valid_branch_id ''c'' \<and> \<not> has_meta demo_store ''c''" by code_simp
  have d: "valid_branch_id ''b'' \<and> ancestorChain demo_store ''b'' = Some [''b'', ''r''] \<and> ''a'' \<notin> set [''b'', ''r'']"
    by code_simp
  have f: "ws_fork ''a'' ''c'' demo_store = Inr (ws_init ''c'' (Some ''a'') demo_store)" using c by (simp add: ws_fork_def)
  have r: "read_value demo_store ''a'' ''f'' = Some ''2''" "read_value demo_store ''b'' ''f'' = Some ''3''" by code_simp+
  show ?thesis
    using branch_isolation [OF demo_store_def o, where c = "''c''" and p = "''f''" and path = "''h''" and s = "''x''"
        and d = "''b''" and ch = "[''b'', ''r'']"]
      branch_isolation [OF demo_store_def o, where p = "''h''" and path = "''h''" and s = "''x''"] c d r f
    by simp
qed

text \<open>
  \<open>diff\<close> is exact: for a base that is an ancestor it returns, once per path, precisely the paths
  whose content on the branch differs from the base's, with the right kind and content.
\<close>
theorem diff_is_exact:
  assumes "kv = foldl (ws_step le) [] es"
  shows "ws_diff le kv b base \<noteq> None \<and>
         (ws_diff le kv b base = Some (Inr cs) \<longrightarrow>
            distinct (map fc_path cs) \<and>
            (\<forall>p. map_of (map (\<lambda>c. (fc_path c, c)) cs) p =
                   expected_change (read_value kv b) (read_value kv base) p))"
proof (intro conjI impI)
  have ok: "ws_ok kv" using assms run_store_ok by simp
  show "ws_diff le kv b base \<noteq> None" by (rule diff_total [OF ok])
  assume "ws_diff le kv b base = Some (Inr cs)"
  note d = diff_exact [OF ok this]
  show "distinct (map fc_path cs)" using d by simp
  show "\<forall>p. map_of (map (\<lambda>c. (fc_path c, c)) cs) p = expected_change (read_value kv b) (read_value kv base) p"
    using d map_of_changes [OF _ _ expected_path] by simp
qed

theorem diff_is_exact_witness:
  "ws_diff (\<le>) demo_store ''b'' ''r'' =
     Some (Inr [\<lparr>fc_path = ''f'', fc_kind = Modified, fc_content = Some ''3''\<rparr>,
                \<lparr>fc_path = ''g'', fc_kind = Removed, fc_content = None\<rparr>]) \<and>
   expected_change (read_value demo_store ''b'') (read_value demo_store ''r'') ''g'' =
     Some \<lparr>fc_path = ''g'', fc_kind = Removed, fc_content = None\<rparr>"
proof -
  have d: "ws_diff (\<le>) demo_store ''b'' ''r'' =
      Some (Inr [\<lparr>fc_path = ''f'', fc_kind = Modified, fc_content = Some ''3''\<rparr>,
                 \<lparr>fc_path = ''g'', fc_kind = Removed, fc_content = None\<rparr>])"
    by code_simp
  define cs where "cs = [\<lparr>fc_path = ''f'', fc_kind = Modified, fc_content = Some ''3''\<rparr>,
                      \<lparr>fc_path = ''g'', fc_kind = Removed, fc_content = None\<rparr>]"
  have "\<forall>p. map_of (map (\<lambda>c. (fc_path c, c)) cs) p =
          expected_change (read_value demo_store ''b'') (read_value demo_store ''r'') p"
    using diff_is_exact [OF demo_store_def, of "''b''" "''r''" cs] d unfolding cs_def by blast
  then have "expected_change (read_value demo_store ''b'') (read_value demo_store ''r'') ''g'' =
      map_of (map (\<lambda>c. (fc_path c, c)) cs) ''g''" by simp
  then show ?thesis using d by (simp add: cs_def)
qed



text \<open>
  A branch forked onto its own id before it was initialised becomes its own parent: from then on
  no walk for a path without a record ends, whatever number of steps it is given.
\<close>
theorem self_fork_never_ends:
  assumes "valid_branch_id b" and "\<not> has_meta kv b" and "record_at kv b path = Absent"
  shows "\<exists>kv'. ws_fork b b kv = Inr kv' \<and> (\<forall>n. read_loop n kv' b path = None)"
proof -
  let ?kv = "ws_init b (Some b) kv"
  have par: "parentOf ?kv b = Some b" using assms(1,2) by (simp add: parent_init valid_branch_id_def)
  have "read_loop n ?kv b path = None" for n by (induction n) (simp_all add: par assms(3))
  then show ?thesis using assms(1) by (simp add: ws_fork_def)
qed

theorem self_fork_never_ends_witness:
  "case ws_fork ''a'' ''a'' [] of Inr kv' \<Rightarrow> (\<forall>n. read_loop n kv' ''a'' ''f'' = None) | Inl _ \<Rightarrow> False"
proof -
  have "valid_branch_id ''a''" "\<not> has_meta [] ''a''" "record_at [] ''a'' ''f'' = Absent" by code_simp+
  from self_fork_never_ends [OF this] show ?thesis by auto
qed

end
