(* ===== verification/Dep_Graph.thy ===== *)
theory Dep_Graph
  imports Wa_Prelude
begin

text \<open>
  Dependencies between the calls of one parallel batch (packages/core/src/scheduler/deriveDeps.ts):
  the references \<open>$<callId>\<close> of a call's input, their replacement by results, and the cycle check
  (Kahn's algorithm). The sets and maps of the source are lists in insertion order.
\<close>

section \<open>References\<close>

text \<open>The match of \<open>/^\$(.+)$/\<close>; the dot matches no line terminator.\<close>

definition ref_target :: "string \<Rightarrow> string option" where
  "ref_target s = (case s of
                     [] \<Rightarrow> None
                   | c # r \<Rightarrow> if c = CHR ''$'' \<and> r \<noteq> [] \<and> list_all (\<lambda>x. x \<noteq> CHR 0x0A \<and> x \<noteq> CHR 0x0D) r
                             then Some r else None)"

record call_descriptor =
  cd_id :: string
  cd_input :: json

text \<open>The closure \<open>walk\<close> of \<open>collectRefs\<close>, with the set it fills.\<close>

fun walk_refs :: "string list \<Rightarrow> string \<Rightarrow> json \<Rightarrow> string list \<Rightarrow> string list"
and walk_items :: "string list \<Rightarrow> string \<Rightarrow> json list \<Rightarrow> string list \<Rightarrow> string list"
and walk_members :: "string list \<Rightarrow> string \<Rightarrow> (string \<times> json) list \<Rightarrow> string list \<Rightarrow> string list" where
  "walk_refs ids self (JStr s) found =
     (case ref_target s of
        None \<Rightarrow> found
      | Some r \<Rightarrow> if r \<noteq> self \<and> r \<in> set ids then (if r \<in> set found then found else found @ [r]) else found)"
| "walk_refs ids self (JArr vs) found = walk_items ids self vs found"
| "walk_refs ids self (JObj kvs) found = walk_members ids self kvs found"
| "walk_refs ids self JUndef found = found"
| "walk_refs ids self JNull found = found"
| "walk_refs ids self (JBool b) found = found"
| "walk_refs ids self (JNum i) found = found"
| "walk_items ids self [] found = found"
| "walk_items ids self (v # vs) found = walk_items ids self vs (walk_refs ids self v found)"
| "walk_members ids self [] found = found"
| "walk_members ids self ((k, v) # kvs) found = walk_members ids self kvs (walk_refs ids self v found)"

definition collectRefs :: "json \<Rightarrow> string list \<Rightarrow> string \<Rightarrow> string list" where
  "collectRefs v ids self = walk_refs ids self v []"

fun resolveRefs :: "json \<Rightarrow> (string \<times> json) list \<Rightarrow> json" where
  "resolveRefs (JStr s) env =
     (case ref_target s of
        None \<Rightarrow> JStr s
      | Some r \<Rightarrow> (case map_of env r of None \<Rightarrow> JStr s | Some x \<Rightarrow> x))"
| "resolveRefs (JArr vs) env = JArr (map (\<lambda>v. resolveRefs v env) vs)"
| "resolveRefs (JObj kvs) env = JObj (map (\<lambda>(k, v). (k, resolveRefs v env)) kvs)"
| "resolveRefs v env = v"

section \<open>The cycle check\<close>

type_synonym dep_map = "(string \<times> string list) list"

text \<open>The three passes that build the in-degrees and the reverse adjacency.\<close>

definition in_degree_keys :: "dep_map \<Rightarrow> (string \<times> int) list" where
  "in_degree_keys deps = foldl (\<lambda>m e. AList.update (fst e) 0 m) [] deps"

definition touch_degree :: "(string \<times> int) list \<Rightarrow> string \<Rightarrow> (string \<times> int) list" where
  "touch_degree m d = AList.update d (case map_of m d of None \<Rightarrow> 0 | Some n \<Rightarrow> n) m"

definition add_edge ::
    "string \<Rightarrow> (string \<times> string list) list \<times> (string \<times> int) list \<Rightarrow> string \<Rightarrow>
     (string \<times> string list) list \<times> (string \<times> int) list" where
  "add_edge v st d =
     (AList.update d ((case map_of (fst st) d of None \<Rightarrow> [] | Some cur \<Rightarrow> cur) @ [v]) (fst st),
      AList.update v ((case map_of (snd st) v of None \<Rightarrow> 0 | Some n \<Rightarrow> n) + 1) (snd st))"

definition build_graph :: "dep_map \<Rightarrow> (string \<times> string list) list \<times> (string \<times> int) list" where
  "build_graph deps =
     (let deg = foldl (\<lambda>m e. foldl touch_degree m (snd e)) (in_degree_keys deps) deps
      in foldl (\<lambda>st e. foldl (add_edge (fst e)) st (snd e)) ([], deg) deps)"

text \<open>One neighbour of the node taken from the queue.\<close>

definition relax :: "(string \<times> int) list \<times> string list \<Rightarrow> string \<Rightarrow> (string \<times> int) list \<times> string list" where
  "relax st v =
     (let d = (case map_of (fst st) v of None \<Rightarrow> 1 | Some n \<Rightarrow> n) - 1
      in (AList.update v d (fst st), if d = 0 then snd st @ [v] else snd st))"

text \<open>
  The queue loop: the number of processed nodes and the final degrees. Every node enters the queue at
  most once, so a bound one above the number of nodes is never reached; beyond it the loop is
  undecided (\<open>None\<close>).
\<close>

fun kahn_loop ::
    "nat \<Rightarrow> (string \<times> string list) list \<Rightarrow> (string \<times> int) list \<Rightarrow> string list \<Rightarrow> nat \<Rightarrow>
     (nat \<times> (string \<times> int) list) option" where
  "kahn_loop 0 radj deg queue processed = None"
| "kahn_loop (Suc n) radj deg queue processed =
     (case queue of
        [] \<Rightarrow> Some (processed, deg)
      | node # rest \<Rightarrow>
          (let st = foldl relax (deg, rest) (case map_of radj node of None \<Rightarrow> [] | Some vs \<Rightarrow> vs)
           in kahn_loop n radj (fst st) (snd st) (processed + 1)))"

text \<open>\<open>detectCycles\<close>: the ids it reports when it throws.\<close>

definition detectCycles :: "dep_map \<Rightarrow> string list option" where
  "detectCycles deps =
     (let (radj, deg) = build_graph deps;
          queue = map fst (filter (\<lambda>e. snd e = 0) deg)
      in case kahn_loop (length deps + 1) radj deg queue 0 of
           None \<Rightarrow> None
         | Some (processed, deg') \<Rightarrow>
             if processed < length deps then Some (map fst (filter (\<lambda>e. snd e > 0) deg')) else None)"

datatype dep_error = CircularDependency "string list"

definition deriveDependencies :: "call_descriptor list \<Rightarrow> dep_error + dep_map" where
  "deriveDependencies calls =
     (let ids = map cd_id calls;
          deps = foldl (\<lambda>m c. AList.update (cd_id c) (collectRefs (cd_input c) ids (cd_id c)) m) [] calls
      in case detectCycles deps of
           None \<Rightarrow> Inr deps
         | Some cycle \<Rightarrow> Inl (CircularDependency cycle))"

section \<open>What the passes compute\<close>

fun refs_of :: "json \<Rightarrow> string set" where
  "refs_of (JStr s) = (case ref_target s of None \<Rightarrow> {} | Some r \<Rightarrow> {r})"
| "refs_of (JArr vs) = (\<Union>v \<in> set vs. refs_of v)"
| "refs_of (JObj kvs) = (\<Union>kv \<in> set kvs. refs_of (snd kv))"
| "refs_of v = {}"

lemma walk_refs_set:
  "set (walk_refs ids self v found) = set found \<union> (refs_of v \<inter> set ids - {self})"
  "set (walk_items ids self vs found) = set found \<union> ((\<Union>v \<in> set vs. refs_of v) \<inter> set ids - {self})"
  "set (walk_members ids self kvs found) = set found \<union> ((\<Union>kv \<in> set kvs. refs_of (snd kv)) \<inter> set ids - {self})"
  by (induction ids self v found and ids self vs found and ids self kvs found
      rule: walk_refs_walk_items_walk_members.induct) (auto split: option.splits)

lemma walk_refs_distinct:
  "distinct found \<Longrightarrow> distinct (walk_refs ids self v found)"
  "distinct found \<Longrightarrow> distinct (walk_items ids self vs found)"
  "distinct found \<Longrightarrow> distinct (walk_members ids self kvs found)"
  by (induction ids self v found and ids self vs found and ids self kvs found
      rule: walk_refs_walk_items_walk_members.induct) (auto split: option.splits)

lemma collectRefs_exact: "distinct (collectRefs v ids self) \<and> set (collectRefs v ids self) = refs_of v \<inter> set ids - {self}"
  by (simp add: collectRefs_def walk_refs_set walk_refs_distinct)

definition getr :: "(string \<times> string list) list \<Rightarrow> string \<Rightarrow> string list" where
  "getr m d = (case map_of m d of None \<Rightarrow> [] | Some vs \<Rightarrow> vs)"

definition val :: "(string \<times> int) list \<Rightarrow> string \<Rightarrow> int" where
  "val m v = (case map_of m v of None \<Rightarrow> 0 | Some n \<Rightarrow> n)"

definition keyed :: "string set \<Rightarrow> (string \<times> int) list \<Rightarrow> bool" where
  "keyed K m = (distinct (map fst m) \<and> fst ` set m = K)"

lemma keyed_update [simp]: "keyed K m \<Longrightarrow> v \<in> K \<Longrightarrow> keyed K (AList.update v n m)"
  by (auto simp: keyed_def distinct_update dom_update)

lemma getr_update [simp]: "getr (AList.update d vs m) e = (if e = d then vs else getr m e)"
  by (auto simp: getr_def update_conv)

lemma val_update [simp]: "val (AList.update v n m) u = (if u = v then n else val m u)"
  by (auto simp: val_def update_conv)

lemma in_degree_keys_ok:
  "keyed (fst ` set deps) (in_degree_keys deps) \<and> (\<forall>v. val (in_degree_keys deps) v = 0)"
proof -
  have "distinct (map fst m) \<Longrightarrow> (\<forall>v. val m v = 0) \<Longrightarrow>
      keyed (fst ` set m \<union> fst ` set deps) (foldl (\<lambda>m e. AList.update (fst e) 0 m) m deps) \<and>
      (\<forall>v. val (foldl (\<lambda>m e. AList.update (fst e) 0 m) m deps) v = 0)" for m
  proof (induction deps arbitrary: m)
    case (Cons e deps)
    have "fst ` set (AList.update (fst e) 0 m) = insert (fst e) (fst ` set m)" by (auto simp: dom_update)
    then show ?case using Cons.IH [of "AList.update (fst e) 0 m"] Cons.prems by (simp add: distinct_update)
  qed (simp add: keyed_def)
  from this [of "[]"] show ?thesis by (simp add: in_degree_keys_def val_def)
qed

lemma touch_degree_ok: "keyed K m \<Longrightarrow> d \<in> K \<Longrightarrow> keyed K (touch_degree m d) \<and> val (touch_degree m d) v = val m v"
  by (auto simp: touch_degree_def val_def update_conv)

lemma touch_degrees_ok:
  "keyed K m \<Longrightarrow> set ds \<subseteq> K \<Longrightarrow> keyed K (foldl touch_degree m ds) \<and> (\<forall>v. val (foldl touch_degree m ds) v = val m v)"
  by (induction ds arbitrary: m) (auto simp: touch_degree_ok)

lemma touch_all_ok:
  "keyed K m \<Longrightarrow> \<forall>e \<in> set deps. set (snd e) \<subseteq> K \<Longrightarrow>
     keyed K (foldl (\<lambda>m e. foldl touch_degree m (snd e)) m deps) \<and>
     (\<forall>v. val (foldl (\<lambda>m e. foldl touch_degree m (snd e)) m deps) v = val m v)"
proof (induction deps arbitrary: m)
  case (Cons e deps)
  have "keyed K (foldl touch_degree m (snd e)) \<and> (\<forall>v. val (foldl touch_degree m (snd e)) v = val m v)"
    using touch_degrees_ok Cons.prems by simp
  then show ?case using Cons.IH [of "foldl touch_degree m (snd e)"] Cons.prems by simp
qed simp

lemma add_edges_ok:
  "keyed K (snd st) \<Longrightarrow> v \<in> K \<Longrightarrow>
     keyed K (snd (foldl (add_edge v) st es)) \<and>
     (\<forall>d. getr (fst (foldl (add_edge v) st es)) d = getr (fst st) d @ replicate (count_list es d) v) \<and>
     (\<forall>u. val (snd (foldl (add_edge v) st es)) u = val (snd st) u + (if u = v then int (length es) else 0))"
proof (induction es arbitrary: st)
  case (Cons e es)
  have s: "getr (fst (add_edge v st e)) d = getr (fst st) d @ (if d = e then [v] else [])" for d
    by (simp add: add_edge_def) (simp add: getr_def)
  have g: "val (snd (add_edge v st e)) u = val (snd st) u + (if u = v then 1 else 0)" for u
    by (simp add: add_edge_def) (simp add: val_def)
  have k: "keyed K (snd (add_edge v st e))" using Cons.prems by (simp add: add_edge_def)
  show ?case using Cons.IH [OF k Cons.prems(2)] by (simp add: s g)
qed simp

lemma add_all_ok:
  "keyed K (snd st) \<Longrightarrow> \<forall>e \<in> set deps. fst e \<in> K \<Longrightarrow>
     keyed K (snd (foldl (\<lambda>st e. foldl (add_edge (fst e)) st (snd e)) st deps)) \<and>
     (\<forall>d. getr (fst (foldl (\<lambda>st e. foldl (add_edge (fst e)) st (snd e)) st deps)) d =
        getr (fst st) d @ concat (map (\<lambda>e. replicate (count_list (snd e) d) (fst e)) deps)) \<and>
     (\<forall>u. val (snd (foldl (\<lambda>st e. foldl (add_edge (fst e)) st (snd e)) st deps)) u =
        val (snd st) u + sum_list (map (\<lambda>e. if fst e = u then int (length (snd e)) else 0) deps))"
proof (induction deps arbitrary: st)
  case (Cons e deps)
  let ?st = "foldl (add_edge (fst e)) st (snd e)"
  have e: "keyed K (snd ?st)" "\<And>d. getr (fst ?st) d = getr (fst st) d @ replicate (count_list (snd e) d) (fst e)"
    "\<And>u. val (snd ?st) u = val (snd st) u + (if u = fst e then int (length (snd e)) else 0)"
    using add_edges_ok [of K st "fst e" "snd e"] Cons.prems by simp_all
  show ?case using Cons.IH [OF e(1)] Cons.prems by (simp add: e)
qed simp

section \<open>Kahn's algorithm\<close>

text \<open>A dependency map as the callers build it: keys once, every dependency once and a key.\<close>

definition dep_map_ok :: "dep_map \<Rightarrow> bool" where
  "dep_map_ok deps = (distinct (map fst deps) \<and> (\<forall>e \<in> set deps. distinct (snd e) \<and> set (snd e) \<subseteq> fst ` set deps))"

definition edges :: "dep_map \<Rightarrow> string \<Rightarrow> string list" where
  "edges deps v = (case map_of deps v of None \<Rightarrow> [] | Some es \<Rightarrow> es)"

definition dep_rel :: "dep_map \<Rightarrow> (string \<times> string) set" where
  "dep_rel deps = {(v, d). d \<in> set (edges deps v)}"

lemma edges_entry: "dep_map_ok deps \<Longrightarrow> (v, es) \<in> set deps \<Longrightarrow> edges deps v = es"
  by (simp add: edges_def dep_map_ok_def)

lemma edges_ok: "dep_map_ok deps \<Longrightarrow> distinct (edges deps v) \<and> set (edges deps v) \<subseteq> fst ` set deps"
  by (cases "map_of deps v") (fastforce simp: edges_def dep_map_ok_def dest!: map_of_SomeD)+

lemma edges_key: "d \<in> set (edges deps v) \<Longrightarrow> v \<in> fst ` set deps"
  by (cases "map_of deps v") (auto simp: edges_def dest!: map_of_SomeD intro: rev_image_eqI)

lemma build_graph_ok:
  assumes ok: "dep_map_ok deps"
  shows "keyed (fst ` set deps) (snd (build_graph deps))"
    "set (getr (fst (build_graph deps)) d) = {v. d \<in> set (edges deps v)}"
    "distinct (getr (fst (build_graph deps)) d)"
    "val (snd (build_graph deps)) v = int (length (edges deps v))"
proof -
  let ?K = "fst ` set deps"
  let ?deg = "foldl (\<lambda>m e. foldl touch_degree m (snd e)) (in_degree_keys deps) deps"
  have t: "keyed ?K ?deg \<and> (\<forall>v. val ?deg v = 0)"
    using touch_all_ok [of ?K "in_degree_keys deps" deps] in_degree_keys_ok [of deps] ok
    by (simp add: dep_map_ok_def)
  have a: "keyed ?K (snd (build_graph deps))"
    "\<And>d. getr (fst (build_graph deps)) d = concat (map (\<lambda>e. replicate (count_list (snd e) d) (fst e)) deps)"
    "\<And>u. val (snd (build_graph deps)) u = sum_list (map (\<lambda>e. if fst e = u then int (length (snd e)) else 0) deps)"
    using add_all_ok [of ?K "([], ?deg)" deps] t by (simp_all add: build_graph_def Let_def getr_def)
  show "keyed ?K (snd (build_graph deps))" by (rule a(1))
  have cnt: "count_list es x = (if x \<in> set es then 1 else 0)" if "distinct es" for es and x :: string
    using that by (induction es) auto
  have "getr (fst (build_graph deps)) d = map fst (filter (\<lambda>e. d \<in> set (snd e)) deps)"
  proof -
    have "\<forall>e \<in> set xs. distinct (snd e) \<Longrightarrow>
      concat (map (\<lambda>e. replicate (count_list (snd e) d) (fst e)) xs) = map fst (filter (\<lambda>e. d \<in> set (snd e)) xs)" for xs :: dep_map
      by (induction xs) (auto simp: cnt)
    then show ?thesis using ok a(2) by (simp add: dep_map_ok_def)
  qed
  then show "set (getr (fst (build_graph deps)) d) = {v. d \<in> set (edges deps v)}"
    "distinct (getr (fst (build_graph deps)) d)"
    using ok edges_entry [OF ok] edges_key
    by (auto simp: dep_map_ok_def edges_def distinct_map_filter image_iff dest!: map_of_SomeD split: option.splits)
  have "distinct (map fst xs) \<Longrightarrow>
      sum_list (map (\<lambda>e. if fst e = v then int (length (snd e)) else 0) xs) = int (length (edges xs v))" for xs :: dep_map
  proof (induction xs)
    case (Cons e xs)
    have "edges xs v = []" if "fst e = v"
    proof -
      have "map_of xs v = None" using Cons.prems that by (auto simp: map_of_eq_None_iff)
      then show ?thesis by (simp add: edges_def)
    qed
    moreover have "edges (e # xs) v = (if fst e = v then snd e else edges xs v)" by (cases e) (simp add: edges_def)
    ultimately show ?case using Cons by auto
  qed (simp add: edges_def)
  then show "val (snd (build_graph deps)) v = int (length (edges deps v))" using a(3) ok by (simp add: dep_map_ok_def)
qed

definition open_deps :: "dep_map \<Rightarrow> string list \<Rightarrow> string \<Rightarrow> nat" where
  "open_deps deps P v = length (filter (\<lambda>d. d \<notin> set P) (edges deps v))"

lemma open_deps_zero: "open_deps deps P v = 0 \<longleftrightarrow> set (edges deps v) \<subseteq> set P"
  by (auto simp: open_deps_def filter_empty_conv)

lemma open_deps_snoc:
  assumes "dep_map_ok deps" "x \<notin> set P"
  shows "int (open_deps deps (P @ [x]) v) = int (open_deps deps P v) - (if x \<in> set (edges deps v) then 1 else 0)"
proof -
  have "distinct es \<Longrightarrow> length (filter (\<lambda>d. d \<notin> set P) es) =
      length (filter (\<lambda>d. d \<notin> set (P @ [x])) es) + (if x \<in> set es then 1 else 0)" for es :: "string list"
    using assms(2) by (induction es) (auto intro: filter_cong)
  then show ?thesis using edges_ok [OF assms(1), of v] by (simp add: open_deps_def)
qed

text \<open>\<open>P\<close> is the list of nodes processed so far, \<open>Q\<close> the queue.\<close>

definition kahn_ok :: "dep_map \<Rightarrow> (string \<times> int) list \<Rightarrow> string list \<Rightarrow> string list \<Rightarrow> bool" where
  "kahn_ok deps deg Q P =
     (keyed (fst ` set deps) deg \<and> distinct (P @ Q) \<and> set (P @ Q) \<subseteq> fst ` set deps \<and>
      (\<forall>v \<in> fst ` set deps. val deg v = int (open_deps deps P v)) \<and>
      (\<forall>v \<in> fst ` set deps. open_deps deps P v = 0 \<longleftrightarrow> v \<in> set (P @ Q)) \<and>
      (\<forall>i < length P. set (edges deps (P ! i)) \<subseteq> set (take i P)))"

lemma relax_fold:
  "keyed K deg \<Longrightarrow> set vs \<subseteq> K \<Longrightarrow> distinct vs \<Longrightarrow>
     keyed K (fst (foldl relax (deg, Q) vs)) \<and>
     (\<forall>v. val (fst (foldl relax (deg, Q) vs)) v = val deg v - (if v \<in> set vs then 1 else 0)) \<and>
     snd (foldl relax (deg, Q) vs) = Q @ filter (\<lambda>v. val deg v = 1) vs"
proof (induction vs arbitrary: deg Q)
  case (Cons x vs)
  have x: "map_of deg x \<noteq> None" using Cons.prems by (auto simp: keyed_def map_of_eq_None_iff)
  then have d: "(case map_of deg x of None \<Rightarrow> 1 | Some n \<Rightarrow> n) = val deg x" by (auto simp: val_def)
  let ?deg = "AList.update x (val deg x - 1) deg"
  have r: "relax (deg, Q) x = (?deg, if val deg x = 1 then Q @ [x] else Q)" using d by (simp add: relax_def Let_def)
  have k: "keyed K ?deg" using Cons.prems by simp
  have f: "filter (\<lambda>v. val ?deg v = 1) vs = filter (\<lambda>v. val deg v = 1) vs"
    using Cons.prems(3) by (auto intro: filter_cong)
  have vs: "set vs \<subseteq> K" "distinct vs" "x \<notin> set vs" using Cons.prems by simp_all
  note IH = Cons.IH [OF k vs(1,2), of "if val deg x = 1 then Q @ [x] else Q", unfolded f]
  show ?case unfolding foldl.simps r using IH vs(3) by auto
qed simp

lemma kahn_okD:
  assumes "kahn_ok deps deg Q P"
  shows "keyed (fst ` set deps) deg" "distinct (P @ Q)" "set (P @ Q) \<subseteq> fst ` set deps"
    "v \<in> fst ` set deps \<Longrightarrow> val deg v = int (open_deps deps P v)"
    "v \<in> fst ` set deps \<Longrightarrow> open_deps deps P v = 0 \<longleftrightarrow> v \<in> set (P @ Q)"
    "i < length P \<Longrightarrow> set (edges deps (P ! i)) \<subseteq> set (take i P)"
proof -
  note c = assms [unfolded kahn_ok_def]
  show "keyed (fst ` set deps) deg" by (rule conjunct1 [OF c])
  note c = conjunct2 [OF c]
  show "distinct (P @ Q)" by (rule conjunct1 [OF c])
  note c = conjunct2 [OF c]
  show "set (P @ Q) \<subseteq> fst ` set deps" by (rule conjunct1 [OF c])
  note c = conjunct2 [OF c]
  show "v \<in> fst ` set deps \<Longrightarrow> val deg v = int (open_deps deps P v)" by (rule bspec [OF conjunct1 [OF c]])
  note c = conjunct2 [OF c]
  show "v \<in> fst ` set deps \<Longrightarrow> open_deps deps P v = 0 \<longleftrightarrow> v \<in> set (P @ Q)"
    by (rule bspec [OF conjunct1 [OF c]])
  show "i < length P \<Longrightarrow> set (edges deps (P ! i)) \<subseteq> set (take i P)"
    using conjunct2 [OF c] by (elim allE impE)
qed

lemma kahn_step:
  assumes ok: "dep_map_ok deps" and inv: "kahn_ok deps deg (x # Q) P"
  defines "vs \<equiv> getr (fst (build_graph deps)) x"
  shows "kahn_ok deps (fst (foldl relax (deg, Q) vs)) (snd (foldl relax (deg, Q) vs)) (P @ [x])"
proof -
  let ?K = "fst ` set deps"
  have vs: "set vs = {v. x \<in> set (edges deps v)}" "distinct vs" using build_graph_ok(2,3) [OF ok] by (simp_all add: vs_def)
  have vsK: "set vs \<subseteq> ?K" using vs edges_key by blast
  have keyd: "keyed ?K deg" and dist: "distinct (P @ x # Q)" and sub: "set (P @ x # Q) \<subseteq> ?K"
    and deg: "\<And>v. v \<in> ?K \<Longrightarrow> val deg v = int (open_deps deps P v)"
    and zero: "\<And>v. v \<in> ?K \<Longrightarrow> open_deps deps P v = 0 \<longleftrightarrow> v \<in> set (P @ x # Q)"
    and topo: "\<And>i. i < length P \<Longrightarrow> set (edges deps (P ! i)) \<subseteq> set (take i P)"
    by (rule kahn_okD [OF inv]; assumption)+
  note f = relax_fold [OF keyd vsK vs(2), of Q]
  have xP: "x \<notin> set P" using dist by simp
  have snoc: "int (open_deps deps (P @ [x]) v) = int (open_deps deps P v) - (if v \<in> set vs then 1 else 0)" for v
    using open_deps_snoc [OF ok xP] vs by simp
  have pos: "0 < open_deps deps P v" if "v \<in> set vs" for v
  proof -
    have "x \<in> set (edges deps v)" using that vs by simp
    then have "\<not> set (edges deps v) \<subseteq> set P" using xP by blast
    then show ?thesis using open_deps_zero [of deps P v] by simp
  qed
  have newQ: "v \<in> set (filter (\<lambda>v. val deg v = 1) vs) \<longleftrightarrow> v \<in> set vs \<and> open_deps deps P v = 1" for v
    using deg [of v] vsK by (cases "v \<in> set vs") (simp_all add: subset_iff)
  have fresh: "v \<notin> set (P @ x # Q)" if "v \<in> set vs" for v
  proof -
    have "v \<in> ?K" using vsK that by (rule subsetD)
    then show ?thesis using pos [OF that] zero [of v] by simp
  qed
  have xin: "set (edges deps x) \<subseteq> set P"
  proof -
    have "x \<in> ?K" using sub by simp
    then have "open_deps deps P x = 0" using zero [of x] by simp
    then show ?thesis by (simp add: open_deps_zero)
  qed
  show ?thesis
    unfolding kahn_ok_def
  proof (intro conjI ballI allI impI)
    show "keyed ?K (fst (foldl relax (deg, Q) vs))" using f by simp
    show "distinct ((P @ [x]) @ snd (foldl relax (deg, Q) vs))"
      using dist fresh vs(2) f by (auto simp: newQ)
    show "set ((P @ [x]) @ snd (foldl relax (deg, Q) vs)) \<subseteq> ?K" using sub vsK f by auto
  next
    fix v assume v: "v \<in> ?K"
    show "val (fst (foldl relax (deg, Q) vs)) v = int (open_deps deps (P @ [x]) v)"
      using f deg [OF v] snoc by simp
    show "open_deps deps (P @ [x]) v = 0 \<longleftrightarrow> v \<in> set ((P @ [x]) @ snd (foldl relax (deg, Q) vs))"
    proof (cases "v \<in> set vs")
      case True
      then have "open_deps deps (P @ [x]) v = 0 \<longleftrightarrow> open_deps deps P v = 1" using snoc [of v] by auto
      then show ?thesis using True fresh [OF True] f newQ [of v] by auto
    next
      case False
      then have "open_deps deps (P @ [x]) v = open_deps deps P v" using snoc [of v] by simp
      then show ?thesis using zero [OF v] False f newQ [of v] by auto
    qed
  next
    fix i assume "i < length (P @ [x])"
    then show "set (edges deps ((P @ [x]) ! i)) \<subseteq> set (take i (P @ [x]))"
      using topo xin by (cases "i < length P") (auto simp: nth_append)
  qed
qed

lemma kahn_loop_ok:
  assumes ok: "dep_map_ok deps"
  shows "kahn_ok deps deg Q P \<Longrightarrow> length deps < n + length P \<Longrightarrow>
     \<exists>deg' P'. kahn_loop n (fst (build_graph deps)) deg Q (length P) = Some (length P', deg') \<and> kahn_ok deps deg' [] P'"
proof (induction n arbitrary: deg Q P)
  case 0
  have "length P \<le> card (fst ` set deps)"
    using 0 distinct_card [of P] card_mono [of "fst ` set deps" "set P"] by (auto simp: kahn_ok_def)
  then show ?case using 0 card_length [of "map fst deps"] by simp
next
  case (Suc n)
  show ?case
  proof (cases Q)
    case Nil
    then show ?thesis using Suc.prems by auto
  next
    case (Cons x rest)
    let ?st = "foldl relax (deg, rest) (getr (fst (build_graph deps)) x)"
    have "kahn_ok deps (fst ?st) (snd ?st) (P @ [x])" using kahn_step [OF ok] Suc.prems Cons by simp
    from Suc.IH [OF this] Suc.prems(2) show ?thesis using Cons by (simp add: Let_def getr_def)
  qed
qed

lemma kahn_all_acyclic:
  assumes ok: "dep_map_ok deps" and inv: "kahn_ok deps deg [] P"
  shows "acyclic (dep_rel deps) \<longleftrightarrow> length P = length deps"
proof
  have K: "card (fst ` set deps) = length deps"
    using ok distinct_card [of "map fst deps"] by (simp add: dep_map_ok_def)
  have P: "card (set P) = length P" "set P \<subseteq> fst ` set deps"
    using inv distinct_card by (auto simp: kahn_ok_def)
  assume "length P = length deps"
  then have all: "set P = fst ` set deps" using K P by (intro card_seteq) auto
  have topo: "set (edges deps (P ! i)) \<subseteq> set (take i P)" if "i < length P" for i
    using inv that by (simp add: kahn_ok_def)
  have dist: "distinct P" using inv by (simp add: kahn_ok_def)
  let ?pos = "\<lambda>v. length (takeWhile (\<lambda>x. x \<noteq> v) P)"
  have pos: "?pos (P ! i) = i" if "i < length P" for i
  proof -
    have "takeWhile (\<lambda>x. x \<noteq> P ! i) P = take i P"
      using that dist by (intro takeWhile_eq_take_P_nth) (auto simp: nth_eq_iff_index_eq)
    then show ?thesis using that by simp
  qed
  have "(v, d) \<in> dep_rel deps \<Longrightarrow> ?pos d < ?pos v" for v d
  proof -
    assume vd: "(v, d) \<in> dep_rel deps"
    then have "v \<in> set P" using all edges_key by (auto simp: dep_rel_def)
    then obtain i where i: "i < length P" "P ! i = v" by (auto simp: in_set_conv_nth)
    then have "d \<in> set (take i P)" using topo vd by (auto simp: dep_rel_def)
    then obtain j where "j < i" "P ! j = d" using i by (auto simp: in_set_conv_nth)
    then show ?thesis using pos [of i] pos [of j] i by auto
  qed
  then have "(dep_rel deps)\<inverse> \<subseteq> measure ?pos" by auto
  then have "wf ((dep_rel deps)\<inverse>)" by (rule wf_subset [OF wf_measure])
  then show "acyclic (dep_rel deps)" using wf_acyclic acyclic_converse by blast
next
  assume ac: "acyclic (dep_rel deps)"
  have K: "card (fst ` set deps) = length deps"
    using ok distinct_card [of "map fst deps"] by (simp add: dep_map_ok_def)
  have P: "card (set P) = length P" "set P \<subseteq> fst ` set deps"
    using inv distinct_card by (auto simp: kahn_ok_def)
  have "dep_rel deps \<subseteq> fst ` set deps \<times> fst ` set deps"
    using edges_ok [OF ok] edges_key by (fastforce simp: dep_rel_def)
  then have fin: "finite (dep_rel deps)" by (rule finite_subset) simp
  have "fst ` set deps \<subseteq> set P"
  proof (rule ccontr)
    assume "\<not> fst ` set deps \<subseteq> set P"
    then have ne: "fst ` set deps - set P \<noteq> {}" by blast
    have "wf ((dep_rel deps)\<inverse>)" by (rule finite_acyclic_wf_converse [OF fin ac])
    then obtain z where z: "z \<in> fst ` set deps - set P" "\<forall>y. (y, z) \<in> (dep_rel deps)\<inverse> \<longrightarrow> y \<notin> fst ` set deps - set P"
      using ne unfolding wf_eq_minimal by (meson ex_in_conv)
    then have "open_deps deps P z \<noteq> 0" using inv by (auto simp: kahn_ok_def)
    then obtain d where d: "d \<in> set (edges deps z)" "d \<notin> set P" by (auto simp: open_deps_zero)
    then show False using z edges_ok [OF ok, of z] by (auto simp: dep_rel_def)
  qed
  then show "length P = length deps" using P K by (metis subset_antisym)
qed

lemma detectCycles_exact:
  assumes ok: "dep_map_ok deps"
  shows "detectCycles deps = None \<longleftrightarrow> acyclic (dep_rel deps)"
proof -
  let ?K = "fst ` set deps" and ?deg = "snd (build_graph deps)"
  let ?Q = "map fst (filter (\<lambda>e. snd e = 0) ?deg)"
  have k: "keyed ?K ?deg" by (rule build_graph_ok(1) [OF ok])
  have q: "set ?Q = {v \<in> ?K. val ?deg v = 0}"
    using k by (force simp: keyed_def val_def image_iff)
  have "kahn_ok deps ?deg ?Q []"
    unfolding kahn_ok_def using k q build_graph_ok(4) [OF ok]
    by (auto simp: keyed_def distinct_map_filter open_deps_def)
  from kahn_loop_ok [OF ok this, of "length deps + 1"] obtain deg' P' where l:
    "kahn_loop (length deps + 1) (fst (build_graph deps)) ?deg ?Q 0 = Some (length P', deg')" "kahn_ok deps deg' [] P'"
    by (auto simp del: kahn_loop.simps)
  have "length P' \<le> length deps"
    using l(2) distinct_card [of P'] card_mono [of ?K "set P'"] card_length [of "map fst deps"]
    by (auto simp: kahn_ok_def)
  moreover have "detectCycles deps = None \<longleftrightarrow> \<not> length P' < length deps"
    using l(1) by (simp add: detectCycles_def split_beta)
  ultimately show ?thesis using kahn_all_acyclic [OF ok l(2)] by auto
qed

section \<open>The derived map\<close>

lemma derived_map:
  "distinct (map cd_id calls) \<Longrightarrow>
     foldl (\<lambda>m c. AList.update (cd_id c) (f c) m) [] calls = map (\<lambda>c. (cd_id c, f c)) calls"
  by (rule fold_update_map)

text \<open>The order the references of a batch impose: \<open>(a, b)\<close> when call \<open>a\<close> needs the output of \<open>b\<close>.\<close>

definition batch_order :: "call_descriptor list \<Rightarrow> (string \<times> string) set" where
  "batch_order calls = {(a, b). \<exists>c \<in> set calls. a = cd_id c \<and> b \<in> refs_of (cd_input c) \<and> b \<in> cd_id ` set calls \<and> b \<noteq> a}"

lemma derived_ok:
  assumes "distinct (map cd_id calls)"
  defines "deps \<equiv> map (\<lambda>c. (cd_id c, collectRefs (cd_input c) (map cd_id calls) (cd_id c))) calls"
  shows "dep_map_ok deps" "dep_rel deps = batch_order calls"
    "c \<in> set calls \<Longrightarrow> edges deps (cd_id c) = collectRefs (cd_input c) (map cd_id calls) (cd_id c)"
proof -
  have keys: "map fst deps = map cd_id calls" by (simp add: deps_def comp_def)
  show ok: "dep_map_ok deps"
    using assms(1) collectRefs_exact unfolding dep_map_ok_def keys by (auto simp: deps_def image_iff)
  show e: "edges deps (cd_id c) = collectRefs (cd_input c) (map cd_id calls) (cd_id c)" if "c \<in> set calls" for c
    by (rule edges_entry [OF ok]) (use that in \<open>auto simp: deps_def\<close>)
  show "dep_rel deps = batch_order calls"
  proof (rule set_eqI)
    fix ab :: "string \<times> string"
    obtain a b where ab: "ab = (a, b)" by force
    show "ab \<in> dep_rel deps \<longleftrightarrow> ab \<in> batch_order calls"
    proof
      assume "ab \<in> dep_rel deps"
      then have b: "b \<in> set (edges deps a)" by (simp add: dep_rel_def ab)
      then obtain c where c: "c \<in> set calls" "cd_id c = a" using edges_key by (force simp: deps_def)
      then show "ab \<in> batch_order calls" using b e [OF c(1)] collectRefs_exact ab by (auto simp: batch_order_def)
    next
      assume "ab \<in> batch_order calls"
      then obtain c where c: "c \<in> set calls" "cd_id c = a" "b \<in> refs_of (cd_input c)" "b \<in> cd_id ` set calls" "b \<noteq> a"
        by (auto simp: batch_order_def ab)
      then show "ab \<in> dep_rel deps" using e [OF c(1)] collectRefs_exact ab by (auto simp: dep_rel_def)
    qed
  qed
qed

text \<open>A value without references to completed calls is left alone.\<close>

lemma resolve_id: "refs_of v \<inter> fst ` set env = {} \<Longrightarrow> resolveRefs v env = v"
proof (induction v env rule: resolveRefs.induct)
  case (1 s env)
  show ?case
  proof (cases "ref_target s")
    case (Some r)
    then have "map_of env r = None" using 1 by (auto simp: map_of_eq_None_iff)
    then show ?thesis using Some by simp
  qed simp
next
  case (2 vs env)
  have "map (\<lambda>v. resolveRefs v env) vs = map (\<lambda>v. v) vs" by (rule map_cong) (use 2 in auto)
  then show ?case by simp
next
  case (3 kvs env)
  have "map (\<lambda>(k, v). (k, resolveRefs v env)) kvs = map (\<lambda>kv. kv) kvs"
  proof (rule map_cong)
    fix kv assume kv: "kv \<in> set kvs"
    obtain k v where e: "kv = (k, v)" by force
    have "refs_of v \<subseteq> refs_of (JObj kvs)" using kv e by auto
    then have "refs_of v \<inter> fst ` set env = {}" using 3(2) by blast
    then have "resolveRefs v env = v" by (rule 3(1) [OF kv e [symmetric]])
    then show "(case kv of (k, v) \<Rightarrow> (k, resolveRefs v env)) = kv" using e by simp
  qed simp
  then show ?case by simp
qed simp_all

section \<open>Properties\<close>

text \<open>
  C13. \<open>deriveDependencies\<close> decides cycles exactly. On a batch of calls with distinct ids it returns
  iff no chain of references leads back to its start, and then every call is mapped to precisely the
  other calls of the batch its input names as \<open>$id\<close>, each once; otherwise it throws.
\<close>
theorem derive_dependencies_exact:
  assumes "distinct (map cd_id calls)"
  shows "(case deriveDependencies calls of
            Inl _ \<Rightarrow> \<not> acyclic (batch_order calls)
          | Inr deps \<Rightarrow>
              acyclic (batch_order calls) \<and> map fst deps = map cd_id calls \<and>
              (\<forall>c \<in> set calls. distinct (edges deps (cd_id c)) \<and>
                 set (edges deps (cd_id c)) = {b. (cd_id c, b) \<in> batch_order calls}))"
proof -
  let ?deps = "map (\<lambda>c. (cd_id c, collectRefs (cd_input c) (map cd_id calls) (cd_id c))) calls"
  note d = derived_ok [OF assms]
  have "deriveDependencies calls = (case detectCycles ?deps of None \<Rightarrow> Inr ?deps | Some cy \<Rightarrow> Inl (CircularDependency cy))"
    unfolding deriveDependencies_def Let_def derived_map [OF assms, of "\<lambda>c. collectRefs (cd_input c) (map cd_id calls) (cd_id c)"] ..
  moreover have "detectCycles ?deps = None \<longleftrightarrow> acyclic (batch_order calls)"
    using detectCycles_exact [OF d(1)] d(2) by simp
  moreover have "set (edges ?deps (cd_id c)) = {b. (cd_id c, b) \<in> batch_order calls}" for c
    using d(2) by (auto simp: dep_rel_def)
  ultimately show ?thesis
    using edges_ok [OF d(1)] by (auto simp: comp_def split: option.split)
qed

theorem derive_dependencies_exact_witness:
  "deriveDependencies
     [\<lparr>cd_id = ''a'', cd_input = JObj [(''x'', JStr ''hi'')]\<rparr>,
      \<lparr>cd_id = ''b'', cd_input = JObj [(''y'', JArr [JStr ''$a'', JStr ''$zz'', JStr ''$a''])]\<rparr>] =
     Inr [(''a'', []), (''b'', [''a''])] \<and>
   (case deriveDependencies
     [\<lparr>cd_id = ''a'', cd_input = JStr ''$b''\<rparr>, \<lparr>cd_id = ''b'', cd_input = JStr ''$a''\<rparr>] of
     Inl _ \<Rightarrow> \<not> acyclic (batch_order
       [\<lparr>cd_id = ''a'', cd_input = JStr ''$b''\<rparr>, \<lparr>cd_id = ''b'', cd_input = JStr ''$a''\<rparr>])
   | Inr _ \<Rightarrow> False)"
proof -
  let ?cs = "[\<lparr>cd_id = ''a'', cd_input = JStr ''$b''\<rparr>, \<lparr>cd_id = ''b'', cd_input = JStr ''$a''\<rparr>]"
  have d: "deriveDependencies
     [\<lparr>cd_id = ''a'', cd_input = JObj [(''x'', JStr ''hi'')]\<rparr>,
      \<lparr>cd_id = ''b'', cd_input = JObj [(''y'', JArr [JStr ''$a'', JStr ''$zz'', JStr ''$a''])]\<rparr>] =
     Inr [(''a'', []), (''b'', [''a''])]" by code_simp
  have c: "deriveDependencies ?cs = Inl (CircularDependency [''a'', ''b''])" by code_simp
  have "distinct (map cd_id ?cs)" by simp
  from derive_dependencies_exact [OF this] show ?thesis using c d by simp
qed

end
