(* ===== verification/Scheduler.thy ===== *)
theory Scheduler
  imports Dep_Graph
begin

text \<open>
  The wave scheduler of the agent core (packages/core/src/scheduler/Scheduler.ts) on the graphs of
  packages/core/src/scheduler/ir.ts. \<open>execute\<close> is a generator; its run to the end is the list of events
  it yields. A tool call is an argument \<open>call\<close> that says how the promise of a node settles, and the
  dispatch-time authorisation is an argument \<open>authorize\<close>, which may depend on everything yielded
  before it is asked; promises are awaited in the order of their launch, so the moment at which one settles is not observable. Abandoning the generator early is
  a prefix of the events.
\<close>

section \<open>Graphs, events and state\<close>

record ir_node =
  in_id :: string
  in_toolName :: string
  in_args :: json
  in_dependsOn :: "string list"
  in_readOnly :: bool
  in_idempotent :: bool
  in_extraCapabilities :: "string list option"
  in_resourceKey :: "string option"

text \<open>How a promise settles; a rejection says whether its reason is an \<open>AbortError\<close>.\<close>

datatype settled = Fulfilled json | Rejection bool json

datatype sched_event =
    NodeStart string
  | NodeDone string json
  | NodeError string json
  | NodeSpeculative string
  | NodeBarrierWait "string list"

record sched =
  sc_completed :: "(string \<times> json) list"
  sc_remaining :: "(string \<times> string list) list"
  sc_speculative :: "(string \<times> settled) list"
  sc_events :: "sched_event list"
  sc_calls :: "(string \<times> json) list"

definition emit :: "sched_event \<Rightarrow> sched \<Rightarrow> sched" where
  "emit e st = st\<lparr>sc_events := sc_events st @ [e]\<rparr>"

definition set_completed :: "string \<Rightarrow> json \<Rightarrow> sched \<Rightarrow> sched" where
  "set_completed i v st = st\<lparr>sc_completed := AList.update i v (sc_completed st)\<rparr>"

definition is_completed :: "sched \<Rightarrow> string \<Rightarrow> bool" where
  "is_completed st i = (map_of (sc_completed st) i \<noteq> None)"

definition unblockDependents :: "string \<Rightarrow> sched \<Rightarrow> sched" where
  "unblockDependents i st =
     st\<lparr>sc_remaining := map (\<lambda>(k, ds). (k, filter (\<lambda>d. d \<noteq> i) ds)) (sc_remaining st)\<rparr>"

text \<open>The three statements that record a result: completed, \<open>node_done\<close>, dependents unblocked.\<close>

definition finish_node :: "string \<Rightarrow> json \<Rightarrow> sched \<Rightarrow> sched" where
  "finish_node i v st = unblockDependents i (emit (NodeDone i v) (set_completed i v st))"

section \<open>Implicit dependencies between writers\<close>

definition writer_key :: "ir_node \<Rightarrow> string option" where
  "writer_key nd = (if \<not> in_readOnly nd \<and> truthy (in_resourceKey nd) then in_resourceKey nd else None)"

definition chain_writer ::
    "(string \<times> string) list \<times> (string \<times> string list) list \<Rightarrow> ir_node \<Rightarrow>
     (string \<times> string) list \<times> (string \<times> string list) list" where
  "chain_writer st nd =
     (case writer_key nd of
        None \<Rightarrow> st
      | Some key \<Rightarrow>
          (AList.update key (in_id nd) (fst st),
           if truthy (map_of (fst st) key)
           then AList.map_entry (in_id nd) (\<lambda>ds. ds @ [the (map_of (fst st) key)]) (snd st)
           else snd st))"

definition augmentedDeps :: "ir_node list \<Rightarrow> (string \<times> string list) list" where
  "augmentedDeps nodes =
     snd (foldl chain_writer ([], foldl (\<lambda>m nd. AList.update (in_id nd) (in_dependsOn nd) m) [] nodes) nodes)"

text \<open>\<open>new Set\<close> of an array: the first occurrences, in order.\<close>

definition js_set :: "string list \<Rightarrow> string list" where
  "js_set xs = foldl (\<lambda>s x. if x \<in> set s then s else s @ [x]) [] xs"

definition deps_of :: "ir_node list \<Rightarrow> ir_node \<Rightarrow> string list" where
  "deps_of nodes nd =
     js_set (case map_of (augmentedDeps nodes) (in_id nd) of None \<Rightarrow> in_dependsOn nd | Some ds \<Rightarrow> ds)"

definition initial_state :: "ir_node list \<Rightarrow> sched" where
  "initial_state nodes =
     \<lparr>sc_completed = [],
      sc_remaining = foldl (\<lambda>m nd. AList.update (in_id nd) (deps_of nodes nd) m) [] nodes,
      sc_speculative = [], sc_events = [], sc_calls = []\<rparr>"

section \<open>Failure cascade\<close>

text \<open>
  Every nested call completes one more node, so a depth above the number of nodes is never reached.
\<close>

primrec cascadeNodeFailure :: "nat \<Rightarrow> ir_node list \<Rightarrow> json \<Rightarrow> string \<Rightarrow> sched \<Rightarrow> sched" where
  "cascadeNodeFailure 0 nodes err failed st = st"
| "cascadeNodeFailure (Suc n) nodes err failed st =
     unblockDependents failed
       (foldl (\<lambda>st nd. if is_completed st (in_id nd) then st
                       else if failed \<in> set (in_dependsOn nd)
                       then emit (NodeError (in_id nd) err) (cascadeNodeFailure n nodes err (in_id nd) st)
                       else st)
          (set_completed failed JUndef st) nodes)"

section \<open>One turn of the loop\<close>

definition ready :: "sched \<Rightarrow> ir_node \<Rightarrow> bool" where
  "ready st nd =
     (\<not> is_completed st (in_id nd) \<and> map_of (sc_speculative st) (in_id nd) = None \<and>
      (case map_of (sc_remaining st) (in_id nd) of None \<Rightarrow> True | Some ds \<Rightarrow> ds = []))"

type_synonym tool_call = "ir_node \<Rightarrow> json \<Rightarrow> settled"
type_synonym authorization = "sched_event list \<Rightarrow> ir_node \<Rightarrow> json \<Rightarrow> json option"

text \<open>The call made: \<open>sc_calls\<close> is the trace of the calls and of the arguments they were made with.\<close>

definition note_call :: "string \<Rightarrow> json \<Rightarrow> sched \<Rightarrow> sched" where
  "note_call i args st = st\<lparr>sc_calls := sc_calls st @ [(i, args)]\<rparr>"

text \<open>A ready read-only node: overridden by the authorisation, or launched speculatively.\<close>

definition launch_read :: "tool_call \<Rightarrow> authorization \<Rightarrow> sched \<Rightarrow> ir_node \<Rightarrow> sched" where
  "launch_read call authorize st nd =
     (let st1 = emit (NodeSpeculative (in_id nd)) (emit (NodeStart (in_id nd)) st);
          resolved = resolveRefs (in_args nd) (sc_completed st1)
      in case authorize (sc_events st1) nd resolved of
           Some r \<Rightarrow> finish_node (in_id nd) r st1
         | None \<Rightarrow> note_call (in_id nd) resolved
             (st1\<lparr>sc_speculative := AList.update (in_id nd) (call nd resolved) (sc_speculative st1)\<rparr>))"

text \<open>One settled promise of the speculative calls, and the drain of all of them.\<close>

definition settle_speculative :: "ir_node list \<Rightarrow> sched \<Rightarrow> string \<times> settled \<Rightarrow> sched" where
  "settle_speculative nodes st e =
     (let i = fst e;
          st1 = st\<lparr>sc_speculative := AList.delete i (sc_speculative st)\<rparr>
      in case snd e of
           Fulfilled v \<Rightarrow> if is_completed st1 i then st1 else finish_node i v st1
         | Rejection abort reason \<Rightarrow>
             emit (NodeError i (if abort then JUndef else reason))
               (cascadeNodeFailure (length nodes + 1) nodes reason i st1))"

definition drain_speculative :: "ir_node list \<Rightarrow> sched \<Rightarrow> sched" where
  "drain_speculative nodes st = foldl (settle_speculative nodes) st (sc_speculative st)"

text \<open>The ready writing nodes: started and authorised one by one, overrides first, then the calls.\<close>

definition start_write ::
    "tool_call \<Rightarrow> authorization \<Rightarrow> sched \<times> (string \<times> json) list \<times> (string \<times> settled) list \<Rightarrow> ir_node \<Rightarrow>
     sched \<times> (string \<times> json) list \<times> (string \<times> settled) list" where
  "start_write call authorize acc nd =
     (let (st, overridden, dispatching) = acc;
          st1 = emit (NodeStart (in_id nd)) st;
          resolved = resolveRefs (in_args nd) (sc_completed st1)
      in case authorize (sc_events st1) nd resolved of
           Some r \<Rightarrow> (st1, overridden @ [(in_id nd, r)], dispatching)
         | None \<Rightarrow> (note_call (in_id nd) resolved st1, overridden, dispatching @ [(in_id nd, call nd resolved)]))"

definition settle_write :: "ir_node list \<Rightarrow> sched \<Rightarrow> string \<times> settled \<Rightarrow> sched" where
  "settle_write nodes st e =
     (case snd e of
        Fulfilled v \<Rightarrow> finish_node (fst e) v st
      | Rejection abort reason \<Rightarrow>
          emit (NodeError (fst e) (if abort then JUndef else reason))
            (cascadeNodeFailure (length nodes + 1) nodes reason (fst e) st))"

definition run_writes :: "ir_node list \<Rightarrow> tool_call \<Rightarrow> authorization \<Rightarrow> ir_node list \<Rightarrow> sched \<Rightarrow> sched" where
  "run_writes nodes call authorize writing st =
     (let (st1, overridden, dispatching) = foldl (start_write call authorize) (st, [], []) writing;
          st2 = foldl (\<lambda>st e. finish_node (fst e) (snd e) st) st1 overridden
      in foldl (settle_write nodes) st2 dispatching)"

datatype sched_turn = Deadlocked "string list" | Proceed sched

definition turn :: "ir_node list \<Rightarrow> tool_call \<Rightarrow> authorization \<Rightarrow> sched \<Rightarrow> sched_turn" where
  "turn nodes call authorize st =
     (let rdy = filter (ready st) nodes;
          reading = filter in_readOnly rdy;
          writing = filter (\<lambda>nd. \<not> in_readOnly nd) rdy
      in if rdy = [] \<and> sc_speculative st = []
         then Deadlocked (map in_id (filter (\<lambda>nd. \<not> is_completed st (in_id nd)) nodes))
         else
           (let st1 = foldl (launch_read call authorize) st reading
            in if writing \<noteq> [] \<and> sc_speculative st1 \<noteq> []
               then Proceed (drain_speculative nodes
                      (emit (NodeBarrierWait (map fst (sc_speculative st1))) st1))
               else if writing \<noteq> [] then Proceed (run_writes nodes call authorize writing st1)
               else Proceed (drain_speculative nodes st1)))"

datatype sched_result = Finished sched | Deadlock "string list" sched

fun execute_loop :: "nat \<Rightarrow> ir_node list \<Rightarrow> tool_call \<Rightarrow> authorization \<Rightarrow> sched \<Rightarrow> sched_result option" where
  "execute_loop 0 nodes call authorize st = None"
| "execute_loop (Suc n) nodes call authorize st =
     (if length (sc_completed st) < length nodes
      then (case turn nodes call authorize st of
              Deadlocked pending \<Rightarrow> Some (Deadlock pending st)
            | Proceed st' \<Rightarrow> execute_loop n nodes call authorize st')
      else Some (Finished st))"

definition execute :: "ir_node list \<Rightarrow> tool_call \<Rightarrow> authorization \<Rightarrow> sched_result option" where
  "execute nodes call authorize = execute_loop (length nodes + 1) nodes call authorize (initial_state nodes)"

section \<open>The invariant\<close>

definition ids :: "ir_node list \<Rightarrow> string set" where
  "ids nodes = in_id ` set nodes"

definition completed :: "sched \<Rightarrow> string set" where
  "completed st = fst ` set (sc_completed st)"

lemma is_completed_iff: "is_completed st i \<longleftrightarrow> i \<in> completed st"
  by (auto simp: is_completed_def completed_def map_of_eq_None_iff dom_map_of_conv_image_fst [symmetric])

text \<open>What a node still waits for, and what it waits for at first.\<close>

definition waiting_for :: "sched \<Rightarrow> string \<Rightarrow> string set" where
  "waiting_for st i = (case map_of (sc_remaining st) i of None \<Rightarrow> {} | Some ds \<Rightarrow> set ds)"

definition all_deps :: "ir_node list \<Rightarrow> string \<Rightarrow> string set" where
  "all_deps nodes i = waiting_for (initial_state nodes) i"

fun settles :: "sched_event \<Rightarrow> string set" where
  "settles (NodeDone i v) = {i}"
| "settles (NodeError i e) = {i}"
| "settles e = {}"

fun succeeds :: "sched_event \<Rightarrow> string set" where
  "succeeds (NodeDone i v) = {i}"
| "succeeds e = {}"

definition settled_in :: "sched_event list \<Rightarrow> string set" where
  "settled_in es = (\<Union>e \<in> set es. settles e)"

definition succeeded_in :: "sched_event list \<Rightarrow> string set" where
  "succeeded_in es = (\<Union>e \<in> set es. succeeds e)"

text \<open>
  No node starts before all its dependencies are settled, or before one of its explicit
  dependencies has succeeded.
\<close>

definition start_allowed :: "ir_node list \<Rightarrow> string \<Rightarrow> sched_event list \<Rightarrow> bool" where
  "start_allowed nodes i es =
     (all_deps nodes i \<subseteq> settled_in es \<and>
      (\<exists>nd \<in> set nodes. in_id nd = i \<and> set (in_dependsOn nd) \<inter> all_deps nodes i \<subseteq> succeeded_in es))"

definition trace_ok :: "ir_node list \<Rightarrow> sched_event list \<Rightarrow> bool" where
  "trace_ok nodes es = (\<forall>xs i ys. es = xs @ NodeStart i # ys \<longrightarrow> start_allowed nodes i xs)"

text \<open>\<open>P\<close> are the failed nodes whose cascade is still running.\<close>

definition sched_ok :: "ir_node list \<Rightarrow> string set \<Rightarrow> sched \<Rightarrow> bool" where
  "sched_ok nodes P st =
     (distinct (map fst (sc_completed st)) \<and> completed st \<subseteq> ids nodes \<and>
      (\<forall>i. all_deps nodes i - completed st \<subseteq> waiting_for st i) \<and>
      (\<forall>i. waiting_for st i \<subseteq> all_deps nodes i \<and> waiting_for st i \<inter> completed st \<subseteq> P) \<and>
      completed st \<subseteq> settled_in (sc_events st) \<union> P \<and>
      (\<forall>nd \<in> set nodes. \<forall>d \<in> set (in_dependsOn nd).
         d \<in> completed st \<and> d \<notin> succeeded_in (sc_events st) \<longrightarrow> in_id nd \<in> completed st \<or> d \<in> P) \<and>
      trace_ok nodes (sc_events st))"

definition extends :: "sched \<Rightarrow> sched \<Rightarrow> bool" where
  "extends st st' = (completed st \<subseteq> completed st' \<and> (\<exists>es. sc_events st' = sc_events st @ es) \<and>
                     sc_speculative st' = sc_speculative st)"

lemma extends_refl [simp]: "extends st st"
  by (simp add: extends_def)

lemma extends_trans: "extends a b \<Longrightarrow> extends b c \<Longrightarrow> extends a c"
  by (auto simp: extends_def)

lemma settled_append [simp]:
  "settled_in (xs @ ys) = settled_in xs \<union> settled_in ys" "settled_in [e] = settles e" "settled_in [] = {}"
  "succeeded_in (xs @ ys) = succeeded_in xs \<union> succeeded_in ys" "succeeded_in [e] = succeeds e" "succeeded_in [] = {}"
  by (auto simp: settled_in_def succeeded_in_def)

lemma trace_snoc: "trace_ok nodes es \<Longrightarrow> (\<And>i. e = NodeStart i \<Longrightarrow> start_allowed nodes i es) \<Longrightarrow> trace_ok nodes (es @ [e])"
  unfolding trace_ok_def
proof (intro allI impI)
  fix xs i ys
  assume ok: "\<forall>xs i ys. es = xs @ NodeStart i # ys \<longrightarrow> start_allowed nodes i xs"
    and s: "\<And>i. e = NodeStart i \<Longrightarrow> start_allowed nodes i es" and eq: "es @ [e] = xs @ NodeStart i # ys"
  show "start_allowed nodes i xs"
  proof (cases ys rule: rev_cases)
    case Nil
    then show ?thesis using eq s by simp
  next
    case (snoc zs z)
    then have "es = xs @ NodeStart i # zs" using eq by simp
    then show ?thesis using ok by blast
  qed
qed

lemma state_simps [simp]:
  "completed (emit e st) = completed st" "sc_events (emit e st) = sc_events st @ [e]"
  "sc_completed (emit e st) = sc_completed st" "waiting_for (emit e st) i = waiting_for st i"
  "sc_speculative (emit e st) = sc_speculative st"
  "completed (unblockDependents j st) = completed st" "sc_events (unblockDependents j st) = sc_events st"
  "sc_completed (unblockDependents j st) = sc_completed st" "sc_speculative (unblockDependents j st) = sc_speculative st"
  "sc_events (set_completed j v st) = sc_events st" "waiting_for (set_completed j v st) i = waiting_for st i"
  "sc_speculative (set_completed j v st) = sc_speculative st"
  "sc_completed (set_completed j v st) = AList.update j v (sc_completed st)"
  by (simp_all add: emit_def completed_def waiting_for_def unblockDependents_def set_completed_def)

lemma note_call_simps [simp]:
  "completed (note_call i a st) = completed st" "sc_events (note_call i a st) = sc_events st"
  "sc_completed (note_call i a st) = sc_completed st" "waiting_for (note_call i a st) j = waiting_for st j"
  "sc_speculative (note_call i a st) = sc_speculative st" "sc_remaining (note_call i a st) = sc_remaining st"
  "sc_calls (note_call i a st) = sc_calls st @ [(i, a)]"
  by (simp_all add: note_call_def completed_def waiting_for_def)

lemma completed_set [simp]: "completed (set_completed j v st) = insert j (completed st)"
  by (simp add: completed_def set_completed_def dom_update)

lemma waiting_unblock [simp]: "waiting_for (unblockDependents j st) i = waiting_for st i - {j}"
proof -
  have "map_of (map (\<lambda>(k, ds). (k, filter (\<lambda>d. d \<noteq> j) ds)) m) i = map_option (filter (\<lambda>d. d \<noteq> j)) (map_of m i)" for m :: "(string \<times> string list) list"
    by (induction m) auto
  then show ?thesis by (auto simp: waiting_for_def unblockDependents_def split: option.splits)
qed

lemma sched_ok_fields [simp]:
  "sched_ok nodes P (note_call i a st) = sched_ok nodes P st"
  "sched_ok nodes P (st\<lparr>sc_speculative := sp\<rparr>) = sched_ok nodes P st"
  "extends st (note_call i a st') = extends st st'"
  by (simp_all add: sched_ok_def extends_def waiting_for_def completed_def note_call_def)

lemma emit_ok:
  assumes "sched_ok nodes P st" "\<And>i. e = NodeStart i \<Longrightarrow> start_allowed nodes i (sc_events st)"
  shows "sched_ok nodes P (emit e st)"
  using assms trace_snoc [of nodes "sc_events st" e] unfolding sched_ok_def by auto

lemma finish_ok:
  assumes ok: "sched_ok nodes P st" and i: "i \<in> ids nodes"
  shows "sched_ok nodes P (finish_node i v st) \<and> extends st (finish_node i v st) \<and> i \<in> completed (finish_node i v st)"
  using ok i trace_snoc [of nodes "sc_events st" "NodeDone i v"] unfolding sched_ok_def finish_node_def
  by (auto simp: extends_def distinct_update)

section \<open>The cascade\<close>

definition open_ids :: "ir_node list \<Rightarrow> sched \<Rightarrow> string set" where
  "open_ids nodes st = ids nodes - completed st"

lemma start_cascade_ok:
  "sched_ok nodes P st \<Longrightarrow> i \<in> ids nodes \<Longrightarrow> sched_ok nodes (insert i P) (set_completed i v st)"
  unfolding sched_ok_def by (auto simp: distinct_update)

lemma end_cascade_ok:
  assumes ok: "sched_ok nodes (insert i P) st" and ic: "i \<in> completed st"
    and all: "\<forall>nd \<in> set nodes. i \<in> set (in_dependsOn nd) \<longrightarrow> in_id nd \<in> completed st"
  shows "sched_ok nodes P (emit (NodeError i e) (unblockDependents i st))"
proof -
  have "\<forall>nd \<in> set nodes. \<forall>d \<in> set (in_dependsOn nd).
      d \<in> completed st \<and> d \<notin> succeeded_in (sc_events st) \<longrightarrow> in_id nd \<in> completed st \<or> d \<in> P"
    using ok all unfolding sched_ok_def by blast
  then show ?thesis
    using ok ic trace_snoc [of nodes "sc_events st" "NodeError i e"] unfolding sched_ok_def by auto
qed

lemma cascade_ok:
  "sched_ok nodes P st \<Longrightarrow> i \<in> ids nodes \<Longrightarrow> card (open_ids nodes st - {i}) < n \<Longrightarrow>
     sched_ok nodes P (emit (NodeError i e) (cascadeNodeFailure n nodes err i st)) \<and>
     extends st (emit (NodeError i e) (cascadeNodeFailure n nodes err i st)) \<and>
     i \<in> completed (cascadeNodeFailure n nodes err i st)"
proof (induction n arbitrary: P st i e)
  case (Suc n)
  let ?st = "set_completed i JUndef st"
  define f where "f = (\<lambda>(st::sched) (nd::ir_node). if is_completed st (in_id nd) then st
                    else if i \<in> set (in_dependsOn nd)
                    then emit (NodeError (in_id nd) err) (cascadeNodeFailure n nodes err (in_id nd) st)
                    else st)"
  have fin: "finite (open_ids nodes s)" for s by (simp add: open_ids_def ids_def)
  have loop: "set xs \<subseteq> set nodes \<Longrightarrow> sched_ok nodes (insert i P) s \<Longrightarrow> card (open_ids nodes s) \<le> n \<Longrightarrow>
      sched_ok nodes (insert i P) (foldl f s xs) \<and> extends s (foldl f s xs) \<and>
      (\<forall>nd \<in> set xs. i \<in> set (in_dependsOn nd) \<longrightarrow> in_id nd \<in> completed (foldl f s xs))" for xs s
  proof (induction xs arbitrary: s)
    case (Cons nd xs)
    have step: "sched_ok nodes (insert i P) (f s nd) \<and> extends s (f s nd) \<and>
        (i \<in> set (in_dependsOn nd) \<longrightarrow> in_id nd \<in> completed (f s nd))"
    proof (cases "is_completed s (in_id nd) \<or> i \<notin> set (in_dependsOn nd)")
      case True
      then show ?thesis using Cons.prems by (auto simp: f_def is_completed_iff)
    next
      case False
      then have op: "in_id nd \<in> open_ids nodes s" using Cons.prems(1) by (auto simp: open_ids_def ids_def is_completed_iff)
      have "card (open_ids nodes s - {in_id nd}) < card (open_ids nodes s)" using op fin by (intro card_Diff1_less)
      then have "card (open_ids nodes s - {in_id nd}) < n" using Cons.prems(3) by simp
      then show ?thesis using Suc.IH [OF Cons.prems(2), of "in_id nd" err] False Cons.prems(1) by (auto simp: f_def ids_def)
    qed
    have mono: "completed s \<subseteq> completed (f s nd)" using step by (auto simp: extends_def)
    then have "open_ids nodes (f s nd) \<subseteq> open_ids nodes s" by (auto simp: open_ids_def)
    then have "card (open_ids nodes (f s nd)) \<le> n" using card_mono [OF fin] Cons.prems(3) by (meson le_trans)
    then have rest: "sched_ok nodes (insert i P) (foldl f (f s nd) xs) \<and> extends (f s nd) (foldl f (f s nd) xs) \<and>
        (\<forall>md \<in> set xs. i \<in> set (in_dependsOn md) \<longrightarrow> in_id md \<in> completed (foldl f (f s nd) xs))"
    proof -
      have "set xs \<subseteq> set nodes" using Cons.prems(1) by simp
      from Cons.IH [OF this conjunct1 [OF step] \<open>card (open_ids nodes (f s nd)) \<le> n\<close>] show ?thesis .
    qed
    then have "completed (f s nd) \<subseteq> completed (foldl f (f s nd) xs)" by (auto simp: extends_def)
    then have "i \<in> set (in_dependsOn nd) \<longrightarrow> in_id nd \<in> completed (foldl f (f s nd) xs)" using step by blast
    moreover have "extends s (foldl f (f s nd) xs)" using step rest extends_trans by blast
    ultimately show ?case using rest by (simp only: foldl.simps set_simps ball_simps insert_iff) blast
  qed simp
  have "open_ids nodes ?st = open_ids nodes st - {i}" by (auto simp: open_ids_def)
  then have "card (open_ids nodes ?st) \<le> n" using Suc.prems(3) by simp
  note l = loop [OF subset_refl start_cascade_ok [OF Suc.prems(1,2)] this]
  have ic: "i \<in> completed (foldl f ?st nodes)" using l by (auto simp: extends_def)
  have "sched_ok nodes P (emit (NodeError i e) (unblockDependents i (foldl f ?st nodes)))"
    by (rule end_cascade_ok) (use l ic in auto)
  moreover have "extends st (emit (NodeError i e) (unblockDependents i (foldl f ?st nodes)))"
    using l by (auto simp: extends_def)
  ultimately show ?case using ic by (simp add: f_def)
qed simp

section \<open>One turn\<close>

definition grows :: "sched \<Rightarrow> sched \<Rightarrow> bool" where
  "grows st st' = (completed st \<subseteq> completed st' \<and> (\<exists>es. sc_events st' = sc_events st @ es))"

definition spec_ids :: "sched \<Rightarrow> string set" where
  "spec_ids st = fst ` set (sc_speculative st)"

lemma grows_refl [simp]: "grows st st"
  by (simp add: grows_def)

lemma grows_trans: "grows a b \<Longrightarrow> grows b c \<Longrightarrow> grows a c"
  by (auto simp: grows_def)

lemma extends_grows: "extends a b \<Longrightarrow> grows a b"
  by (auto simp: extends_def grows_def)

lemma speculative_simps [simp]:
  "completed (st\<lparr>sc_speculative := x\<rparr>) = completed st" "sc_events (st\<lparr>sc_speculative := x\<rparr>) = sc_events st"
  "waiting_for (st\<lparr>sc_speculative := x\<rparr>) i = waiting_for st i"
  "sched_ok nodes P (st\<lparr>sc_speculative := x\<rparr>) = sched_ok nodes P st"
  by (simp_all add: completed_def waiting_for_def sched_ok_def)

lemma start_allowed_mono: "start_allowed nodes i xs \<Longrightarrow> start_allowed nodes i (xs @ ys)"
  by (fastforce simp: start_allowed_def)

lemma grows_allowed: "grows st st' \<Longrightarrow> start_allowed nodes i (sc_events st) \<Longrightarrow> start_allowed nodes i (sc_events st')"
  by (auto simp: grows_def start_allowed_mono)

lemma ready_allowed:
  assumes ok: "sched_ok nodes {} st" and nd: "nd \<in> set nodes" and rd: "ready st nd"
  shows "start_allowed nodes (in_id nd) (sc_events st)"
proof -
  have w: "waiting_for st (in_id nd) = {}" and nc: "in_id nd \<notin> completed st"
    using rd by (auto simp: ready_def waiting_for_def is_completed_iff split: option.splits)
  then have a: "all_deps nodes (in_id nd) \<subseteq> completed st" using ok unfolding sched_ok_def by blast
  then have "set (in_dependsOn nd) \<inter> all_deps nodes (in_id nd) \<subseteq> succeeded_in (sc_events st)"
    using ok nd nc unfolding sched_ok_def by blast
  moreover have "completed st \<subseteq> settled_in (sc_events st)" using ok unfolding sched_ok_def by blast
  ultimately show ?thesis using a nd unfolding start_allowed_def by blast
qed

lemma launch_ok:
  assumes ok: "sched_ok nodes {} st" and nd: "nd \<in> set nodes" and al: "start_allowed nodes (in_id nd) (sc_events st)"
    and sp: "spec_ids st \<subseteq> ids nodes"
  shows "sched_ok nodes {} (launch_read call authorize st nd) \<and> grows st (launch_read call authorize st nd) \<and>
         spec_ids st \<subseteq> spec_ids (launch_read call authorize st nd) \<and>
         spec_ids (launch_read call authorize st nd) \<subseteq> ids nodes \<and>
         in_id nd \<in> completed (launch_read call authorize st nd) \<union> spec_ids (launch_read call authorize st nd)"
proof -
  let ?st1 = "emit (NodeSpeculative (in_id nd)) (emit (NodeStart (in_id nd)) st)"
  have i: "in_id nd \<in> ids nodes" using nd by (simp add: ids_def)
  have ok1: "sched_ok nodes {} ?st1" by (intro emit_ok ok) (use al in auto)
  have g: "grows st ?st1" by (simp add: grows_def)
  show ?thesis
  proof (cases "authorize (sc_events ?st1) nd (resolveRefs (in_args nd) (sc_completed ?st1))")
    case None
    then show ?thesis using ok1 g sp i
      by (auto simp: launch_read_def Let_def spec_ids_def dom_update grows_def)
  next
    case (Some r)
    have f: "sched_ok nodes {} (finish_node (in_id nd) r ?st1) \<and> extends ?st1 (finish_node (in_id nd) r ?st1) \<and>
        in_id nd \<in> completed (finish_node (in_id nd) r ?st1)" by (rule finish_ok [OF ok1 i])
    then have "spec_ids (finish_node (in_id nd) r ?st1) = spec_ids st" by (simp add: extends_def spec_ids_def)
    then show ?thesis using Some f g sp extends_grows grows_trans by (auto simp: launch_read_def Let_def)
  qed
qed

lemma launches_ok:
  "sched_ok nodes {} st \<Longrightarrow> set xs \<subseteq> set nodes \<Longrightarrow> \<forall>nd \<in> set xs. start_allowed nodes (in_id nd) (sc_events st) \<Longrightarrow>
   spec_ids st \<subseteq> ids nodes \<Longrightarrow>
     sched_ok nodes {} (foldl (launch_read call authorize) st xs) \<and> grows st (foldl (launch_read call authorize) st xs) \<and>
     spec_ids st \<subseteq> spec_ids (foldl (launch_read call authorize) st xs) \<and>
     spec_ids (foldl (launch_read call authorize) st xs) \<subseteq> ids nodes \<and>
     in_id ` set xs \<subseteq> completed (foldl (launch_read call authorize) st xs) \<union>
                       spec_ids (foldl (launch_read call authorize) st xs)"
proof (induction xs arbitrary: st)
  case (Cons nd xs)
  let ?st = "launch_read call authorize st nd"
  have s: "sched_ok nodes {} ?st \<and> grows st ?st \<and> spec_ids st \<subseteq> spec_ids ?st \<and> spec_ids ?st \<subseteq> ids nodes \<and>
      in_id nd \<in> completed ?st \<union> spec_ids ?st"
    by (rule launch_ok) (use Cons.prems in auto)
  have r: "sched_ok nodes {} (foldl (launch_read call authorize) ?st xs) \<and>
      grows ?st (foldl (launch_read call authorize) ?st xs) \<and>
      spec_ids ?st \<subseteq> spec_ids (foldl (launch_read call authorize) ?st xs) \<and>
      spec_ids (foldl (launch_read call authorize) ?st xs) \<subseteq> ids nodes \<and>
      in_id ` set xs \<subseteq> completed (foldl (launch_read call authorize) ?st xs) \<union>
                       spec_ids (foldl (launch_read call authorize) ?st xs)"
    by (rule Cons.IH) (use s Cons.prems grows_allowed in auto)
  have "in_id nd \<in> completed (foldl (launch_read call authorize) ?st xs) \<union>
                   spec_ids (foldl (launch_read call authorize) ?st xs)"
    using s r by (auto simp: grows_def)
  moreover have "grows st (foldl (launch_read call authorize) ?st xs)" using s r grows_trans by blast
  ultimately show ?case using s r by (simp only: foldl.simps list.set image_insert insert_subset) blast
qed simp

lemma fail_ok:
  assumes "sched_ok nodes {} st" "i \<in> ids nodes"
  shows "sched_ok nodes {} (emit (NodeError i e) (cascadeNodeFailure (length nodes + 1) nodes err i st)) \<and>
         extends st (emit (NodeError i e) (cascadeNodeFailure (length nodes + 1) nodes err i st)) \<and>
         i \<in> completed (emit (NodeError i e) (cascadeNodeFailure (length nodes + 1) nodes err i st))"
proof -
  have "card (open_ids nodes st - {i}) \<le> card (ids nodes)"
    by (rule card_mono) (auto simp: ids_def open_ids_def)
  also have "\<dots> \<le> length nodes" unfolding ids_def by (metis card_length length_map set_map)
  finally show ?thesis using cascade_ok [OF assms, of "length nodes + 1" e err] by simp
qed

lemma settle_write_ok:
  "sched_ok nodes {} st \<Longrightarrow> fst e \<in> ids nodes \<Longrightarrow>
     sched_ok nodes {} (settle_write nodes st e) \<and> extends st (settle_write nodes st e) \<and>
     fst e \<in> completed (settle_write nodes st e)"
  using finish_ok fail_ok by (simp add: settle_write_def split: settled.splits)

lemma settle_speculative_ok:
  assumes ok: "sched_ok nodes {} st" and i: "fst e \<in> ids nodes"
  shows "sched_ok nodes {} (settle_speculative nodes st e) \<and> grows st (settle_speculative nodes st e) \<and>
         fst e \<in> completed (settle_speculative nodes st e) \<and>
         sc_speculative (settle_speculative nodes st e) = AList.delete (fst e) (sc_speculative st)"
proof -
  let ?st = "st\<lparr>sc_speculative := AList.delete (fst e) (sc_speculative st)\<rparr>"
  have ok1: "sched_ok nodes {} ?st" using ok by simp
  have g: "grows st ?st" by (simp add: grows_def)
  show ?thesis
  proof (cases "snd e")
    case (Fulfilled v)
    then show ?thesis
      using finish_ok [OF ok1 i, of v] ok1 g grows_trans [OF g extends_grows]
      by (auto simp: settle_speculative_def Let_def is_completed_iff extends_def)
  next
    case (Rejection ab r)
    then show ?thesis
      using fail_ok [OF ok1 i, of "if ab then JUndef else r" r] grows_trans [OF g extends_grows]
      by (auto simp: settle_speculative_def Let_def extends_def)
  qed
qed

lemma settles_ok:
  "sched_ok nodes {} st \<Longrightarrow> fst ` set es \<subseteq> ids nodes \<Longrightarrow>
     sched_ok nodes {} (foldl (settle_speculative nodes) st es) \<and> grows st (foldl (settle_speculative nodes) st es) \<and>
     fst ` set es \<subseteq> completed (foldl (settle_speculative nodes) st es) \<and>
     sc_speculative (foldl (settle_speculative nodes) st es) =
       filter (\<lambda>kv. fst kv \<notin> fst ` set es) (sc_speculative st)"
proof (induction es arbitrary: st)
  case (Cons e es)
  have s: "sched_ok nodes {} (settle_speculative nodes st e) \<and> grows st (settle_speculative nodes st e) \<and>
         fst e \<in> completed (settle_speculative nodes st e) \<and>
         sc_speculative (settle_speculative nodes st e) = AList.delete (fst e) (sc_speculative st)"
    by (rule settle_speculative_ok) (use Cons.prems in auto)
  have r: "sched_ok nodes {} (foldl (settle_speculative nodes) (settle_speculative nodes st e) es) \<and>
     grows (settle_speculative nodes st e) (foldl (settle_speculative nodes) (settle_speculative nodes st e) es) \<and>
     fst ` set es \<subseteq> completed (foldl (settle_speculative nodes) (settle_speculative nodes st e) es) \<and>
     sc_speculative (foldl (settle_speculative nodes) (settle_speculative nodes st e) es) =
       filter (\<lambda>kv. fst kv \<notin> fst ` set es) (sc_speculative (settle_speculative nodes st e))"
    by (rule Cons.IH) (use s Cons.prems in auto)
  have "filter (\<lambda>kv. fst kv \<notin> fst ` set es) (AList.delete (fst e) (sc_speculative st)) =
      filter (\<lambda>kv. fst kv \<notin> fst ` set (e # es)) (sc_speculative st)"
    unfolding AList.delete_eq filter_filter by (rule filter_cong) auto
  then have "sc_speculative (foldl (settle_speculative nodes) st (e # es)) =
      filter (\<lambda>kv. fst kv \<notin> fst ` set (e # es)) (sc_speculative st)" using s r by simp
  moreover have "grows st (foldl (settle_speculative nodes) st (e # es))" using s r grows_trans by (simp only: foldl.simps) blast
  moreover have "fst ` set (e # es) \<subseteq> completed (foldl (settle_speculative nodes) st (e # es))"
    using s r by (auto simp: grows_def)
  ultimately show ?case using r by simp
qed simp

lemma spec_drain_ok:
  assumes "sched_ok nodes {} st" "spec_ids st \<subseteq> ids nodes"
  shows "sched_ok nodes {} (drain_speculative nodes st) \<and> grows st (drain_speculative nodes st) \<and>
         spec_ids st \<subseteq> completed (drain_speculative nodes st) \<and> sc_speculative (drain_speculative nodes st) = []"
  using settles_ok [OF assms(1), of "sc_speculative st"] assms(2)
  by (auto simp: drain_speculative_def spec_ids_def filter_empty_conv)

lemma start_writes_ok:
  "sched_ok nodes {} st \<Longrightarrow> set xs \<subseteq> set nodes \<Longrightarrow> \<forall>nd \<in> set xs. start_allowed nodes (in_id nd) (sc_events st) \<Longrightarrow>
   foldl (start_write call authorize) (st, ov, di) xs = (st', ov', di') \<Longrightarrow>
     sched_ok nodes {} st' \<and> extends st st' \<and>
     fst ` set ov' \<union> fst ` set di' = fst ` set ov \<union> fst ` set di \<union> in_id ` set xs"
proof (induction xs arbitrary: st ov di)
  case (Cons nd xs)
  let ?st = "emit (NodeStart (in_id nd)) st"
  have ok1: "sched_ok nodes {} ?st" by (rule emit_ok [OF Cons.prems(1)]) (use Cons.prems in auto)
  have e: "extends st ?st" by (simp add: extends_def)
  have al: "\<forall>md \<in> set xs. start_allowed nodes (in_id md) (sc_events ?st)"
    using Cons.prems(3) start_allowed_mono by simp
  obtain st1 ov1 di1 where s: "start_write call authorize (st, ov, di) nd = (st1, ov1, di1)"
    and st1: "sched_ok nodes {} st1" "extends st st1" "sc_events st1 = sc_events ?st"
    and m: "fst ` set ov1 \<union> fst ` set di1 = insert (in_id nd) (fst ` set ov \<union> fst ` set di)"
    by (cases "authorize (sc_events ?st) nd (resolveRefs (in_args nd) (sc_completed ?st))") (use ok1 e in \<open>auto simp: start_write_def Let_def\<close>)
  have "sched_ok nodes {} st' \<and> extends st1 st' \<and>
     fst ` set ov' \<union> fst ` set di' = fst ` set ov1 \<union> fst ` set di1 \<union> in_id ` set xs"
    by (rule Cons.IH [OF st1(1)]) (use Cons.prems s al st1(3) in auto)
  then show ?case using m extends_trans [OF st1(2)] by auto
qed simp

lemma fold_ok:
  assumes step: "\<And>s e. sched_ok nodes {} s \<Longrightarrow> e \<in> set es \<Longrightarrow>
      sched_ok nodes {} (f s e) \<and> extends s (f s e) \<and> g e \<in> completed (f s e)"
  shows "sched_ok nodes {} st \<Longrightarrow>
      sched_ok nodes {} (foldl f st es) \<and> extends st (foldl f st es) \<and> g ` set es \<subseteq> completed (foldl f st es)"
  using step
proof (induction es arbitrary: st)
  case (Cons e es)
  have s: "sched_ok nodes {} (f st e) \<and> extends st (f st e) \<and> g e \<in> completed (f st e)"
    by (rule Cons.prems(2) [OF Cons.prems(1)]) simp
  have r: "sched_ok nodes {} (foldl f (f st e) es) \<and> extends (f st e) (foldl f (f st e) es) \<and>
      g ` set es \<subseteq> completed (foldl f (f st e) es)"
    by (rule Cons.IH [OF conjunct1 [OF s]]) (rule Cons.prems(2), assumption, simp)
  have "extends st (foldl f (f st e) es)" using s r extends_trans by blast
  moreover have "g e \<in> completed (foldl f (f st e) es)" using s r unfolding extends_def by blast
  ultimately show ?case using r by simp
qed simp

lemma finishes_ok:
  "sched_ok nodes {} st \<Longrightarrow> fst ` set es \<subseteq> ids nodes \<Longrightarrow>
     sched_ok nodes {} (foldl (\<lambda>st e. finish_node (fst e) (snd e) st) st es) \<and>
     extends st (foldl (\<lambda>st e. finish_node (fst e) (snd e) st) st es) \<and>
     fst ` set es \<subseteq> completed (foldl (\<lambda>st e. finish_node (fst e) (snd e) st) st es)"
  by (rule fold_ok) (auto intro!: finish_ok [THEN conjunct1] finish_ok [THEN conjunct2, THEN conjunct1]
      finish_ok [THEN conjunct2, THEN conjunct2])

lemma write_settles_ok:
  assumes "sched_ok nodes {} st" "fst ` set es \<subseteq> ids nodes"
  shows "sched_ok nodes {} (foldl (settle_write nodes) st es) \<and> extends st (foldl (settle_write nodes) st es) \<and>
     fst ` set es \<subseteq> completed (foldl (settle_write nodes) st es)"
proof (rule fold_ok [OF _ assms(1)])
  fix s and e :: "string \<times> settled"
  assume "sched_ok nodes {} s" "e \<in> set es"
  then show "sched_ok nodes {} (settle_write nodes s e) \<and> extends s (settle_write nodes s e) \<and>
      fst e \<in> completed (settle_write nodes s e)"
    using assms(2) by (intro settle_write_ok) auto
qed

lemma run_writes_ok:
  assumes ok: "sched_ok nodes {} st" and xs: "set xs \<subseteq> set nodes"
    and al: "\<forall>nd \<in> set xs. start_allowed nodes (in_id nd) (sc_events st)"
  shows "sched_ok nodes {} (run_writes nodes call authorize xs st) \<and>
         extends st (run_writes nodes call authorize xs st) \<and>
         in_id ` set xs \<subseteq> completed (run_writes nodes call authorize xs st)"
proof -
  obtain st1 ov di where f: "foldl (start_write call authorize) (st, [], []) xs = (st1, ov, di)" by (metis prod_cases3)
  have s: "sched_ok nodes {} st1 \<and> extends st st1 \<and> fst ` set ov \<union> fst ` set di = in_id ` set xs"
    using start_writes_ok [OF ok xs al f] by simp
  have sub: "fst ` set ov \<subseteq> ids nodes" "fst ` set di \<subseteq> ids nodes" using s xs unfolding ids_def by (metis image_mono le_sup_iff order_trans order_refl)+
  let ?st2 = "foldl (\<lambda>st e. finish_node (fst e) (snd e) st) st1 ov"
  have 2: "sched_ok nodes {} ?st2 \<and> extends st1 ?st2 \<and> fst ` set ov \<subseteq> completed ?st2"
    using finishes_ok s sub by blast
  have 3: "sched_ok nodes {} (foldl (settle_write nodes) ?st2 di) \<and> extends ?st2 (foldl (settle_write nodes) ?st2 di) \<and>
      fst ` set di \<subseteq> completed (foldl (settle_write nodes) ?st2 di)"
    using write_settles_ok 2 sub by blast
  have "extends st (foldl (settle_write nodes) ?st2 di)"
    using extends_trans [OF extends_trans [of st st1 ?st2]] s 2 3 by simp
  moreover have "in_id ` set xs \<subseteq> completed (foldl (settle_write nodes) ?st2 di)"
  proof -
    have "completed ?st2 \<subseteq> completed (foldl (settle_write nodes) ?st2 di)" using 3 by (simp add: extends_def)
    then have "fst ` set ov \<union> fst ` set di \<subseteq> completed (foldl (settle_write nodes) ?st2 di)" using 2 3 by auto
    then show ?thesis using s by simp
  qed
  ultimately show ?thesis using 3 by (simp add: run_writes_def f)
qed

text \<open>
  At the head of the loop no speculative call is in flight, and a turn that does not stop settles at
  least one more node.
\<close>

lemma turn_ok:
  assumes ok: "sched_ok nodes {} st" and sp: "sc_speculative st = []" and t: "turn nodes call authorize st = Proceed st'"
  shows "sched_ok nodes {} st' \<and> sc_speculative st' = [] \<and> grows st st' \<and> completed st \<subset> completed st'"
proof -
  let ?rdy = "filter (ready st) nodes"
  let ?rd = "filter in_readOnly ?rdy" and ?wr = "filter (\<lambda>nd. \<not> in_readOnly nd) ?rdy"
  let ?st1 = "foldl (launch_read call authorize) st ?rd"
  have al: "start_allowed nodes (in_id nd) (sc_events st)" if "nd \<in> set ?rdy" for nd
    using ready_allowed [OF ok] that by simp
  have s0: "spec_ids st = {}" using sp by (simp add: spec_ids_def)
  have l: "sched_ok nodes {} ?st1 \<and> grows st ?st1 \<and> spec_ids st \<subseteq> spec_ids ?st1 \<and> spec_ids ?st1 \<subseteq> ids nodes \<and>
      in_id ` set ?rd \<subseteq> completed ?st1 \<union> spec_ids ?st1"
    by (rule launches_ok [OF ok]) (use al s0 in auto)
  have ne: "?rdy \<noteq> []" using t sp by (auto simp: turn_def Let_def)
  have nc: "in_id nd \<notin> completed st" if "nd \<in> set ?rdy" for nd using that by (simp add: ready_def is_completed_iff)
  have strict: "completed st \<subset> completed st'" if "grows st st'" "nd \<in> set ?rdy" "in_id nd \<in> completed st'" for nd
    using that nc by (auto simp: grows_def)
  have drain: "sched_ok nodes {} (drain_speculative nodes s) \<and> grows ?st1 (drain_speculative nodes s) \<and>
      spec_ids ?st1 \<subseteq> completed (drain_speculative nodes s) \<and> sc_speculative (drain_speculative nodes s) = []"
    if "s = ?st1 \<or> s = emit (NodeBarrierWait ws) ?st1" for s ws
  proof -
    have "sched_ok nodes {} s" using l that emit_ok [of nodes "{}" ?st1 "NodeBarrierWait ws"] by auto
    moreover have "spec_ids s = spec_ids ?st1" "grows ?st1 s" using that by (auto simp: spec_ids_def grows_def)
    ultimately show ?thesis using spec_drain_ok [of nodes s] l grows_trans by metis
  qed
  consider (barrier) "?wr \<noteq> []" "sc_speculative ?st1 \<noteq> []"
      "st' = drain_speculative nodes (emit (NodeBarrierWait (map fst (sc_speculative ?st1))) ?st1)"
    | (writes) "?wr \<noteq> []" "sc_speculative ?st1 = []" "st' = run_writes nodes call authorize ?wr ?st1"
    | (only_reads) "?wr = []" "st' = drain_speculative nodes ?st1"
    using t ne by (simp add: turn_def Let_def split: if_splits)
  then show ?thesis
  proof cases
    case barrier
    have d: "sched_ok nodes {} st' \<and> grows ?st1 st' \<and> spec_ids ?st1 \<subseteq> completed st' \<and> sc_speculative st' = []"
      unfolding barrier(3) by (rule drain) (rule disjI2, rule refl)
    have g: "grows st st'" using l d grows_trans by blast
    have "?rd \<noteq> []" using barrier(2) sp by auto
    then obtain nd where nd: "nd \<in> set ?rd" by (meson list.set_sel(1))
    then have "in_id nd \<in> completed st'" using l d unfolding grows_def by blast
    then show ?thesis using d g strict [OF g, of nd] nd by simp
  next
    case writes
    have gl: "grows st ?st1" using l by blast
    have al1: "\<forall>nd \<in> set ?wr. start_allowed nodes (in_id nd) (sc_events ?st1)"
      using grows_allowed [OF gl] al by simp
    have ok1: "sched_ok nodes {} ?st1" using l by blast
    have w: "sched_ok nodes {} st' \<and> extends ?st1 st' \<and> in_id ` set ?wr \<subseteq> completed st'"
      unfolding writes(3) by (rule run_writes_ok [OF ok1 _ al1]) auto
    have g: "grows st st'" using grows_trans [OF gl extends_grows [OF conjunct1 [OF conjunct2 [OF w]]]] .
    obtain nd where nd: "nd \<in> set ?wr" using writes(1) by (meson list.set_sel(1))
    then have "in_id nd \<in> completed st'" using w by blast
    then show ?thesis using w writes(2) g strict [OF g, of nd] nd by (simp add: extends_def)
  next
    case only_reads
    have d: "sched_ok nodes {} st' \<and> grows ?st1 st' \<and> spec_ids ?st1 \<subseteq> completed st' \<and> sc_speculative st' = []"
      unfolding only_reads(2) by (rule drain) (rule disjI1, rule refl)
    have g: "grows st st'" using l d grows_trans by blast
    have "set ?rdy = set ?rd" using only_reads(1) by (auto simp: filter_empty_conv)
    then obtain nd where nd: "nd \<in> set ?rd" using ne by (metis list.set_sel(1))
    then have "in_id nd \<in> completed st'" using l d unfolding grows_def by blast
    then show ?thesis using d g strict [OF g, of nd] nd by simp
  qed
qed

lemma completed_length: "sched_ok nodes P st \<Longrightarrow> length (sc_completed st) = card (completed st)"
  unfolding sched_ok_def completed_def by (metis distinct_card length_map set_map)

lemma loop_ok:
  "sched_ok nodes {} st \<Longrightarrow> sc_speculative st = [] \<Longrightarrow> length nodes - length (sc_completed st) < n \<Longrightarrow>
     (\<exists>st'. execute_loop n nodes call authorize st = Some (Finished st') \<and> sched_ok nodes {} st' \<and>
            length nodes \<le> length (sc_completed st')) \<or>
     (\<exists>st' pending. execute_loop n nodes call authorize st = Some (Deadlock pending st') \<and> sched_ok nodes {} st' \<and>
            length (sc_completed st') < length nodes \<and> filter (ready st') nodes = [] \<and> sc_speculative st' = [])"
proof (induction n arbitrary: st)
  case (Suc n)
  show ?case
  proof (cases "length (sc_completed st) < length nodes")
    case True
    show ?thesis
    proof (cases "turn nodes call authorize st")
      case (Deadlocked pending)
      then have "filter (ready st) nodes = []" by (auto simp: turn_def Let_def split: if_splits)
      then show ?thesis using True Deadlocked Suc.prems by auto
    next
      case (Proceed st')
      have t: "sched_ok nodes {} st' \<and> sc_speculative st' = [] \<and> grows st st' \<and> completed st \<subset> completed st'"
        by (rule turn_ok [OF Suc.prems(1,2) Proceed])
      have "finite (completed st')" by (simp add: completed_def)
      then have "length (sc_completed st) < length (sc_completed st')"
        using t completed_length [OF Suc.prems(1)] completed_length psubset_card_mono by metis
      then show ?thesis using Suc.IH [of st'] t True Proceed Suc.prems(3) by simp
    qed
  qed (use Suc.prems in auto)
qed simp

section \<open>Whole runs\<close>

lemma initial_ok: "sched_ok nodes {} (initial_state nodes)"
  by (simp add: sched_ok_def all_deps_def trace_ok_def) (simp add: initial_state_def completed_def)

lemma js_set_set [simp]: "set (js_set xs) = set xs"
proof -
  have "set (foldl (\<lambda>s x. if x \<in> set s then s else s @ [x]) s xs) = set s \<union> set xs" for s
    by (induction xs arbitrary: s) auto
  then show ?thesis by (simp add: js_set_def)
qed

lemma all_deps_node:
  assumes "distinct (map in_id nodes)" "nd \<in> set nodes"
  shows "all_deps nodes (in_id nd) = set (deps_of nodes nd)"
  using fold_update_map [OF assms(1), of "deps_of nodes"] map_of_keyed [OF assms, of "deps_of nodes"]
  by (simp add: all_deps_def waiting_for_def initial_state_def)

lemma chain_writer_keeps:
  "map_of (snd st) i = Some ds \<Longrightarrow> \<exists>es. map_of (snd (chain_writer st nd)) i = Some (ds @ es)"
  by (auto simp: chain_writer_def map_of_map_entry split: option.splits)

lemma chain_writers_keep:
  "map_of (snd st) i = Some ds \<Longrightarrow> \<exists>es. map_of (snd (foldl chain_writer st nds)) i = Some (ds @ es)"
proof (induction nds arbitrary: st ds)
  case (Cons nd nds)
  then obtain es where "map_of (snd (chain_writer st nd)) i = Some (ds @ es)" using chain_writer_keeps by blast
  from Cons.IH [OF this] show ?case by auto
qed simp

lemma explicit_deps:
  assumes "distinct (map in_id nodes)" "nd \<in> set nodes"
  shows "set (in_dependsOn nd) \<subseteq> all_deps nodes (in_id nd)"
proof -
  let ?st = "([], foldl (\<lambda>m nd. AList.update (in_id nd) (in_dependsOn nd) m) [] nodes)"
  have "map_of (snd ?st) (in_id nd) = Some (in_dependsOn nd)"
    using fold_update_map [OF assms(1), of in_dependsOn] map_of_keyed [OF assms, of in_dependsOn] by simp
  from chain_writers_keep [OF this, of nodes]
  obtain es where "map_of (augmentedDeps nodes) (in_id nd) = Some (in_dependsOn nd @ es)"
    unfolding augmentedDeps_def by blast
  then show ?thesis by (simp add: all_deps_node [OF assms] deps_of_def)
qed

lemma execute_cases:
  obtains (fin) st where "execute nodes call authorize = Some (Finished st)" "sched_ok nodes {} st"
      "length nodes \<le> length (sc_completed st)"
  | (dead) st pending where "execute nodes call authorize = Some (Deadlock pending st)" "sched_ok nodes {} st"
      "length (sc_completed st) < length nodes" "filter (ready st) nodes = []" "sc_speculative st = []"
proof -
  have "sc_speculative (initial_state nodes) = []" "sc_completed (initial_state nodes) = []"
    by (simp_all add: initial_state_def)
  then show thesis
    using loop_ok [OF initial_ok, of nodes "length nodes + 1" call authorize] that
    unfolding execute_def by (auto simp del: execute_loop.simps)
qed

text \<open>The order every node has to respect: explicit dependencies and the chain of writers.\<close>

definition node_order :: "ir_node list \<Rightarrow> (string \<times> string) set" where
  "node_order nodes = {(i, d). i \<in> ids nodes \<and> d \<in> all_deps nodes i}"

lemma acyclic_no_deadlock:
  assumes dist: "distinct (map in_id nodes)" and ac: "acyclic (node_order nodes)" and cl: "snd ` node_order nodes \<subseteq> ids nodes"
    and ok: "sched_ok nodes {} st" and ln: "length (sc_completed st) < length nodes" and sp: "sc_speculative st = []"
  shows "filter (ready st) nodes \<noteq> []"
proof -
  let ?U = "ids nodes - completed st"
  have fin: "finite (ids nodes)" by (simp add: ids_def)
  have "node_order nodes \<subseteq> ids nodes \<times> ids nodes" using cl by (force simp: node_order_def)
  then have finR: "finite (node_order nodes)" using fin by (meson finite_SigmaI finite_subset)
  have "card (ids nodes) = length nodes" using dist unfolding ids_def by (metis distinct_card length_map set_map)
  then have "card (completed st) < card (ids nodes)" using ln completed_length [OF ok] by simp
  then have "\<not> ids nodes \<subseteq> completed st" using card_mono [of "completed st" "ids nodes"] by (auto simp: completed_def)
  then have ne: "?U \<noteq> {}" by blast
  have "wf ((node_order nodes)\<inverse>)" by (rule finite_acyclic_wf_converse [OF finR ac])
  then obtain z where z: "z \<in> ?U" "\<forall>y. (y, z) \<in> (node_order nodes)\<inverse> \<longrightarrow> y \<notin> ?U"
    using ne unfolding wf_eq_minimal by (meson ex_in_conv)
  have "all_deps nodes z \<subseteq> completed st"
  proof
    fix d assume d: "d \<in> all_deps nodes z"
    then have o: "(z, d) \<in> node_order nodes" using z by (simp add: node_order_def)
    then have "d \<in> ids nodes" using cl by force
    then show "d \<in> completed st" using z(2) o by auto
  qed
  then have w: "waiting_for st z = {}" using ok unfolding sched_ok_def by blast
  obtain nd where nd: "nd \<in> set nodes" "in_id nd = z" using z by (auto simp: ids_def)
  have "ready st nd"
    using w z nd sp by (auto simp: ready_def waiting_for_def is_completed_iff split: option.splits)
  then show ?thesis using nd by (auto simp: filter_empty_conv)
qed

section \<open>The calls\<close>

text \<open>
  Every call was authorised on the events up to it, and its arguments are those of its node with
  references replaced by results that had been reported.
\<close>

definition call_ok :: "ir_node list \<Rightarrow> authorization \<Rightarrow> sched_event list \<Rightarrow> string \<times> json \<Rightarrow> bool" where
  "call_ok nodes authorize es c =
     (\<exists>xs ys nd env. es = xs @ ys \<and> nd \<in> set nodes \<and> in_id nd = fst c \<and> NodeStart (fst c) \<in> set xs \<and>
        authorize xs nd (snd c) = None \<and> snd c = resolveRefs (in_args nd) env \<and>
        (\<forall>d v. map_of env d = Some v \<longrightarrow> NodeDone d v \<in> set xs \<or> v = JUndef))"

definition calls_ok :: "ir_node list \<Rightarrow> authorization \<Rightarrow> sched \<Rightarrow> bool" where
  "calls_ok nodes authorize st =
     ((\<forall>c \<in> set (sc_calls st). call_ok nodes authorize (sc_events st) c) \<and>
      (\<forall>d v. map_of (sc_completed st) d = Some v \<longrightarrow> NodeDone d v \<in> set (sc_events st) \<or> v = JUndef))"

lemma sched_call_mono: "call_ok nodes authorize es c \<Longrightarrow> call_ok nodes authorize (es @ es') c"
  unfolding call_ok_def by (metis append.assoc)

lemma calls_simps [simp]:
  "sc_calls (emit e st) = sc_calls st" "sc_calls (unblockDependents i st) = sc_calls st"
  "sc_calls (set_completed i v st) = sc_calls st"
  by (simp_all add: emit_def unblockDependents_def set_completed_def)

lemma calls_emit: "calls_ok nodes authorize st \<Longrightarrow> calls_ok nodes authorize (emit e st)"
  by (auto simp: calls_ok_def intro: sched_call_mono)

lemma calls_fields:
  "calls_ok nodes authorize (st\<lparr>sc_speculative := sp\<rparr>) = calls_ok nodes authorize st"
  "calls_ok nodes authorize (unblockDependents i st) = calls_ok nodes authorize st"
  by (simp_all add: calls_ok_def)

lemma calls_undef: "calls_ok nodes authorize st \<Longrightarrow> calls_ok nodes authorize (set_completed i JUndef st)"
  by (auto simp: calls_ok_def update_conv)

lemma calls_finish: "calls_ok nodes authorize st \<Longrightarrow> calls_ok nodes authorize (finish_node i v st)"
  by (auto simp: finish_node_def calls_fields) (auto simp: calls_ok_def update_conv intro: sched_call_mono)

lemma calls_fold:
  "(\<And>s e. calls_ok nodes authorize s \<Longrightarrow> calls_ok nodes authorize (f s e)) \<Longrightarrow> calls_ok nodes authorize st \<Longrightarrow>
     calls_ok nodes authorize (foldl f st es)"
  by (induction es arbitrary: st) auto

lemma calls_cascade: "calls_ok nodes authorize st \<Longrightarrow> calls_ok nodes authorize (cascadeNodeFailure n ns err failed st)"
  by (induction n arbitrary: failed st)
    (auto simp: calls_fields intro!: calls_fold calls_undef calls_emit)

lemma calls_settle:
  "calls_ok nodes authorize st \<Longrightarrow> calls_ok nodes authorize (settle_speculative ns st e)"
  "calls_ok nodes authorize st \<Longrightarrow> calls_ok nodes authorize (settle_write ns st e)"
  by (auto simp: settle_speculative_def settle_write_def Let_def calls_fields simp del: cascadeNodeFailure.simps
      split: settled.splits intro!: calls_finish calls_cascade calls_emit)

lemma calls_note:
  assumes "calls_ok nodes authorize st" "nd \<in> set nodes" "NodeStart (in_id nd) \<in> set (sc_events st)"
    "authorize (sc_events st) nd (resolveRefs (in_args nd) (sc_completed st)) = None"
  shows "calls_ok nodes authorize (note_call (in_id nd) (resolveRefs (in_args nd) (sc_completed st)) st)"
proof -
  have "call_ok nodes authorize (sc_events st) (in_id nd, resolveRefs (in_args nd) (sc_completed st))"
    unfolding call_ok_def using assms
    by (intro exI [of _ "sc_events st"] exI [of _ "[]"] exI [of _ nd] exI [of _ "sc_completed st"]) (auto simp: calls_ok_def)
  then show ?thesis using assms(1) by (auto simp: calls_ok_def)
qed

lemma calls_launch:
  assumes "calls_ok nodes authorize st" "nd \<in> set nodes"
  shows "calls_ok nodes authorize (launch_read call authorize st nd)"
proof -
  let ?st1 = "emit (NodeSpeculative (in_id nd)) (emit (NodeStart (in_id nd)) st)"
  let ?st2 = "?st1\<lparr>sc_speculative := AList.update (in_id nd) (call nd (resolveRefs (in_args nd) (sc_completed st))) (sc_speculative st)\<rparr>"
  have 1: "calls_ok nodes authorize ?st1" by (intro calls_emit assms)
  have 2: "calls_ok nodes authorize ?st2" using 1 by (simp add: calls_fields)
  show ?thesis
    using calls_note [OF 2 assms(2)] calls_finish [OF 1]
    by (auto simp: launch_read_def Let_def split: option.splits)
qed

lemma calls_launches:
  "set xs \<subseteq> set nodes \<Longrightarrow> calls_ok nodes authorize st \<Longrightarrow> calls_ok nodes authorize (foldl (launch_read call authorize) st xs)"
  by (induction xs arbitrary: st) (auto intro: calls_launch)

lemma calls_start:
  assumes "calls_ok nodes authorize st" "nd \<in> set nodes"
  shows "calls_ok nodes authorize (fst (start_write call authorize (st, ov, di) nd))"
proof -
  have 1: "calls_ok nodes authorize (emit (NodeStart (in_id nd)) st)" by (intro calls_emit assms)
  show ?thesis using calls_note [OF 1 assms(2)] 1 by (auto simp: start_write_def Let_def split: option.splits)
qed

lemma calls_starts:
  "set xs \<subseteq> set nodes \<Longrightarrow> calls_ok nodes authorize (fst acc) \<Longrightarrow>
     calls_ok nodes authorize (fst (foldl (start_write call authorize) acc xs))"
proof (induction xs arbitrary: acc)
  case (Cons nd xs)
  have "calls_ok nodes authorize (fst (start_write call authorize acc nd))"
    using calls_start [of nodes authorize "fst acc" nd] Cons.prems by (cases acc) auto
  then show ?case using Cons by simp
qed simp

lemma calls_turn:
  assumes "calls_ok nodes authorize st" "turn nodes call authorize st = Proceed st'"
  shows "calls_ok nodes authorize st'"
proof -
  let ?st1 = "foldl (launch_read call authorize) st (filter in_readOnly (filter (ready st) nodes))"
  have 1: "calls_ok nodes authorize ?st1" by (rule calls_launches) (use assms in auto)
  have d: "calls_ok nodes authorize s \<Longrightarrow> calls_ok nodes authorize (drain_speculative nodes s)" for s
    unfolding drain_speculative_def by (rule calls_fold [OF calls_settle(1)])
  have w: "calls_ok nodes authorize (run_writes nodes call authorize xs ?st1)" if "set xs \<subseteq> set nodes" for xs
  proof -
    obtain s ov di where f: "foldl (start_write call authorize) (?st1, [], []) xs = (s, ov, di)" by (metis prod_cases3)
    have "calls_ok nodes authorize s" using calls_starts [OF that, of authorize "(?st1, [], [])" call] 1 f by simp
    then have "calls_ok nodes authorize (foldl (\<lambda>st e. finish_node (fst e) (snd e) st) s ov)"
      by (intro calls_fold calls_finish)
    then show ?thesis unfolding run_writes_def f Let_def prod.case by (rule calls_fold [OF calls_settle(2), rotated])
  qed
  show ?thesis
    using assms(2) d [OF 1] d [OF calls_emit [OF 1]] w [of "filter (\<lambda>nd. \<not> in_readOnly nd) (filter (ready st) nodes)"]
    by (auto simp: turn_def Let_def split: if_splits)
qed

lemma calls_loop:
  "calls_ok nodes authorize st \<Longrightarrow> execute_loop n nodes call authorize st = Some r \<Longrightarrow>
     (case r of Finished s \<Rightarrow> calls_ok nodes authorize s | Deadlock pending s \<Rightarrow> calls_ok nodes authorize s)"
  by (induction n arbitrary: st) (auto split: if_splits sched_turn.splits dest: calls_turn)

section \<open>Properties\<close>

text \<open>The state in which a run ends, whichever way it ends.\<close>

definition final_state :: "sched_result \<Rightarrow> sched" where
  "final_state r = (case r of Finished st \<Rightarrow> st | Deadlock pending st \<Rightarrow> st)"

text \<open>
  C14. The scheduler always stops, and it deadlocks only on a cycle. For every graph, tool behaviour
  and authorisation the run ends; when the ids are distinct, every dependency names a node, and the
  explicit dependencies together with the chain of writers have no cycle, it ends normally with every
  node done or failed.
\<close>
theorem scheduler_stops:
  "execute nodes call authorize \<noteq> None \<and>
   (distinct (map in_id nodes) \<and> acyclic (node_order nodes) \<and> snd ` node_order nodes \<subseteq> ids nodes \<longrightarrow>
      (\<exists>st. execute nodes call authorize = Some (Finished st) \<and> settled_in (sc_events st) \<supseteq> ids nodes))"
proof (cases rule: execute_cases [of nodes call authorize])
  case (fin st)
  have "settled_in (sc_events st) \<supseteq> ids nodes" if "distinct (map in_id nodes)"
  proof -
    have "card (ids nodes) = length nodes" using that unfolding ids_def by (metis distinct_card length_map set_map)
    then have "completed st = ids nodes"
      using fin(2,3) completed_length [OF fin(2)] unfolding sched_ok_def
      by (intro card_seteq) (auto simp: ids_def)
    then show ?thesis using fin(2) unfolding sched_ok_def by auto
  qed
  then show ?thesis using fin by blast
next
  case (dead st pending)
  then show ?thesis using acyclic_no_deadlock [of nodes st] by auto
qed

lemma start_after_deps:
  assumes "distinct (map in_id nodes)" and "execute nodes call authorize = Some r"
    and "sc_events (final_state r) = before @ NodeStart i # after" and "nd \<in> set nodes" and "in_id nd = i"
  shows "set (deps_of nodes nd) \<subseteq> settled_in before \<and> set (in_dependsOn nd) \<subseteq> succeeded_in before"
proof -
  have "sched_ok nodes {} (final_state r)"
    using assms(2) by (cases rule: execute_cases [of nodes call authorize]) (auto simp: final_state_def)
  then have "start_allowed nodes i before" using assms(3) unfolding sched_ok_def trace_ok_def by blast
  then obtain md where md: "all_deps nodes i \<subseteq> settled_in before" "md \<in> set nodes" "in_id md = i"
    "set (in_dependsOn md) \<inter> all_deps nodes i \<subseteq> succeeded_in before"
    by (auto simp: start_allowed_def)
  have "md = nd" using assms(1,4,5) md(2,3) by (metis distinct_map inj_on_eq_iff)
  then show ?thesis
    using md explicit_deps [OF assms(1,4)] all_deps_node [OF assms(1,4)] assms(5) by auto
qed

definition demo_node :: "string \<Rightarrow> string list \<Rightarrow> bool \<Rightarrow> string option \<Rightarrow> ir_node" where
  "demo_node i ds ro key =
     \<lparr>in_id = i, in_toolName = i, in_args = JNull, in_dependsOn = ds, in_readOnly = ro, in_idempotent = False,
      in_extraCapabilities = None, in_resourceKey = key\<rparr>"

definition demo_graph :: "ir_node list" where
  "demo_graph = [demo_node ''a'' [] True None, demo_node ''b'' [''a''] False None]"

definition all_succeed :: tool_call where
  "all_succeed nd v = Fulfilled JNull"

text \<open>
  Nodes start in order. In every run over nodes with distinct ids, when a node starts, all its
  dependencies, explicit or through a shared resource key, have been reported done or failed, and all
  its explicit dependencies have succeeded: no node whose dependency failed is ever started.
\<close>
theorem starts_in_order:
  assumes "distinct (map in_id nodes)" and "execute nodes call authorize = Some r"
    and "sc_events (final_state r) = before @ NodeStart i # after" and "nd \<in> set nodes" and "in_id nd = i"
  shows "set (deps_of nodes nd) \<subseteq> settled_in before \<and> set (in_dependsOn nd) \<subseteq> succeeded_in before"
  using start_after_deps [OF assms] .

lemma authorized_calls:
  assumes "distinct (map in_id nodes)" and "execute nodes call authorize = Some r"
    and "(i, args) \<in> set (sc_calls (final_state r))"
  shows "\<exists>before after nd env. sc_events (final_state r) = before @ after \<and> nd \<in> set nodes \<and> in_id nd = i \<and>
    set (in_dependsOn nd) \<subseteq> succeeded_in before \<and> authorize before nd args = None \<and>
    args = resolveRefs (in_args nd) env \<and> (\<forall>d v. map_of env d = Some v \<longrightarrow> NodeDone d v \<in> set before \<or> v = JUndef)"
proof -
  have "calls_ok nodes authorize (initial_state nodes)" by (simp add: calls_ok_def initial_state_def)
  from calls_loop [OF this assms(2) [unfolded execute_def]]
  have "calls_ok nodes authorize (final_state r)" by (auto simp: final_state_def split: sched_result.splits)
  then obtain xs ys nd env where x: "sc_events (final_state r) = xs @ ys" "nd \<in> set nodes" "in_id nd = i"
    "NodeStart i \<in> set xs" "authorize xs nd args = None" "args = resolveRefs (in_args nd) env"
    "\<forall>d v. map_of env d = Some v \<longrightarrow> NodeDone d v \<in> set xs \<or> v = JUndef"
    using assms(3) by (fastforce simp: calls_ok_def call_ok_def)
  obtain us vs where u: "xs = us @ NodeStart i # vs" using x(4) by (meson split_list)
  have "set (in_dependsOn nd) \<subseteq> succeeded_in us"
    using start_after_deps [OF assms(1,2) _ x(2,3), of us "vs @ ys"] x(1) u by simp
  then have "set (in_dependsOn nd) \<subseteq> succeeded_in xs" using u by (auto simp: succeeded_in_def)
  then show ?thesis using x by blast
qed

text \<open>
  Calls are judged late and on what they are given. In every run over nodes with distinct ids, a
  tool is called only for a node of the graph, after all its explicit dependencies were reported as
  done; its arguments are the node's with references replaced by results reported before (or by
  undefined for a failed node), and the authorisation, asked with these arguments and everything
  reported until then, let it pass.
\<close>
theorem calls_are_authorized:
  assumes "distinct (map in_id nodes)" and "execute nodes call authorize = Some r"
    and "(i, args) \<in> set (sc_calls (final_state r))"
  shows "\<exists>before after nd env. sc_events (final_state r) = before @ after \<and> nd \<in> set nodes \<and> in_id nd = i \<and>
    set (in_dependsOn nd) \<subseteq> succeeded_in before \<and> authorize before nd args = None \<and>
    args = resolveRefs (in_args nd) env \<and> (\<forall>d v. map_of env d = Some v \<longrightarrow> NodeDone d v \<in> set before \<or> v = JUndef)"
  by (rule authorized_calls [OF assms])

definition no_override :: authorization where
  "no_override es nd v = None"

lemma acyclic_singleton: "a \<noteq> b \<Longrightarrow> acyclic {(a, b)}"
  by (simp add: acyclic_insert wf_acyclic)

theorem scheduler_stops_witness:
  "(\<exists>st. execute demo_graph all_succeed no_override = Some (Finished st) \<and> {''a'', ''b''} \<subseteq> settled_in (sc_events st))"
proof -
  have i: "ids demo_graph = {''a'', ''b''}" by (simp add: ids_def demo_graph_def demo_node_def)
  have d: "all_deps demo_graph ''a'' = {}" "all_deps demo_graph ''b'' = {''a''}" by code_simp+
  have o: "node_order demo_graph = {(''b'', ''a'')}" by (auto simp: node_order_def i d)
  have "distinct (map in_id demo_graph) \<and> acyclic (node_order demo_graph) \<and> snd ` node_order demo_graph \<subseteq> ids demo_graph"
    unfolding o i using acyclic_singleton [of "''b''" "''a''"] by (simp add: demo_graph_def demo_node_def)
  then show ?thesis using scheduler_stops [of demo_graph all_succeed no_override] i by auto
qed

theorem starts_in_order_witness:
  "\<exists>st. execute demo_graph all_succeed no_override = Some (Finished st) \<and>
     sc_events st = [NodeStart ''a'', NodeSpeculative ''a'', NodeDone ''a'' JNull] @ NodeStart ''b'' # [NodeDone ''b'' JNull] \<and>
     {''a''} \<subseteq> succeeded_in [NodeStart ''a'', NodeSpeculative ''a'', NodeDone ''a'' JNull]"
proof -
  obtain st where e: "execute demo_graph all_succeed no_override = Some (Finished st)"
    "sc_events st = [NodeStart ''a'', NodeSpeculative ''a'', NodeDone ''a'' JNull] @ NodeStart ''b'' # [NodeDone ''b'' JNull]"
  proof -
    have "(case execute demo_graph all_succeed no_override of Some (Finished st) \<Rightarrow>
        sc_events st = [NodeStart ''a'', NodeSpeculative ''a'', NodeDone ''a'' JNull, NodeStart ''b'', NodeDone ''b'' JNull]
      | _ \<Rightarrow> False)" by code_simp
    then show thesis using that by (auto split: option.splits sched_result.splits)
  qed
  have d: "distinct (map in_id demo_graph)" "demo_node ''b'' [''a''] False None \<in> set demo_graph"
    "in_id (demo_node ''b'' [''a''] False None) = ''b''" by (simp_all add: demo_graph_def demo_node_def)
  have "sc_events (final_state (Finished st)) =
      [NodeStart ''a'', NodeSpeculative ''a'', NodeDone ''a'' JNull] @ NodeStart ''b'' # [NodeDone ''b'' JNull]"
    using e(2) by (simp add: final_state_def)
  from starts_in_order [OF d(1) e(1) this d(2,3)] show ?thesis using e by (auto simp: demo_node_def)
qed

text \<open>A reader and a writer that is given its result, and is let pass once the result was reported.\<close>

definition ref_graph :: "ir_node list" where
  "ref_graph = [demo_node ''a'' [] True None, (demo_node ''b'' [''a''] False None)\<lparr>in_args := JArr [JStr ''$a'']\<rparr>]"

definition answers_seven :: tool_call where
  "answers_seven nd v = Fulfilled (JNum 7)"

definition after_a :: authorization where
  "after_a es nd args =
     (if in_id nd = ''b'' \<and> (NodeDone ''a'' (JNum 7) \<notin> set es \<or> args \<noteq> JArr [JNum 7]) then Some JNull else None)"

theorem calls_are_authorized_witness:
  "\<exists>st before after nd env. execute ref_graph answers_seven after_a = Some (Finished st) \<and>
     (''b'', JArr [JNum 7]) \<in> set (sc_calls st) \<and> sc_events st = before @ after \<and> nd \<in> set ref_graph \<and> in_id nd = ''b'' \<and>
     set (in_dependsOn nd) \<subseteq> succeeded_in before \<and> after_a before nd (JArr [JNum 7]) = None \<and>
     JArr [JNum 7] = resolveRefs (in_args nd) env"
proof -
  have "(case execute ref_graph answers_seven after_a of
      Some (Finished st) \<Rightarrow> (''b'', JArr [JNum 7]) \<in> set (sc_calls st) | _ \<Rightarrow> False)" by code_simp
  then obtain st where e: "execute ref_graph answers_seven after_a = Some (Finished st)"
    "(''b'', JArr [JNum 7]) \<in> set (sc_calls st)" by (auto split: option.splits sched_result.splits)
  have d: "distinct (map in_id ref_graph)" by (simp add: ref_graph_def demo_node_def)
  have "(''b'', JArr [JNum 7]) \<in> set (sc_calls (final_state (Finished st)))" using e(2) by (simp add: final_state_def)
  from calls_are_authorized [OF d e(1) this] e show ?thesis by (auto simp: final_state_def)
qed

text \<open>
  Five writers: \<open>u\<close>, \<open>w\<close> and \<open>v\<close> share the resource key \<open>k\<close>, \<open>u\<close> waits for \<open>y\<close>, and \<open>w\<close> for \<open>x\<close>,
  which fails.
\<close>

definition racing_graph :: "ir_node list" where
  "racing_graph =
     [demo_node ''x'' [] False None, demo_node ''y'' [] False None, demo_node ''u'' [''y''] False (Some ''k''),
      demo_node ''w'' [''x''] False (Some ''k''), demo_node ''v'' [] False (Some ''k'')]"

definition x_fails :: tool_call where
  "x_fails nd v = (if in_id nd = ''x'' then Rejection False (JStr ''boom'') else Fulfilled JNull)"

text \<open>
  Writers that share a resource key are not always serialised: when the middle writer of a chain
  is failed by the cascade, its neighbours lose the edge that ordered them, and the two writers \<open>u\<close>
  and \<open>v\<close> of the key \<open>k\<close> are started in the same wave, the second before the first has ended.
\<close>
theorem failed_writer_breaks_chain:
  "\<exists>st pre post. execute racing_graph x_fails no_override = Some (Finished st) \<and>
     sc_events st = pre @ [NodeStart ''u'', NodeStart ''v''] @ post \<and> ''u'' \<notin> settled_in pre \<and>
     map writer_key (filter (\<lambda>nd. in_id nd \<in> {''u'', ''v''}) racing_graph) = [Some ''k'', Some ''k'']"
proof -
  let ?pre = "[NodeStart ''x'', NodeStart ''y'', NodeError ''w'' (JStr ''boom''), NodeError ''x'' (JStr ''boom''),
      NodeDone ''y'' JNull]"
  let ?post = "[NodeDone ''u'' JNull, NodeDone ''v'' JNull]"
  have run: "(case execute racing_graph x_fails no_override of Some (Finished st) \<Rightarrow>
      sc_events st = ?pre @ [NodeStart ''u'', NodeStart ''v''] @ ?post
    | _ \<Rightarrow> False)" by code_simp
  obtain st where st: "execute racing_graph x_fails no_override = Some (Finished st)"
    "sc_events st = ?pre @ [NodeStart ''u'', NodeStart ''v''] @ ?post"
  proof (cases "execute racing_graph x_fails no_override")
    case (Some r)
    then show thesis using run that by (cases r) simp_all
  qed (use run in simp)
  have "map writer_key (filter (\<lambda>nd. in_id nd \<in> {''u'', ''v''}) racing_graph) = [Some ''k'', Some ''k'']"
    by code_simp
  moreover have "''u'' \<notin> settled_in ?pre" by (simp add: settled_in_def)
  ultimately show ?thesis
    by (intro exI [of _ st] exI [of _ ?pre] exI [of _ ?post] conjI st)
qed

text \<open>
  A shared resource key can deadlock an acyclic graph: the chain follows the order of the array, so
  a writer that is listed first and explicitly depends on a later writer of the same key closes a
  cycle, and the scheduler throws before it starts anything.
\<close>
theorem resource_key_deadlock:
  "let nodes = [demo_node ''p'' [''q''] False (Some ''k''), demo_node ''q'' [] False (Some ''k'')]
   in acyclic {(in_id nd, d) | nd d. nd \<in> set nodes \<and> d \<in> set (in_dependsOn nd)} \<and>
      (case execute nodes all_succeed no_override of
         Some (Deadlock pending st) \<Rightarrow> pending = [''p'', ''q''] \<and> sc_events st = []
       | _ \<Rightarrow> False)"
proof -
  let ?nodes = "[demo_node ''p'' [''q''] False (Some ''k''), demo_node ''q'' [] False (Some ''k'')]"
  have "{(in_id nd, d) | nd d. nd \<in> set ?nodes \<and> d \<in> set (in_dependsOn nd)} \<subseteq> {(''p'', ''q'')}"
    by (auto simp: demo_node_def)
  then have "acyclic {(in_id nd, d) | nd d. nd \<in> set ?nodes \<and> d \<in> set (in_dependsOn nd)}"
    by (rule acyclic_subset [OF acyclic_singleton, rotated]) simp
  moreover have "(case execute ?nodes all_succeed no_override of
         Some (Deadlock pending st) \<Rightarrow> pending = [''p'', ''q''] \<and> sc_events st = []
       | _ \<Rightarrow> False)" by code_simp
  ultimately show ?thesis by (simp only: Let_def)
qed

end
