(* ===== verification/Workflow_Store.thy ===== *)
theory Workflow_Store
  imports Kv_Backend "HOL-Library.List_Lexorder" "HOL-Library.Char_ord"
begin

text \<open>
  The workflow state store \<open>KvWorkflowStateStore\<close> (packages/core/src/workflow/store.ts) over a
  key-value backend, with the records of packages/core/src/workflow/types.ts.

  A stored text \<open>JSON.stringify(r)\<close> is represented by the record \<open>r\<close> itself, tagged with its kind; a
  load that casts what it parsed is the projection to that kind, so a key that holds a record of
  another kind loads as absent. Run ids without a colon keep the key families apart.
\<close>

section \<open>Records (types.ts)\<close>

datatype step_status = StepPending | StepRunning | StepCompleted | StepFailed | StepSleeping | StepWaiting

datatype run_status = Queued | RunRunning | RunCompleted | RunFailed | RunCancelled | Paused

datatype backoff = ConstantBackoff | LinearBackoff | ExponentialBackoff

record retry_policy =
  rp_limit :: int
  rp_delayMs :: "int option"
  rp_backoff :: "backoff option"

record wf_step =
  ws_id :: string
  ws_toolName :: string
  ws_args :: json
  ws_dependsOn :: "string list"
  ws_idempotent :: "bool option"
  ws_resourceClaims :: "(string \<times> int option) list option"
  ws_retries :: "retry_policy option"
  ws_timeoutMs :: "int option"

record workflow_def =
  wd_id :: string
  wd_steps :: "wf_step list"

record step_record =
  sr_stepId :: string
  sr_status :: step_status
  sr_result :: json
  sr_error :: "string option"
  sr_attempts :: int
  sr_startedAt :: "int option"
  sr_completedAt :: "int option"
  sr_wakeAt :: "int option"
  sr_awaitingEventType :: "string option"

record run_record =
  rr_runId :: string
  rr_workflowId :: string
  rr_status :: run_status
  rr_params :: json
  rr_output :: json
  rr_error :: "string option"
  rr_createdAt :: int
  rr_startedAt :: "int option"
  rr_completedAt :: "int option"

record envelope =
  en_runId :: string
  en_type :: string
  en_payload :: json
  en_receivedAt :: int

datatype wf_value =
    StoredRun run_record
  | StoredDef workflow_def
  | StoredStep step_record
  | StoredEvent envelope

fun as_run :: "wf_value \<Rightarrow> run_record option" where
  "as_run (StoredRun r) = Some r"
| "as_run v = None"

fun as_def :: "wf_value \<Rightarrow> workflow_def option" where
  "as_def (StoredDef d) = Some d"
| "as_def v = None"

fun as_step :: "wf_value \<Rightarrow> step_record option" where
  "as_step (StoredStep r) = Some r"
| "as_step v = None"

fun as_event :: "wf_value \<Rightarrow> envelope option" where
  "as_event (StoredEvent e) = Some e"
| "as_event v = None"

section \<open>Keys\<close>

definition runKey :: "string \<Rightarrow> string" where
  "runKey runId = ''wf:'' @ runId"

definition defKey :: "string \<Rightarrow> string" where
  "defKey runId = ''wf:'' @ runId @ '':def''"

definition stepKey :: "string \<Rightarrow> string \<Rightarrow> string" where
  "stepKey runId stepId = ''wf:'' @ runId @ '':step:'' @ stepId"

definition stepPrefix :: "string \<Rightarrow> string" where
  "stepPrefix runId = ''wf:'' @ runId @ '':step:''"

definition eventPrefix :: "string \<Rightarrow> string" where
  "eventPrefix runId = ''wf:'' @ runId @ '':event:''"

text \<open>\<open>String(seq).padStart(12, "0")\<close>.\<close>

definition padStart :: "nat \<Rightarrow> string \<Rightarrow> string" where
  "padStart n s = replicate (n - length s) (CHR ''0'') @ s"

definition eventKey :: "string \<Rightarrow> nat \<Rightarrow> string" where
  "eventKey runId seq = eventPrefix runId @ padStart 12 (nat_str seq)"

section \<open>The store\<close>

record wf_store =
  wf_kv :: "wf_value kv"
  wf_eventCounter :: "(string \<times> nat) list"

text \<open>The constructor: a fresh store over a backend, with no event counted yet.\<close>

definition open_store :: "wf_value kv \<Rightarrow> wf_store" where
  "open_store kv = \<lparr>wf_kv = kv, wf_eventCounter = []\<rparr>"

definition put_value :: "string \<Rightarrow> wf_value \<Rightarrow> wf_store \<Rightarrow> wf_store" where
  "put_value k v s = s\<lparr>wf_kv := kv_put k v (wf_kv s)\<rparr>"

definition saveRun :: "run_record \<Rightarrow> wf_store \<Rightarrow> wf_store" where
  "saveRun r = put_value (runKey (rr_runId r)) (StoredRun r)"

definition loadRun :: "wf_store \<Rightarrow> string \<Rightarrow> run_record option" where
  "loadRun s runId = Option.bind (kv_get (wf_kv s) (runKey runId)) as_run"

definition listRuns :: "wf_store \<Rightarrow> run_status option \<Rightarrow> run_record list" where
  "listRuns s status =
     filter (\<lambda>r. case status of None \<Rightarrow> True | Some x \<Rightarrow> rr_status r = x)
       (List.map_filter (\<lambda>k. if length (split_on (CHR '':'') k) \<noteq> 2 then None
                             else Option.bind (kv_get (wf_kv s) k) as_run)
          (kv_list ''wf:'' (wf_kv s)))"

definition deleteRun :: "string \<Rightarrow> wf_store \<Rightarrow> wf_store" where
  "deleteRun runId s =
     s\<lparr>wf_kv := foldl (\<lambda>m k. kv_delete k m) (wf_kv s) (kv_list (''wf:'' @ runId) (wf_kv s)),
       wf_eventCounter := AList.delete runId (wf_eventCounter s)\<rparr>"

definition saveDefinition :: "string \<Rightarrow> workflow_def \<Rightarrow> wf_store \<Rightarrow> wf_store" where
  "saveDefinition runId d = put_value (defKey runId) (StoredDef d)"

definition loadDefinition :: "wf_store \<Rightarrow> string \<Rightarrow> workflow_def option" where
  "loadDefinition s runId = Option.bind (kv_get (wf_kv s) (defKey runId)) as_def"

definition saveStep :: "string \<Rightarrow> step_record \<Rightarrow> wf_store \<Rightarrow> wf_store" where
  "saveStep runId r = put_value (stepKey runId (sr_stepId r)) (StoredStep r)"

definition loadStep :: "wf_store \<Rightarrow> string \<Rightarrow> string \<Rightarrow> step_record option" where
  "loadStep s runId stepId = Option.bind (kv_get (wf_kv s) (stepKey runId stepId)) as_step"

definition listSteps :: "wf_store \<Rightarrow> string \<Rightarrow> step_record list" where
  "listSteps s runId =
     List.map_filter (\<lambda>k. Option.bind (kv_get (wf_kv s) k) as_step) (kv_list (stepPrefix runId) (wf_kv s))"

section \<open>Inbound events\<close>

definition event_seq :: "wf_store \<Rightarrow> string \<Rightarrow> nat" where
  "event_seq s runId = (case map_of (wf_eventCounter s) runId of None \<Rightarrow> 0 | Some n \<Rightarrow> n)"

definition appendEvent :: "envelope \<Rightarrow> wf_store \<Rightarrow> wf_store" where
  "appendEvent e s =
     (let seq = event_seq s (en_runId e) + 1
      in put_value (eventKey (en_runId e) seq) (StoredEvent e)
           (s\<lparr>wf_eventCounter := AList.update (en_runId e) seq (wf_eventCounter s)\<rparr>))"

text \<open>
  \<open>takeEvent\<close> is asynchronous: it gives way before it reads the listing, before it sees each key it
  asked for, and before it returns what it deleted. A \<open>take_state\<close> is such a point: the keys listed and
  not yet asked for, the envelope read with its key, or the answer.
\<close>

datatype take_state =
    TakeScan "string list"
  | TakeGot string "envelope option" "string list"
  | TakeDone "envelope option"

definition take_begin :: "wf_store \<Rightarrow> string \<Rightarrow> take_state" where
  "take_begin s runId = TakeScan (sort (kv_list (eventPrefix runId) (wf_kv s)))"

fun take_next :: "string list \<Rightarrow> wf_store \<Rightarrow> take_state" where
  "take_next [] s = TakeDone None"
| "take_next (k # ks) s = TakeGot k (Option.bind (kv_get (wf_kv s) k) as_event) ks"

fun take_step :: "string \<Rightarrow> take_state \<Rightarrow> wf_store \<Rightarrow> take_state \<times> wf_store" where
  "take_step ty (TakeScan ks) s = (take_next ks s, s)"
| "take_step ty (TakeGot k v ks) s =
     (case v of
        Some e \<Rightarrow>
          if en_type e = ty then (TakeDone (Some e), s\<lparr>wf_kv := kv_delete k (wf_kv s)\<rparr>)
          else (take_next ks s, s)
      | None \<Rightarrow> (take_next ks s, s))"
| "take_step ty (TakeDone r) s = (TakeDone r, s)"

text \<open>An undisturbed \<open>takeEvent\<close>: the steps of one call with nothing in between.\<close>

fun take_scan :: "string \<Rightarrow> string list \<Rightarrow> wf_store \<Rightarrow> envelope option \<times> wf_store" where
  "take_scan ty [] s = (None, s)"
| "take_scan ty (k # ks) s =
     (case Option.bind (kv_get (wf_kv s) k) as_event of
        Some e \<Rightarrow> if en_type e = ty then (Some e, s\<lparr>wf_kv := kv_delete k (wf_kv s)\<rparr>) else take_scan ty ks s
      | None \<Rightarrow> take_scan ty ks s)"

definition takeEvent :: "string \<Rightarrow> string \<Rightarrow> wf_store \<Rightarrow> envelope option \<times> wf_store" where
  "takeEvent runId ty s = take_scan ty (sort (kv_list (eventPrefix runId) (wf_kv s))) s"

section \<open>What the store promises\<close>

text \<open>
  A caller sees, for each run: its record, its definition, its step records, and the queue of events
  not yet taken. Every operation works on exactly that, with one exception: \<open>deleteRun\<close> clears every
  run whose id starts with the id it is given.
\<close>

record run_view =
  rv_run :: "run_record option"
  rv_def :: "workflow_def option"
  rv_steps :: "string \<Rightarrow> step_record option"
  rv_pending :: "envelope list"

datatype wf_op =
    SaveRun run_record
  | SaveDefinition string workflow_def
  | SaveStep string step_record
  | AppendEvent envelope
  | TakeEvent string string
  | DeleteRun string

fun wf_apply :: "wf_store \<Rightarrow> wf_op \<Rightarrow> wf_store" where
  "wf_apply s (SaveRun r) = saveRun r s"
| "wf_apply s (SaveDefinition runId d) = saveDefinition runId d s"
| "wf_apply s (SaveStep runId r) = saveStep runId r s"
| "wf_apply s (AppendEvent e) = appendEvent e s"
| "wf_apply s (TakeEvent runId ty) = snd (takeEvent runId ty s)"
| "wf_apply s (DeleteRun runId) = deleteRun runId s"

fun op_run :: "wf_op \<Rightarrow> string" where
  "op_run (SaveRun r) = rr_runId r"
| "op_run (SaveDefinition runId d) = runId"
| "op_run (SaveStep runId r) = runId"
| "op_run (AppendEvent e) = en_runId e"
| "op_run (TakeEvent runId ty) = runId"
| "op_run (DeleteRun runId) = runId"

fun drop_first :: "('a \<Rightarrow> bool) \<Rightarrow> 'a list \<Rightarrow> 'a list" where
  "drop_first P [] = []"
| "drop_first P (x # xs) = (if P x then xs else x # drop_first P xs)"

definition blank_view :: run_view where
  "blank_view = \<lparr>rv_run = None, rv_def = None, rv_steps = (\<lambda>i. None), rv_pending = []\<rparr>"

fun view_apply :: "(string \<Rightarrow> run_view) \<Rightarrow> wf_op \<Rightarrow> string \<Rightarrow> run_view" where
  "view_apply w (SaveRun r) = w(rr_runId r := (w (rr_runId r))\<lparr>rv_run := Some r\<rparr>)"
| "view_apply w (SaveDefinition x d) = w(x := (w x)\<lparr>rv_def := Some d\<rparr>)"
| "view_apply w (SaveStep x r) = w(x := (w x)\<lparr>rv_steps := (rv_steps (w x))(sr_stepId r := Some r)\<rparr>)"
| "view_apply w (AppendEvent e) = w(en_runId e := (w (en_runId e))\<lparr>rv_pending := rv_pending (w (en_runId e)) @ [e]\<rparr>)"
| "view_apply w (TakeEvent x ty) =
     w(x := (w x)\<lparr>rv_pending := drop_first (\<lambda>e. en_type e = ty) (rv_pending (w x))\<rparr>)"
| "view_apply w (DeleteRun x) = (\<lambda>y. if starts_with y x then blank_view else w y)"

definition event_keys :: "wf_store \<Rightarrow> string \<Rightarrow> string list" where
  "event_keys s runId = sort (kv_list (eventPrefix runId) (wf_kv s))"

definition event_at :: "wf_store \<Rightarrow> string \<Rightarrow> envelope option" where
  "event_at s k = Option.bind (kv_get (wf_kv s) k) as_event"

definition pending :: "wf_store \<Rightarrow> string \<Rightarrow> envelope list" where
  "pending s runId = List.map_filter (event_at s) (event_keys s runId)"

definition view_of :: "wf_store \<Rightarrow> string \<Rightarrow> run_view" where
  "view_of s runId =
     \<lparr>rv_run = loadRun s runId, rv_def = loadDefinition s runId, rv_steps = loadStep s runId,
      rv_pending = pending s runId\<rparr>"

section \<open>Keys of different runs and kinds differ\<close>

definition plain_id :: "string \<Rightarrow> bool" where
  "plain_id r = (CHR '':'' \<notin> set r)"

lemma plain_split: "plain_id r \<Longrightarrow> plain_id r' \<Longrightarrow> r @ CHR '':'' # x = r' @ CHR '':'' # y \<longleftrightarrow> r = r' \<and> x = y"
  unfolding plain_id_def by (rule colon_split)

lemma plain_no_split: "plain_id r \<Longrightarrow> r \<noteq> r' @ CHR '':'' # y" "plain_id r \<Longrightarrow> r' @ CHR '':'' # y \<noteq> r"
  by (auto simp: plain_id_def)

lemmas key_defs = runKey_def defKey_def stepKey_def eventKey_def eventPrefix_def stepPrefix_def

lemma keys_apart [simp]:
  assumes "plain_id r" "plain_id r'"
  shows "runKey r = runKey r' \<longleftrightarrow> r = r'" "defKey r = defKey r' \<longleftrightarrow> r = r'"
    "stepKey r i = stepKey r' j \<longleftrightarrow> r = r' \<and> i = j"
    "runKey r \<noteq> defKey r'" "runKey r \<noteq> stepKey r' j" "runKey r \<noteq> eventKey r' n"
    "defKey r \<noteq> runKey r'" "defKey r \<noteq> stepKey r' j" "defKey r \<noteq> eventKey r' n"
    "stepKey r i \<noteq> runKey r'" "stepKey r i \<noteq> defKey r'" "stepKey r i \<noteq> eventKey r' n"
    "eventKey r m \<noteq> runKey r'" "eventKey r m \<noteq> defKey r'" "eventKey r m \<noteq> stepKey r' j"
  using assms by (simp_all add: key_defs plain_split plain_no_split)

lemma starts_with_colon:
  "plain_id p \<Longrightarrow> starts_with (r @ CHR '':'' # x) p \<longleftrightarrow> starts_with r p"
proof (induction r p rule: starts_with.induct)
  case (2 p ps)
  then show ?case by (auto simp: plain_id_def)
qed (auto simp: plain_id_def)

lemma keys_prefixed [simp]:
  assumes "plain_id p"
  shows "starts_with (runKey r) (runKey p) \<longleftrightarrow> starts_with r p"
    "starts_with (defKey r) (runKey p) \<longleftrightarrow> starts_with r p"
    "starts_with (stepKey r i) (runKey p) \<longleftrightarrow> starts_with r p"
    "starts_with (eventKey r n) (runKey p) \<longleftrightarrow> starts_with r p"
  using starts_with_colon [OF assms] by (simp_all add: key_defs)

lemma event_prefixed [simp]:
  assumes "plain_id r" "plain_id r'"
  shows "starts_with (eventKey r n) (eventPrefix r') \<longleftrightarrow> r = r'" "\<not> starts_with (runKey r) (eventPrefix r')"
    "\<not> starts_with (defKey r) (eventPrefix r')" "\<not> starts_with (stepKey r i) (eventPrefix r')"
  using assms by (auto simp: key_defs plain_split plain_no_split starts_with_iff)

lemma step_prefixed [simp]:
  assumes "plain_id r" "plain_id r'"
  shows "starts_with (stepKey r i) (stepPrefix r') \<longleftrightarrow> r = r'" "\<not> starts_with (runKey r) (stepPrefix r')"
    "\<not> starts_with (defKey r) (stepPrefix r')" "\<not> starts_with (eventKey r n) (stepPrefix r')"
  using assms by (auto simp: key_defs plain_split plain_no_split starts_with_iff)

section \<open>Event keys are ordered by their number\<close>

definition seq_limit :: nat where
  "seq_limit = 10 ^ 12"

definition value_of :: "string \<Rightarrow> nat" where
  "value_of s = digits_value 10 s"

lemma value_of_append: "value_of (s @ [c]) = value_of s * 10 + the (hex_val c)"
  by (simp add: value_of_def digits_value_append)

lemma value_of_Cons: "value_of (c # s) = the (hex_val c) * 10 ^ length s + value_of s"
proof (induction s rule: rev_induct)
  case Nil
  then show ?case by (simp add: value_of_def digits_value_def)
next
  case (snoc d s)
  have "value_of ((c # s) @ [d]) = value_of (c # s) * 10 + the (hex_val d)" by (rule value_of_append)
  then show ?case using snoc value_of_append [of s d] by (simp add: algebra_simps)
qed

lemma digit_hex: "is_digit c \<Longrightarrow> the (hex_val c) = of_char c - 48 \<and> 48 \<le> (of_char c :: nat) \<and> of_char c \<le> (57 :: nat)"
  by (simp add: is_digit_def hex_val_def Let_def)

lemma value_of_bound: "list_all is_digit s \<Longrightarrow> value_of s < 10 ^ length s"
proof (induction s)
  case Nil
  then show ?case by (simp add: value_of_def digits_value_def)
next
  case (Cons c s)
  then have "the (hex_val c) \<le> 9" using digit_hex [of c] by auto
  then have "the (hex_val c) * 10 ^ length s \<le> 9 * 10 ^ length s" by (rule mult_le_mono1)
  moreover have "value_of s < 10 ^ length s" using Cons by simp
  ultimately have "the (hex_val c) * 10 ^ length s + value_of s < 10 * 10 ^ length s" by linarith
  then show ?case by (simp add: value_of_Cons)
qed

lemma digits_less:
  "length s = length t \<Longrightarrow> list_all is_digit s \<Longrightarrow> list_all is_digit t \<Longrightarrow> s < t \<longleftrightarrow> value_of s < value_of t"
proof (induction s t rule: list_induct2)
  case (Cons c s d t)
  have c: "the (hex_val c) = of_char c - 48" "48 \<le> (of_char c :: nat)" and d: "the (hex_val d) = of_char d - 48" "48 \<le> (of_char d :: nat)"
    using Cons.prems digit_hex by auto
  have b: "value_of s < 10 ^ length t" "value_of t < 10 ^ length t"
    using value_of_bound [of s] value_of_bound [of t] Cons by simp_all
  consider "c = d" | "(of_char c :: nat) < of_char d" | "(of_char d :: nat) < of_char c"
    by (metis of_char_eq_iff nat_neq_iff)
  then show ?case
  proof cases
    case 1
    then show ?thesis using Cons by (simp add: value_of_Cons)
  next
    case 2
    then have "the (hex_val c) + 1 \<le> the (hex_val d)" using c d by simp
    then have "(the (hex_val c) + 1) * 10 ^ length t \<le> the (hex_val d) * 10 ^ length t" by (rule mult_le_mono1)
    then show ?thesis using 2 b Cons.hyps by (simp add: value_of_Cons less_char_def)
  next
    case 3
    then have "the (hex_val d) + 1 \<le> the (hex_val c)" using c d by simp
    then have "(the (hex_val d) + 1) * 10 ^ length t \<le> the (hex_val c) * 10 ^ length t" by (rule mult_le_mono1)
    then show ?thesis using 3 b Cons.hyps by (auto simp: value_of_Cons less_char_def)
  qed
qed simp

lemma value_of_pad: "value_of (replicate n (CHR ''0'') @ s) = value_of s"
  by (induction n) (simp_all add: value_of_Cons hex_val_def)

lemma padded:
  assumes "n < seq_limit"
  shows "length (padStart 12 (nat_str n)) = 12" "list_all is_digit (padStart 12 (nat_str n))"
    "value_of (padStart 12 (nat_str n)) = n"
proof -
  have "length (nat_str n) \<le> 12" using num_str_length [of 10 n 12] assms by (simp add: seq_limit_def)
  then show "length (padStart 12 (nat_str n)) = 12" by (simp add: padStart_def)
  show "list_all is_digit (padStart 12 (nat_str n))"
    using num_str_digits by (auto simp: padStart_def list_all_iff is_digit_def Let_def)
  show "value_of (padStart 12 (nat_str n)) = n"
    using digits_value_num_str [of 10 n] by (simp add: padStart_def value_of_pad) (simp add: value_of_def)
qed

lemma append_less: "(p @ s < p @ t) = (s < (t :: string))"
  by (induction p) auto

lemma event_key_less: "m < seq_limit \<Longrightarrow> n < seq_limit \<Longrightarrow> eventKey r m < eventKey r n \<longleftrightarrow> m < n"
  using digits_less padded by (simp add: eventKey_def append_less)

lemma event_key_eq:
  "plain_id r \<Longrightarrow> plain_id r' \<Longrightarrow> m < seq_limit \<Longrightarrow> n < seq_limit \<Longrightarrow>
     eventKey r m = eventKey r' n \<longleftrightarrow> r = r' \<and> m = n"
  by (metis event_key_less event_prefixed(1) eventKey_def starts_with_append nat_neq_iff less_irrefl)

section \<open>The invariant of the store\<close>

text \<open>The kind of record each key may hold; \<open>counted\<close> says which event numbers a run has used.\<close>

inductive entry_ok :: "(string \<Rightarrow> nat) \<Rightarrow> string \<Rightarrow> wf_value \<Rightarrow> bool" for counted where
  run_entry: "plain_id r \<Longrightarrow> entry_ok counted (runKey r) (StoredRun x)"
| def_entry: "plain_id r \<Longrightarrow> entry_ok counted (defKey r) (StoredDef d)"
| step_entry: "plain_id r \<Longrightarrow> entry_ok counted (stepKey r (sr_stepId x)) (StoredStep x)"
| event_entry: "plain_id r \<Longrightarrow> n \<le> counted r \<Longrightarrow> entry_ok counted (eventKey r n) (StoredEvent e)"

definition store_ok :: "nat \<Rightarrow> wf_store \<Rightarrow> bool" where
  "store_ok b s \<longleftrightarrow>
     kv_ok (wf_kv s) \<and> (\<forall>r. event_seq s r \<le> b) \<and>
     (\<forall>k v. kv_get (wf_kv s) k = Some v \<longrightarrow> entry_ok (event_seq s) k v)"

text \<open>The part of the invariant that survives a restart, which forgets the counters.\<close>

definition kinds_ok :: "wf_store \<Rightarrow> bool" where
  "kinds_ok s \<longleftrightarrow> kv_ok (wf_kv s) \<and> (\<forall>k v. kv_get (wf_kv s) k = Some v \<longrightarrow> (\<exists>f. entry_ok f k v))"

lemma store_kinds: "store_ok b s \<Longrightarrow> kinds_ok s"
  by (auto simp: store_ok_def kinds_ok_def)

lemma entry_ok_mono: "entry_ok f k v \<Longrightarrow> (\<And>r. f r \<le> g r) \<Longrightarrow> entry_ok g k v"
  by (induction rule: entry_ok.induct) (auto intro: entry_ok.intros order_trans)

lemma event_entryE:
  assumes "store_ok b s" "plain_id r" "starts_with k (eventPrefix r)" "kv_get (wf_kv s) k = Some v"
  obtains n e where "k = eventKey r n" "n \<le> event_seq s r" "v = StoredEvent e"
proof -
  have "entry_ok (event_seq s) k v" using assms unfolding store_ok_def by blast
  then show thesis using that assms(2,3) by cases auto
qed

definition event_key_set :: "wf_store \<Rightarrow> string \<Rightarrow> string set" where
  "event_key_set s r = {k. starts_with k (eventPrefix r) \<and> kv_get (wf_kv s) k \<noteq> None}"

lemma event_keys_sorted: "store_ok b s \<Longrightarrow> event_keys s r = sorted_list_of_set (event_key_set s r)"
  unfolding event_keys_def event_key_set_def store_ok_def mem.listing_exact [symmetric]
  by (simp add: mem.listing_distinct sorted_list_of_set_sort_remdups distinct_remdups_id)

lemma map_filter_Cons:
  "List.map_filter f (x # xs) = (case f x of None \<Rightarrow> List.map_filter f xs | Some y \<Rightarrow> y # List.map_filter f xs)"
  by (simp split: option.split)

lemma map_filter_cong: "(\<And>x. x \<in> set xs \<Longrightarrow> f x = g x) \<Longrightarrow> List.map_filter f xs = List.map_filter g xs"
  by (induction xs) (simp_all add: List.map_filter_def)

lemma event_key_set_finite: "finite (event_key_set s r)"
  unfolding event_key_set_def mem.listing_exact [symmetric] by simp

lemma event_keys_set: "store_ok b s \<Longrightarrow> set (event_keys s r) = event_key_set s r"
  by (simp add: event_keys_sorted event_key_set_finite)

lemma event_keys_distinct: "store_ok b s \<Longrightarrow> distinct (event_keys s r)"
  by (simp add: event_keys_sorted)

lemma event_at_some: "store_ok b s \<Longrightarrow> plain_id r \<Longrightarrow> k \<in> event_key_set s r \<Longrightarrow> \<exists>e. event_at s k = Some e"
  by (auto simp: event_key_set_def event_at_def elim!: event_entryE)

text \<open>The queue of a run only depends on what its event keys hold.\<close>

lemma pending_cong:
  assumes "store_ok b s" "store_ok b' s'" "\<And>k. starts_with k (eventPrefix r) \<Longrightarrow> kv_get (wf_kv s') k = kv_get (wf_kv s) k"
  shows "pending s' r = pending s r"
proof -
  have eq: "event_key_set s' r = event_key_set s r" using assms(3) by (auto simp: event_key_set_def)
  then have k: "event_keys s' r = event_keys s r"
    using event_keys_sorted [OF assms(1), of r] event_keys_sorted [OF assms(2), of r] by simp
  show ?thesis unfolding pending_def k
  proof (rule map_filter_cong)
    fix k assume "k \<in> set (event_keys s r)"
    then have "starts_with k (eventPrefix r)" using event_keys_set [OF assms(1)] by (auto simp: event_key_set_def)
    then show "event_at s' k = event_at s k" using assms(3) by (simp add: event_at_def)
  qed
qed

section \<open>Every operation does what its view says\<close>

lemma put_value_get [simp]: "kv_get (wf_kv (put_value k v s)) k' = (if k' = k then Some v else kv_get (wf_kv s) k')"
  by (simp add: put_value_def)

lemma put_value_seq [simp]: "event_seq (put_value k v s) = event_seq s"
  by (simp add: put_value_def event_seq_def fun_eq_iff)

lemma put_value_ok: "store_ok b s \<Longrightarrow> entry_ok (event_seq s) k v \<Longrightarrow> store_ok b (put_value k v s)"
  by (simp add: store_ok_def) (simp add: put_value_def mem.ok_put)

lemma put_no_event:
  assumes "store_ok b s" "entry_ok (event_seq s) k v" "\<not> starts_with k (eventPrefix r)"
  shows "pending (put_value k v s) r = pending s r"
  by (rule pending_cong [OF assms(1) put_value_ok [OF assms(1,2)]]) (use assms(3) in auto)

lemmas load_defs = loadRun_def loadDefinition_def loadStep_def

lemma saveRun_view:
  assumes "store_ok b s" "plain_id (rr_runId x)" "plain_id r"
  shows "store_ok b (saveRun x s)"
    "view_of (saveRun x s) r = (if r = rr_runId x then (view_of s r)\<lparr>rv_run := Some x\<rparr> else view_of s r)"
proof -
  have e: "entry_ok (event_seq s) (runKey (rr_runId x)) (StoredRun x)" using assms(2) by (rule run_entry)
  show "store_ok b (saveRun x s)" unfolding saveRun_def by (rule put_value_ok [OF assms(1) e])
  show "view_of (saveRun x s) r = (if r = rr_runId x then (view_of s r)\<lparr>rv_run := Some x\<rparr> else view_of s r)"
    using put_no_event [OF assms(1) e, of r] assms(2,3)
    by (simp add: view_of_def saveRun_def load_defs fun_eq_iff)
qed

lemma saveDefinition_view:
  assumes "store_ok b s" "plain_id x" "plain_id r"
  shows "store_ok b (saveDefinition x d s)"
    "view_of (saveDefinition x d s) r = (if r = x then (view_of s r)\<lparr>rv_def := Some d\<rparr> else view_of s r)"
proof -
  have e: "entry_ok (event_seq s) (defKey x) (StoredDef d)" using assms(2) by (rule def_entry)
  show "store_ok b (saveDefinition x d s)" unfolding saveDefinition_def by (rule put_value_ok [OF assms(1) e])
  show "view_of (saveDefinition x d s) r = (if r = x then (view_of s r)\<lparr>rv_def := Some d\<rparr> else view_of s r)"
    using put_no_event [OF assms(1) e, of r] assms(2,3)
    by (simp add: view_of_def saveDefinition_def load_defs fun_eq_iff)
qed

lemma saveStep_view:
  assumes "store_ok b s" "plain_id x" "plain_id r"
  shows "store_ok b (saveStep x rec s)"
    "view_of (saveStep x rec s) r =
       (if r = x then (view_of s r)\<lparr>rv_steps := (rv_steps (view_of s r))(sr_stepId rec := Some rec)\<rparr> else view_of s r)"
proof -
  have e: "entry_ok (event_seq s) (stepKey x (sr_stepId rec)) (StoredStep rec)" using assms(2) by (rule step_entry)
  show "store_ok b (saveStep x rec s)" unfolding saveStep_def by (rule put_value_ok [OF assms(1) e])
  show "view_of (saveStep x rec s) r =
       (if r = x then (view_of s r)\<lparr>rv_steps := (rv_steps (view_of s r))(sr_stepId rec := Some rec)\<rparr> else view_of s r)"
    using put_no_event [OF assms(1) e, of r] assms(2,3)
    by (auto simp: view_of_def saveStep_def load_defs fun_eq_iff)
qed

lemma sorted_list_of_set_snoc:
  assumes "finite A" "\<forall>x \<in> A. x < y"
  shows "sorted_list_of_set (insert y A) = sorted_list_of_set A @ [y]"
proof -
  have "sorted_list_of_set (insert y A) = insort y (sorted_list_of_set A)"
    using assms by (subst sorted_list_of_set_insert) auto
  also have "\<dots> = sorted_list_of_set A @ [y]"
    by (rule sorted_insort_is_snoc) (use assms in \<open>auto intro: less_imp_le\<close>)
  finally show ?thesis .
qed

lemma append_seq: "event_seq (appendEvent e s) = (event_seq s)(en_runId e := event_seq s (en_runId e) + 1)"
  by (auto simp: appendEvent_def Let_def put_value_def event_seq_def fun_eq_iff update_conv)

lemma append_get:
  "kv_get (wf_kv (appendEvent e s)) k =
     (if k = eventKey (en_runId e) (event_seq s (en_runId e) + 1) then Some (StoredEvent e) else kv_get (wf_kv s) k)"
  by (simp add: appendEvent_def Let_def)

lemma append_ok:
  assumes "store_ok b s" "plain_id (en_runId e)"
  shows "store_ok (Suc b) (appendEvent e s)"
proof -
  have "kv_ok (wf_kv (appendEvent e s))"
    using assms(1) by (simp add: store_ok_def appendEvent_def Let_def put_value_def mem.ok_put)
  moreover have "event_seq (appendEvent e s) r \<le> Suc b" for r
    using assms(1) by (auto simp: store_ok_def append_seq le_SucI)
  moreover have "entry_ok (event_seq (appendEvent e s)) k v" if "kv_get (wf_kv (appendEvent e s)) k = Some v" for k v
  proof (cases "k = eventKey (en_runId e) (event_seq s (en_runId e) + 1)")
    case True
    then show ?thesis using that assms(2) event_entry [of "en_runId e" "event_seq s (en_runId e) + 1" "event_seq (appendEvent e s)" e]
      by (simp add: append_get append_seq)
  next
    case False
    then have "entry_ok (event_seq s) k v" using that assms(1) by (simp add: append_get store_ok_def)
    then show ?thesis by (rule entry_ok_mono) (simp add: append_seq)
  qed
  ultimately show ?thesis unfolding store_ok_def by blast
qed

lemma append_pending:
  assumes ok: "store_ok b s" and b: "Suc b < seq_limit" and p: "plain_id (en_runId e)"
  shows "pending (appendEvent e s) (en_runId e) = pending s (en_runId e) @ [e]"
proof -
  let ?r = "en_runId e" and ?s = "appendEvent e s" and ?k = "eventKey (en_runId e) (event_seq s (en_runId e) + 1)"
  have lim: "event_seq s ?r + 1 < seq_limit" using ok b unfolding store_ok_def by (metis Suc_eq_plus1 Suc_le_mono le_less_trans)
  have less: "k < ?k" if "k \<in> event_key_set s ?r" for k
  proof -
    obtain v where v: "starts_with k (eventPrefix ?r)" "kv_get (wf_kv s) k = Some v"
      using \<open>k \<in> event_key_set s ?r\<close> by (auto simp: event_key_set_def)
    obtain n where "k = eventKey ?r n" "n \<le> event_seq s ?r" by (rule event_entryE [OF ok p v])
    then show ?thesis using lim by (simp add: event_key_less)
  qed
  have keys: "event_key_set ?s ?r = insert ?k (event_key_set s ?r)"
    using p by (auto simp: event_key_set_def append_get)
  have "event_keys ?s ?r = event_keys s ?r @ [?k]"
    using sorted_list_of_set_snoc [OF event_key_set_finite, of s ?r ?k] less
    by (simp add: event_keys_sorted [OF append_ok [OF ok p]] event_keys_sorted [OF ok] keys)
  moreover have "List.map_filter (event_at ?s) (event_keys s ?r) = pending s ?r"
    unfolding pending_def
  proof (rule map_filter_cong)
    fix k assume "k \<in> set (event_keys s ?r)"
    then have "k \<noteq> ?k" using less by (auto simp: event_keys_set [OF ok])
    then show "event_at ?s k = event_at s k" by (simp add: event_at_def append_get)
  qed
  moreover have "event_at ?s ?k = Some e" by (simp add: event_at_def append_get)
  ultimately show ?thesis by (simp add: pending_def List.map_filter_def)
qed

lemma append_view:
  assumes "store_ok b s" "Suc b < seq_limit" "plain_id (en_runId e)" "plain_id r"
  shows "view_of (appendEvent e s) r =
     (if r = en_runId e then (view_of s r)\<lparr>rv_pending := rv_pending (view_of s r) @ [e]\<rparr> else view_of s r)"
proof (cases "r = en_runId e")
  case True
  then show ?thesis using append_pending [OF assms(1-3)] assms(3) by (simp add: view_of_def load_defs append_get fun_eq_iff)
next
  case False
  have "pending (appendEvent e s) r = pending s r"
    by (rule pending_cong [OF assms(1) append_ok [OF assms(1,3)]]) (use False assms(3,4) in \<open>auto simp: append_get\<close>)
  then show ?thesis using False assms(3,4) by (simp add: view_of_def load_defs append_get fun_eq_iff)
qed

text \<open>An undisturbed take is the first event of the type, in order of arrival, and takes just that one.\<close>

lemma take_scan_find:
  "take_scan ty ks s =
     (case find (\<lambda>k. \<exists>e. event_at s k = Some e \<and> en_type e = ty) ks of
        None \<Rightarrow> (None, s)
      | Some k \<Rightarrow> (event_at s k, s\<lparr>wf_kv := kv_delete k (wf_kv s)\<rparr>))"
  by (induction ks) (auto simp: event_at_def split: option.splits)

lemma find_map_filter:
  "\<forall>k \<in> set ks. \<exists>e. f k = Some e \<Longrightarrow>
     find P (List.map_filter f ks) = Option.bind (find (\<lambda>k. \<exists>e. f k = Some e \<and> P e) ks) f"
  by (induction ks) (auto simp: List.map_filter_def)

lemma drop_first_map_filter:
  "\<forall>k \<in> set ks. \<exists>e. f k = Some e \<Longrightarrow>
     drop_first P (List.map_filter f ks) =
       (case find (\<lambda>k. \<exists>e. f k = Some e \<and> P e) ks of
          None \<Rightarrow> List.map_filter f ks | Some k \<Rightarrow> List.map_filter f (remove1 k ks))"
proof (induction ks)
  case (Cons k ks)
  then obtain e where "f k = Some e" by auto
  moreover have "k' \<noteq> k" if "find (\<lambda>k. \<exists>e. f k = Some e \<and> P e) ks = Some k'" "\<not> P e" for k'
    using that \<open>f k = Some e\<close> by (auto simp: find_Some_iff)
  ultimately show ?case using Cons
    by (cases "P e"; cases "find (\<lambda>k. \<exists>e. f k = Some e \<and> P e) ks") simp_all
qed simp

lemma delete_ok:
  assumes "store_ok b s"
  shows "store_ok b (s\<lparr>wf_kv := kv_delete k (wf_kv s)\<rparr>)"
proof -
  have "event_seq (s\<lparr>wf_kv := kv_delete k (wf_kv s)\<rparr>) = event_seq s" by (simp add: event_seq_def fun_eq_iff)
  then show ?thesis using assms by (simp add: store_ok_def mem.ok_del)
qed

lemma delete_pending:
  assumes ok: "store_ok b s" and k: "k \<in> event_key_set s r"
  shows "pending (s\<lparr>wf_kv := kv_delete k (wf_kv s)\<rparr>) r = List.map_filter (event_at s) (remove1 k (event_keys s r))"
proof -
  let ?s = "s\<lparr>wf_kv := kv_delete k (wf_kv s)\<rparr>"
  have "event_key_set ?s r = event_key_set s r - {k}" by (auto simp: event_key_set_def)
  then have keys: "event_keys ?s r = remove1 k (event_keys s r)"
    using event_keys_sorted [OF delete_ok [OF ok], of k r] event_keys_sorted [OF ok, of r]
    by (simp add: sorted_list_of_set_remove event_key_set_finite)
  show ?thesis unfolding pending_def keys
  proof (rule map_filter_cong)
    fix x assume "x \<in> set (remove1 k (event_keys s r))"
    then have "x \<noteq> k" using event_keys_distinct [OF ok, of r] by auto
    then show "event_at ?s x = event_at s x" by (simp add: event_at_def)
  qed
qed

lemma takeEvent_pending:
  assumes ok: "store_ok b s" and r: "plain_id r"
  shows "fst (takeEvent r ty s) = find (\<lambda>e. en_type e = ty) (pending s r)"
    "pending (snd (takeEvent r ty s)) r = drop_first (\<lambda>e. en_type e = ty) (pending s r)"
    "store_ok b (snd (takeEvent r ty s))"
proof -
  let ?f = "find (\<lambda>k. \<exists>e. event_at s k = Some e \<and> en_type e = ty) (event_keys s r)"
  have ks: "\<forall>k \<in> set (event_keys s r). \<exists>e. event_at s k = Some e"
    using event_at_some [OF ok r] by (simp add: event_keys_set [OF ok])
  have t: "takeEvent r ty s =
      (case ?f of None \<Rightarrow> (None, s) | Some k \<Rightarrow> (event_at s k, s\<lparr>wf_kv := kv_delete k (wf_kv s)\<rparr>))"
    by (simp add: takeEvent_def event_keys_def [symmetric] take_scan_find)
  have m: "k \<in> event_key_set s r" if "?f = Some k" for k
    using that event_keys_set [OF ok, of r] by (auto simp: find_Some_iff)
  show "fst (takeEvent r ty s) = find (\<lambda>e. en_type e = ty) (pending s r)"
    using find_map_filter [OF ks, of "\<lambda>e. en_type e = ty"] by (simp add: t pending_def split: option.splits)
  show "pending (snd (takeEvent r ty s)) r = drop_first (\<lambda>e. en_type e = ty) (pending s r)"
    using drop_first_map_filter [OF ks, of "\<lambda>e. en_type e = ty"] delete_pending [OF ok m]
    by (auto simp: t pending_def split: option.splits)
  show "store_ok b (snd (takeEvent r ty s))" using delete_ok [OF ok] ok by (auto simp: t split: option.splits)
qed

lemma find_some: "find P xs = Some x \<Longrightarrow> P x \<and> x \<in> set xs"
  by (induction xs) (auto split: if_splits)

lemma take_get:
  assumes "\<not> starts_with k (eventPrefix r)"
  shows "kv_get (wf_kv (snd (takeEvent r ty s))) k = kv_get (wf_kv s) k"
proof -
  have "find (\<lambda>k. \<exists>e. event_at s k = Some e \<and> en_type e = ty) (event_keys s r) \<noteq> Some k"
  proof
    assume "find (\<lambda>k. \<exists>e. event_at s k = Some e \<and> en_type e = ty) (event_keys s r) = Some k"
    from find_some [OF this] have "k \<in> set (kv_list (eventPrefix r) (wf_kv s))" by (simp add: event_keys_def)
    then show False using assms by (simp add: mem.listing_exact)
  qed
  then show ?thesis
    by (auto simp: takeEvent_def event_keys_def [symmetric] take_scan_find split: option.splits)
qed

lemma takeEvent_view:
  assumes "store_ok b s" "plain_id x" "plain_id r"
  shows "view_of (snd (takeEvent x ty s)) r =
     (if r = x then (view_of s r)\<lparr>rv_pending := drop_first (\<lambda>e. en_type e = ty) (rv_pending (view_of s r))\<rparr>
      else view_of s r)"
proof (cases "r = x")
  case True
  then show ?thesis using takeEvent_pending(2) [OF assms(1,2)] take_get assms(2)
    by (simp add: view_of_def load_defs fun_eq_iff)
next
  case False
  have "pending (snd (takeEvent x ty s)) r = pending s r"
  proof (rule pending_cong [OF assms(1) takeEvent_pending(3) [OF assms(1,2)]])
    fix k assume k: "starts_with k (eventPrefix r)"
    have "\<not> starts_with k (eventPrefix x)"
      using k False assms(2,3) by (auto simp: starts_with_iff eventPrefix_def plain_split)
    then show "kv_get (wf_kv (snd (takeEvent x ty s))) k = kv_get (wf_kv s) k" by (rule take_get)
  qed
  then show ?thesis using False take_get assms(2,3) by (simp add: view_of_def load_defs fun_eq_iff)
qed

lemma delete_seq: "event_seq (deleteRun x s) = (event_seq s)(x := 0)"
  by (auto simp: event_seq_def deleteRun_def fun_eq_iff delete_conv)

lemma delete_get:
  "kv_get (wf_kv (deleteRun x s)) k = (if starts_with k (runKey x) then None else kv_get (wf_kv s) k)"
  using mem.clear_prefix [of "wf_kv s" "runKey x" k] by (simp add: deleteRun_def runKey_def)

lemma deleteRun_ok:
  assumes "store_ok b s" "plain_id x"
  shows "store_ok b (deleteRun x s)"
proof -
  have "kv_ok (wf_kv (deleteRun x s))" using assms(1) by (simp add: store_ok_def deleteRun_def mem.ok_del_all)
  moreover have "event_seq (deleteRun x s) r \<le> b" for r using assms(1) by (simp add: store_ok_def delete_seq)
  moreover have "entry_ok (event_seq (deleteRun x s)) k v" if g: "kv_get (wf_kv (deleteRun x s)) k = Some v" for k v
  proof -
    have k: "\<not> starts_with k (runKey x)" and "entry_ok (event_seq s) k v"
      using g assms(1) by (auto simp: delete_get store_ok_def split: if_splits)
    from this(2) show ?thesis
    proof cases
      case (event_entry r n e)
      then have "r \<noteq> x" using k assms(2) starts_with_append [of x "[]"] by auto
      then show ?thesis using event_entry entry_ok.event_entry [of r n] by (simp add: delete_seq)
    qed (auto intro: entry_ok.intros)
  qed
  ultimately show ?thesis unfolding store_ok_def by blast
qed

lemma deleteRun_view:
  assumes "store_ok b s" "plain_id x" "plain_id r"
  shows "view_of (deleteRun x s) r = (if starts_with r x then blank_view else view_of s r)"
proof -
  have p: "starts_with k (runKey x) = starts_with r x" if "starts_with k (eventPrefix r)" for k
    using that starts_with_colon [OF assms(2), of r] by (auto simp: starts_with_iff eventPrefix_def runKey_def)
  have "pending (deleteRun x s) r = (if starts_with r x then [] else pending s r)"
  proof (cases "starts_with r x")
    case True
    then have "event_key_set (deleteRun x s) r = {}" using p by (auto simp: event_key_set_def delete_get)
    then show ?thesis
      using True event_keys_sorted [OF deleteRun_ok [OF assms(1,2)], of r] by (simp add: pending_def List.map_filter_def)
  next
    case False
    then show ?thesis using pending_cong [OF assms(1) deleteRun_ok [OF assms(1,2)], of r] p by (simp add: delete_get)
  qed
  then show ?thesis using assms(2,3) by (simp add: view_of_def blank_view_def load_defs delete_get fun_eq_iff)
qed

lemma loadStep_id:
  assumes "kinds_ok s" "plain_id r" "loadStep s r i = Some x"
  shows "sr_stepId x = i"
proof -
  obtain v where v: "kv_get (wf_kv s) (stepKey r i) = Some v" "as_step v = Some x"
    by (cases "kv_get (wf_kv s) (stepKey r i)") (use assms(3) in \<open>auto simp: loadStep_def\<close>)
  then obtain f where "entry_ok f (stepKey r i) v" using assms(1) unfolding kinds_ok_def by blast
  then show ?thesis using v assms(2) by cases auto
qed

lemma listSteps_exact:
  assumes "kinds_ok s" "plain_id r"
  shows "set (listSteps s r) = ran (loadStep s r)" "distinct (map sr_stepId (listSteps s r))"
proof -
  have e: "\<exists>x. k = stepKey r (sr_stepId x) \<and> kv_get (wf_kv s) k = Some (StoredStep x)"
    if k: "k \<in> set (kv_list (stepPrefix r) (wf_kv s))" for k
  proof -
    obtain v where v: "starts_with k (stepPrefix r)" "kv_get (wf_kv s) k = Some v"
      using k by (auto simp: mem.listing_exact)
    then obtain f where "entry_ok f k v" using assms(1) unfolding kinds_ok_def by blast
    then show ?thesis using v assms(2) by cases auto
  qed
  have at: "x \<in> set (listSteps s r) \<longleftrightarrow> loadStep s r (sr_stepId x) = Some x" for x
  proof
    assume "x \<in> set (listSteps s r)"
    then obtain k where "k \<in> set (kv_list (stepPrefix r) (wf_kv s))" "Option.bind (kv_get (wf_kv s) k) as_step = Some x"
      by (auto simp: listSteps_def List.map_filter_def)
    then show "loadStep s r (sr_stepId x) = Some x" using e [of k] by (auto simp: loadStep_def)
  next
    assume l: "loadStep s r (sr_stepId x) = Some x"
    then have "stepKey r (sr_stepId x) \<in> set (kv_list (stepPrefix r) (wf_kv s))"
      using assms(2) by (auto simp: loadStep_def mem.listing_exact bind_eq_Some_conv)
    then show "x \<in> set (listSteps s r)" using l by (force simp: listSteps_def List.map_filter_def loadStep_def)
  qed
  note id = loadStep_id [OF assms]
  show "set (listSteps s r) = ran (loadStep s r)" using at id by (fastforce simp: ran_def)
  have "distinct (kv_list (stepPrefix r) (wf_kv s))" using assms(1) by (simp add: kinds_ok_def mem.listing_distinct)
  then have "distinct (map sr_stepId (List.map_filter (\<lambda>k. Option.bind (kv_get (wf_kv s) k) as_step) ks))"
    if "set ks \<subseteq> set (kv_list (stepPrefix r) (wf_kv s))" "distinct ks" for ks
    using that
  proof (induction ks)
    case (Cons k ks)
    obtain x where x: "k = stepKey r (sr_stepId x)" "kv_get (wf_kv s) k = Some (StoredStep x)" using e [of k] Cons.prems by auto
    have "sr_stepId x \<notin> sr_stepId ` set (List.map_filter (\<lambda>k. Option.bind (kv_get (wf_kv s) k) as_step) ks)"
    proof
      assume "sr_stepId x \<in> sr_stepId ` set (List.map_filter (\<lambda>k. Option.bind (kv_get (wf_kv s) k) as_step) ks)"
      then obtain k' y where k': "k' \<in> set ks" "Option.bind (kv_get (wf_kv s) k') as_step = Some y" "sr_stepId y = sr_stepId x"
        by (auto simp: List.map_filter_def)
      then obtain z where z: "k' = stepKey r (sr_stepId z)" "kv_get (wf_kv s) k' = Some (StoredStep z)"
        using e [of k'] k'(1) Cons.prems(2) by (metis insert_iff list.simps(15) subset_iff)
      have "z = y" using k'(2) unfolding z(2) by simp
      then have "k' = k" using z(1) x(1) k'(3) by simp
      then show False using k' Cons.prems by simp
    qed
    moreover have "Option.bind (kv_get (wf_kv s) k) as_step = Some x" using x(2) by simp
    ultimately show ?case using Cons.IH Cons.prems by (simp del: List.map_filter_simps(1) add: map_filter_Cons)
  qed simp
  then show "distinct (map sr_stepId (listSteps s r))"
    unfolding listSteps_def using assms(1) by (simp add: kinds_ok_def mem.listing_distinct)
qed

text \<open>Every operation keeps the kinds of the records apart.\<close>

lemma kinds_put: "kinds_ok s \<Longrightarrow> entry_ok f k v \<Longrightarrow> kinds_ok (put_value k v s)"
  by (auto simp: kinds_ok_def) (simp add: put_value_def mem.ok_put)

lemma kinds_delete: "kinds_ok s \<Longrightarrow> kinds_ok (s\<lparr>wf_kv := kv_delete k (wf_kv s)\<rparr>)"
  by (simp add: kinds_ok_def mem.ok_del)

lemma kinds_append: "kinds_ok s \<Longrightarrow> plain_id (en_runId e) \<Longrightarrow> kinds_ok (appendEvent e s)"
  unfolding appendEvent_def Let_def
  by (rule kinds_put [OF _ event_entry [where counted = "\<lambda>r. event_seq s (en_runId e) + 1"]]) (simp_all add: kinds_ok_def)

lemma kinds_take: "kinds_ok s \<Longrightarrow> kinds_ok (snd (takeEvent r ty s))"
  by (auto simp: takeEvent_def take_scan_find kinds_delete split: option.splits)

lemma kinds_saves:
  "kinds_ok s \<Longrightarrow> plain_id r \<Longrightarrow> kinds_ok (saveStep r x s)"
  "kinds_ok s \<Longrightarrow> plain_id (rr_runId y) \<Longrightarrow> kinds_ok (saveRun y s)"
  "kinds_ok s \<Longrightarrow> plain_id r \<Longrightarrow> kinds_ok (saveDefinition r d s)"
  unfolding saveStep_def saveRun_def saveDefinition_def by (auto intro: kinds_put step_entry run_entry def_entry)

lemma kinds_open: "kinds_ok s \<Longrightarrow> kinds_ok (open_store (wf_kv s))"
  by (simp add: kinds_ok_def open_store_def)

lemma apply_refines:
  assumes ok: "store_ok b s" and b: "Suc b < seq_limit" and p: "plain_id (op_run f)"
  shows "store_ok (Suc b) (wf_apply s f)"
    and "(\<forall>r. plain_id r \<longrightarrow> view_of s r = w r) \<Longrightarrow> plain_id r \<Longrightarrow> view_of (wf_apply s f) r = view_apply w f r"
proof -
  have up: "store_ok (Suc b) t" if "store_ok b t" for t using that unfolding store_ok_def by (meson le_SucI)
  show "store_ok (Suc b) (wf_apply s f)"
    using p by (cases f) (auto intro!: up saveRun_view(1) [OF ok] saveDefinition_view(1) [OF ok] saveStep_view(1) [OF ok]
        append_ok [OF ok] takeEvent_pending(3) [OF ok] deleteRun_ok [OF ok])
  show "view_of (wf_apply s f) r = view_apply w f r" if "\<forall>r. plain_id r \<longrightarrow> view_of s r = w r" "plain_id r"
    using p that by (cases f) (simp_all add: saveRun_view(2) [OF ok] saveDefinition_view(2) [OF ok] saveStep_view(2) [OF ok]
        append_view [OF ok b] takeEvent_view [OF ok] deleteRun_view [OF ok])
qed

lemma open_ok: "store_ok 0 (open_store [])"
  by (simp add: store_ok_def open_store_def event_seq_def kv_ok_def)

lemma open_view: "view_of (open_store []) r = blank_view"
  by (simp add: view_of_def load_defs blank_view_def open_store_def pending_def event_keys_def kv_list_def
      List.map_filter_def fun_eq_iff)

lemma run_refines:
  assumes "length ops < seq_limit" "\<forall>f \<in> set ops. plain_id (op_run f)"
  shows "store_ok (length ops) (foldl wf_apply (open_store []) ops) \<and>
    (\<forall>r. plain_id r \<longrightarrow> view_of (foldl wf_apply (open_store []) ops) r = foldl view_apply (\<lambda>r. blank_view) ops r)"
  using assms
proof (induction ops rule: rev_induct)
  case Nil
  then show ?case using open_ok open_view by simp
next
  case (snoc f ops)
  then show ?case using apply_refines [of "length ops" "foldl wf_apply (open_store []) ops" f] by simp
qed

section \<open>Properties\<close>



text \<open>
  A take is not atomic. Undisturbed, the steps of a call answer as \<open>takeEvent\<close> does; but when two
  calls for one type alternate, as the steps of one wave do, both return the event that is pending
  once.
\<close>
theorem concurrent_takes_duplicate:
  "(\<exists>n. ((\<lambda>(t, s). take_step ty t s) ^^ n) (take_begin s r, s) =
     (TakeDone (fst (takeEvent r ty s)), snd (takeEvent r ty s))) \<and>
   (plain_id (en_runId e) \<longrightarrow>
     (let s0 = appendEvent e (open_store []);
          a0 = take_begin s0 (en_runId e);
          b0 = take_begin s0 (en_runId e);
          (a1, s1) = take_step (en_type e) a0 s0;
          (b1, s2) = take_step (en_type e) b0 s1;
          (a2, s3) = take_step (en_type e) a1 s2;
          (b2, s4) = take_step (en_type e) b1 s3
      in pending s0 (en_runId e) = [e] \<and> a2 = TakeDone (Some e) \<and> b2 = TakeDone (Some e)))"
proof (intro conjI impI)
  have "\<exists>n. ((\<lambda>(t, s). take_step ty t s) ^^ n) (take_next ks s, s) =
      (TakeDone (fst (take_scan ty ks s)), snd (take_scan ty ks s))" for ks
  proof (induction ks)
    case Nil
    show ?case by (rule exI [of _ 0]) simp
  next
    case (Cons k ks)
    then obtain n where n: "((\<lambda>(t, s). take_step ty t s) ^^ n) (take_next ks s, s) =
      (TakeDone (fst (take_scan ty ks s)), snd (take_scan ty ks s))" by blast
    show ?case
    proof (cases "\<exists>e. Option.bind (kv_get (wf_kv s) k) as_event = Some e \<and> en_type e = ty")
      case True
      then show ?thesis by (intro exI [of _ 1]) auto
    next
      case False
      then show ?thesis using n by (intro exI [of _ "Suc n"]) (auto simp: funpow_Suc_right split: option.splits simp del: funpow.simps)
    qed
  qed
  then obtain n where "((\<lambda>(t, s). take_step ty t s) ^^ n) (take_next (event_keys s r) s, s) =
      (TakeDone (fst (takeEvent r ty s)), snd (takeEvent r ty s))"
    unfolding takeEvent_def event_keys_def by blast
  then show "\<exists>n. ((\<lambda>(t, s). take_step ty t s) ^^ n) (take_begin s r, s) =
      (TakeDone (fst (takeEvent r ty s)), snd (takeEvent r ty s))"
    by (intro exI [of _ "Suc n"]) (simp add: funpow_Suc_right take_begin_def event_keys_def del: funpow.simps)
next
  assume p: "plain_id (en_runId e)"
  let ?r = "en_runId e" and ?s = "appendEvent e (open_store [])"
  have one: "pending ?s ?r = [e]"
    using append_pending [OF open_ok _ p] open_view [of ?r] by (simp add: seq_limit_def view_of_def blank_view_def)
  have "event_key_set ?s ?r = {eventKey ?r (Suc 0)}" using p by (auto simp: event_key_set_def append_get open_store_def event_seq_def)
  then have keys: "sort (kv_list (eventPrefix ?r) (wf_kv ?s)) = [eventKey ?r (Suc 0)]"
    using event_keys_sorted [OF append_ok [OF open_ok p], of ?r] by (simp add: event_keys_def)
  have get: "kv_get (wf_kv ?s) (eventKey ?r (Suc 0)) = Some (StoredEvent e)" by (simp add: append_get open_store_def event_seq_def)
  show "let s0 = ?s; a0 = take_begin s0 ?r; b0 = take_begin s0 ?r;
          (a1, s1) = take_step (en_type e) a0 s0; (b1, s2) = take_step (en_type e) b0 s1;
          (a2, s3) = take_step (en_type e) a1 s2; (b2, s4) = take_step (en_type e) b1 s3
      in pending s0 ?r = [e] \<and> a2 = TakeDone (Some e) \<and> b2 = TakeDone (Some e)"
    by (simp add: Let_def take_begin_def keys get one)
qed

theorem concurrent_takes_duplicate_witness:
  "let e = \<lparr>en_runId = ''r1'', en_type = ''go'', en_payload = JNull, en_receivedAt = 0\<rparr>;
       s0 = appendEvent e (open_store []);
       (a1, s1) = take_step ''go'' (take_begin s0 ''r1'') s0;
       (b1, s2) = take_step ''go'' (take_begin s0 ''r1'') s1
   in fst (take_step ''go'' b1 (snd (take_step ''go'' a1 s2))) = TakeDone (Some e)"
  using concurrent_takes_duplicate [of "''go''" "open_store []" "''r1''"
      "\<lparr>en_runId = ''r1'', en_type = ''go'', en_payload = JNull, en_receivedAt = 0\<rparr>"]
  by (simp add: Let_def case_prod_unfold plain_id_def)

text \<open>
  A restart loses an event: a new store counts from zero again, so the first event appended to a run
  after a restart overwrites the one that was pending under the same number.
\<close>
theorem restart_overwrites_event:
  assumes "plain_id (en_runId e)" and "en_runId e' = en_runId e"
  shows "let s = appendEvent e (open_store []); s' = open_store (wf_kv s)
    in pending s' (en_runId e) = [e] \<and> pending (appendEvent e' s') (en_runId e) = [e']"
proof -
  let ?r = "en_runId e" and ?s = "open_store (wf_kv (appendEvent e (open_store [])))"
  have get: "kv_get (wf_kv ?s) k = (if k = eventKey ?r 1 then Some (StoredEvent e) else None)" for k
    using append_get [of e "open_store []" k] by (simp add: open_store_def event_seq_def)
  have get': "kv_get (wf_kv (appendEvent e' ?s)) k = (if k = eventKey ?r 1 then Some (StoredEvent e') else None)" for k
    using append_get [of e' ?s k] get [of k] assms(2) by (simp add: event_seq_def) (simp add: open_store_def)
  have one: "pending t ?r = [x]" if "kv_ok (wf_kv t)" "\<And>k. kv_get (wf_kv t) k = (if k = eventKey ?r 1 then Some (StoredEvent x) else None)" for t x
  proof -
    have s: "set (kv_list (eventPrefix ?r) (wf_kv t)) = {eventKey ?r 1}" using that(2) assms(1) by (auto simp: mem.listing_exact)
    have "kv_list (eventPrefix ?r) (wf_kv t) = [eventKey ?r 1]"
      using s mem.listing_distinct [OF that(1), of "eventPrefix ?r"]
      by (cases "kv_list (eventPrefix ?r) (wf_kv t)"; cases "tl (kv_list (eventPrefix ?r) (wf_kv t))") auto
    then show ?thesis using that(2) by (simp add: pending_def event_keys_def event_at_def List.map_filter_def)
  qed
  have "kv_ok (wf_kv ?s)" "kv_ok (wf_kv (appendEvent e' ?s))"
    by (simp_all add: appendEvent_def put_value_def open_store_def Let_def mem.ok_put kv_ok_def [of "[]"])
  then show ?thesis using one [of ?s e] one [of "appendEvent e' ?s" e'] get get' by (simp add: Let_def)
qed

end
