(* ===== verification/Workflow_Definition.thy ===== *)
theory Workflow_Definition
  imports Workflow_Store
begin

text \<open>
  \<open>validateDefinition\<close> of packages/core/src/workflow/LocalWorkflowEngine.ts: distinct step ids, known
  dependencies, and a depth-first search with three colours that refuses cycles. The search carries
  fuel for the depth of its recursion, one more than the number of steps; running out would be \<open>None\<close>.
\<close>

section \<open>The check\<close>

datatype def_error =
    DuplicateStep string
  | UnknownDependency string string
  | CycleAt string "string list"

datatype colour = White | Grey | Black

type_synonym colours = "(string \<times> colour) list"

definition colour_of :: "colours \<Rightarrow> string \<Rightarrow> colour" where
  "colour_of col i = (case map_of col i of None \<Rightarrow> White | Some c \<Rightarrow> c)"

definition deps_in :: "wf_step list \<Rightarrow> string \<Rightarrow> string list" where
  "deps_in steps i = (case find (\<lambda>s. ws_id s = i) steps of None \<Rightarrow> [] | Some s \<Rightarrow> ws_dependsOn s)"

fun dfs_visit :: "nat \<Rightarrow> wf_step list \<Rightarrow> string \<Rightarrow> string list \<Rightarrow> colours \<Rightarrow> (def_error + colours) option"
  and dfs_visits :: "nat \<Rightarrow> wf_step list \<Rightarrow> string list \<Rightarrow> string list \<Rightarrow> colours \<Rightarrow> (def_error + colours) option" where
  "dfs_visit 0 steps i path col = None"
| "dfs_visit (Suc n) steps i path col =
     (case colour_of col i of
        Grey \<Rightarrow> Some (Inl (CycleAt i (path @ [i])))
      | Black \<Rightarrow> Some (Inr col)
      | White \<Rightarrow>
          (case dfs_visits n steps (deps_in steps i) (path @ [i]) (AList.update i Grey col) of
             None \<Rightarrow> None
           | Some (Inl e) \<Rightarrow> Some (Inl e)
           | Some (Inr col') \<Rightarrow> Some (Inr (AList.update i Black col'))))"
| "dfs_visits n steps [] path col = Some (Inr col)"
| "dfs_visits n steps (d # ds) path col =
     (case dfs_visit n steps d path col of
        None \<Rightarrow> None
      | Some (Inl e) \<Rightarrow> Some (Inl e)
      | Some (Inr col') \<Rightarrow> dfs_visits n steps ds path col')"

fun find_duplicate :: "string list \<Rightarrow> string list \<Rightarrow> string option" where
  "find_duplicate seen [] = None"
| "find_duplicate seen (i # is) = (if i \<in> set seen then Some i else find_duplicate (i # seen) is)"

definition unknown_in :: "string list \<Rightarrow> wf_step \<Rightarrow> def_error option" where
  "unknown_in ids s = map_option (UnknownDependency (ws_id s)) (find (\<lambda>d. d \<notin> set ids) (ws_dependsOn s))"

fun first_some :: "('a \<Rightarrow> 'b option) \<Rightarrow> 'a list \<Rightarrow> 'b option" where
  "first_some f [] = None"
| "first_some f (x # xs) = (case f x of Some y \<Rightarrow> Some y | None \<Rightarrow> first_some f xs)"

definition validateDefinition :: "workflow_def \<Rightarrow> (def_error + unit) option" where
  "validateDefinition d =
     (let steps = wd_steps d; ids = map ws_id steps
      in case find_duplicate [] ids of
           Some i \<Rightarrow> Some (Inl (DuplicateStep i))
         | None \<Rightarrow>
             (case first_some (unknown_in ids) steps of
                Some e \<Rightarrow> Some (Inl e)
              | None \<Rightarrow> map_option (map_sum id (\<lambda>_. ())) (dfs_visits (length steps + 1) steps ids [] [])))"

section \<open>The search decides cycles\<close>

definition step_order :: "wf_step list \<Rightarrow> (string \<times> string) set" where
  "step_order steps = {(i, d) | i d. d \<in> set (deps_in steps i)}"

definition blacks :: "colours \<Rightarrow> string set" where
  "blacks col = {i. colour_of col i = Black}"

definition greys :: "colours \<Rightarrow> string set" where
  "greys col = {i. colour_of col i = Grey}"

text \<open>
  Between two visits the grey ids are the current path, each depending on the next, and the black
  ones are closed under dependency and lie on no cycle.
\<close>

fun chained :: "('a \<times> 'a) set \<Rightarrow> 'a list \<Rightarrow> bool" where
  "chained R (x # y # xs) = ((x, y) \<in> R \<and> chained R (y # xs))"
| "chained R xs = True"

definition dfs_ok :: "wf_step list \<Rightarrow> string list \<Rightarrow> colours \<Rightarrow> bool" where
  "dfs_ok steps path col \<longleftrightarrow>
     greys col = set path \<and> distinct path \<and> chained (step_order steps) path \<and>
     step_order steps `` blacks col \<subseteq> blacks col \<and>
     (\<forall>i \<in> blacks col. (i, i) \<notin> (step_order steps)\<^sup>+)"

lemma colour_update: "colour_of (AList.update i c col) j = (if j = i then c else colour_of col j)"
  by (simp add: colour_of_def update_conv)

lemma chained_snoc: "chained R (xs @ [x, y]) \<longleftrightarrow> chained R (xs @ [x]) \<and> (x, y) \<in> R"
  by (induction R xs rule: chained.induct) auto

lemma chained_last: "xs \<noteq> [] \<Longrightarrow> chained R (xs @ [y]) \<longleftrightarrow> chained R xs \<and> (last xs, y) \<in> R"
proof -
  assume "xs \<noteq> []"
  then have "xs = butlast xs @ [last xs]" by simp
  then show ?thesis using chained_snoc [of R "butlast xs" "last xs" y] by (metis append.assoc append_Cons append_Nil)
qed

lemma chained_tail: "chained R (ys @ zs) \<Longrightarrow> chained R zs"
proof (induction ys)
  case (Cons y ys)
  then show ?case by (cases "ys @ zs") auto
qed simp

lemma chained_trancl: "chained R (x # xs) \<Longrightarrow> xs \<noteq> [] \<Longrightarrow> (x, last xs) \<in> R\<^sup>+"
proof (induction xs arbitrary: x)
  case (Cons y ys)
  then show ?case
  proof (cases "ys = []")
    case False
    then have "(y, last ys) \<in> R\<^sup>+" using Cons by simp
    then show ?thesis using Cons.prems False trancl_into_trancl2 [of x y R "last ys"] by simp
  qed auto
qed simp

lemma cycle_found:
  assumes "chained R (path @ [i])" "i \<in> set path"
  shows "(i, i) \<in> R\<^sup>+"
proof -
  obtain ys zs where "path = ys @ i # zs" using assms(2) by (auto simp: in_set_conv_decomp)
  then have "chained R (i # zs @ [i])" using chained_tail [of R ys "i # zs @ [i]"] assms(1) by simp
  then show ?thesis using chained_trancl [of R i "zs @ [i]"] by simp
qed

definition deps_within :: "wf_step list \<Rightarrow> string set \<Rightarrow> bool" where
  "deps_within steps I \<longleftrightarrow> finite I \<and> (\<forall>i. set (deps_in steps i) \<subseteq> I)"

definition dfs_result :: "wf_step list \<Rightarrow> string list \<Rightarrow> string set \<Rightarrow> colours \<Rightarrow> (def_error + colours) option \<Rightarrow> bool" where
  "dfs_result steps path new col r \<longleftrightarrow>
     (\<exists>i p. r = Some (Inl (CycleAt i p)) \<and> (i, i) \<in> (step_order steps)\<^sup>+) \<or>
     (\<exists>col'. r = Some (Inr col') \<and> dfs_ok steps path col' \<and> new \<union> blacks col \<subseteq> blacks col')"

lemma dfs_enter:
  assumes "dfs_ok steps path col" "colour_of col i = White" "chained (step_order steps) (path @ [i])"
  shows "dfs_ok steps (path @ [i]) (AList.update i Grey col)" "blacks (AList.update i Grey col) = blacks col"
proof -
  show b: "blacks (AList.update i Grey col) = blacks col" using assms(2) by (auto simp: blacks_def colour_update)
  have "greys (AList.update i Grey col) = insert i (greys col)" by (auto simp: greys_def colour_update)
  moreover have "i \<notin> set path"
  proof
    assume "i \<in> set path"
    then have "i \<in> greys col" using assms(1) by (simp add: dfs_ok_def)
    then show False using assms(2) by (simp add: greys_def)
  qed
  ultimately show "dfs_ok steps (path @ [i]) (AList.update i Grey col)"
    using assms(1,3) unfolding dfs_ok_def b by simp
qed

lemma dfs_leave:
  assumes "dfs_ok steps (path @ [i]) col" "set (deps_in steps i) \<subseteq> blacks col" "chained (step_order steps) path"
  shows "dfs_ok steps path (AList.update i Black col)" "blacks (AList.update i Black col) = insert i (blacks col)"
proof -
  show b: "blacks (AList.update i Black col) = insert i (blacks col)" by (auto simp: blacks_def colour_update)
  have closed: "step_order steps `` blacks col \<subseteq> blacks col" using assms(1) by (simp add: dfs_ok_def)
  have grey: "i \<in> greys col" using assms(1) by (simp add: dfs_ok_def)
  then have nb: "i \<notin> blacks col" by (simp add: greys_def blacks_def)
  have acyc: "(i, i) \<notin> (step_order steps)\<^sup>+"
  proof
    assume "(i, i) \<in> (step_order steps)\<^sup>+"
    then obtain d where d: "(i, d) \<in> step_order steps" "(d, i) \<in> (step_order steps)\<^sup>*" by (meson tranclD)
    then have "d \<in> blacks col" using assms(2) by (auto simp: step_order_def)
    from d(2) this have "i \<in> blacks col" using closed by (induction rule: converse_rtrancl_induct) auto
    then show False using nb by simp
  qed
  have "greys (AList.update i Black col) = greys col - {i}" by (auto simp: greys_def colour_update)
  then show "dfs_ok steps path (AList.update i Black col)"
    using assms acyc closed unfolding dfs_ok_def b by (auto simp: step_order_def)
qed

lemma dfs_correct:
  "deps_within steps I \<Longrightarrow> dfs_ok steps path col \<Longrightarrow> chained (step_order steps) (path @ [i]) \<Longrightarrow> i \<in> I \<Longrightarrow>
     set path \<subseteq> I \<Longrightarrow> card I < n + length path \<Longrightarrow>
     dfs_result steps path {i} col (dfs_visit n steps i path col)"
  "deps_within steps I \<Longrightarrow> dfs_ok steps path col \<Longrightarrow> \<forall>d \<in> set ds. chained (step_order steps) (path @ [d]) \<and> d \<in> I \<Longrightarrow>
     set path \<subseteq> I \<Longrightarrow> card I < n + length path \<Longrightarrow>
     dfs_result steps path (set ds) col (dfs_visits n steps ds path col)"
proof (induction n steps i path col and n steps ds path col rule: dfs_visit_dfs_visits.induct)
  case (1 steps i path col)
  have "length path \<le> card I"
    using 1 by (metis card_mono distinct_card dfs_ok_def deps_within_def)
  then show ?case using 1 by simp
next
  case (2 n steps i path col)
  show ?case
  proof (cases "colour_of col i")
    case Grey
    then have "i \<in> set path" using "2.prems"(2) unfolding dfs_ok_def greys_def by auto
    then show ?thesis using Grey cycle_found [OF "2.prems"(3)] by (simp add: dfs_result_def)
  next
    case Black
    then show ?thesis using "2.prems"(2) by (simp add: dfs_result_def blacks_def)
  next
    case White
    let ?col = "AList.update i Grey col"
    have e: "dfs_ok steps (path @ [i]) ?col" "blacks ?col = blacks col"
      using dfs_enter [OF "2.prems"(2) White "2.prems"(3)] by auto
    have "\<forall>d \<in> set (deps_in steps i). chained (step_order steps) ((path @ [i]) @ [d]) \<and> d \<in> I"
      using "2.prems"(1,3) by (auto simp: deps_within_def chained_snoc step_order_def)
    then have r: "dfs_result steps (path @ [i]) (set (deps_in steps i)) ?col
        (dfs_visits n steps (deps_in steps i) (path @ [i]) ?col)"
      using "2.IH" [OF White "2.prems"(1) e(1)] "2.prems"(4-6) by simp
    have ch: "chained (step_order steps) path" using "2.prems"(2) by (simp add: dfs_ok_def)
    from r show ?thesis unfolding dfs_result_def [of _ "path @ [i]"]
    proof (elim disjE exE conjE)
      fix col' assume c: "dfs_visits n steps (deps_in steps i) (path @ [i]) ?col = Some (Inr col')"
        "dfs_ok steps (path @ [i]) col'" "set (deps_in steps i) \<union> blacks ?col \<subseteq> blacks col'"
      then have "set (deps_in steps i) \<subseteq> blacks col'" by auto
      from dfs_leave [OF c(2) this ch] show ?thesis using c(1,3) White e(2) by (auto simp: dfs_result_def)
    qed (use White in \<open>auto simp: dfs_result_def\<close>)
  qed
next
  case (3 n steps path col)
  then show ?case by (simp add: dfs_result_def)
next
  case (4 n steps d ds path col)
  have r: "dfs_result steps path {d} col (dfs_visit n steps d path col)" using "4.IH"(1) "4.prems" by simp
  from this [unfolded dfs_result_def] show ?case
  proof (elim disjE exE conjE)
    fix col' assume c: "dfs_visit n steps d path col = Some (Inr col')" "dfs_ok steps path col'" "{d} \<union> blacks col \<subseteq> blacks col'"
    have "dfs_result steps path (set ds) col' (dfs_visits n steps ds path col')"
      using "4.IH"(2) [OF c(1) refl "4.prems"(1) c(2)] "4.prems" by simp
    then show ?thesis using c(1,3) by (simp add: dfs_result_def) blast
  qed (auto simp: dfs_result_def)
qed

lemma find_duplicate_none: "find_duplicate seen is = None \<longleftrightarrow> distinct is \<and> set is \<inter> set seen = {}"
  by (induction "is" arbitrary: seen) auto

lemma find_duplicate_some: "find_duplicate seen is = Some i \<Longrightarrow> \<not> distinct (rev seen @ is) \<and> i \<in> set is"
proof (induction "is" arbitrary: seen)
  case (Cons j js)
  then show ?case
  proof (cases "j \<in> set seen")
    case False
    then show ?thesis using Cons.IH [of "j # seen"] Cons.prems by auto
  qed auto
qed simp

lemma first_some_none: "first_some f xs = None \<longleftrightarrow> (\<forall>x \<in> set xs. f x = None)"
  by (induction xs) (auto split: option.splits)

lemma first_some_some: "first_some f xs = Some y \<Longrightarrow> \<exists>x \<in> set xs. f x = Some y"
  by (induction xs) (auto split: option.splits)

lemma unknown_none: "unknown_in ids s = None \<longleftrightarrow> set (ws_dependsOn s) \<subseteq> set ids"
  by (auto simp: unknown_in_def find_None_iff)

lemma unknown_some:
  assumes "unknown_in ids s = Some e"
  shows "\<exists>j. e = UnknownDependency (ws_id s) j \<and> j \<in> set (ws_dependsOn s) \<and> j \<notin> set ids"
proof -
  obtain j where j: "find (\<lambda>d. d \<notin> set ids) (ws_dependsOn s) = Some j" "e = UnknownDependency (ws_id s) j"
    using assms by (auto simp: unknown_in_def)
  then show ?thesis using find_some [OF j(1)] by simp
qed

lemma deps_in_step: "distinct (map ws_id steps) \<Longrightarrow> s \<in> set steps \<Longrightarrow> deps_in steps (ws_id s) = ws_dependsOn s"
  unfolding deps_in_def by (induction steps) auto

lemma deps_in_origin: "d \<in> set (deps_in steps i) \<Longrightarrow> \<exists>s \<in> set steps. ws_id s = i \<and> d \<in> set (ws_dependsOn s)"
  unfolding deps_in_def by (induction steps) (auto split: if_splits)

lemma deps_in_known: "\<forall>s \<in> set steps. set (ws_dependsOn s) \<subseteq> I \<Longrightarrow> set (deps_in steps i) \<subseteq> I"
  using deps_in_origin by blast

definition well_formed :: "workflow_def \<Rightarrow> bool" where
  "well_formed d \<longleftrightarrow>
     distinct (map ws_id (wd_steps d)) \<and>
     (\<forall>s \<in> set (wd_steps d). set (ws_dependsOn s) \<subseteq> ws_id ` set (wd_steps d)) \<and>
     acyclic (step_order (wd_steps d))"

lemma dfs_all:
  assumes "\<forall>s \<in> set steps. set (ws_dependsOn s) \<subseteq> ws_id ` set steps"
  shows "(\<exists>i p. dfs_visits (length steps + 1) steps (map ws_id steps) [] [] = Some (Inl (CycleAt i p)) \<and>
            (i, i) \<in> (step_order steps)\<^sup>+) \<or>
         (\<exists>col. dfs_visits (length steps + 1) steps (map ws_id steps) [] [] = Some (Inr col) \<and> acyclic (step_order steps))"
proof -
  have ok: "dfs_ok steps [] []" by (simp add: dfs_ok_def greys_def blacks_def colour_of_def)
  have w: "deps_within steps (ws_id ` set steps)" using deps_in_known [OF assms] by (simp add: deps_within_def)
  have c: "card (ws_id ` set steps) < length steps + 1 + length ([] :: string list)"
    using card_image_le [of "set steps" ws_id] card_length [of steps] by simp
  have "dfs_result steps [] (set (map ws_id steps)) [] (dfs_visits (length steps + 1) steps (map ws_id steps) [] [])"
    by (rule dfs_correct(2) [OF w ok _ _ c]) auto
  then show ?thesis unfolding dfs_result_def
  proof (elim disjE exE conjE)
    fix col assume c: "dfs_visits (length steps + 1) steps (map ws_id steps) [] [] = Some (Inr col)"
      "dfs_ok steps [] col" "set (map ws_id steps) \<union> blacks [] \<subseteq> blacks col"
    have "(i, i) \<notin> (step_order steps)\<^sup>+" for i
    proof
      assume t: "(i, i) \<in> (step_order steps)\<^sup>+"
      then obtain d where "(i, d) \<in> step_order steps" by (meson tranclD)
      then have "i \<in> ws_id ` set steps" by (auto simp: step_order_def dest: deps_in_origin)
      then show False using c(2,3) t unfolding dfs_ok_def by auto
    qed
    then show ?thesis using c(1) by (auto simp: acyclic_def)
  qed blast
qed

text \<open>What an accepted definition is.\<close>

lemma validated:
  assumes "validateDefinition d = Some (Inr u)"
  shows "well_formed d"
proof -
  have f: "find_duplicate [] (map ws_id (wd_steps d)) = None"
    "first_some (unknown_in (map ws_id (wd_steps d))) (wd_steps d) = None"
    using assms by (auto simp: validateDefinition_def Let_def split: option.splits)
  have deps: "\<forall>s \<in> set (wd_steps d). set (ws_dependsOn s) \<subseteq> ws_id ` set (wd_steps d)"
    using f(2) by (simp only: first_some_none unknown_none set_map)
  have "acyclic (step_order (wd_steps d))"
    using assms dfs_all [OF deps] f by (auto simp: validateDefinition_def Let_def)
  then show ?thesis using f(1) deps by (simp add: well_formed_def find_duplicate_none)
qed

section \<open>Properties\<close>

text \<open>
  C16. The check always returns, and it accepts exactly the definitions with distinct step ids, known
  dependencies and no dependency cycle; a refusal names a duplicate id, an unknown dependency, or a
  step that lies on a cycle.
\<close>
theorem validate_exact:
  "\<exists>r. validateDefinition d = Some r \<and> (r = Inr () \<longleftrightarrow> well_formed d) \<and>
     (case r of
        Inr _ \<Rightarrow> True
      | Inl (DuplicateStep i) \<Rightarrow> \<not> distinct (map ws_id (wd_steps d)) \<and> i \<in> ws_id ` set (wd_steps d)
      | Inl (UnknownDependency i j) \<Rightarrow>
          (\<exists>s \<in> set (wd_steps d). ws_id s = i \<and> j \<in> set (ws_dependsOn s)) \<and> j \<notin> ws_id ` set (wd_steps d)
      | Inl (CycleAt i p) \<Rightarrow> (i, i) \<in> (step_order (wd_steps d))\<^sup>+)"
proof -
  let ?steps = "wd_steps d" and ?ids = "map ws_id (wd_steps d)"
  consider (dup) i where "find_duplicate [] ?ids = Some i"
    | (unknown) e where "find_duplicate [] ?ids = None" "first_some (unknown_in ?ids) ?steps = Some e"
    | (known) "find_duplicate [] ?ids = None" "first_some (unknown_in ?ids) ?steps = None"
    by (cases "find_duplicate [] ?ids"; cases "first_some (unknown_in ?ids) ?steps") auto
  then show ?thesis
  proof cases
    case dup
    then show ?thesis using find_duplicate_some [OF dup] by (simp add: validateDefinition_def well_formed_def)
  next
    case unknown
    from first_some_some [OF unknown(2)] obtain s where s: "s \<in> set ?steps" "unknown_in ?ids s = Some e" by auto
    from unknown_some [OF s(2)] obtain j
      where j: "e = UnknownDependency (ws_id s) j" "j \<in> set (ws_dependsOn s)" "j \<notin> ws_id ` set ?steps"
      by (auto simp only: set_map)
    then have "\<not> well_formed d" using s(1) unfolding well_formed_def by blast
    moreover have "validateDefinition d = Some (Inl e)" by (simp add: validateDefinition_def unknown Let_def)
    ultimately show ?thesis using s(1) j by auto
  next
    case known
    have deps: "\<forall>s \<in> set ?steps. set (ws_dependsOn s) \<subseteq> ws_id ` set ?steps"
      using known(2) by (simp only: first_some_none unknown_none set_map)
    have di: "distinct ?ids" using known(1) by (simp add: find_duplicate_none)
    have v: "validateDefinition d = map_option (map_sum id (\<lambda>_. ())) (dfs_visits (length ?steps + 1) ?steps ?ids [] [])"
      by (simp add: validateDefinition_def known Let_def)
    have w: "well_formed d \<longleftrightarrow> acyclic (step_order ?steps)" using deps di by (simp add: well_formed_def)
    from dfs_all [OF deps] show ?thesis
    proof (elim disjE exE conjE)
      fix i p assume c: "dfs_visits (length ?steps + 1) ?steps ?ids [] [] = Some (Inl (CycleAt i p))"
        "(i, i) \<in> (step_order ?steps)\<^sup>+"
      then have "\<not> acyclic (step_order ?steps)" by (auto simp: acyclic_def)
      then show ?thesis using c unfolding v w c(1) by simp
    next
      fix col assume c: "dfs_visits (length ?steps + 1) ?steps ?ids [] [] = Some (Inr col)" "acyclic (step_order ?steps)"
      then show ?thesis unfolding v w c(1) by simp
    qed
  qed
qed

end
