(* ===== verification/Workflow_Engine.thy ===== *)
theory Workflow_Engine
  imports Workflow_Definition Dep_Graph Canonical_Json
begin

text \<open>
  The durable workflow engine \<open>LocalWorkflowEngine\<close> (packages/core/src/workflow/LocalWorkflowEngine.ts)
  as a state machine. One run is in a wave of steps, asleep until it polls its deferred steps, or
  ended. A step of a wave is a task that stands at one of the \<open>await\<close>s of \<open>#executeStep\<close>; an event of
  the environment answers the await of one task, or ends the sleep, cancels the run, or delivers an
  external event. Tools, the resource pool and the clock are the environment; the store is the model
  of Workflow_Store.

  The run-level code between waves (start, poll, settling, the terminal records) is one block each:
  no task is active then. A wait for a store write is an await of its own inside a task.
\<close>

section \<open>Errors\<close>

datatype wf_code = EStepFailed | EStepTimeout | EStepValidation | EDeadlock | ECancelled

text \<open>What a \<open>catch\<close> sees: a \<open>WorkflowError\<close> (code, message, runId, stepId, attempts, cause), another
  \<open>Error\<close> (name, message, code, cause), or a value thrown as it is.\<close>

datatype thrown =
    WorkflowError wf_code string "string option" "string option" "int option" "thrown option"
  | JsError string string json "thrown option"
  | JsValue json

fun code_text :: "wf_code \<Rightarrow> string" where
  "code_text EStepFailed = ''step_failed''"
| "code_text EStepTimeout = ''step_timeout''"
| "code_text EStepValidation = ''step_validation''"
| "code_text EDeadlock = ''deadlock''"
| "code_text ECancelled = ''cancelled''"

definition opt_str :: "string option \<Rightarrow> json" where
  "opt_str x = (case x of None \<Rightarrow> JUndef | Some s \<Rightarrow> JStr s)"

definition opt_num :: "int option \<Rightarrow> json" where
  "opt_num x = (case x of None \<Rightarrow> JUndef | Some n \<Rightarrow> JNum n)"

fun describeError :: "thrown \<Rightarrow> string" where
  "describeError (WorkflowError c m r s a cause) =
     json_stringify (JObj [(''name'', JStr ''WorkflowError''), (''code'', JStr (code_text c)), (''message'', JStr m),
       (''runId'', opt_str r), (''stepId'', opt_str s), (''attempts'', opt_num a),
       (''cause'', JStr (case cause of None \<Rightarrow> '''' | Some e \<Rightarrow> describeError e))])"
| "describeError (JsError n m code cause) =
     json_stringify (JObj [(''name'', JStr n), (''message'', JStr m), (''code'', code),
       (''cause'', case cause of None \<Rightarrow> JUndef | Some e \<Rightarrow> JStr (describeError e))])"
| "describeError (JsValue v) = (if v = JUndef \<or> v = JNull then '''' else json_stringify v)"

fun is_cancelled :: "thrown \<Rightarrow> bool" where
  "is_cancelled (WorkflowError c m r s a cause) = (c = ECancelled)"
| "is_cancelled e = False"

fun is_workflow_error :: "thrown \<Rightarrow> bool" where
  "is_workflow_error (WorkflowError c m r s a cause) = True"
| "is_workflow_error e = False"

section \<open>The state of a run\<close>

datatype wf_event =
    RunStart
  | RunComplete json
  | RunFailedEvent thrown
  | StepStart string int
  | StepComplete string json
  | StepFailedEvent string thrown bool
  | StepResourceWait string "(string \<times> int option) list"
  | StepSleepingEvent string "int option"
  | StepAwaitingEvent string string
  | StepResumed string

text \<open>The awaits of \<open>#executeStep\<close>. A record is the one the attempt saved when it started; the flag of
  \<open>Failing\<close> tells the throw inside the \<open>try\<close>, which its own \<open>catch\<close> sees again, from the one in the
  \<open>catch\<close>.\<close>

datatype task =
    Deferring wf_event
  | Taking string take_state
  | EventTaken json
  | Acquiring
  | Starting step_record json
  | Calling step_record json
  | Completing step_record json
  | Failing bool step_record json thrown
  | BackingOff step_record json
  | Settled "thrown + json option"

text \<open>What the environment answers an await with.\<close>

datatype tool_result = ToolResult json "(string \<times> string) option"

datatype reply = Resumed | Granted | AcquireRejected thrown | Returned tool_result | Threw thrown | TimedOut

datatype run_phase = InWave "(wf_step \<times> task) list" | PollSleep "string list" | Ended run_record | Stalled

record engine_run =
  er_runId :: string
  er_def :: workflow_def
  er_record :: run_record
  er_started :: run_record
  er_store :: wf_store
  er_steps :: "(string \<times> step_record) list"
  er_results :: "(string \<times> json) list"
  er_remaining :: "(string \<times> string list) list"
  er_abort :: "thrown option"
  er_events :: "wf_event list"
  er_calls :: "(string \<times> string \<times> json) list"
  er_leases :: "(string \<times> bool) list"
  er_phase :: run_phase

definition send :: "wf_event \<Rightarrow> engine_run \<Rightarrow> engine_run" where
  "send ev s = s\<lparr>er_events := er_events s @ [ev]\<rparr>"

text \<open>\<open>stepRecords.set\<close> followed by \<open>store.saveStep\<close>.\<close>

definition save_step :: "step_record \<Rightarrow> engine_run \<Rightarrow> engine_run" where
  "save_step r s =
     s\<lparr>er_steps := AList.update (sr_stepId r) r (er_steps s), er_store := saveStep (er_runId s) r (er_store s)\<rparr>"

definition persistRun :: "run_record \<Rightarrow> engine_run \<Rightarrow> engine_run" where
  "persistRun r s = s\<lparr>er_store := saveRun r (er_store s)\<rparr>"

definition blank_step :: "string \<Rightarrow> step_status \<Rightarrow> int \<Rightarrow> int \<Rightarrow> step_record" where
  "blank_step i status attempts now =
     \<lparr>sr_stepId = i, sr_status = status, sr_result = JUndef, sr_error = None, sr_attempts = attempts,
      sr_startedAt = Some now, sr_completedAt = None, sr_wakeAt = None, sr_awaitingEventType = None\<rparr>"

definition complete_step :: "int \<Rightarrow> json \<Rightarrow> step_record \<Rightarrow> step_record" where
  "complete_step now v r = r\<lparr>sr_status := StepCompleted, sr_completedAt := Some now, sr_result := v\<rparr>"

definition finish_result :: "string \<Rightarrow> json \<Rightarrow> engine_run \<Rightarrow> engine_run" where
  "finish_result i v s =
     s\<lparr>er_results := AList.update i v (er_results s),
       er_remaining := map (\<lambda>(k, ds). (k, filter (\<lambda>d. d \<noteq> i) ds)) (er_remaining s)\<rparr>"

section \<open>One step (\<open>#executeStep\<close>)\<close>

definition arg_member :: "string \<Rightarrow> json \<Rightarrow> json" where
  "arg_member k v =
     (case v of JObj kvs \<Rightarrow> (case map_of kvs k of None \<Rightarrow> JUndef | Some x \<Rightarrow> x) | _ \<Rightarrow> JUndef)"

text \<open>\<open>String(v)\<close>.\<close>

fun js_string :: "json \<Rightarrow> string" where
  "js_string JUndef = ''undefined''"
| "js_string JNull = ''null''"
| "js_string (JBool b) = (if b then ''true'' else ''false'')"
| "js_string (JNum i) = int_str i"
| "js_string (JStr s) = s"
| "js_string (JArr xs) = join_on '','' (map (\<lambda>(v, s). if v = JUndef \<or> v = JNull then '''' else s)
     (map (\<lambda>v. (v, js_string v)) xs))"
| "js_string (JObj kvs) = ''[object Object]''"

text \<open>\<open>Number(v)\<close>, \<open>None\<close> for NaN; the numerals of strings are an argument.\<close>

definition js_number :: "(string \<Rightarrow> int option) \<Rightarrow> json \<Rightarrow> int option" where
  "js_number num v =
     (case v of
        JUndef \<Rightarrow> None
      | JNull \<Rightarrow> Some 0
      | JBool b \<Rightarrow> Some (if b then 1 else 0)
      | JNum i \<Rightarrow> Some i
      | JStr s \<Rightarrow> num s
      | JArr xs \<Rightarrow> num (js_string (JArr xs))
      | JObj kvs \<Rightarrow> None)"

text \<open>\<open>v ?? w\<close>.\<close>

definition or_else :: "json \<Rightarrow> json \<Rightarrow> json" where
  "or_else v w = (if v = JUndef \<or> v = JNull then w else v)"

definition retry_limit :: "wf_step \<Rightarrow> int" where
  "retry_limit st = max 1 (case ws_retries st of None \<Rightarrow> 1 | Some p \<Rightarrow> rp_limit p)"

definition idempotent :: "wf_step \<Rightarrow> bool" where
  "idempotent st = (case ws_idempotent st of None \<Rightarrow> True | Some b \<Rightarrow> b)"

definition backoffMs :: "wf_step \<Rightarrow> int \<Rightarrow> int" where
  "backoffMs st attempt =
     (let base = (case Option.bind (ws_retries st) rp_delayMs of None \<Rightarrow> 1000 | Some d \<Rightarrow> d)
      in case (case Option.bind (ws_retries st) rp_backoff of None \<Rightarrow> ExponentialBackoff | Some b \<Rightarrow> b) of
           ConstantBackoff \<Rightarrow> base
         | LinearBackoff \<Rightarrow> base * attempt
         | ExponentialBackoff \<Rightarrow> base * 2 ^ nat (attempt - 1))"

definition cancelled_error :: "string \<Rightarrow> engine_run \<Rightarrow> wf_step \<Rightarrow> int option \<Rightarrow> thrown" where
  "cancelled_error msg s st attempts =
     WorkflowError ECancelled msg (Some (er_runId s)) (Some (ws_id st)) attempts (er_abort s)"

text \<open>Up to the first await: cancellation, the two built-in tools, or the request for resources.\<close>

definition start_task :: "(string \<Rightarrow> int option) \<Rightarrow> int \<Rightarrow> wf_step \<Rightarrow> engine_run \<Rightarrow> task \<times> engine_run" where
  "start_task num now st s =
     (if er_abort s \<noteq> None then (Settled (Inl (cancelled_error ''step cancelled'' s st None)), s)
      else if ws_toolName st = ''$sleep'' then
        (let wake = map_option (\<lambda>ms. now + ms) (js_number num (or_else (arg_member ''ms'' (ws_args st)) (JNum 0)))
         in (Deferring (StepSleepingEvent (ws_id st) wake),
             save_step ((blank_step (ws_id st) StepSleeping 1 now)\<lparr>sr_wakeAt := wake\<rparr>) s))
      else if ws_toolName st = ''$waitForEvent'' then
        (let ty = js_string (or_else (arg_member ''type'' (ws_args st)) (JStr ''''))
         in if ty = '''' then
              (Settled (Inl (WorkflowError EStepValidation
                 (''step '' @ ws_id st @ '': $waitForEvent requires args.type (string)'')
                 (Some (er_runId s)) (Some (ws_id st)) None None)), s)
            else (Taking ty (take_begin (er_store s) (er_runId s)), s))
      else (Acquiring,
            (case ws_resourceClaims st of
               None \<Rightarrow> s
             | Some cs \<Rightarrow> if cs = [] then s else send (StepResourceWait (ws_id st) cs) s)))"

text \<open>\<open>finally { lease.release() }\<close>.\<close>

definition release_lease :: "wf_step \<Rightarrow> engine_run \<Rightarrow> engine_run" where
  "release_lease st s = s\<lparr>er_leases := er_leases s @ [(ws_id st, False)]\<rparr>"

definition begin_attempt :: "int \<Rightarrow> wf_step \<Rightarrow> int \<Rightarrow> json \<Rightarrow> engine_run \<Rightarrow> task \<times> engine_run" where
  "begin_attempt now st k args s =
     (if er_abort s \<noteq> None
      then (Settled (Inl (cancelled_error ''step cancelled mid-retry'' s st (Some (k - 1)))), release_lease st s)
      else let r = blank_step (ws_id st) StepRunning k now in (Starting r args, save_step r s))"

definition fail_record :: "int \<Rightarrow> thrown \<Rightarrow> step_record \<Rightarrow> step_record" where
  "fail_record now e r = r\<lparr>sr_status := StepFailed, sr_completedAt := Some now, sr_error := Some (describeError e)\<rparr>"

definition last_attempt :: "wf_step \<Rightarrow> step_record \<Rightarrow> bool" where
  "last_attempt st r = (\<not> idempotent st \<or> retry_limit st \<le> sr_attempts r)"

definition catch_error :: "int \<Rightarrow> wf_step \<Rightarrow> step_record \<Rightarrow> json \<Rightarrow> thrown \<Rightarrow> engine_run \<Rightarrow> task \<times> engine_run" where
  "catch_error now st r args e s =
     (if is_cancelled e then (Settled (Inl e), release_lease st s)
      else if last_attempt st r then
        (let w = (if is_workflow_error e then e
                  else WorkflowError EStepFailed (ws_id st @ '': '' @ describeError e) (Some (er_runId s))
                         (Some (ws_id st)) (Some (sr_attempts r)) (Some e))
         in (Failing False r args w, save_step (fail_record now w r) s))
      else (BackingOff r args, send (StepFailedEvent (ws_id st) e True) s))"

definition tool_returned :: "int \<Rightarrow> wf_step \<Rightarrow> step_record \<Rightarrow> json \<Rightarrow> tool_result \<Rightarrow> engine_run \<Rightarrow> task \<times> engine_run" where
  "tool_returned now st r args res s =
     (case res of
        ToolResult out (Some (code, msg)) \<Rightarrow>
          (let e = WorkflowError (if code = ''validation_error'' then EStepValidation else EStepFailed)
                     (ws_id st @ '': '' @ msg) (Some (er_runId s)) (Some (ws_id st)) (Some (sr_attempts r)) None
           in if last_attempt st r then (Failing True r args e, save_step (fail_record now e r) s)
              else (BackingOff r args, send (StepFailedEvent (ws_id st) e True) s))
      | ToolResult out None \<Rightarrow> (Completing r out, save_step (complete_step now out r) s))"

definition acquire_error :: "wf_step \<Rightarrow> engine_run \<Rightarrow> thrown \<Rightarrow> thrown" where
  "acquire_error st s e =
     (if is_workflow_error e then e
      else WorkflowError ECancelled ''resource acquire aborted'' (Some (er_runId s)) (Some (ws_id st)) None (Some e))"

definition timeout_error :: "wf_step \<Rightarrow> int \<Rightarrow> thrown" where
  "timeout_error st ms =
     WorkflowError EStepTimeout (''step '' @ ws_id st @ '' timed out after '' @ int_str ms @ ''ms'')
       None (Some (ws_id st)) None None"

definition take_answer :: "int \<Rightarrow> wf_step \<Rightarrow> string \<Rightarrow> take_state \<Rightarrow> engine_run \<Rightarrow> task \<times> engine_run" where
  "take_answer now st ty t s =
     (case t of
        TakeDone (Some e) \<Rightarrow>
          (EventTaken (en_payload e),
           save_step (complete_step now (en_payload e) (blank_step (ws_id st) StepPending 1 now)) s)
      | TakeDone None \<Rightarrow>
          (Deferring (StepAwaitingEvent (ws_id st) ty),
           save_step ((blank_step (ws_id st) StepWaiting 1 now)\<lparr>sr_awaitingEventType := Some ty\<rparr>) s)
      | _ \<Rightarrow> (Taking ty t, s))"

text \<open>From one await to the next; an answer the await is not waiting for changes nothing.\<close>

definition task_step :: "int \<Rightarrow> wf_step \<Rightarrow> task \<Rightarrow> reply \<Rightarrow> engine_run \<Rightarrow> task \<times> engine_run" where
  "task_step now st t reply s =
     (case (t, reply) of
        (Deferring ev, Resumed) \<Rightarrow> (Settled (Inr None), send ev s)
      | (Taking ty ts, Resumed) \<Rightarrow>
          (let (ts', store) = take_step ty ts (er_store s) in take_answer now st ty ts' (s\<lparr>er_store := store\<rparr>))
      | (EventTaken v, Resumed) \<Rightarrow> (Settled (Inr (Some v)), send (StepComplete (ws_id st) v) s)
      | (Acquiring, Granted) \<Rightarrow>
          begin_attempt now st 1 (resolveRefs (ws_args st) (er_results s))
            (s\<lparr>er_leases := er_leases s @ [(ws_id st, True)]\<rparr>)
      | (Acquiring, AcquireRejected e) \<Rightarrow> (Settled (Inl (acquire_error st s e)), s)
      | (Starting r args, Resumed) \<Rightarrow>
          (Calling r args,
           (send (StepStart (ws_id st) (sr_attempts r)) s)
             \<lparr>er_calls := er_calls s @ [(ws_id st, ws_toolName st, args)]\<rparr>)
      | (Calling r args, Returned res) \<Rightarrow> tool_returned now st r args res s
      | (Calling r args, Threw e) \<Rightarrow> catch_error now st r args e s
      | (Calling r args, TimedOut) \<Rightarrow>
          (case ws_timeoutMs st of
             None \<Rightarrow> (t, s)
           | Some ms \<Rightarrow> if ms \<le> 0 then (t, s) else catch_error now st r args (timeout_error st ms) s)
      | (Completing r v, Resumed) \<Rightarrow>
          (Settled (Inr (Some v)), release_lease st (send (StepComplete (ws_id st) v) s))
      | (Failing inside r args e, Resumed) \<Rightarrow>
          (let s' = send (StepFailedEvent (ws_id st) e False) s
           in if inside then catch_error now st r args e s' else (Settled (Inl e), release_lease st s'))
      | (BackingOff r args, Resumed) \<Rightarrow> begin_attempt now st (sr_attempts r + 1) args s
      | _ \<Rightarrow> (t, s))"

section \<open>The run (\<open>#executeRun\<close>)\<close>

definition end_run :: "run_record \<Rightarrow> wf_event \<Rightarrow> engine_run \<Rightarrow> engine_run" where
  "end_run r ev s = (send ev (persistRun r s))\<lparr>er_phase := Ended r\<rparr>"

definition markCancelled :: "int \<Rightarrow> engine_run \<Rightarrow> engine_run" where
  "markCancelled now s =
     (let reason = (case er_abort s of None \<Rightarrow> JsValue JUndef | Some e \<Rightarrow> e)
      in end_run ((er_started s)\<lparr>rr_status := RunCancelled, rr_completedAt := Some now,
                    rr_error := Some (describeError reason)\<rparr>)
           (RunFailedEvent (if is_workflow_error reason then reason
              else WorkflowError ECancelled ''run cancelled'' (Some (er_runId s)) None None (Some reason))) s)"

text \<open>The \<open>catch\<close> of \<open>#launch\<close>: the record it closes is the one the run was launched with.\<close>

definition fail_run :: "int \<Rightarrow> thrown \<Rightarrow> engine_run \<Rightarrow> engine_run" where
  "fail_run now e s =
     (if is_cancelled e then
        (case loadRun (er_store s) (er_runId s) of
           None \<Rightarrow> s\<lparr>er_phase := Stalled\<rparr>
         | Some current \<Rightarrow>
             if rr_status current = RunCancelled then s\<lparr>er_phase := Stalled\<rparr>
             else end_run ((er_record s)\<lparr>rr_status := RunCancelled, rr_error := Some (describeError e),
                             rr_completedAt := Some now\<rparr>) (RunFailedEvent e) s)
      else
        (let w = (if is_workflow_error e then e
                  else WorkflowError EStepFailed (''Workflow run failed: '' @ describeError e)
                         (Some (er_runId s)) None None (Some e))
         in end_run ((er_record s)\<lparr>rr_status := RunFailed, rr_error := Some (describeError w),
                       rr_completedAt := Some now\<rparr>) (RunFailedEvent w) s))"

definition collectOutput :: "workflow_def \<Rightarrow> (string \<times> json) list \<Rightarrow> json" where
  "collectOutput d results =
     (let referenced = concat (map ws_dependsOn (wd_steps d))
      in JObj (map (\<lambda>s. (ws_id s, case map_of results (ws_id s) of None \<Rightarrow> JUndef | Some v \<Rightarrow> v))
                 (filter (\<lambda>s. ws_id s \<notin> set referenced) (wd_steps d))))"

definition finish_run :: "int \<Rightarrow> engine_run \<Rightarrow> engine_run" where
  "finish_run now s =
     (if er_abort s \<noteq> None then markCancelled now s
      else let out = collectOutput (er_def s) (er_results s)
           in end_run ((er_started s)\<lparr>rr_status := RunCompleted, rr_completedAt := Some now, rr_output := out\<rparr>)
                (RunComplete out) s)"

definition deferred_status :: "step_record option \<Rightarrow> bool" where
  "deferred_status r = (case r of None \<Rightarrow> False | Some x \<Rightarrow> sr_status x = StepSleeping \<or> sr_status x = StepWaiting)"

definition ready_step :: "engine_run \<Rightarrow> wf_step \<Rightarrow> bool" where
  "ready_step s st =
     (map_of (er_results s) (ws_id st) = None \<and>
      (case map_of (er_remaining s) (ws_id st) of None \<Rightarrow> True | Some ds \<Rightarrow> ds = []) \<and>
      \<not> deferred_status (map_of (er_steps s) (ws_id st)))"

definition stuck_steps :: "engine_run \<Rightarrow> wf_step list" where
  "stuck_steps s = filter (\<lambda>st. map_of (er_results s) (ws_id st) = None) (wd_steps (er_def s))"

definition deferred_ids :: "engine_run \<Rightarrow> string list" where
  "deferred_ids s =
     filter (\<lambda>i. deferred_status (map_of (er_steps s) i)) (map ws_id (stuck_steps s))"

definition deadlock_error :: "engine_run \<Rightarrow> thrown" where
  "deadlock_error s =
     WorkflowError EDeadlock
       (''Scheduler deadlock: circular dependency among steps ['' @ join_on '', '' (map ws_id (stuck_steps s)) @ '']'')
       (Some (er_runId s)) None None None"

fun start_tasks :: "(string \<Rightarrow> int option) \<Rightarrow> int \<Rightarrow> wf_step list \<Rightarrow> engine_run \<Rightarrow> (wf_step \<times> task) list \<times> engine_run" where
  "start_tasks num now [] s = ([], s)"
| "start_tasks num now (st # sts) s =
     (let (t, s1) = start_task num now st s; (ts, s2) = start_tasks num now sts s1 in ((st, t) # ts, s2))"

text \<open>The head of the loop, up to the next point where the run waits.\<close>

definition dispatch :: "(string \<Rightarrow> int option) \<Rightarrow> int \<Rightarrow> engine_run \<Rightarrow> engine_run" where
  "dispatch num now s =
     (if length (er_results s) < length (wd_steps (er_def s)) then
        (if er_abort s \<noteq> None then markCancelled now s
         else (case filter (ready_step s) (wd_steps (er_def s)) of
                 [] \<Rightarrow>
                   (if deferred_ids s \<noteq> [] then s\<lparr>er_phase := PollSleep (deferred_ids s)\<rparr>
                    else if stuck_steps s \<noteq> [] then fail_run now (deadlock_error s) s
                    else finish_run now s)
               | ready \<Rightarrow>
                   (let (ts, s') = start_tasks num now ready s in s'\<lparr>er_phase := InWave ts\<rparr>)))
      else finish_run now s)"

text \<open>A failed step takes its dependents with it; depth is bounded by the number of steps.\<close>

primrec cascadeFailure :: "nat \<Rightarrow> string \<Rightarrow> engine_run \<Rightarrow> engine_run" where
  "cascadeFailure 0 i s = s"
| "cascadeFailure (Suc n) i s =
     finish_result i JUndef
       (foldl (\<lambda>s st. if map_of (er_results s) (ws_id st) \<noteq> None then s
                      else if i \<in> set (ws_dependsOn st) then cascadeFailure n (ws_id st) s else s)
          (s\<lparr>er_results := AList.update i JUndef (er_results s)\<rparr>) (wd_steps (er_def s)))"

definition as_error :: "engine_run \<Rightarrow> wf_step \<Rightarrow> thrown \<Rightarrow> thrown" where
  "as_error s st e =
     (case e of
        JsValue v \<Rightarrow> WorkflowError EStepFailed (js_string v) (Some (er_runId s)) (Some (ws_id st)) None None
      | _ \<Rightarrow> e)"

fun settle_wave :: "(string \<Rightarrow> int option) \<Rightarrow> int \<Rightarrow> (wf_step \<times> task) list \<Rightarrow> engine_run \<Rightarrow> engine_run" where
  "settle_wave num now [] s = dispatch num now s"
| "settle_wave num now ((st, t) # ts) s =
     (case t of
        Settled (Inl e) \<Rightarrow>
          fail_run now (as_error s st e) (cascadeFailure (length (wd_steps (er_def s)) + 1) (ws_id st) s)
      | Settled (Inr (Some v)) \<Rightarrow> settle_wave num now ts (finish_result (ws_id st) v s)
      | _ \<Rightarrow> settle_wave num now ts s)"

definition is_settled :: "task \<Rightarrow> bool" where
  "is_settled t = (case t of Settled r \<Rightarrow> True | _ \<Rightarrow> False)"

text \<open>Deferred steps that woke or whose event arrived, after the sleep.\<close>

definition poll_step :: "int \<Rightarrow> engine_run \<Rightarrow> string \<Rightarrow> engine_run" where
  "poll_step now s i =
     (case map_of (er_steps s) i of
        None \<Rightarrow> s
      | Some r \<Rightarrow>
          if sr_status r = StepSleeping \<and> (case sr_wakeAt r of None \<Rightarrow> False | Some w \<Rightarrow> w \<noteq> 0 \<and> w \<le> now) then
            send (StepComplete i JNull) (finish_result i JNull (save_step (complete_step now JNull r) s))
          else if sr_status r = StepWaiting \<and> truthy (sr_awaitingEventType r) then
            (case takeEvent (er_runId s) (the (sr_awaitingEventType r)) (er_store s) of
               (None, store) \<Rightarrow> s\<lparr>er_store := store\<rparr>
             | (Some e, store) \<Rightarrow>
                 send (StepComplete i (en_payload e))
                   (finish_result i (en_payload e)
                     (save_step (complete_step now (en_payload e) r) (s\<lparr>er_store := store\<rparr>))))
          else s)"

definition poll :: "(string \<Rightarrow> int option) \<Rightarrow> int \<Rightarrow> string list \<Rightarrow> engine_run \<Rightarrow> engine_run" where
  "poll num now ids s =
     (if er_abort s \<noteq> None then markCancelled now s else dispatch num now (foldl (poll_step now) s ids))"

section \<open>Launch, start and resume\<close>

definition loaded_results :: "step_record list \<Rightarrow> (string \<times> json) list" where
  "loaded_results existing =
     foldl (\<lambda>m r. AList.update (sr_stepId r) (sr_result r) m) []
       (filter (\<lambda>r. sr_status r = StepCompleted) existing)"

definition launch :: "(string \<Rightarrow> int option) \<Rightarrow> int \<Rightarrow> workflow_def \<Rightarrow> run_record \<Rightarrow> wf_store \<Rightarrow> engine_run" where
  "launch num now d r store =
     (let started = r\<lparr>rr_status := RunRunning,
                      rr_startedAt := (case rr_startedAt r of None \<Rightarrow> Some now | Some t \<Rightarrow> Some t)\<rparr>;
          store' = saveRun started store;
          existing = listSteps store' (rr_runId r);
          results = loaded_results existing
      in dispatch num now
           \<lparr>er_runId = rr_runId r, er_def = d, er_record = r, er_started = started, er_store = store',
            er_steps = foldl (\<lambda>m r. AList.update (sr_stepId r) r m) [] existing,
            er_results = results,
            er_remaining = foldl (\<lambda>m st. AList.update (ws_id st)
                (filter (\<lambda>d. map_of results d = None) (remdups (ws_dependsOn st))) m) [] (wd_steps d),
            er_abort = None,
            er_events = RunStart # map (\<lambda>r. StepResumed (sr_stepId r))
                (filter (\<lambda>r. sr_status r = StepCompleted) existing),
            er_calls = [], er_leases = [], er_phase = PollSleep []\<rparr>)"

definition start_workflow ::
  "(string \<Rightarrow> int option) \<Rightarrow> int \<Rightarrow> workflow_def \<Rightarrow> string \<Rightarrow> json \<Rightarrow> wf_store \<Rightarrow> (def_error + engine_run) option" where
  "start_workflow num now d runId params store =
     (case validateDefinition d of
        None \<Rightarrow> None
      | Some (Inl e) \<Rightarrow> Some (Inl e)
      | Some (Inr _) \<Rightarrow>
          (let r = \<lparr>rr_runId = runId, rr_workflowId = wd_id d, rr_status = Queued, rr_params = params,
                    rr_output = JUndef, rr_error = None, rr_createdAt = now, rr_startedAt = None, rr_completedAt = None\<rparr>
           in Some (Inr (launch num now d r (saveRun r (saveDefinition runId d store))))))"

datatype resume_error = ResumeMissing | ResumeTerminal run_status | ResumeNoDefinition

definition resume_workflow ::
  "(string \<Rightarrow> int option) \<Rightarrow> int \<Rightarrow> string \<Rightarrow> wf_store \<Rightarrow> resume_error + engine_run" where
  "resume_workflow num now runId store =
     (case loadRun store runId of
        None \<Rightarrow> Inl ResumeMissing
      | Some r \<Rightarrow>
          if rr_status r = RunCompleted \<or> rr_status r = RunFailed then Inl (ResumeTerminal (rr_status r))
          else (case loadDefinition store runId of
                  None \<Rightarrow> Inl ResumeNoDefinition
                | Some d \<Rightarrow> Inr (launch num now d r store)))"

section \<open>Events of the environment\<close>

datatype env_event =
    TaskReply nat reply
  | PollOver
  | CancelRun "string option"
  | ExternalEvent string json

definition sendEvent :: "int \<Rightarrow> string \<Rightarrow> json \<Rightarrow> engine_run \<Rightarrow> engine_run" where
  "sendEvent now ty payload s =
     s\<lparr>er_store := appendEvent \<lparr>en_runId = er_runId s, en_type = ty, en_payload = payload, en_receivedAt = now\<rparr>
                    (er_store s)\<rparr>"

text \<open>A second abort of an aborted controller keeps the first reason.\<close>

definition cancel_run :: "string option \<Rightarrow> engine_run \<Rightarrow> engine_run" where
  "cancel_run reason s =
     (if er_abort s \<noteq> None then s
      else s\<lparr>er_abort := Some (WorkflowError ECancelled (case reason of None \<Rightarrow> ''cancelled'' | Some m \<Rightarrow> m)
               (Some (er_runId s)) None None None)\<rparr>)"

definition wave_reply :: "(string \<Rightarrow> int option) \<Rightarrow> int \<Rightarrow> (wf_step \<times> task) list \<Rightarrow> nat \<Rightarrow> reply \<Rightarrow> engine_run \<Rightarrow> engine_run" where
  "wave_reply num now ts n reply s =
     (if n < length ts then
        (let (st, t) = ts ! n;
             (t', s') = task_step now st t reply s;
             ts' = ts[n := (st, t')]
         in if list_all (\<lambda>(st, t). is_settled t) ts' then settle_wave num now ts' s'
            else s'\<lparr>er_phase := InWave ts'\<rparr>)
      else s)"

definition engine_step :: "(string \<Rightarrow> int option) \<Rightarrow> engine_run \<Rightarrow> int \<times> env_event \<Rightarrow> engine_run" where
  "engine_step num s e =
     (case e of
        (now, TaskReply n reply) \<Rightarrow> (case er_phase s of InWave ts \<Rightarrow> wave_reply num now ts n reply s | _ \<Rightarrow> s)
      | (now, PollOver) \<Rightarrow> (case er_phase s of PollSleep ids \<Rightarrow> poll num now ids s | _ \<Rightarrow> s)
      | (now, CancelRun reason) \<Rightarrow> cancel_run reason s
      | (now, ExternalEvent ty payload) \<Rightarrow> sendEvent now ty payload s)"

text \<open>A subscriber that comes after the run has ended (\<open>#subscribe\<close> without a live run).\<close>

definition late_events :: "wf_store \<Rightarrow> string \<Rightarrow> wf_event list" where
  "late_events store runId =
     (case loadRun store runId of
        None \<Rightarrow> []
      | Some r \<Rightarrow>
          (case rr_status r of
             RunCompleted \<Rightarrow> [RunComplete (rr_output r)]
           | RunFailed \<Rightarrow> [RunFailedEvent (WorkflowError EStepFailed
               (case rr_error r of None \<Rightarrow> ''run terminal'' | Some m \<Rightarrow> m) (Some runId) None None None)]
           | RunCancelled \<Rightarrow> [RunFailedEvent (WorkflowError EStepFailed
               (case rr_error r of None \<Rightarrow> ''run terminal'' | Some m \<Rightarrow> m) (Some runId) None None None)]
           | _ \<Rightarrow> []))"

end
