(* ===== verification/Workflow_Run.thy ===== *)
theory Workflow_Run
  imports Workflow_Engine
begin

text \<open>
  Correctness of the workflow engine: what holds in every state a run can reach, whatever the tools,
  the pool, the clock and the operator do, and across restarts.
\<close>

section \<open>Observations of a run\<close>

definition rec_of :: "engine_run \<Rightarrow> string \<Rightarrow> step_record option" where
  "rec_of s i = map_of (er_steps s) i"

definition calls_of :: "engine_run \<Rightarrow> string \<Rightarrow> nat" where
  "calls_of s i = length (filter (\<lambda>c. fst c = i) (er_calls s))"

definition acquired :: "engine_run \<Rightarrow> string \<Rightarrow> nat" where
  "acquired s i = length (filter (\<lambda>l. l = (i, True)) (er_leases s))"

definition released :: "engine_run \<Rightarrow> string \<Rightarrow> nat" where
  "released s i = length (filter (\<lambda>l. l = (i, False)) (er_leases s))"

definition step_done :: "engine_run \<Rightarrow> string \<Rightarrow> json \<Rightarrow> bool" where
  "step_done s i v \<longleftrightarrow> (\<exists>r. rec_of s i = Some r \<and> sr_status r = StepCompleted \<and> sr_result r = v)"

definition completed_status :: "step_record option \<Rightarrow> bool" where
  "completed_status r = (case r of None \<Rightarrow> False | Some x \<Rightarrow> sr_status x = StepCompleted)"

lemma done_completed: "completed_status (rec_of s i) \<longleftrightarrow> (\<exists>v. step_done s i v)"
  by (auto simp: completed_status_def step_done_def split: option.splits)

definition allowed :: "wf_step \<Rightarrow> int" where
  "allowed st = (if idempotent st then retry_limit st else 1)"

lemma allowed_pos: "1 \<le> allowed st"
  by (simp add: allowed_def retry_limit_def)

lemma not_last: "1 \<le> sr_attempts r \<Longrightarrow> \<not> last_attempt st r \<Longrightarrow> sr_attempts r + 1 \<le> allowed st"
  by (simp add: last_attempt_def allowed_def)

section \<open>The memory of a run is what is stored\<close>

definition agree :: "engine_run \<Rightarrow> bool" where
  "agree s \<longleftrightarrow>
     plain_id (er_runId s) \<and> kinds_ok (er_store s) \<and>
     loadStep (er_store s) (er_runId s) = rec_of s \<and>
     loadDefinition (er_store s) (er_runId s) = Some (er_def s)"

lemma loads_delete [simp]:
  assumes "plain_id r" "starts_with k (eventPrefix r)"
  shows "loadStep (s\<lparr>wf_kv := kv_delete k (wf_kv s)\<rparr>) r = loadStep s r"
    "loadRun (s\<lparr>wf_kv := kv_delete k (wf_kv s)\<rparr>) r = loadRun s r"
    "loadDefinition (s\<lparr>wf_kv := kv_delete k (wf_kv s)\<rparr>) r = loadDefinition s r"
proof -
  have "k \<noteq> stepKey r i" "k \<noteq> runKey r" "k \<noteq> defKey r" for i using assms by auto
  then show "loadStep (s\<lparr>wf_kv := kv_delete k (wf_kv s)\<rparr>) r = loadStep s r"
    "loadRun (s\<lparr>wf_kv := kv_delete k (wf_kv s)\<rparr>) r = loadRun s r"
    "loadDefinition (s\<lparr>wf_kv := kv_delete k (wf_kv s)\<rparr>) r = loadDefinition s r"
    by (auto simp: load_defs fun_eq_iff)
qed

lemma loads_saveStep [simp]:
  assumes "plain_id r"
  shows "loadStep (saveStep r x s) r = (loadStep s r)(sr_stepId x := Some x)"
    "loadRun (saveStep r x s) r = loadRun s r" "loadDefinition (saveStep r x s) r = loadDefinition s r"
  using assms by (auto simp: load_defs saveStep_def fun_eq_iff)

lemma loads_saveRun [simp]:
  assumes "plain_id (rr_runId x)"
  shows "loadStep (saveRun x s) (rr_runId x) = loadStep s (rr_runId x)" "loadRun (saveRun x s) (rr_runId x) = Some x"
    "loadDefinition (saveRun x s) (rr_runId x) = loadDefinition s (rr_runId x)"
  using assms by (auto simp: load_defs saveRun_def fun_eq_iff)

lemma loads_append [simp]:
  assumes "plain_id (en_runId e)" "plain_id r"
  shows "loadStep (appendEvent e s) r = loadStep s r" "loadRun (appendEvent e s) r = loadRun s r"
    "loadDefinition (appendEvent e s) r = loadDefinition s r"
  using assms by (auto simp: load_defs append_get fun_eq_iff)

lemma loads_take [simp]:
  assumes "plain_id r"
  shows "loadStep (snd (takeEvent r ty s)) r = loadStep s r" "loadRun (snd (takeEvent r ty s)) r = loadRun s r"
    "loadDefinition (snd (takeEvent r ty s)) r = loadDefinition s r"
  using take_get assms by (auto simp: load_defs fun_eq_iff)

text \<open>What a step of the task \<open>i\<close> leaves alone.\<close>

definition keeps :: "string \<Rightarrow> engine_run \<Rightarrow> engine_run \<Rightarrow> bool" where
  "keeps i s s' \<longleftrightarrow>
     er_runId s' = er_runId s \<and> er_def s' = er_def s \<and> er_record s' = er_record s \<and> er_started s' = er_started s \<and>
     er_results s' = er_results s \<and> er_remaining s' = er_remaining s \<and> er_abort s' = er_abort s \<and>
     er_phase s' = er_phase s \<and>
     (agree s \<longrightarrow> agree s' \<and> loadRun (er_store s') (er_runId s) = loadRun (er_store s) (er_runId s)) \<and>
     (\<forall>j. j \<noteq> i \<longrightarrow> rec_of s' j = rec_of s j \<and> calls_of s' j = calls_of s j \<and>
        acquired s' j = acquired s j \<and> released s' j = released s j)"

lemma keeps_refl [simp]: "keeps i s s"
  by (simp add: keeps_def)

lemma keeps_trans: "keeps i s t \<Longrightarrow> keeps i t u \<Longrightarrow> keeps i s u"
  by (simp add: keeps_def)

lemma agree_cong:
  "er_runId s' = er_runId s \<Longrightarrow> er_def s' = er_def s \<Longrightarrow> er_store s' = er_store s \<Longrightarrow> er_steps s' = er_steps s \<Longrightarrow>
     agree s' = agree s"
  by (simp add: agree_def rec_of_def [abs_def])

lemma send_simps [simp]:
  "rec_of (send ev s) = rec_of s" "calls_of (send ev s) = calls_of s" "acquired (send ev s) = acquired s"
  "released (send ev s) = released s" "er_store (send ev s) = er_store s" "er_runId (send ev s) = er_runId s"
  "er_results (send ev s) = er_results s" "er_calls (send ev s) = er_calls s" "er_abort (send ev s) = er_abort s"
  "er_def (send ev s) = er_def s" "er_started (send ev s) = er_started s" "er_record (send ev s) = er_record s"
  "er_remaining (send ev s) = er_remaining s" "er_phase (send ev s) = er_phase s" "er_steps (send ev s) = er_steps s"
  "er_leases (send ev s) = er_leases s"
  by (simp_all add: send_def rec_of_def calls_of_def acquired_def released_def fun_eq_iff)

lemma agree_send [simp]: "agree (send ev s) = agree s"
  by (rule agree_cong) simp_all

lemma keeps_send: "keeps i s (send ev s)"
  by (simp add: keeps_def)

lemma save_simps [simp]:
  "rec_of (save_step r s) = (rec_of s)(sr_stepId r := Some r)" "calls_of (save_step r s) = calls_of s"
  "acquired (save_step r s) = acquired s" "released (save_step r s) = released s"
  "er_results (save_step r s) = er_results s" "er_calls (save_step r s) = er_calls s" "er_abort (save_step r s) = er_abort s"
  "er_runId (save_step r s) = er_runId s" "er_def (save_step r s) = er_def s" "er_started (save_step r s) = er_started s"
  "er_record (save_step r s) = er_record s" "er_remaining (save_step r s) = er_remaining s"
  "er_phase (save_step r s) = er_phase s" "er_leases (save_step r s) = er_leases s"
  "er_store (save_step r s) = saveStep (er_runId s) r (er_store s)"
  by (auto simp: save_step_def rec_of_def calls_of_def acquired_def released_def fun_eq_iff update_conv)

lemma agree_save: "agree s \<Longrightarrow> agree (save_step r s)"
  by (simp add: agree_def kinds_saves)

lemma keeps_save: "sr_stepId r = i \<Longrightarrow> keeps i s (save_step r s)"
  by (auto simp: keeps_def agree_save) (simp add: agree_def)

section \<open>One step\<close>

fun take_keys :: "take_state \<Rightarrow> string set" where
  "take_keys (TakeScan ks) = set ks"
| "take_keys (TakeGot k e ks) = insert k (set ks)"
| "take_keys (TakeDone e) = {}"

definition idle :: "engine_run \<Rightarrow> string \<Rightarrow> bool" where
  "idle s i \<longleftrightarrow> calls_of s i = 0 \<and> acquired s i = 0 \<and> released s i = 0"

definition leased :: "engine_run \<Rightarrow> string \<Rightarrow> bool" where
  "leased s i \<longleftrightarrow> acquired s i = 1 \<and> released s i = 0"

definition returned :: "engine_run \<Rightarrow> wf_step \<Rightarrow> bool" where
  "returned s st \<longleftrightarrow>
     acquired s (ws_id st) = released s (ws_id st) \<and> acquired s (ws_id st) \<le> 1 \<and> int (calls_of s (ws_id st)) \<le> allowed st"

text \<open>The attempt \<open>r\<close> of a step is on record, and \<open>n\<close> calls have been made.\<close>

definition attempting :: "engine_run \<Rightarrow> wf_step \<Rightarrow> step_record \<Rightarrow> int \<Rightarrow> bool" where
  "attempting s st r n \<longleftrightarrow>
     leased s (ws_id st) \<and> sr_stepId r = ws_id st \<and> 1 \<le> sr_attempts r \<and> sr_attempts r \<le> allowed st \<and>
     int (calls_of s (ws_id st)) = n"

definition args_now :: "engine_run \<Rightarrow> wf_step \<Rightarrow> json \<Rightarrow> bool" where
  "args_now s st args \<longleftrightarrow> args = resolveRefs (ws_args st) (er_results s)"

fun task_ok :: "engine_run \<Rightarrow> wf_step \<Rightarrow> task \<Rightarrow> bool" where
  "task_ok s st (Deferring ev) = (deferred_status (rec_of s (ws_id st)) \<and> idle s (ws_id st))"
| "task_ok s st (Taking ty t) =
     (\<not> completed_status (rec_of s (ws_id st)) \<and> idle s (ws_id st) \<and>
      (\<forall>k \<in> take_keys t. starts_with k (eventPrefix (er_runId s))))"
| "task_ok s st (EventTaken v) = (step_done s (ws_id st) v \<and> idle s (ws_id st))"
| "task_ok s st Acquiring = (\<not> completed_status (rec_of s (ws_id st)) \<and> idle s (ws_id st))"
| "task_ok s st (Starting r args) =
     (rec_of s (ws_id st) = Some r \<and> sr_status r = StepRunning \<and> attempting s st r (sr_attempts r - 1) \<and> args_now s st args)"
| "task_ok s st (Calling r args) =
     (rec_of s (ws_id st) = Some r \<and> sr_status r = StepRunning \<and> attempting s st r (sr_attempts r) \<and> args_now s st args)"
| "task_ok s st (Completing r v) = (step_done s (ws_id st) v \<and> attempting s st r (sr_attempts r))"
| "task_ok s st (Failing inside r args e) =
     (\<not> completed_status (rec_of s (ws_id st)) \<and> attempting s st r (sr_attempts r) \<and> last_attempt st r \<and>
      (inside \<longrightarrow> \<not> is_cancelled e))"
| "task_ok s st (BackingOff r args) =
     (rec_of s (ws_id st) = Some r \<and> sr_status r = StepRunning \<and> attempting s st r (sr_attempts r) \<and>
      \<not> last_attempt st r \<and> args_now s st args)"
| "task_ok s st (Settled (Inl e)) = (\<not> completed_status (rec_of s (ws_id st)) \<and> returned s st)"
| "task_ok s st (Settled (Inr None)) = (deferred_status (rec_of s (ws_id st)) \<and> idle s (ws_id st))"
| "task_ok s st (Settled (Inr (Some v))) = (step_done s (ws_id st) v \<and> returned s st)"

text \<open>What one block of the task of \<open>st\<close> may do: it leaves the rest of the run alone, never undoes a
  completed record, and calls only its own tool, with the arguments of its step resolved.\<close>

definition moves :: "wf_step \<Rightarrow> engine_run \<Rightarrow> engine_run \<Rightarrow> bool" where
  "moves st s s' \<longleftrightarrow>
     keeps (ws_id st) s s' \<and> (\<forall>v. step_done s (ws_id st) v \<longrightarrow> step_done s' (ws_id st) v) \<and>
     (\<forall>c \<in> set (er_calls s'). c \<in> set (er_calls s) \<or>
        (\<exists>args. c = (ws_id st, ws_toolName st, args) \<and> args_now s st args))"

lemma moves_refl [simp]: "moves st s s"
  by (simp add: moves_def)

lemma moves_trans: "moves st s t \<Longrightarrow> moves st t u \<Longrightarrow> moves st s u"
  unfolding moves_def using keeps_trans [of "ws_id st" s t u] by (fastforce simp: args_now_def keeps_def)

lemma moves_send [simp]: "moves st s (send ev s)"
  by (simp add: moves_def keeps_send step_done_def)

lemma moves_save:
  "sr_stepId r = ws_id st \<Longrightarrow> \<not> completed_status (rec_of s (ws_id st)) \<or> rec_of s (ws_id st) = Some r \<Longrightarrow>
     moves st s (save_step r s)"
  unfolding moves_def using keeps_save [of r "ws_id st" s] done_completed [of s "ws_id st"]
  by (auto simp: step_done_def)

lemma lease_simps [simp]:
  "rec_of (s\<lparr>er_leases := l\<rparr>) = rec_of s" "calls_of (s\<lparr>er_leases := l\<rparr>) = calls_of s"
  "step_done (s\<lparr>er_leases := l\<rparr>) = step_done s"
  by (simp_all add: rec_of_def calls_of_def step_done_def fun_eq_iff)

lemma lease_counts:
  "acquired (s\<lparr>er_leases := er_leases s @ [(i, b)]\<rparr>) j = acquired s j + (if j = i \<and> b then 1 else 0)"
  "released (s\<lparr>er_leases := er_leases s @ [(i, b)]\<rparr>) j = released s j + (if j = i \<and> \<not> b then 1 else 0)"
  by (auto simp: acquired_def released_def)

lemma agree_lease [simp]: "agree (s\<lparr>er_leases := l\<rparr>) = agree s"
  by (rule agree_cong) simp_all

lemma moves_lease: "moves st s (s\<lparr>er_leases := er_leases s @ [(ws_id st, b)]\<rparr>)"
  by (simp add: moves_def keeps_def lease_counts)

lemma moves_release: "moves st s (release_lease st s)"
  unfolding release_lease_def by (rule moves_lease)

lemma release_simps [simp]:
  "rec_of (release_lease st s) = rec_of s" "calls_of (release_lease st s) = calls_of s"
  "step_done (release_lease st s) = step_done s"
  "acquired (release_lease st s) i = acquired s i"
  "released (release_lease st s) i = released s i + (if i = ws_id st then 1 else 0)"
  by (simp_all add: release_lease_def lease_counts)

lemma send_done [simp]: "step_done (send ev s) = step_done s"
  by (simp add: step_done_def fun_eq_iff)

lemma call_simps [simp]:
  "rec_of (s\<lparr>er_calls := cs\<rparr>) = rec_of s" "acquired (s\<lparr>er_calls := cs\<rparr>) = acquired s"
  "released (s\<lparr>er_calls := cs\<rparr>) = released s" "step_done (s\<lparr>er_calls := cs\<rparr>) = step_done s"
  by (simp_all add: rec_of_def acquired_def released_def step_done_def fun_eq_iff)

lemma agree_calls [simp]: "agree (s\<lparr>er_calls := cs\<rparr>) = agree s"
  by (rule agree_cong) simp_all

lemma calls_snoc: "calls_of (s\<lparr>er_calls := er_calls s @ [c]\<rparr>) i = calls_of s i + (if fst c = i then 1 else 0)"
  by (simp add: calls_of_def)

lemma moves_call: "args_now s st args \<Longrightarrow> moves st s (s\<lparr>er_calls := er_calls s @ [(ws_id st, ws_toolName st, args)]\<rparr>)"
  by (auto simp: moves_def keeps_def calls_snoc)

definition advances :: "wf_step \<Rightarrow> engine_run \<Rightarrow> task \<times> engine_run \<Rightarrow> bool" where
  "advances st s out \<longleftrightarrow> moves st s (snd out) \<and> task_ok (snd out) st (fst out)"

lemma advancesI: "moves st s s' \<Longrightarrow> task_ok s' st t \<Longrightarrow> advances st s (t, s')"
  by (simp add: advances_def)

lemma advances_trans: "moves st s s' \<Longrightarrow> advances st s' out \<Longrightarrow> advances st s out"
  unfolding advances_def using moves_trans by blast

lemma save_done: "sr_stepId r = i \<Longrightarrow> sr_status r = StepCompleted \<Longrightarrow> step_done (save_step r s) i (sr_result r)"
  by (auto simp: step_done_def)

lemma record_simps [simp]:
  "sr_stepId (blank_step i status k now) = i" "sr_status (blank_step i status k now) = status"
  "sr_attempts (blank_step i status k now) = k"
  "sr_stepId (complete_step now v r) = sr_stepId r" "sr_status (complete_step now v r) = StepCompleted"
  "sr_result (complete_step now v r) = v" "sr_attempts (complete_step now v r) = sr_attempts r"
  "sr_stepId (fail_record now e r) = sr_stepId r" "sr_status (fail_record now e r) = StepFailed"
  by (simp_all add: blank_step_def complete_step_def fail_record_def)

lemma status_some [simp]:
  "completed_status (Some r) = (sr_status r = StepCompleted)"
  "deferred_status (Some r) = (sr_status r = StepSleeping \<or> sr_status r = StepWaiting)"
  by (simp_all add: completed_status_def deferred_status_def)

lemma idle_save [simp]: "idle (save_step r s) = idle s"
  by (simp add: idle_def fun_eq_iff)

lemma leased_simps [simp]:
  "leased (save_step r s) = leased s" "leased (send ev s) = leased s" "leased (s\<lparr>er_calls := cs\<rparr>) = leased s"
  by (simp_all add: leased_def fun_eq_iff)

lemma attempting_simps [simp]:
  "attempting (save_step r' s) = attempting s" "attempting (send ev s) = attempting s"
  by (simp_all add: attempting_def fun_eq_iff)

lemma args_simps [simp]:
  "args_now (save_step r s) = args_now s" "args_now (send ev s) = args_now s" "args_now (s\<lparr>er_calls := cs\<rparr>) = args_now s"
  "args_now (s\<lparr>er_leases := ls\<rparr>) = args_now s"
  by (simp_all add: args_now_def fun_eq_iff)

lemma start_advances:
  assumes "\<not> completed_status (rec_of s (ws_id st))" "idle s (ws_id st)"
  shows "advances st s (start_task num now st s)"
proof -
  let ?i = "ws_id st"
  have ret: "returned s st" using assms(2) allowed_pos [of st] by (simp add: idle_def returned_def)
  consider (abort) "er_abort s \<noteq> None"
    | (sleep) "er_abort s = None" "ws_toolName st = ''$sleep''"
    | (wait) "er_abort s = None" "ws_toolName st \<noteq> ''$sleep''" "ws_toolName st = ''$waitForEvent''"
    | (tool) "er_abort s = None" "ws_toolName st \<noteq> ''$sleep''" "ws_toolName st \<noteq> ''$waitForEvent''" by blast
  then show ?thesis
  proof cases
    case abort
    then show ?thesis using ret assms(1) by (simp add: start_task_def advances_def)
  next
    case sleep
    then show ?thesis using assms by (auto simp: start_task_def Let_def advances_def intro!: moves_save)
  next
    case wait
    have k: "starts_with k (eventPrefix (er_runId s))" if "k \<in> take_keys (take_begin (er_store s) (er_runId s))" for k
      using that by (simp add: take_begin_def mem.listing_exact)
    show ?thesis using wait assms ret k by (auto simp: start_task_def Let_def advances_def)
  next
    case tool
    then show ?thesis using assms by (auto simp: start_task_def advances_def idle_def split: option.splits)
  qed
qed

lemma begin_advances:
  assumes "\<not> completed_status (rec_of s (ws_id st))" "leased s (ws_id st)" "args_now s st args"
    and "int (calls_of s (ws_id st)) = k - 1" "1 \<le> k" "k \<le> allowed st"
  shows "advances st s (begin_attempt now st k args s)"
proof (cases "er_abort s = None")
  case False
  then show ?thesis using assms moves_release
    by (auto simp: begin_attempt_def advances_def returned_def leased_def)
next
  case True
  then show ?thesis using assms
    by (auto simp: begin_attempt_def Let_def attempting_def intro!: advancesI moves_save)
qed

lemma catch_advances:
  assumes "\<not> completed_status (rec_of s (ws_id st))" "attempting s st r (sr_attempts r)"
    and "last_attempt st r \<or> rec_of s (ws_id st) = Some r \<and> sr_status r = StepRunning \<and> args_now s st args"
  shows "advances st s (catch_error now st r args e s)"
proof -
  have r: "sr_stepId r = ws_id st" using assms(2) by (simp add: attempting_def)
  consider (cancel) "is_cancelled e" | (last) "\<not> is_cancelled e" "last_attempt st r"
    | (retry) "\<not> is_cancelled e" "\<not> last_attempt st r" by blast
  then show ?thesis
  proof cases
    case cancel
    then show ?thesis using assms moves_release
      by (auto simp: catch_error_def advances_def returned_def attempting_def leased_def)
  next
    case last
    then show ?thesis using assms r
      by (auto simp: catch_error_def Let_def attempting_def intro!: advancesI moves_save)
  next
    case retry
    then show ?thesis using assms by (auto simp: catch_error_def intro!: advancesI)
  qed
qed

lemma returned_advances:
  assumes "rec_of s (ws_id st) = Some r" "sr_status r = StepRunning" "attempting s st r (sr_attempts r)" "args_now s st args"
  shows "advances st s (tool_returned now st r args res s)"
proof -
  have r: "sr_stepId r = ws_id st" using assms(3) by (simp add: attempting_def)
  obtain out err where res: "res = ToolResult out err" by (cases res)
  show ?thesis
  proof (cases err)
    case None
    have "step_done (save_step (complete_step now out r) s) (ws_id st) out"
      using save_done [of "complete_step now out r" "ws_id st" s] r by simp
    then show ?thesis using assms r res None
      by (auto simp: tool_returned_def attempting_def intro!: advancesI moves_save)
  next
    case (Some e)
    then show ?thesis using assms r res
      by (cases e; cases "last_attempt st r")
        (auto simp: tool_returned_def Let_def attempting_def intro!: advancesI moves_save)
  qed
qed

lemma store_simps [simp]:
  "rec_of (s\<lparr>er_store := x\<rparr>) = rec_of s" "calls_of (s\<lparr>er_store := x\<rparr>) = calls_of s"
  "acquired (s\<lparr>er_store := x\<rparr>) = acquired s" "released (s\<lparr>er_store := x\<rparr>) = released s"
  "step_done (s\<lparr>er_store := x\<rparr>) = step_done s" "idle (s\<lparr>er_store := x\<rparr>) = idle s"
  by (simp_all add: rec_of_def calls_of_def acquired_def released_def step_done_def idle_def fun_eq_iff)

lemma take_cases:
  assumes "take_step ty t s = (t', s')"
  obtains "s' = s" "take_keys t' \<subseteq> take_keys t" | k e where "k \<in> take_keys t" "t' = TakeDone (Some e)" "s' = s\<lparr>wf_kv := kv_delete k (wf_kv s)\<rparr>"
proof -
  have n: "take_keys (take_next ks s) \<subseteq> set ks" for ks by (cases ks) auto
  show thesis
    using assms that n by (cases "(ty, t, s)" rule: take_step.cases) (auto split: option.splits if_splits)
qed

lemma moves_take:
  assumes "take_step ty t (er_store s) = (t', store)" "\<forall>k \<in> take_keys t. starts_with k (eventPrefix (er_runId s))"
  shows "moves st s (s\<lparr>er_store := store\<rparr>)" "\<forall>k \<in> take_keys t'. starts_with k (eventPrefix (er_runId s))"
proof -
  have "agree (s\<lparr>er_store := store\<rparr>) \<and> loadRun store (er_runId s) = loadRun (er_store s) (er_runId s)" if "agree s"
  proof -
    have p: "plain_id (er_runId s)" using that by (simp add: agree_def)
    show ?thesis using assms(1)
    proof (cases rule: take_cases)
      case (2 k e)
      then have k: "starts_with k (eventPrefix (er_runId s))" using assms(2) by blast
      show ?thesis using that kinds_delete p k unfolding agree_def 2(3) by auto
    qed (use that in auto)
  qed
  then show "moves st s (s\<lparr>er_store := store\<rparr>)" by (simp add: moves_def keeps_def)
  show "\<forall>k \<in> take_keys t'. starts_with k (eventPrefix (er_runId s))"
    using assms(1) by (cases rule: take_cases) (use assms(2) in auto)
qed

lemma take_advances:
  assumes "\<not> completed_status (rec_of s (ws_id st))" "idle s (ws_id st)"
    "\<forall>k \<in> take_keys t. starts_with k (eventPrefix (er_runId s))"
  shows "advances st s (take_answer now st ty t s)"
proof (cases t)
  case (TakeDone r)
  then show ?thesis
  proof (cases r)
    case None
    then show ?thesis using TakeDone assms by (auto simp: take_answer_def intro!: advancesI moves_save)
  next
    case (Some e)
    have "step_done (save_step (complete_step now (en_payload e) (blank_step (ws_id st) StepPending 1 now)) s) (ws_id st) (en_payload e)"
      using save_done [of "complete_step now (en_payload e) (blank_step (ws_id st) StepPending 1 now)" "ws_id st" s] by simp
    then show ?thesis using TakeDone Some assms by (auto simp: take_answer_def intro!: advancesI moves_save)
  qed
qed (use assms in \<open>auto simp: take_answer_def advances_def\<close>)

lemma task_advances:
  assumes "task_ok s st t"
  shows "advances st s (task_step now st t reply s)"
proof -
  have stay: ?thesis if "task_step now st t reply s = (t, s)" using that assms by (simp add: advances_def)
  show ?thesis
  proof (cases t)
    case (Deferring ev)
    then show ?thesis using assms stay by (cases reply) (auto simp: task_step_def advances_def idle_def)
  next
    case (Taking ty ts)
    show ?thesis
    proof (cases "reply = Resumed")
      case True
      obtain ts' store where tk: "take_step ty ts (er_store s) = (ts', store)" by fastforce
      have "\<forall>k \<in> take_keys ts. starts_with k (eventPrefix (er_runId s))" using assms Taking by simp
      note m = moves_take(1) [OF tk this, of st] moves_take(2) [OF tk this]
      have "advances st (s\<lparr>er_store := store\<rparr>) (take_answer now st ty ts' (s\<lparr>er_store := store\<rparr>))"
        using take_advances [of "s\<lparr>er_store := store\<rparr>" st ts' now ty] assms Taking m(2) by simp
      then show ?thesis using advances_trans [OF m(1)] Taking True tk by (simp add: task_step_def)
    next
      case False
      then show ?thesis using Taking stay by (cases reply) (auto simp: task_step_def)
    qed
  next
    case (EventTaken v)
    then show ?thesis using assms stay allowed_pos [of st]
      by (cases reply) (auto simp: task_step_def advances_def returned_def idle_def)
  next
    case Acquiring
    let ?s = "s\<lparr>er_leases := er_leases s @ [(ws_id st, True)]\<rparr>"
    have "leased ?s (ws_id st)" using assms Acquiring by (simp add: leased_def lease_counts idle_def)
    moreover have "calls_of ?s (ws_id st) = 0" using assms Acquiring by (simp add: idle_def)
    ultimately have "advances st ?s (begin_attempt now st 1 (resolveRefs (ws_args st) (er_results s)) ?s)"
      using assms Acquiring allowed_pos [of st] by (intro begin_advances) (simp_all add: args_now_def)
    then have "advances st s (begin_attempt now st 1 (resolveRefs (ws_args st) (er_results s)) ?s)"
      by (rule advances_trans [OF moves_lease])
    then show ?thesis using Acquiring assms stay allowed_pos [of st]
      by (cases reply) (auto simp: task_step_def advances_def returned_def idle_def)
  next
    case (Starting r args)
    let ?s = "(send (StepStart (ws_id st) (sr_attempts r)) s)\<lparr>er_calls := er_calls s @ [(ws_id st, ws_toolName st, args)]\<rparr>"
    have "moves st (send (StepStart (ws_id st) (sr_attempts r)) s) ?s"
      using moves_call [of "send (StepStart (ws_id st) (sr_attempts r)) s" st args] assms Starting by simp
    then have "moves st s ?s" by (rule moves_trans [OF moves_send])
    moreover have "calls_of ?s (ws_id st) = calls_of s (ws_id st) + 1" by (simp add: calls_of_def)
    then have "task_ok ?s st (Calling r args)" using assms Starting by (auto simp: attempting_def)
    ultimately show ?thesis using Starting stay by (cases reply) (auto simp: task_step_def advances_def)
  next
    case (Calling r args)
    then show ?thesis using assms stay catch_advances [of s st r args now] returned_advances [of s st r args now]
      by (cases reply) (auto simp: task_step_def split: option.splits)
  next
    case (Completing r v)
    then show ?thesis using assms stay moves_trans [OF moves_send moves_release]
      by (cases reply) (auto simp: task_step_def advances_def returned_def attempting_def leased_def)
  next
    case (Failing inside r args e)
    let ?s = "send (StepFailedEvent (ws_id st) e False) s"
    have "advances st ?s (catch_error now st r args e ?s)"
      using assms Failing by (intro catch_advances) auto
    then have c: "advances st s (catch_error now st r args e ?s)" by (rule advances_trans [OF moves_send])
    show ?thesis using assms Failing stay c moves_trans [OF moves_send moves_release]
      by (cases reply) (auto simp: task_step_def Let_def advances_def returned_def attempting_def leased_def)
  next
    case (BackingOff r args)
    have "advances st s (begin_attempt now st (sr_attempts r + 1) args s)"
      using assms BackingOff not_last [of r st] by (intro begin_advances) (auto simp: attempting_def)
    then show ?thesis using BackingOff stay by (cases reply) (auto simp: task_step_def)
  next
    case (Settled r)
    then show ?thesis using stay by (simp add: task_step_def)
  qed
qed

section \<open>The invariant of a run\<close>

definition steps_of :: "engine_run \<Rightarrow> wf_step list" where
  "steps_of s = wd_steps (er_def s)"

definition step_ids :: "engine_run \<Rightarrow> string set" where
  "step_ids s = ws_id ` set (steps_of s)"

text \<open>A call is the tool of a step on its arguments, with results of completed steps put in for the
  references, and every dependency among them.\<close>

definition call_ok :: "engine_run \<Rightarrow> string \<times> string \<times> json \<Rightarrow> bool" where
  "call_ok s c \<longleftrightarrow>
     (\<exists>st \<in> set (steps_of s). \<exists>m. c = (ws_id st, ws_toolName st, resolveRefs (ws_args st) m) \<and>
        (\<forall>k v. map_of m k = Some v \<longrightarrow> step_done s k v) \<and> (\<forall>d \<in> set (ws_dependsOn st). map_of m d \<noteq> None))"

text \<open>In every phase: \<open>base\<close> are the records that were completed when the run was launched.\<close>

definition common :: "(string \<Rightarrow> step_record option) \<Rightarrow> engine_run \<Rightarrow> bool" where
  "common base s \<longleftrightarrow>
     agree s \<and> distinct (map ws_id (steps_of s)) \<and>
     rr_runId (er_started s) = er_runId s \<and> rr_runId (er_record s) = er_runId s \<and> rr_status (er_started s) = RunRunning \<and>
     (\<forall>i r. base i = Some r \<longrightarrow> sr_status r = StepCompleted \<and> rec_of s i = Some r \<and> calls_of s i = 0) \<and>
     (\<forall>c \<in> set (er_calls s). call_ok s c) \<and>
     (\<forall>i. completed_status (rec_of s i) \<longrightarrow> i \<in> step_ids s)"

definition wave_ids :: "(wf_step \<times> task) list \<Rightarrow> string set" where
  "wave_ids ts = (\<lambda>(st, t). ws_id st) ` set ts"

definition results_ok :: "(string \<Rightarrow> step_record option) \<Rightarrow> engine_run \<Rightarrow> bool" where
  "results_ok base s \<longleftrightarrow>
     distinct (map fst (er_results s)) \<and> (\<forall>i v. map_of (er_results s) i = Some v \<longrightarrow> step_done s i v) \<and>
     (\<forall>i. base i \<noteq> None \<longrightarrow> map_of (er_results s) i \<noteq> None) \<and>
     (\<forall>st \<in> set (steps_of s). \<exists>ds. map_of (er_remaining s) (ws_id st) = Some ds \<and>
        set ds = {d \<in> set (ws_dependsOn st). map_of (er_results s) d = None})"

text \<open>Steps that are not in the wave have returned with a result, or have not been touched.\<close>

definition rest_ok :: "string set \<Rightarrow> engine_run \<Rightarrow> bool" where
  "rest_ok X s \<longleftrightarrow>
     (\<forall>st \<in> set (steps_of s). ws_id st \<notin> X \<longrightarrow>
        (case map_of (er_results s) (ws_id st) of
           None \<Rightarrow> \<not> completed_status (rec_of s (ws_id st)) \<and> idle s (ws_id st)
         | Some v \<Rightarrow> returned s st))"

definition member_ok :: "engine_run \<Rightarrow> wf_step \<Rightarrow> bool" where
  "member_ok s st \<longleftrightarrow>
     st \<in> set (steps_of s) \<and> map_of (er_results s) (ws_id st) = None \<and>
     (\<forall>d \<in> set (ws_dependsOn st). map_of (er_results s) d \<noteq> None)"

definition wave_ok :: "engine_run \<Rightarrow> (wf_step \<times> task) list \<Rightarrow> bool" where
  "wave_ok s ts \<longleftrightarrow>
     distinct (map (\<lambda>(st, t). ws_id st) ts) \<and> (\<forall>(st, t) \<in> set ts. member_ok s st \<and> task_ok s st t)"

definition active_but :: "string set \<Rightarrow> (string \<Rightarrow> step_record option) \<Rightarrow> engine_run \<Rightarrow> (wf_step \<times> task) list \<Rightarrow> bool" where
  "active_but X base s ts \<longleftrightarrow>
     common base s \<and> results_ok base s \<and> rest_ok (wave_ids ts \<union> X) s \<and> wave_ok s ts \<and> wave_ids ts \<inter> X = {} \<and>
     loadRun (er_store s) (er_runId s) = Some (er_started s)"

abbreviation active :: "(string \<Rightarrow> step_record option) \<Rightarrow> engine_run \<Rightarrow> (wf_step \<times> task) list \<Rightarrow> bool" where
  "active \<equiv> active_but {}"

lemma wave_ids_in: "(st, t) \<in> set ts \<Longrightarrow> ws_id st \<in> wave_ids ts"
  by (force simp: wave_ids_def)

lemma wave_ids_simps [simp]:
  "wave_ids [] = {}" "wave_ids ((st, t) # ts) = insert (ws_id st) (wave_ids ts)" "wave_ids (us @ ts) = wave_ids us \<union> wave_ids ts"
  by (auto simp: wave_ids_def)

lemma moves_done: "moves st s s' \<Longrightarrow> step_done s k v \<Longrightarrow> step_done s' k v"
  unfolding moves_def keeps_def step_done_def by (cases "k = ws_id st") auto

lemma call_ok_mono:
  assumes "call_ok s c" "er_def s' = er_def s" "\<And>k v. step_done s k v \<Longrightarrow> step_done s' k v"
  shows "call_ok s' c"
proof -
  from assms(1) obtain st m where "st \<in> set (steps_of s)" "c = (ws_id st, ws_toolName st, resolveRefs (ws_args st) m)"
    "\<forall>k v. map_of m k = Some v \<longrightarrow> step_done s k v" "\<forall>d \<in> set (ws_dependsOn st). map_of m d \<noteq> None"
    unfolding call_ok_def by blast
  then show ?thesis using assms(2,3) unfolding call_ok_def steps_of_def by (intro bexI [of _ st] exI [of _ m]) auto
qed

text \<open>The parts of a run another task does not change.\<close>

lemma other_task:
  assumes "keeps i s s'" "j \<noteq> i"
  shows "rec_of s' j = rec_of s j" "idle s' j = idle s j" "leased s' j = leased s j" "step_done s' j v = step_done s j v"
    "calls_of s' j = calls_of s j" "acquired s' j = acquired s j" "released s' j = released s j"
  using assms by (simp_all add: keeps_def idle_def leased_def step_done_def)

lemma other_task_ok:
  assumes "keeps i s s'" "ws_id st \<noteq> i"
  shows "task_ok s' st t = task_ok s st t" "returned s' st = returned s st"
proof -
  note o = other_task [OF assms]
  have k: "er_results s' = er_results s" "er_runId s' = er_runId s" using assms(1) by (simp_all add: keeps_def)
  show r: "returned s' st = returned s st" by (simp add: returned_def o)
  have "attempting s' st r n = attempting s st r n" "args_now s' st a = args_now s st a" for r n a
    by (simp_all add: attempting_def args_now_def o k)
  then show "task_ok s' st t = task_ok s st t"
    by (cases "(s, st, t)" rule: task_ok.cases) (simp_all add: o k r)
qed

lemma moves_active:
  assumes a: "active_but {ws_id st} base s ts" and m: "moves st s s'"
    and st: "st \<in> set (steps_of s)" "map_of (er_results s) (ws_id st) = None"
    and new: "er_calls s' = er_calls s \<or> (\<forall>d \<in> set (ws_dependsOn st). map_of (er_results s) d \<noteq> None)"
  shows "active_but {ws_id st} base s' ts"
proof -
  let ?i = "ws_id st"
  have k: "keeps ?i s s'" using m by (simp add: moves_def)
  have same: "er_runId s' = er_runId s" "er_def s' = er_def s" "er_record s' = er_record s" "er_started s' = er_started s"
    "er_results s' = er_results s" "er_remaining s' = er_remaining s" using k by (simp_all add: keeps_def)
  have ag: "agree s" using a by (simp add: active_but_def common_def)
  note o = other_task [OF k]
  have base: "base ?i = None" using a st by (auto simp: active_but_def results_ok_def)
  have calls: "call_ok s' c" if "c \<in> set (er_calls s')" for c
  proof -
    from m that new consider "c \<in> set (er_calls s)"
      | args where "c = (ws_id st, ws_toolName st, args)" "args_now s st args"
          "\<forall>d \<in> set (ws_dependsOn st). map_of (er_results s) d \<noteq> None"
      unfolding moves_def by metis
    then have "call_ok s c"
    proof cases
      case 2
      have "call_ok s (ws_id st, ws_toolName st, resolveRefs (ws_args st) (er_results s))"
        unfolding call_ok_def using st a 2(3)
        by (intro bexI [of _ st] exI [of _ "er_results s"]) (auto simp: active_but_def results_ok_def)
      then show ?thesis using 2 by (simp add: args_now_def)
    qed (use a in \<open>auto simp: active_but_def common_def\<close>)
    then show ?thesis by (rule call_ok_mono [OF _ same(2) moves_done [OF m]])
  qed
  have "rec_of s' i = Some r \<and> calls_of s' i = 0" if "base i = Some r" for i r
    using that base o(1,5) [of i] a by (cases "i = ?i") (auto simp: active_but_def common_def)
  moreover have "i \<in> step_ids s'" if "completed_status (rec_of s' i)" for i
    using that o(1) [of i] a st by (cases "i = ?i") (auto simp: active_but_def common_def step_ids_def steps_of_def same)
  ultimately have "common base s'"
    using a calls k ag unfolding common_def by (auto simp: active_but_def common_def same steps_of_def keeps_def)
  moreover have "results_ok base s'"
    using a moves_done [OF m] unfolding results_ok_def by (auto simp: active_but_def results_ok_def same steps_of_def)
  moreover have "rest_ok (wave_ids ts \<union> {?i}) s'"
    unfolding rest_ok_def
  proof (intro ballI impI)
    fix x assume x: "x \<in> set (steps_of s')" "ws_id x \<notin> wave_ids ts \<union> {?i}"
    then have "case map_of (er_results s) (ws_id x) of
           None \<Rightarrow> \<not> completed_status (rec_of s (ws_id x)) \<and> idle s (ws_id x) | Some v \<Rightarrow> returned s x"
      using a by (simp add: active_but_def rest_ok_def steps_of_def same)
    then show "case map_of (er_results s') (ws_id x) of
           None \<Rightarrow> \<not> completed_status (rec_of s' (ws_id x)) \<and> idle s' (ws_id x) | Some v \<Rightarrow> returned s' x"
      using x(2) o [of "ws_id x"] other_task_ok(2) [OF k, of x] by (simp add: same split: option.splits)
  qed
  moreover have "wave_ok s' ts"
  proof -
    have "member_ok s' x \<and> task_ok s' x t" if "(x, t) \<in> set ts" for x t
    proof -
      have "ws_id x \<noteq> ?i" using a wave_ids_in [OF that] by (auto simp: active_but_def)
      then show ?thesis using a that other_task_ok(1) [OF k, of x t]
        by (auto simp: active_but_def wave_ok_def member_ok_def steps_of_def same)
    qed
    then show ?thesis using a by (auto simp: active_but_def wave_ok_def)
  qed
  moreover have "loadRun (er_store s') (er_runId s') = Some (er_started s')"
    using a k ag by (simp add: active_but_def keeps_def same)
  ultimately show "active_but {?i} base s' ts" using a by (simp add: active_but_def)
qed

text \<open>Taking the task of a step out of the wave, and putting one in.\<close>

lemma active_out:
  assumes "active base s (us @ (st, t) # vs)"
  shows "active_but {ws_id st} base s (us @ vs)" "member_ok s st" "task_ok s st t"
proof -
  have d: "distinct (map (\<lambda>(st, t). ws_id st) (us @ (st, t) # vs))" using assms by (simp add: active_but_def wave_ok_def)
  then have n: "ws_id st \<notin> wave_ids (us @ vs)" by (simp add: wave_ids_def image_Un)
  have w: "wave_ids (us @ (st, t) # vs) = wave_ids (us @ vs) \<union> {ws_id st}" by auto
  have "wave_ok s (us @ vs)" using assms d by (simp add: active_but_def wave_ok_def)
  then show "active_but {ws_id st} base s (us @ vs)"
    using assms n unfolding active_but_def w by (simp only: Un_empty_right Int_insert_right_if0 Int_empty_right simp_thms)
  show "member_ok s st" "task_ok s st t" using assms by (auto simp: active_but_def wave_ok_def)
qed

lemma active_in:
  assumes "active_but {ws_id st} base s (us @ vs)" "member_ok s st" "task_ok s st t"
  shows "active base s (us @ (st, t) # vs)"
proof -
  have "ws_id st \<notin> wave_ids (us @ vs)" using assms(1) by (simp add: active_but_def)
  then have "wave_ok s (us @ (st, t) # vs)"
    using assms by (auto simp: active_but_def wave_ok_def wave_ids_def)
  moreover have "wave_ids (us @ (st, t) # vs) = wave_ids (us @ vs) \<union> {ws_id st}" by auto
  ultimately show ?thesis using assms(1) by (simp add: active_but_def)
qed

lemma advance_in:
  assumes "active_but {ws_id st} base s (us @ vs)" "member_ok s st" "advances st s (t, s')"
  shows "active base s' (us @ (st, t) # vs)"
proof -
  have m: "moves st s s'" and t: "task_ok s' st t" using assms(3) by (simp_all add: advances_def)
  have "active_but {ws_id st} base s' (us @ vs)"
    using moves_active [OF assms(1) m] assms(2) by (simp add: member_ok_def)
  moreover have "member_ok s' st" using m assms(2) by (simp add: moves_def keeps_def member_ok_def steps_of_def)
  ultimately show ?thesis using active_in t by blast
qed

lemma active_phase [simp]:
  "active_but X base (s\<lparr>er_phase := p\<rparr>) ts = active_but X base s ts"
proof -
  have "agree (s\<lparr>er_phase := p\<rparr>) = agree s" by (rule agree_cong) simp_all
  moreover have "rec_of (s\<lparr>er_phase := p\<rparr>) = rec_of s" "calls_of (s\<lparr>er_phase := p\<rparr>) = calls_of s"
    "acquired (s\<lparr>er_phase := p\<rparr>) = acquired s" "released (s\<lparr>er_phase := p\<rparr>) = released s"
    "step_done (s\<lparr>er_phase := p\<rparr>) = step_done s"
    by (simp_all add: rec_of_def calls_of_def acquired_def released_def step_done_def fun_eq_iff)
  moreover from this have "idle (s\<lparr>er_phase := p\<rparr>) = idle s" "returned (s\<lparr>er_phase := p\<rparr>) = returned s"
    "leased (s\<lparr>er_phase := p\<rparr>) = leased s"
    by (simp_all add: idle_def returned_def leased_def fun_eq_iff)
  moreover from this have "task_ok (s\<lparr>er_phase := p\<rparr>) st t = task_ok s st t" for st t
    using calculation
    by (cases "(s, st, t)" rule: task_ok.cases) (simp_all add: attempting_def args_now_def)
  ultimately show ?thesis
    by (simp add: active_but_def common_def results_ok_def rest_ok_def wave_ok_def member_ok_def call_ok_def
        steps_of_def step_ids_def cong: option.case_cong)
qed

lemma phase_step_simps [simp]:
  "steps_of (s\<lparr>er_phase := p\<rparr>) = steps_of s" "member_ok (s\<lparr>er_phase := p\<rparr>) st = member_ok s st"
  by (simp_all add: steps_of_def member_ok_def)

lemma start_tasks_active:
  assumes "active base s us" "start_tasks num now sts s = (ts, s')"
    and "distinct (map ws_id sts)" "\<forall>st \<in> set sts. member_ok s st \<and> ws_id st \<notin> wave_ids us"
  shows "active base s' (us @ ts) \<and> map fst ts = sts"
  using assms
proof (induction sts arbitrary: s us ts)
  case (Cons st sts)
  obtain t s1 where 1: "start_task num now st s = (t, s1)" by fastforce
  obtain ts2 s2 where 2: "start_tasks num now sts s1 = (ts2, s2)" by fastforce
  have ts: "ts = (st, t) # ts2" "s' = s2" using Cons.prems(2) 1 2 by auto
  have m: "member_ok s st" "ws_id st \<notin> wave_ids us" using Cons.prems(4) by auto
  then have "\<not> completed_status (rec_of s (ws_id st)) \<and> idle s (ws_id st)"
    using Cons.prems(1) by (auto simp: active_but_def rest_ok_def member_ok_def)
  then have adv: "advances st s (t, s1)" using start_advances [of s st num now] 1 by simp
  have "active_but {ws_id st} base s (us @ [])"
    using Cons.prems(1) m(2) by (auto simp: active_but_def rest_ok_def)
  then have a: "active base s1 (us @ [(st, t)])" by (rule advance_in [OF _ m(1) adv])
  have k: "keeps (ws_id st) s s1" using adv by (simp add: advances_def moves_def)
  have d: "distinct (map ws_id sts)" "ws_id st \<notin> ws_id ` set sts" using Cons.prems(3) by auto
  have "\<forall>x \<in> set sts. member_ok s1 x \<and> ws_id x \<notin> wave_ids (us @ [(st, t)])"
  proof
    fix x assume x: "x \<in> set sts"
    then have "ws_id x \<noteq> ws_id st" using d(2) by (metis image_eqI)
    moreover have "member_ok s1 x" using Cons.prems(4) x k by (simp add: member_ok_def keeps_def steps_of_def)
    ultimately show "member_ok s1 x \<and> ws_id x \<notin> wave_ids (us @ [(st, t)])" using Cons.prems(4) x by simp
  qed
  then have "active base s' ((us @ [(st, t)]) @ ts2) \<and> map fst ts2 = sts"
    by (rule Cons.IH [OF a 2 [folded ts(2)] d(1)])
  then show ?case by (simp add: ts)
qed simp

text \<open>How a run may end.\<close>

definition outcome :: "run_record \<Rightarrow> engine_run \<Rightarrow> bool" where
  "outcome r s \<longleftrightarrow>
     rr_runId r = er_runId s \<and> rr_status r \<in> {RunCompleted, RunFailed, RunCancelled} \<and>
     (rr_status r = RunCompleted \<longrightarrow>
        (\<exists>m. rr_output r = collectOutput (er_def s) m \<and>
           (\<forall>st \<in> set (steps_of s). \<exists>v. map_of m (ws_id st) = Some v \<and> step_done s (ws_id st) v))) \<and>
     (rr_status r = RunFailed \<and> well_formed (er_def s) \<longrightarrow>
        (\<exists>st \<in> set (steps_of s). \<not> completed_status (rec_of s (ws_id st)) \<and>
           (\<forall>d \<in> set (ws_dependsOn st). completed_status (rec_of s d))))"

definition ended :: "(string \<Rightarrow> step_record option) \<Rightarrow> engine_run \<Rightarrow> run_record \<Rightarrow> bool" where
  "ended base s r \<longleftrightarrow>
     common base s \<and> (\<forall>st \<in> set (steps_of s). returned s st) \<and>
     loadRun (er_store s) (er_runId s) = Some r \<and> outcome r s"

definition run_inv :: "(string \<Rightarrow> step_record option) \<Rightarrow> engine_run \<Rightarrow> bool" where
  "run_inv base s \<longleftrightarrow>
     (case er_phase s of
        InWave ts \<Rightarrow> active base s ts
      | PollSleep ids \<Rightarrow> active base s [] \<and> set ids \<subseteq> step_ids s
      | Ended r \<Rightarrow> ended base s r
      | Stalled \<Rightarrow> False)"

text \<open>Changes to the run's record, the event stream, the abort flag and the result maps leave the steps alone.\<close>

definition same_steps :: "engine_run \<Rightarrow> engine_run \<Rightarrow> bool" where
  "same_steps s s' \<longleftrightarrow>
     er_runId s' = er_runId s \<and> er_def s' = er_def s \<and> er_record s' = er_record s \<and> er_started s' = er_started s \<and>
     er_steps s' = er_steps s \<and> er_calls s' = er_calls s \<and> er_leases s' = er_leases s \<and> (agree s \<longrightarrow> agree s')"

lemma same_steps_simps:
  assumes "same_steps s s'"
  shows "rec_of s' = rec_of s" "step_done s' = step_done s" "returned s' = returned s" "idle s' = idle s"
    "calls_of s' = calls_of s" "acquired s' = acquired s" "released s' = released s" "steps_of s' = steps_of s"
    "step_ids s' = step_ids s" "call_ok s' = call_ok s" "leased s' = leased s"
  using assms
  by (simp_all add: same_steps_def rec_of_def step_done_def returned_def idle_def calls_of_def acquired_def released_def
      steps_of_def step_ids_def call_ok_def leased_def fun_eq_iff)

lemma common_same: "same_steps s s' \<Longrightarrow> common base s \<Longrightarrow> common base s'"
  using same_steps_simps [of s s'] by (simp add: common_def) (simp add: same_steps_def)

lemma outcome_same: "same_steps s s' \<Longrightarrow> outcome r s' = outcome r s"
  using same_steps_simps [of s s'] by (simp add: outcome_def) (simp add: same_steps_def)

lemma same_steps_trans: "same_steps s t \<Longrightarrow> same_steps t u \<Longrightarrow> same_steps s u"
  by (simp add: same_steps_def)

lemma same_steps_send: "same_steps s (send ev s)"
  by (simp add: same_steps_def)

lemma same_steps_persist: "rr_runId r = er_runId s \<Longrightarrow> same_steps s (persistRun r s)"
  using loads_saveRun [of r "er_store s"] kinds_saves(2) [of "er_store s" r]
  by (auto simp: same_steps_def persistRun_def agree_def rec_of_def [abs_def])

lemma same_steps_phase: "same_steps s (s\<lparr>er_phase := p\<rparr>)"
  by (simp add: same_steps_def) (simp add: agree_def rec_of_def [abs_def])

lemma end_inv:
  assumes "common base s" "\<forall>st \<in> set (steps_of s). returned s st" "outcome r s" "rr_runId r = er_runId s"
  shows "run_inv base (end_run r ev s)"
proof -
  have ss: "same_steps s (end_run r ev s)"
    unfolding end_run_def
    by (rule same_steps_trans [OF same_steps_trans [OF same_steps_persist [OF assms(4)] same_steps_send] same_steps_phase])
  have p: "plain_id (rr_runId r)" using assms(1,4) by (simp add: common_def agree_def)
  have "loadRun (er_store (end_run r ev s)) (er_runId s) = Some r"
    using loads_saveRun(2) [OF p, of "er_store s"] assms(4) by (simp add: end_run_def persistRun_def)
  moreover have "er_phase (end_run r ev s) = Ended r" "er_runId (end_run r ev s) = er_runId s"
    by (simp_all add: end_run_def persistRun_def)
  ultimately show ?thesis
    using common_same [OF ss assms(1)] same_steps_simps [OF ss] outcome_same [OF ss] assms(2,3)
    by (simp add: run_inv_def ended_def)
qed

lemma cancel_inv:
  assumes "common base s" "\<forall>st \<in> set (steps_of s). returned s st"
  shows "run_inv base (markCancelled now s)"
  unfolding markCancelled_def Let_def
  by (rule end_inv [OF assms]) (use assms(1) in \<open>simp_all add: outcome_def common_def\<close>)

lemma fail_inv:
  assumes "common base s" "\<forall>st \<in> set (steps_of s). returned s st"
    and "loadRun (er_store s) (er_runId s) = Some (er_started s)"
    and "well_formed (er_def s) \<longrightarrow> (\<exists>st \<in> set (steps_of s). \<not> completed_status (rec_of s (ws_id st)) \<and>
           (\<forall>d \<in> set (ws_dependsOn st). completed_status (rec_of s d)))"
  shows "run_inv base (fail_run now e s)"
proof -
  have st: "rr_status (er_started s) = RunRunning" "rr_runId (er_record s) = er_runId s"
    using assms(1) by (simp_all add: common_def)
  show ?thesis
  proof (cases "is_cancelled e")
    case True
    have "run_inv base (end_run ((er_record s)\<lparr>rr_status := RunCancelled, rr_error := Some (describeError e),
        rr_completedAt := Some now\<rparr>) (RunFailedEvent e) s)"
      by (rule end_inv [OF assms(1,2)]) (use st in \<open>simp_all add: outcome_def\<close>)
    then show ?thesis using True assms(3) st by (simp add: fail_run_def)
  next
    case False
    have "run_inv base (end_run ((er_record s)\<lparr>rr_status := RunFailed, rr_error := Some (describeError w),
        rr_completedAt := Some now\<rparr>) (RunFailedEvent w) s)" for w
      by (rule end_inv [OF assms(1,2)]) (use st assms(4) in \<open>simp_all add: outcome_def\<close>)
    then show ?thesis using False by (simp add: fail_run_def Let_def)
  qed
qed

lemma settled_returned:
  assumes "active base s ts" "list_all (\<lambda>(st, t). is_settled t) ts" "st \<in> set (steps_of s)"
  shows "returned s st"
proof (cases "ws_id st \<in> wave_ids ts")
  case True
  then obtain x t where x: "(x, t) \<in> set ts" "ws_id x = ws_id st" by (auto simp: wave_ids_def)
  have w: "member_ok s x" "task_ok s x t" using assms(1) x(1) by (auto simp: active_but_def wave_ok_def)
  have "x = st"
  proof -
    have "distinct (map ws_id (steps_of s))" using assms(1) by (simp add: active_but_def common_def)
    then show ?thesis using x(2) w(1) assms(3) by (metis distinct_map inj_on_eq_iff member_ok_def)
  qed
  moreover have "is_settled t" using assms(2) x(1) by (auto simp: list_all_iff)
  ultimately show ?thesis using w(2) allowed_pos [of st]
    by (cases "(s, st, t)" rule: task_ok.cases) (auto simp: is_settled_def returned_def idle_def)
next
  case False
  then have "case map_of (er_results s) (ws_id st) of
      None \<Rightarrow> \<not> completed_status (rec_of s (ws_id st)) \<and> idle s (ws_id st) | Some v \<Rightarrow> returned s st"
    using assms(1,3) by (simp add: active_but_def rest_ok_def)
  then show ?thesis using allowed_pos [of st] by (auto simp: returned_def idle_def split: option.splits)
qed

lemma finish_inv:
  assumes "active base s []" "\<forall>st \<in> set (steps_of s). map_of (er_results s) (ws_id st) \<noteq> None"
  shows "run_inv base (finish_run now s)"
proof -
  have c: "common base s" "results_ok base s" using assms(1) by (simp_all add: active_but_def)
  have r: "\<forall>st \<in> set (steps_of s). returned s st" using settled_returned [OF assms(1)] by simp
  show ?thesis
  proof (cases "er_abort s = None")
    case True
    have "\<exists>m. collectOutput (er_def s) (er_results s) = collectOutput (er_def s) m \<and>
        (\<forall>st \<in> set (steps_of s). \<exists>v. map_of m (ws_id st) = Some v \<and> step_done s (ws_id st) v)"
    proof (intro exI [of _ "er_results s"] conjI refl ballI)
      fix st assume "st \<in> set (steps_of s)"
      then obtain v where "map_of (er_results s) (ws_id st) = Some v" using assms(2) by blast
      then show "\<exists>v. map_of (er_results s) (ws_id st) = Some v \<and> step_done s (ws_id st) v"
        using c(2) unfolding results_ok_def by blast
    qed
    then have "run_inv base (end_run ((er_started s)\<lparr>rr_status := RunCompleted, rr_completedAt := Some now,
        rr_output := collectOutput (er_def s) (er_results s)\<rparr>) (RunComplete (collectOutput (er_def s) (er_results s))) s)"
      by (intro end_inv [OF c(1) r]) (use c(1) in \<open>simp_all add: outcome_def common_def\<close>)
    then show ?thesis using True by (simp add: finish_run_def Let_def)
  next
    case False
    then show ?thesis using cancel_inv [OF c(1) r] by (simp add: finish_run_def)
  qed
qed

section \<open>The head of the loop\<close>

lemma remaining_done:
  assumes "results_ok base s" "st \<in> set (steps_of s)" "case map_of (er_remaining s) (ws_id st) of None \<Rightarrow> True | Some ds \<Rightarrow> ds = []"
  shows "\<forall>d \<in> set (ws_dependsOn st). map_of (er_results s) d \<noteq> None"
proof -
  obtain ds where "map_of (er_remaining s) (ws_id st) = Some ds"
    "set ds = {d \<in> set (ws_dependsOn st). map_of (er_results s) d = None}"
    using assms(1,2) unfolding results_ok_def by blast
  then show ?thesis using assms(3) by auto
qed

text \<open>A step that has neither run nor been deferred waits for one that has not run.\<close>

lemma blocked_dep:
  assumes "results_ok base s" "st \<in> set (stuck_steps s)" "filter (ready_step s) (wd_steps (er_def s)) = []"
    "deferred_ids s = []"
  shows "\<exists>d \<in> set (ws_dependsOn st). map_of (er_results s) d = None"
proof -
  have st: "st \<in> set (wd_steps (er_def s))" "map_of (er_results s) (ws_id st) = None"
    using assms(2) by (auto simp: stuck_steps_def)
  have nd: "\<not> deferred_status (map_of (er_steps s) (ws_id st))"
    using assms(2,4) by (auto simp: deferred_ids_def filter_empty_conv)
  have "\<not> ready_step s st" using assms(3) st(1) by (auto simp: filter_empty_conv)
  then have b: "\<not> (case map_of (er_remaining s) (ws_id st) of None \<Rightarrow> True | Some ds \<Rightarrow> ds = [])"
    using st(2) nd by (simp add: ready_step_def)
  obtain ds where "map_of (er_remaining s) (ws_id st) = Some ds"
    "set ds = {d \<in> set (ws_dependsOn st). map_of (er_results s) d = None}"
    using assms(1) st(1) unfolding results_ok_def steps_of_def by blast
  then show ?thesis using b by (cases ds) auto
qed

lemma no_deadlock:
  assumes "results_ok base s" "well_formed (er_def s)" "filter (ready_step s) (wd_steps (er_def s)) = []"
    "deferred_ids s = []"
  shows "stuck_steps s = []"
proof (rule ccontr)
  let ?steps = "wd_steps (er_def s)" and ?S = "ws_id ` set (stuck_steps s)"
  assume "stuck_steps s \<noteq> []"
  then have ne: "?S \<noteq> {}" by simp
  have wf: "distinct (map ws_id ?steps)" "\<forall>st \<in> set ?steps. set (ws_dependsOn st) \<subseteq> ws_id ` set ?steps"
    "acyclic (step_order ?steps)" using assms(2) by (simp_all add: well_formed_def)
  have next_stuck: "\<exists>d \<in> ?S. (i, d) \<in> step_order ?steps" if i: "i \<in> ?S" for i
  proof -
    obtain st where st: "st \<in> set (stuck_steps s)" "i = ws_id st" using i by auto
    then have m: "st \<in> set ?steps" by (simp add: stuck_steps_def)
    obtain d where d: "d \<in> set (ws_dependsOn st)" "map_of (er_results s) d = None"
      using blocked_dep [OF assms(1) st(1) assms(3,4)] by blast
    then obtain x where "x \<in> set ?steps" "ws_id x = d" using wf(2) m by blast
    then have "d \<in> ?S" using d(2) by (force simp: stuck_steps_def)
    moreover have "(i, d) \<in> step_order ?steps" using deps_in_step [OF wf(1) m] d(1) st(2) by (simp add: step_order_def)
    ultimately show ?thesis by blast
  qed
  have "finite (step_order ?steps)"
  proof (rule finite_subset)
    show "step_order ?steps \<subseteq> ws_id ` set ?steps \<times> ws_id ` set ?steps"
      using wf(2) by (fastforce simp: step_order_def dest: deps_in_origin)
  qed simp
  then have "wf ((step_order ?steps)\<inverse>)" using wf(3) by (simp add: finite_acyclic_wf_converse)
  then obtain i where "i \<in> ?S" "\<forall>d. (d, i) \<in> (step_order ?steps)\<inverse> \<longrightarrow> d \<notin> ?S"
    using ne by (metis wf_eq_minimal ex_in_conv)
  then show False using next_stuck by blast
qed

lemma all_have_results:
  assumes "results_ok base s" "common base s" "length (wd_steps (er_def s)) \<le> length (er_results s)"
  shows "\<forall>st \<in> set (steps_of s). map_of (er_results s) (ws_id st) \<noteq> None"
proof -
  have d: "distinct (map fst (er_results s))" using assms(1) by (simp add: results_ok_def)
  have sub: "fst ` set (er_results s) \<subseteq> step_ids s"
  proof
    fix i assume "i \<in> fst ` set (er_results s)"
    then obtain v where "map_of (er_results s) i = Some v" using d by (auto intro: map_of_is_SomeI)
    then have "completed_status (rec_of s i)" using assms(1) unfolding results_ok_def done_completed by blast
    then show "i \<in> step_ids s" using assms(2) by (simp add: common_def)
  qed
  have "card (step_ids s) \<le> card (fst ` set (er_results s))"
    using assms(3) distinct_card [OF d] card_image_le [of "set (steps_of s)" ws_id] card_length [of "steps_of s"]
    by (simp add: step_ids_def steps_of_def)
  then have "fst ` set (er_results s) = step_ids s" using sub by (intro card_seteq) (simp_all add: step_ids_def)
  then show ?thesis by (auto simp: step_ids_def map_of_eq_None_iff)
qed

lemma deferred_in: "set (deferred_ids s) \<subseteq> step_ids s"
  by (auto simp: deferred_ids_def stuck_steps_def step_ids_def steps_of_def)

lemma dispatch_inv:
  assumes a: "active base s []"
  shows "run_inv base (dispatch num now s)"
proof -
  have c: "common base s" "results_ok base s" and lr: "loadRun (er_store s) (er_runId s) = Some (er_started s)"
    using a by (simp_all add: active_but_def)
  have r: "\<forall>st \<in> set (steps_of s). returned s st" using settled_returned [OF a] by simp
  consider (full) "\<not> length (er_results s) < length (wd_steps (er_def s))"
    | (abort) "length (er_results s) < length (wd_steps (er_def s))" "er_abort s \<noteq> None"
    | (wave) st sts where "length (er_results s) < length (wd_steps (er_def s))" "er_abort s = None"
        "filter (ready_step s) (wd_steps (er_def s)) = st # sts"
    | (sleepers) "length (er_results s) < length (wd_steps (er_def s))" "er_abort s = None"
        "filter (ready_step s) (wd_steps (er_def s)) = []" "deferred_ids s \<noteq> []"
    | (dead) "length (er_results s) < length (wd_steps (er_def s))" "er_abort s = None"
        "filter (ready_step s) (wd_steps (er_def s)) = []" "deferred_ids s = []" "stuck_steps s \<noteq> []"
    | (over) "length (er_results s) < length (wd_steps (er_def s))" "er_abort s = None"
        "filter (ready_step s) (wd_steps (er_def s)) = []" "deferred_ids s = []" "stuck_steps s = []"
    by (cases "filter (ready_step s) (wd_steps (er_def s))") auto
  then show ?thesis
  proof cases
    case full
    then show ?thesis using finish_inv [OF a all_have_results [OF c(2,1)]] by (simp add: dispatch_def)
  next
    case abort
    then show ?thesis using cancel_inv [OF c(1) r] by (simp add: dispatch_def)
  next
    case wave
    obtain ts s' where ts: "start_tasks num now (st # sts) s = (ts, s')" by fastforce
    have sub: "x \<in> set (steps_of s)" "ready_step s x" if "x \<in> set (st # sts)" for x
      using that unfolding wave(3) [symmetric] by (simp_all add: steps_of_def)
    have "\<forall>x \<in> set (st # sts). member_ok s x \<and> ws_id x \<notin> wave_ids []"
    proof
      fix x assume x: "x \<in> set (st # sts)"
      show "member_ok s x \<and> ws_id x \<notin> wave_ids []"
        using sub [OF x] remaining_done [OF c(2) sub(1) [OF x]] by (simp add: member_ok_def ready_step_def)
    qed
    moreover have "distinct (map ws_id (st # sts))"
      using c(1) unfolding wave(3) [symmetric] by (simp add: common_def steps_of_def distinct_map_filter)
    ultimately have "active base s' ts" using start_tasks_active [OF a ts] by simp
    then show ?thesis using wave ts by (simp add: dispatch_def run_inv_def)
  next
    case sleepers
    then show ?thesis using a deferred_in [of s] by (simp add: dispatch_def run_inv_def step_ids_def)
  next
    case dead
    have "run_inv base (fail_run now (deadlock_error s) s)"
      by (rule fail_inv [OF c(1) r lr]) (use no_deadlock [OF c(2) _ dead(3,4)] dead(5) in blast)
    then show ?thesis using dead by (simp add: dispatch_def)
  next
    case over
    have "\<forall>st \<in> set (steps_of s). map_of (er_results s) (ws_id st) \<noteq> None"
      using over(5) by (auto simp: stuck_steps_def filter_empty_conv steps_of_def)
    then show ?thesis using over finish_inv [OF a] by (simp add: dispatch_def)
  qed
qed

section \<open>Settling a wave, and polling\<close>

lemma finish_simps [simp]:
  "er_results (finish_result i v s) = AList.update i v (er_results s)"
  "er_remaining (finish_result i v s) = map (\<lambda>(k, ds). (k, filter (\<lambda>d. d \<noteq> i) ds)) (er_remaining s)"
  "er_store (finish_result i v s) = er_store s" "er_runId (finish_result i v s) = er_runId s"
  "er_started (finish_result i v s) = er_started s" "er_def (finish_result i v s) = er_def s"
  by (simp_all add: finish_result_def)

lemma same_steps_finish: "same_steps s (finish_result i v s)"
  by (simp add: same_steps_def finish_result_def) (simp add: agree_def rec_of_def [abs_def])

lemma settled_task_same:
  "same_steps s s' \<Longrightarrow> is_settled t \<Longrightarrow> task_ok s' st t = task_ok s st t"
  using same_steps_simps [of s s'] by (cases "(s, st, t)" rule: task_ok.cases) (simp_all add: is_settled_def)

lemma map_of_filtered: "map_of (map (\<lambda>(k, ds). (k, f ds)) m) k = map_option f (map_of m k)"
  by (induction m) auto

lemma results_finish:
  assumes "results_ok base s" "step_done s i v"
  shows "results_ok base (finish_result i v s)"
proof -
  note ss = same_steps_simps [OF same_steps_finish [of s i v]]
  have "\<forall>st \<in> set (steps_of s). \<exists>ds. map_of (er_remaining (finish_result i v s)) (ws_id st) = Some ds \<and>
      set ds = {d \<in> set (ws_dependsOn st). map_of (er_results (finish_result i v s)) d = None}"
  proof
    fix st assume "st \<in> set (steps_of s)"
    then obtain ds where "map_of (er_remaining s) (ws_id st) = Some ds"
      "set ds = {d \<in> set (ws_dependsOn st). map_of (er_results s) d = None}"
      using assms(1) unfolding results_ok_def by blast
    then show "\<exists>ds. map_of (er_remaining (finish_result i v s)) (ws_id st) = Some ds \<and>
      set ds = {d \<in> set (ws_dependsOn st). map_of (er_results (finish_result i v s)) d = None}"
      by (auto simp: map_of_filtered update_conv)
  qed
  then show ?thesis using assms unfolding results_ok_def ss by (auto simp: update_conv distinct_update)
qed

lemma active_finish:
  assumes a: "active_but {ws_id st} base s ts" and st: "st \<in> set (steps_of s)" "returned s st"
    and d: "step_done s (ws_id st) v" and all: "list_all (\<lambda>(st, t). is_settled t) ts"
  shows "active base (finish_result (ws_id st) v s) ts"
proof -
  let ?s = "finish_result (ws_id st) v s"
  note ss = same_steps_simps [OF same_steps_finish [of s "ws_id st" v]]
  have c: "common base ?s" using a common_same [OF same_steps_finish] by (simp add: active_but_def)
  have w: "wave_ok ?s ts"
  proof -
    have "member_ok ?s x \<and> task_ok ?s x t" if x: "(x, t) \<in> set ts" for x t
    proof -
      have o: "member_ok s x" "task_ok s x t" using a x by (auto simp: active_but_def wave_ok_def)
      have "ws_id x \<noteq> ws_id st" using a wave_ids_in [OF x] by (auto simp: active_but_def)
      moreover have "is_settled t" using all x by (auto simp: list_all_iff)
      ultimately show ?thesis
        using o settled_task_same [OF same_steps_finish [of s "ws_id st" v], of t x]
        by (auto simp: member_ok_def ss update_conv)
    qed
    then show ?thesis using a by (auto simp: active_but_def wave_ok_def)
  qed
  have "rest_ok (wave_ids ts) ?s"
    unfolding rest_ok_def ss
  proof (intro ballI impI)
    fix x assume x: "x \<in> set (steps_of s)" "ws_id x \<notin> wave_ids ts"
    show "case map_of (er_results ?s) (ws_id x) of
        None \<Rightarrow> \<not> completed_status (rec_of s (ws_id x)) \<and> idle s (ws_id x) | Some w \<Rightarrow> returned s x"
    proof (cases "ws_id x = ws_id st")
      case True
      have "distinct (map ws_id (steps_of s))" using a by (simp add: active_but_def common_def)
      then have "x = st" using True x(1) st(1) by (metis distinct_map inj_on_eq_iff)
      then show ?thesis using st(2) by (simp add: update_conv)
    next
      case False
      then have "case map_of (er_results s) (ws_id x) of
          None \<Rightarrow> \<not> completed_status (rec_of s (ws_id x)) \<and> idle s (ws_id x) | Some w \<Rightarrow> returned s x"
        using a x by (simp add: active_but_def rest_ok_def)
      then show ?thesis using False by (simp add: update_conv)
    qed
  qed
  then show ?thesis
    using a c w results_finish [OF _ d] by (simp add: active_but_def)
qed

lemma cascade_same: "same_steps s (cascadeFailure n i s) \<and> er_store (cascadeFailure n i s) = er_store s"
proof (induction n arbitrary: i s)
  case 0
  then show ?case by (simp add: same_steps_def)
next
  case (Suc n)
  define f where "f = (\<lambda>s (st :: wf_step). if map_of (er_results s) (ws_id st) \<noteq> None then s
                      else if i \<in> set (ws_dependsOn st) then cascadeFailure n (ws_id st) s else s)"
  have one: "same_steps s (f t x) \<and> er_store (f t x) = er_store s" if "same_steps s t \<and> er_store t = er_store s" for t x
    using that Suc.IH [where s = t and i = "ws_id x"] same_steps_trans [of s t] by (simp add: f_def)
  have many: "same_steps s t \<and> er_store t = er_store s \<Longrightarrow>
      same_steps s (foldl f t xs) \<and> er_store (foldl f t xs) = er_store s" for t xs
    by (induction xs arbitrary: t) (use one in \<open>auto\<close>)
  have "same_steps s (s\<lparr>er_results := AList.update i JUndef (er_results s)\<rparr>)"
    by (simp add: same_steps_def) (simp add: agree_def rec_of_def [abs_def])
  then have r: "same_steps s (foldl f (s\<lparr>er_results := AList.update i JUndef (er_results s)\<rparr>) (wd_steps (er_def s))) \<and>
      er_store (foldl f (s\<lparr>er_results := AList.update i JUndef (er_results s)\<rparr>) (wd_steps (er_def s))) = er_store s"
    by (intro many) simp
  have "cascadeFailure (Suc n) i s =
      finish_result i JUndef (foldl f (s\<lparr>er_results := AList.update i JUndef (er_results s)\<rparr>) (wd_steps (er_def s)))"
    by (simp add: f_def)
  then show ?case using r same_steps_trans [OF _ same_steps_finish] by simp
qed

lemma result_completed:
  assumes "results_ok base s" "map_of (er_results s) i \<noteq> None"
  shows "completed_status (rec_of s i)"
  using assms unfolding results_ok_def done_completed by blast

lemma settle_inv:
  assumes "active base s ts" "list_all (\<lambda>(st, t). is_settled t) ts"
  shows "run_inv base (settle_wave num now ts s)"
  using assms
proof (induction num now ts s rule: settle_wave.induct)
  case (1 num now s)
  then show ?case using dispatch_inv by simp
next
  case (2 num now st t ts s)
  have all: "list_all (\<lambda>(st, t). is_settled t) ts" using "2.prems"(2) by simp
  have "active base s ([] @ (st, t) # ts)" using "2.prems"(1) by simp
  note out = active_out [OF this, simplified]
  have s: "st \<in> set (steps_of s)" "map_of (er_results s) (ws_id st) = None"
    "\<forall>d \<in> set (ws_dependsOn st). map_of (er_results s) d \<noteq> None" using out(2) by (simp_all add: member_ok_def)
  obtain r where t: "t = Settled r" using "2.prems"(2) by (cases t) (auto simp: is_settled_def)
  consider (err) e where "r = Inl e" | (wait) "r = Inr None" | (ok) v where "r = Inr (Some v)"
    by (metis option.exhaust sum.exhaust)
  then show ?case
  proof cases
    case err
    define s' where "s' = cascadeFailure (length (wd_steps (er_def s)) + 1) (ws_id st) s"
    have ss: "same_steps s s'" "er_store s' = er_store s" unfolding s'_def using cascade_same by blast+
    note simps = same_steps_simps [OF ss(1)]
    have c: "common base s" "results_ok base s" "loadRun (er_store s) (er_runId s) = Some (er_started s)"
      using "2.prems"(1) by (simp_all add: active_but_def)
    have "run_inv base (fail_run now (as_error s st e) s')"
    proof (rule fail_inv)
      show "common base s'" by (rule common_same [OF ss(1) c(1)])
      show "\<forall>x \<in> set (steps_of s'). returned s' x" using settled_returned [OF "2.prems"] by (simp add: simps)
      show "loadRun (er_store s') (er_runId s') = Some (er_started s')" using c(3) ss by (simp add: same_steps_def)
      have "\<not> completed_status (rec_of s (ws_id st))" using out(3) t err by simp
      moreover have "\<forall>d \<in> set (ws_dependsOn st). completed_status (rec_of s d)"
        using s(3) result_completed [OF c(2)] by blast
      ultimately show "well_formed (er_def s') \<longrightarrow> (\<exists>st \<in> set (steps_of s'). \<not> completed_status (rec_of s' (ws_id st)) \<and>
          (\<forall>d \<in> set (ws_dependsOn st). completed_status (rec_of s' d)))"
        unfolding simps using s(1) by blast
    qed
    then show ?thesis using t err unfolding s'_def by simp
  next
    case wait
    have "active base s ts"
    proof -
      have i: "deferred_status (rec_of s (ws_id st))" "idle s (ws_id st)" using out(3) t wait by simp_all
      then have nc: "\<not> completed_status (rec_of s (ws_id st))"
        by (auto simp: deferred_status_def completed_status_def split: option.splits)
      have di: "distinct (map ws_id (steps_of s))" using out(1) by (simp add: active_but_def common_def)
      have "rest_ok (wave_ids ts) s"
        unfolding rest_ok_def
      proof (intro ballI impI)
        fix x assume x: "x \<in> set (steps_of s)" "ws_id x \<notin> wave_ids ts"
        show "case map_of (er_results s) (ws_id x) of
            None \<Rightarrow> \<not> completed_status (rec_of s (ws_id x)) \<and> idle s (ws_id x) | Some w \<Rightarrow> returned s x"
        proof (cases "ws_id x = ws_id st")
          case True
          then show ?thesis using i nc s(2) by simp
        next
          case False
          then show ?thesis using out(1) x by (simp add: active_but_def rest_ok_def)
        qed
      qed
      then show ?thesis using out(1) by (simp add: active_but_def)
    qed
    then show ?thesis using "2.IH" t wait all by simp
  next
    case ok
    have "step_done s (ws_id st) v" "returned s st" using out(3) t ok by simp_all
    then have "active base (finish_result (ws_id st) v s) ts"
      using active_finish [OF out(1) s(1) _ _ all] by blast
    then show ?thesis using "2.IH" t ok all by simp
  qed
qed

definition quiet :: "engine_run \<Rightarrow> engine_run \<Rightarrow> bool" where
  "quiet s s' \<longleftrightarrow>
     same_steps s s' \<and> er_results s' = er_results s \<and> er_remaining s' = er_remaining s \<and>
     (agree s \<longrightarrow> loadRun (er_store s') (er_runId s) = loadRun (er_store s) (er_runId s))"

lemma quiet_active:
  assumes "quiet s s'" "active_but X base s ts"
  shows "active_but X base s' ts"
proof -
  have ss: "same_steps s s'" and eq: "er_results s' = er_results s" "er_remaining s' = er_remaining s"
    using assms(1) by (simp_all add: quiet_def)
  note simps = same_steps_simps [OF ss]
  have i: "er_runId s' = er_runId s" "er_started s' = er_started s" using ss by (simp_all add: same_steps_def)
  have t: "task_ok s' st t = task_ok s st t" for st t
    by (cases "(s, st, t)" rule: task_ok.cases) (simp_all add: simps attempting_def args_now_def eq i)
  have m: "member_ok s' = member_ok s" by (simp add: member_ok_def simps eq fun_eq_iff)
  have "wave_ok s' ts" using assms(2) by (simp add: active_but_def wave_ok_def t m)
  moreover have "results_ok base s"
    using assms(2) by (simp add: active_but_def)
  then have "results_ok base s'" unfolding results_ok_def simps eq .
  moreover have "rest_ok (wave_ids ts \<union> X) s'"
    using assms(2) by (simp add: active_but_def rest_ok_def simps eq cong: option.case_cong)
  moreover have "agree s" using assms(2) by (simp add: active_but_def common_def)
  ultimately show ?thesis
    using assms common_same [OF ss] by (simp add: active_but_def quiet_def i)
qed

lemma quiet_inv:
  assumes "quiet s s'" "er_phase s' = er_phase s" "run_inv base s"
  shows "run_inv base s'"
proof -
  have ss: "same_steps s s'" using assms(1) by (simp add: quiet_def)
  have "ended base s' r" if "ended base s r" for r
    using that common_same [OF ss] same_steps_simps [OF ss] outcome_same [OF ss] assms(1) ss
    by (simp add: ended_def quiet_def same_steps_def common_def)
  then show ?thesis
    using assms(2,3) quiet_active [OF assms(1)] same_steps_simps [OF ss]
    by (auto simp: run_inv_def split: run_phase.splits)
qed

lemma quiet_send: "quiet s (send ev s)"
  by (simp add: quiet_def same_steps_send)

lemma quiet_take:
  assumes "takeEvent (er_runId s) ty (er_store s) = (r, store)"
  shows "quiet s (s\<lparr>er_store := store\<rparr>)"
proof -
  have st: "store = snd (takeEvent (er_runId s) ty (er_store s))" using assms by simp
  have "agree (s\<lparr>er_store := store\<rparr>) \<and> loadRun store (er_runId s) = loadRun (er_store s) (er_runId s)" if "agree s"
    using that by (simp add: agree_def st kinds_take)
  then show ?thesis by (simp add: quiet_def same_steps_def)
qed

lemma rec_id:
  assumes "agree s" "rec_of s i = Some r"
  shows "sr_stepId r = i"
  using assms loadStep_id [of "er_store s" "er_runId s" i r] by (auto simp: agree_def)

lemma deferred_result:
  assumes "active base s []" "rec_of s i = Some r" "sr_status r \<noteq> StepCompleted"
  shows "map_of (er_results s) i = None"
proof (rule ccontr)
  assume "map_of (er_results s) i \<noteq> None"
  then have "completed_status (rec_of s i)" using result_completed assms(1) by (auto simp: active_but_def)
  then show False using assms(2,3) by simp
qed

text \<open>A deferred step that is resolved with the value \<open>v\<close>.\<close>

lemma resolve_deferred:
  assumes a: "active base s []" and r: "rec_of s i = Some r" "sr_status r \<noteq> StepCompleted" and i: "i \<in> step_ids s"
  shows "active base (send ev (finish_result i v (save_step (complete_step now v r) s))) []"
proof -
  obtain st where st: "st \<in> set (steps_of s)" "i = ws_id st" using i by (auto simp: step_ids_def)
  let ?s = "save_step (complete_step now v r) s"
  have id: "sr_stepId r = i" using a r(1) rec_id by (auto simp: active_but_def common_def)
  have none: "map_of (er_results s) i = None" by (rule deferred_result [OF a r])
  have but: "active_but {i} base s []" using a by (simp add: active_but_def rest_ok_def)
  have m: "moves st s ?s" using id r st(2) by (intro moves_save) auto
  have b: "active_but {i} base ?s []" using moves_active [of st base s "[]" ?s] but m st none by simp
  have "idle s i" using a st none by (auto simp: active_but_def rest_ok_def)
  then have ret: "returned ?s st" using st(2) allowed_pos [of st] by (simp add: returned_def idle_def)
  have "step_done ?s i v" using save_done [of "complete_step now v r" i s] id by simp
  then have "active base (finish_result i v ?s) []"
    using active_finish [of st base ?s "[]" v] b ret st by (simp add: steps_of_def)
  then show ?thesis by (rule quiet_active [OF quiet_send])
qed

lemma poll_step_active:
  assumes a: "active base s []" and i: "i \<in> step_ids s"
  shows "active base (poll_step now s i) []"
proof (cases "rec_of s i")
  case None
  then show ?thesis using a by (simp add: poll_step_def rec_of_def)
next
  case (Some r)
  then have m: "map_of (er_steps s) i = Some r" by (simp add: rec_of_def)
  consider (wake) "sr_status r = StepSleeping" "case sr_wakeAt r of None \<Rightarrow> False | Some w \<Rightarrow> w \<noteq> 0 \<and> w \<le> now"
    | (wait) "sr_status r = StepWaiting" "truthy (sr_awaitingEventType r)"
    | (no) "poll_step now s i = s"
    by (cases "sr_status r = StepSleeping \<and> (case sr_wakeAt r of None \<Rightarrow> False | Some w \<Rightarrow> w \<noteq> 0 \<and> w \<le> now)";
        cases "sr_status r = StepWaiting \<and> truthy (sr_awaitingEventType r)") (auto simp: poll_step_def m)
  then show ?thesis
  proof cases
    case wake
    then show ?thesis using resolve_deferred [OF a Some _ i] by (simp add: poll_step_def m)
  next
    case wait
    obtain e store where tk: "takeEvent (er_runId s) (the (sr_awaitingEventType r)) (er_store s) = (e, store)" by fastforce
    have q: "active base (s\<lparr>er_store := store\<rparr>) []" by (rule quiet_active [OF quiet_take [OF tk] a])
    have ids: "i \<in> step_ids (s\<lparr>er_store := store\<rparr>)" using i by (simp add: step_ids_def steps_of_def)
    show ?thesis
    proof (cases e)
      case None
      then show ?thesis using wait tk q by (simp add: poll_step_def m)
    next
      case (Some x)
      have "active base (send (StepComplete i (en_payload x)) (finish_result i (en_payload x)
          (save_step (complete_step now (en_payload x) r) (s\<lparr>er_store := store\<rparr>)))) []"
        by (rule resolve_deferred [OF q _ _ ids]) (use \<open>rec_of s i = Some r\<close> wait in simp_all)
      then show ?thesis using wait tk Some by (simp add: poll_step_def m)
    qed
  next
    case no
    then show ?thesis using a by simp
  qed
qed

lemma poll_step_ids: "step_ids (poll_step now s i) = step_ids s"
  by (auto simp: poll_step_def step_ids_def steps_of_def split: option.splits prod.splits)

lemma poll_inv:
  assumes "active base s []" "set ids \<subseteq> step_ids s"
  shows "run_inv base (poll num now ids s)"
proof -
  have many: "active base (foldl (poll_step now) s ids) []" if "active base s []" "set ids \<subseteq> step_ids s" for s
    using that
  proof (induction ids arbitrary: s)
    case (Cons i ids)
    then show ?case
      using Cons.IH [of "poll_step now s i"] poll_step_active [of base s i now] by (simp add: poll_step_ids)
  qed simp
  have "common base s" "\<forall>st \<in> set (steps_of s). returned s st"
    using assms(1) settled_returned [OF assms(1)] by (simp_all add: active_but_def)
  then show ?thesis
    using dispatch_inv [OF many [OF assms]] cancel_inv by (simp add: poll_def)
qed

section \<open>Every event keeps the invariant\<close>

lemma external_quiet: "quiet s (sendEvent now ty payload s)"
proof -
  let ?e = "\<lparr>en_runId = er_runId s, en_type = ty, en_payload = payload, en_receivedAt = now\<rparr>"
  have "agree (sendEvent now ty payload s) \<and>
      loadRun (er_store (sendEvent now ty payload s)) (er_runId s) = loadRun (er_store s) (er_runId s)" if "agree s"
    using that kinds_append [of "er_store s" ?e] loads_append [of ?e "er_runId s" "er_store s"]
    by (simp add: agree_def sendEvent_def)
  then show ?thesis by (simp add: quiet_def same_steps_def) (simp add: sendEvent_def)
qed

lemma cancel_quiet: "quiet s (cancel_run reason s)"
  by (simp add: cancel_run_def quiet_def same_steps_def) (simp add: agree_def rec_of_def [abs_def])

lemma wave_reply_inv:
  assumes "active base s ts" "er_phase s = InWave ts"
  shows "run_inv base (wave_reply num now ts n reply s)"
proof (cases "n < length ts")
  case True
  obtain st t where n: "ts ! n = (st, t)" by fastforce
  obtain t' s' where step: "task_step now st t reply s = (t', s')" by fastforce
  let ?ts = "ts[n := (st, t')]"
  have split: "ts = take n ts @ (st, t) # drop (Suc n) ts" by (metis True id_take_nth_drop n)
  have upd: "?ts = take n ts @ (st, t') # drop (Suc n) ts" using True by (simp add: upd_conv_take_nth_drop)
  have "active base s (take n ts @ (st, t) # drop (Suc n) ts)" using assms(1) split by simp
  note out = active_out [OF this]
  have "advances st s (t', s')" using task_advances [OF out(3), of now reply] step by simp
  then have a: "active base s' ?ts" unfolding upd by (rule advance_in [OF out(1,2)])
  show ?thesis
  proof (cases "list_all (\<lambda>(st, t). is_settled t) ?ts")
    case True
    then show ?thesis using \<open>n < length ts\<close> n step settle_inv [OF a] by (simp add: wave_reply_def)
  next
    case False
    then show ?thesis using \<open>n < length ts\<close> n step a by (simp add: wave_reply_def run_inv_def)
  qed
next
  case False
  then show ?thesis using assms by (simp add: wave_reply_def run_inv_def)
qed

lemma engine_step_inv:
  assumes "run_inv base s"
  shows "run_inv base (engine_step num s e)"
proof -
  obtain now ev where e: "e = (now, ev)" by fastforce
  show ?thesis
  proof (cases ev)
    case (TaskReply n reply)
    show ?thesis
    proof (cases "er_phase s")
      case (InWave ts)
      then show ?thesis using assms wave_reply_inv [of base s ts] e TaskReply by (simp add: engine_step_def run_inv_def)
    qed (use assms e TaskReply in \<open>simp_all add: engine_step_def\<close>)
  next
    case PollOver
    show ?thesis
    proof (cases "er_phase s")
      case (PollSleep ids)
      then show ?thesis using assms poll_inv [of base s ids] e PollOver by (simp add: engine_step_def run_inv_def)
    qed (use assms e PollOver in \<open>simp_all add: engine_step_def\<close>)
  next
    case (CancelRun reason)
    have "er_phase (cancel_run reason s) = er_phase s" by (simp add: cancel_run_def)
    then show ?thesis using quiet_inv [OF cancel_quiet _ assms] e CancelRun by (simp add: engine_step_def)
  next
    case (ExternalEvent ty payload)
    have "er_phase (sendEvent now ty payload s) = er_phase s" by (simp add: sendEvent_def)
    then show ?thesis using quiet_inv [OF external_quiet _ assms] e ExternalEvent by (simp add: engine_step_def)
  qed
qed

interpretation engine: kept_invariant "engine_step num" "run_inv base" for num base
  by unfold_locales (rule engine_step_inv)

text \<open>What a launch needs of the store, and the records it finds completed there.\<close>

definition launchable :: "workflow_def \<Rightarrow> string \<Rightarrow> wf_store \<Rightarrow> bool" where
  "launchable d runId store \<longleftrightarrow>
     plain_id runId \<and> kinds_ok store \<and> distinct (map ws_id (wd_steps d)) \<and> loadDefinition store runId = Some d \<and>
     (\<forall>i. completed_status (loadStep store runId i) \<longrightarrow> i \<in> ws_id ` set (wd_steps d))"

definition completed_in :: "wf_store \<Rightarrow> string \<Rightarrow> string \<Rightarrow> step_record option" where
  "completed_in store runId i =
     (if completed_status (loadStep store runId i) then loadStep store runId i else None)"

lemma map_of_ids:
  assumes "distinct (map f xs)"
  shows "map_of (map (\<lambda>x. (f x, g x)) xs) i = map_option g (find (\<lambda>x. f x = i) xs)"
  by (induction xs) auto

lemma find_id:
  assumes "distinct (map f xs)"
  shows "find (\<lambda>x. f x = i) xs = Some x \<longleftrightarrow> x \<in> set xs \<and> f x = i"
  using assms by (induction xs) auto

lemma listed:
  assumes "kinds_ok store" "plain_id r"
  shows "find (\<lambda>x. sr_stepId x = i) (listSteps store r) = loadStep store r i"
proof -
  have "find (\<lambda>x. sr_stepId x = i) (listSteps store r) = Some x \<longleftrightarrow> loadStep store r i = Some x" for x
    using find_id [OF listSteps_exact(2) [OF assms], of i x] listSteps_exact(1) [OF assms] loadStep_id [OF assms]
    by (auto simp: ran_def)
  then show ?thesis by (metis not_Some_eq)
qed

lemma find_completed:
  assumes "distinct (map sr_stepId rs)"
  shows "find (\<lambda>x. sr_stepId x = i) (filter (\<lambda>x. sr_status x = StepCompleted) rs) =
    (case find (\<lambda>x. sr_stepId x = i) rs of None \<Rightarrow> None | Some r \<Rightarrow> if sr_status r = StepCompleted then Some r else None)"
proof -
  have none: "find (\<lambda>x. sr_stepId x = i) (filter P rs) = None" if "i \<notin> sr_stepId ` set rs" for P rs
    using that by (auto simp: find_None_iff)
  show ?thesis using assms none by (induction rs) auto
qed

lemma loaded_map:
  assumes "kinds_ok store" "plain_id r"
  shows "map_of (loaded_results (listSteps store r)) i = map_option sr_result (completed_in store r i)"
    "distinct (map fst (loaded_results (listSteps store r)))"
proof -
  let ?rs = "filter (\<lambda>x. sr_status x = StepCompleted) (listSteps store r)"
  have d: "distinct (map sr_stepId (listSteps store r))" using listSteps_exact(2) [OF assms] .
  then have d': "distinct (map sr_stepId ?rs)" by (simp add: distinct_map_filter)
  have l: "loaded_results (listSteps store r) = map (\<lambda>x. (sr_stepId x, sr_result x)) ?rs"
    unfolding loaded_results_def by (rule fold_update_map [OF d'])
  show "map_of (loaded_results (listSteps store r)) i = map_option sr_result (completed_in store r i)"
    unfolding l map_of_ids [OF d'] find_completed [OF d] listed [OF assms]
    by (simp add: completed_in_def completed_status_def split: option.splits)
  show "distinct (map fst (loaded_results (listSteps store r)))" using d' unfolding l by (simp add: comp_def)
qed

lemma loaded_records:
  assumes "kinds_ok store" "plain_id r"
  shows "map_of (foldl (\<lambda>m x. AList.update (sr_stepId x) x m) [] (listSteps store r)) i = loadStep store r i"
proof -
  have d: "distinct (map sr_stepId (listSteps store r))" using listSteps_exact(2) [OF assms] .
  show ?thesis
    using map_of_ids [OF d, of "\<lambda>x. x" i] listed [OF assms] by (simp add: fold_update_map [OF d] option.map_ident)
qed

lemma completed_in_simps:
  "completed_in store r i = Some x \<longleftrightarrow> loadStep store r i = Some x \<and> sr_status x = StepCompleted"
  "completed_in store r i = None \<longleftrightarrow> \<not> completed_status (loadStep store r i)"
  by (auto simp: completed_in_def completed_status_def split: option.splits)

text \<open>The state a launch builds before the first wave.\<close>

lemma launch_active:
  assumes ok: "kinds_ok store" "plain_id (er_runId s)" "distinct (map ws_id (steps_of s))"
      "loadDefinition store (er_runId s) = Some (er_def s)"
      "\<forall>i. completed_status (loadStep store (er_runId s) i) \<longrightarrow> i \<in> step_ids s"
    and s: "er_store s = store" "rr_runId (er_started s) = er_runId s" "rr_runId (er_record s) = er_runId s"
      "rr_status (er_started s) = RunRunning" "loadRun store (er_runId s) = Some (er_started s)"
      "er_steps s = foldl (\<lambda>m x. AList.update (sr_stepId x) x m) [] (listSteps store (er_runId s))"
      "er_results s = loaded_results (listSteps store (er_runId s))"
      "er_remaining s = foldl (\<lambda>m st. AList.update (ws_id st)
          (filter (\<lambda>d. map_of (er_results s) d = None) (remdups (ws_dependsOn st))) m) [] (steps_of s)"
      "er_calls s = []" "er_leases s = []"
  shows "active (completed_in store (er_runId s)) s []"
proof -
  let ?b = "completed_in store (er_runId s)"
  have rec: "rec_of s = loadStep store (er_runId s)" using loaded_records [OF ok(1,2)] s(6) by (simp add: rec_of_def fun_eq_iff)
  have res: "map_of (er_results s) i = map_option sr_result (?b i)" for i using loaded_map(1) [OF ok(1,2)] s(7) by simp
  have idle: "idle s i" for i using s(9,10) by (simp add: idle_def calls_of_def acquired_def released_def)
  have "agree s" using ok s(1) rec by (simp add: agree_def)
  moreover have "rec_of s i = Some r \<and> sr_status r = StepCompleted \<and> calls_of s i = 0" if "?b i = Some r" for i r
    using that rec idle [of i] by (simp add: completed_in_simps idle_def)
  ultimately have c: "common ?b s" using ok s rec by (simp add: common_def)
  have rem: "er_remaining s = map (\<lambda>st. (ws_id st, filter (\<lambda>d. map_of (er_results s) d = None) (remdups (ws_dependsOn st)))) (steps_of s)"
    unfolding s(8) by (rule fold_update_map [OF ok(3)])
  have "\<exists>ds. map_of (er_remaining s) (ws_id st) = Some ds \<and>
      set ds = {d \<in> set (ws_dependsOn st). map_of (er_results s) d = None}" if "st \<in> set (steps_of s)" for st
    unfolding rem by (intro exI conjI, rule map_of_keyed [OF ok(3) that]) auto
  moreover have "step_done s i v" if "map_of (er_results s) i = Some v" for i v
    using that res rec by (auto simp: step_done_def completed_in_simps)
  moreover have "map_of (er_results s) i \<noteq> None" if "?b i \<noteq> None" for i using that res by simp
  moreover have "distinct (map fst (er_results s))" using loaded_map(2) [OF ok(1,2)] s(7) by simp
  ultimately have r: "results_ok ?b s" unfolding results_ok_def by blast
  have al: "0 \<le> allowed st" for st using allowed_pos [of st] by simp
  have "rest_ok {} s"
    using idle al
    by (auto simp: rest_ok_def res completed_in_simps rec returned_def idle_def split: option.splits)
  then show ?thesis using c r s(1,5) by (simp add: active_but_def wave_ok_def)
qed

lemma launch_inv:
  assumes l: "launchable d runId store" and r: "rr_runId r = runId"
  shows "run_inv (completed_in store runId) (launch num now d r store)"
proof -
  define started where "started = r\<lparr>rr_status := RunRunning,
      rr_startedAt := (case rr_startedAt r of None \<Rightarrow> Some now | Some t \<Rightarrow> Some t)\<rparr>"
  define s0 where "s0 = \<lparr>er_runId = rr_runId r, er_def = d, er_record = r, er_started = started, er_store = saveRun started store,
      er_steps = foldl (\<lambda>m r. AList.update (sr_stepId r) r m) [] (listSteps (saveRun started store) (rr_runId r)),
      er_results = loaded_results (listSteps (saveRun started store) (rr_runId r)),
      er_remaining = foldl (\<lambda>m st. AList.update (ws_id st)
          (filter (\<lambda>d. map_of (loaded_results (listSteps (saveRun started store) (rr_runId r))) d = None)
            (remdups (ws_dependsOn st))) m) [] (wd_steps d),
      er_abort = None,
      er_events = RunStart # map (\<lambda>r. StepResumed (sr_stepId r))
          (filter (\<lambda>r. sr_status r = StepCompleted) (listSteps (saveRun started store) (rr_runId r))),
      er_calls = [], er_leases = [], er_phase = PollSleep []\<rparr>"
  have p: "plain_id runId" and id: "rr_runId started = runId" "rr_status started = RunRunning"
    using l r by (simp_all add: launchable_def started_def)
  note keep = loads_saveRun [of started store, unfolded id, OF p]
  have "completed_in (saveRun started store) runId = completed_in store runId"
    by (simp add: completed_in_def keep fun_eq_iff)
  moreover have "active (completed_in (saveRun started store) (er_runId s0)) s0 []"
    by (rule launch_active)
      (use l r id keep in \<open>simp_all add: s0_def launchable_def steps_of_def step_ids_def kinds_saves\<close>)
  ultimately have "active (completed_in store runId) s0 []" using r by (simp add: s0_def)
  then have "run_inv (completed_in store runId) (dispatch num now s0)" by (rule dispatch_inv)
  then show ?thesis unfolding launch_def Let_def s0_def started_def .
qed

end
