(* ===== verification/Workflow_Life.thy ===== *)
theory Workflow_Life
  imports Workflow_Run
begin

text \<open>
  The life of a workflow run over several processes (\<open>start\<close>, any events, a crash, \<open>resume\<close>, and so
  on), and the properties of the engine: what a tool call may rest on, that completed steps are not
  run again, the bounds on attempts and leases, and how a run ends.
\<close>

section \<open>Restarts\<close>

text \<open>A run keeps its id and its definition.\<close>

definition static :: "engine_run \<Rightarrow> string \<times> workflow_def" where
  "static s = (er_runId s, er_def s)"

lemma static_simps [simp]:
  "static (send ev s) = static s" "static (save_step r s) = static s" "static (persistRun x s) = static s"
  "static (release_lease st s) = static s" "static (finish_result i v s) = static s"
  "static (s\<lparr>er_phase := p\<rparr>) = static s" "static (s\<lparr>er_store := y\<rparr>) = static s" "static (s\<lparr>er_calls := cs\<rparr>) = static s"
  "static (s\<lparr>er_leases := ls\<rparr>) = static s" "static (s\<lparr>er_results := rs\<rparr>) = static s" "static (s\<lparr>er_abort := a\<rparr>) = static s"
  by (simp_all add: static_def send_def save_step_def persistRun_def release_lease_def finish_result_def)

lemma static_task [simp]:
  "static (snd (start_task num now st s)) = static s"
  "static (snd (begin_attempt now st k args s)) = static s"
  "static (snd (catch_error now st r args e s)) = static s"
  "static (snd (tool_returned now st r args res s)) = static s"
  "static (snd (take_answer now st ty t s)) = static s"
  by (auto simp: start_task_def begin_attempt_def catch_error_def tool_returned_def take_answer_def Let_def
      split: option.splits tool_result.splits take_state.splits)

lemma static_step [simp]: "static (snd (task_step now st t reply s)) = static s"
  by (cases t; cases reply) (auto simp: task_step_def Let_def split: option.splits prod.splits)

lemma static_end [simp]:
  "static (end_run r ev s) = static s" "static (markCancelled now s) = static s" "static (finish_run now s) = static s"
  "static (fail_run now e s) = static s"
  by (auto simp: end_run_def markCancelled_def finish_run_def fail_run_def Let_def split: option.splits)

lemma static_starts [simp]: "static (snd (start_tasks num now sts s)) = static s"
proof (induction sts arbitrary: s)
  case (Cons st sts)
  then show ?case by (simp add: Let_def split: prod.splits) (metis snd_conv static_task(1))
qed simp

lemma static_dispatch [simp]: "static (dispatch num now s) = static s"
proof -
  have "start_tasks num now sts s = (ts, s') \<Longrightarrow> static s' = static s" for sts ts s'
    by (metis snd_conv static_starts)
  then show ?thesis by (auto simp: dispatch_def Let_def simp del: start_tasks.simps split: list.splits prod.splits)
qed

lemma static_foldl: "(\<And>s x. static (f s x) = static s) \<Longrightarrow> static (foldl f s xs) = static s"
  by (induction xs arbitrary: s) simp_all

lemma static_cascade [simp]: "static (cascadeFailure n i s) = static s"
  using cascade_same [of s n i] by (simp add: static_def same_steps_def)

lemma static_settle [simp]: "static (settle_wave num now ts s) = static s"
  by (induction num now ts s rule: settle_wave.induct) (auto simp del: cascadeFailure.simps split: task.splits sum.splits option.splits)

lemma static_poll [simp]: "static (poll num now ids s) = static s"
proof -
  have "static (poll_step now s i) = static s" for s i
    by (auto simp: poll_step_def split: option.splits prod.splits)
  then show ?thesis by (simp add: poll_def static_foldl)
qed

lemma static_engine [simp]: "static (engine_step num s e) = static s"
proof -
  have "static (wave_reply num now ts n reply s) = static s" for now ts n reply
  proof -
    have "task_step now st t reply s = (t', s') \<Longrightarrow> static s' = static s" for st t t' s'
      by (metis snd_conv static_step)
    then show ?thesis by (auto simp: wave_reply_def Let_def split: prod.splits)
  qed
  then show ?thesis
    by (auto simp: engine_step_def cancel_run_def sendEvent_def split: prod.splits env_event.splits run_phase.splits)
qed

lemma static_run [simp]: "static (foldl (engine_step num) s es) = static s"
  by (rule static_foldl) simp

lemma static_launch: "static (launch num now d r store) = (rr_runId r, d)"
  by (simp add: launch_def Let_def) (simp add: static_def)

text \<open>
  The life of a run. The process may die after any event; a later process opens the store on what is
  persisted and resumes the run, if the store lets it. The states the processes end in are listed.
\<close>

fun lifetimes :: "(string \<Rightarrow> int option) \<Rightarrow> engine_run \<Rightarrow> (int \<times> (int \<times> env_event) list) list \<Rightarrow> engine_run list" where
  "lifetimes num s [] = [s]"
| "lifetimes num s ((now, es) # rest) =
     (case resume_workflow num now (er_runId s) (open_store (wf_kv (er_store s))) of
        Inl e \<Rightarrow> lifetimes num s rest
      | Inr s' \<Rightarrow> s # lifetimes num (foldl (engine_step num) s' es) rest)"

lemma open_loads [simp]:
  "loadStep (open_store (wf_kv st)) = loadStep st" "loadRun (open_store (wf_kv st)) = loadRun st"
  "loadDefinition (open_store (wf_kv st)) = loadDefinition st"
  by (simp_all add: load_defs open_store_def fun_eq_iff)

lemma run_inv_common: "run_inv base s \<Longrightarrow> common base s"
  by (auto simp: run_inv_def active_but_def ended_def split: run_phase.splits)

lemma completed_open [simp]: "completed_in (open_store (wf_kv st)) = completed_in st"
  by (simp add: completed_in_def fun_eq_iff)

lemma stored_run:
  assumes "run_inv base s"
  shows "\<exists>r. loadRun (er_store s) (er_runId s) = Some r \<and> rr_runId r = er_runId s"
  using assms run_inv_common [OF assms]
  by (auto simp: run_inv_def active_but_def ended_def common_def outcome_def split: run_phase.splits)

lemma stored_definition:
  assumes "run_inv base s"
  shows "loadDefinition (er_store s) (er_runId s) = Some (er_def s)"
  using run_inv_common [OF assms] by (simp add: common_def agree_def)

lemma resume_inv:
  assumes inv: "run_inv base s" and res: "resume_workflow num now (er_runId s) (open_store (wf_kv (er_store s))) = Inr s'"
  shows "run_inv (completed_in (er_store s) (er_runId s)) s'" "static s' = static s"
proof -
  have c: "common base s" by (rule run_inv_common [OF inv])
  obtain r where r: "loadRun (er_store s) (er_runId s) = Some r" "rr_runId r = er_runId s" using stored_run [OF inv] by blast
  have s': "s' = launch num now (er_def s) r (open_store (wf_kv (er_store s)))"
    using res r stored_definition [OF inv] by (simp add: resume_workflow_def split: if_splits)
  have "launchable (er_def s) (er_runId s) (open_store (wf_kv (er_store s)))"
    using c by (simp add: launchable_def common_def agree_def kinds_open steps_of_def step_ids_def)
  then show "run_inv (completed_in (er_store s) (er_runId s)) s'" using launch_inv r(2) s' by fastforce
  show "static s' = static s" using s' r(2) by (simp add: static_launch) (simp add: static_def)
qed

lemma lifetimes_inv:
  assumes "run_inv base s" "t \<in> set (lifetimes num s ss)"
  shows "\<exists>b. run_inv b t \<and> static t = static s"
  using assms
proof (induction num s ss arbitrary: base rule: lifetimes.induct)
  case (1 num s)
  then show ?case by auto
next
  case (2 num s now es rest)
  show ?case
  proof (cases "resume_workflow num now (er_runId s) (open_store (wf_kv (er_store s)))")
    case (Inl e)
    then show ?thesis using 2 by simp
  next
    case (Inr s')
    note r = resume_inv [OF "2.prems"(1) Inr]
    have "run_inv (completed_in (er_store s) (er_runId s)) (foldl (engine_step num) s' es)"
      by (rule engine.run_inv [OF r(1)])
    from "2.IH"(2) [OF Inr this] show ?thesis using "2.prems" Inr r(2) by auto
  qed
qed

text \<open>What one process completed, a later one finds and does not run.\<close>

definition kept_in :: "engine_run \<Rightarrow> engine_run \<Rightarrow> bool" where
  "kept_in s t \<longleftrightarrow>
     (\<forall>i r. completed_in (er_store s) (er_runId s) i = Some r \<longrightarrow>
        completed_in (er_store t) (er_runId t) i = Some r \<and> calls_of t i = 0)"

lemma base_kept:
  assumes "run_inv (completed_in (er_store s) (er_runId s)) t"
  shows "kept_in s t"
  using run_inv_common [OF assms] by (auto simp: kept_in_def common_def agree_def completed_in_simps)

lemma lifetimes_kept:
  assumes "run_inv base s"
  shows "sorted_wrt kept_in (lifetimes num s ss) \<and> (\<forall>t \<in> set (lifetimes num s ss). t = s \<or> kept_in s t)"
  using assms
proof (induction num s ss arbitrary: base rule: lifetimes.induct)
  case (2 num s now es rest)
  show ?case
  proof (cases "resume_workflow num now (er_runId s) (open_store (wf_kv (er_store s)))")
    case (Inl e)
    then show ?thesis using 2 by simp
  next
    case (Inr s')
    let ?t = "foldl (engine_step num) s' es"
    have i: "run_inv (completed_in (er_store s) (er_runId s)) ?t"
      by (rule engine.run_inv [OF resume_inv(1) [OF "2.prems" Inr]])
    note k = base_kept [OF i]
    have "kept_in s u" if "u \<in> set (lifetimes num ?t rest)" for u
    proof -
      from "2.IH"(2) [OF Inr i] that have "u = ?t \<or> kept_in ?t u" by blast
      then show ?thesis
      proof
        assume "kept_in ?t u"
        then show ?thesis using k by (simp add: kept_in_def)
      qed (use k in simp)
    qed
    then show ?thesis using "2.IH"(2) [OF Inr i] Inr by simp
  qed
qed simp

text \<open>A first start, on a store that holds nothing of the run.\<close>

lemma start_inv:
  assumes "plain_id runId" "kinds_ok store" "\<forall>i. loadStep store runId i = None"
    and st: "start_workflow num now d runId params store = Some (Inr s)"
  shows "run_inv (\<lambda>i. None) s" "static s = (runId, d)" "well_formed d"
proof -
  obtain u where v: "validateDefinition d = Some (Inr u)"
    using st by (auto simp: start_workflow_def split: option.splits sum.splits)
  show wf: "well_formed d" by (rule validated [OF v])
  define r where "r = \<lparr>rr_runId = runId, rr_workflowId = wd_id d, rr_status = Queued, rr_params = params,
      rr_output = JUndef, rr_error = None, rr_createdAt = now, rr_startedAt = None, rr_completedAt = None\<rparr>"
  define store' where "store' = saveRun r (saveDefinition runId d store)"
  have id: "rr_runId r = runId" by (simp add: r_def)
  have s: "s = launch num now d r store'" using st v by (simp add: start_workflow_def r_def store'_def Let_def)
  note keep = loads_saveRun [of r "saveDefinition runId d store", unfolded id, OF assms(1)]
  have none: "loadStep store' runId i = None" for i
    using assms(3) keep(1) by (simp add: store'_def) (simp add: load_defs saveDefinition_def)
  have "loadDefinition store' runId = Some d"
    using keep(3) by (simp add: store'_def) (simp add: load_defs saveDefinition_def)
  moreover have "kinds_ok store'" unfolding store'_def using assms(1,2) id by (intro kinds_saves) simp_all
  ultimately have "launchable d runId store'"
    using assms(1) wf none by (simp add: launchable_def well_formed_def completed_status_def)
  moreover have "completed_in store' runId = (\<lambda>i. None)"
    using none by (simp add: completed_in_def completed_status_def fun_eq_iff)
  ultimately show "run_inv (\<lambda>i. None) s" using launch_inv [OF _ id, of d store' num now] s by simp
  show "static s = (runId, d)" unfolding s by (simp add: static_launch id)
qed

lemma life_inv:
  assumes "plain_id runId" "kinds_ok store" "\<forall>i. loadStep store runId i = None"
    and "start_workflow num now d runId params store = Some (Inr s)"
    and "t \<in> set (lifetimes num (foldl (engine_step num) s es) ss)"
  obtains b where "run_inv b t" "er_runId t = runId" "er_def t = d"
proof -
  note st = start_inv [OF assms(1-4)]
  obtain b where "run_inv b t" "static t = static (foldl (engine_step num) s es)"
    using lifetimes_inv [OF engine.run_inv [OF st(1)] assms(5)] by blast
  moreover from this(2) have "static t = (runId, d)" using st(2) by simp
  ultimately show thesis using that by (simp add: static_def)
qed

section \<open>Reading the invariant\<close>

lemma invoked_steps:
  assumes "run_inv base s" "c \<in> set (er_calls s)"
  shows "call_ok s c"
  using run_inv_common [OF assms(1)] assms(2) by (simp add: common_def)

lemma done_stored:
  assumes "run_inv base s"
  shows "step_done s i v \<longleftrightarrow>
    (\<exists>r. loadStep (er_store s) (er_runId s) i = Some r \<and> sr_status r = StepCompleted \<and> sr_result r = v)"
  using run_inv_common [OF assms] by (simp add: common_def agree_def step_done_def)

lemma task_counts:
  assumes "task_ok s st t"
  shows "int (calls_of s (ws_id st)) \<le> allowed st" "released s (ws_id st) \<le> acquired s (ws_id st)" "acquired s (ws_id st) \<le> 1"
proof -
  have "0 \<le> allowed st" using allowed_pos [of st] by simp
  then show "int (calls_of s (ws_id st)) \<le> allowed st" "released s (ws_id st) \<le> acquired s (ws_id st)" "acquired s (ws_id st) \<le> 1"
    using assms
    by (cases "(s, st, t)" rule: task_ok.cases; auto simp: idle_def attempting_def leased_def returned_def)+
qed

lemma active_counts:
  assumes "active base s ts" "st \<in> set (steps_of s)"
  shows "int (calls_of s (ws_id st)) \<le> allowed st \<and> released s (ws_id st) \<le> acquired s (ws_id st) \<and> acquired s (ws_id st) \<le> 1"
proof (cases "ws_id st \<in> wave_ids ts")
  case True
  then obtain x t where x: "(x, t) \<in> set ts" "ws_id x = ws_id st" by (auto simp: wave_ids_def)
  have w: "member_ok s x" "task_ok s x t" using assms(1) x(1) by (auto simp: active_but_def wave_ok_def)
  have "distinct (map ws_id (steps_of s))" using assms(1) by (simp add: active_but_def common_def)
  then have "x = st" using x(2) w(1) assms(2) by (metis distinct_map inj_on_eq_iff member_ok_def)
  then show ?thesis using task_counts [OF w(2)] by simp
next
  case False
  then have "case map_of (er_results s) (ws_id st) of
      None \<Rightarrow> \<not> completed_status (rec_of s (ws_id st)) \<and> idle s (ws_id st) | Some v \<Rightarrow> returned s st"
    using assms by (simp add: active_but_def rest_ok_def)
  then show ?thesis using allowed_pos [of st] by (auto simp: returned_def idle_def split: option.splits)
qed

lemma step_counts:
  assumes "run_inv base s" "st \<in> set (steps_of s)"
  shows "int (calls_of s (ws_id st)) \<le> allowed st \<and> released s (ws_id st) \<le> acquired s (ws_id st) \<and>
    acquired s (ws_id st) \<le> 1 \<and> (\<forall>r. er_phase s = Ended r \<longrightarrow> released s (ws_id st) = acquired s (ws_id st))"
proof (cases "er_phase s")
  case (InWave ts)
  then show ?thesis using active_counts [of base s ts st] assms by (simp add: run_inv_def)
next
  case (PollSleep ids)
  then show ?thesis using active_counts [of base s "[]" st] assms by (simp add: run_inv_def)
next
  case (Ended r)
  then have "returned s st" using assms by (simp add: run_inv_def ended_def)
  then show ?thesis by (simp add: returned_def)
qed (use assms in \<open>simp add: run_inv_def\<close>)

text \<open>The output of a completed run in terms of the step records.\<close>

definition leaf_results :: "workflow_def \<Rightarrow> (string \<Rightarrow> step_record option) \<Rightarrow> json" where
  "leaf_results d recs =
     JObj (map (\<lambda>st. (ws_id st, case recs (ws_id st) of None \<Rightarrow> JUndef | Some r \<Rightarrow> sr_result r))
       (filter (\<lambda>st. \<forall>x \<in> set (wd_steps d). ws_id st \<notin> set (ws_dependsOn x)) (wd_steps d)))"

lemma collect_leaves:
  assumes "\<forall>st \<in> set (wd_steps d). \<exists>v r. map_of m (ws_id st) = Some v \<and> recs (ws_id st) = Some r \<and> sr_result r = v"
  shows "collectOutput d m = leaf_results d recs"
proof -
  have f: "filter (\<lambda>s. ws_id s \<notin> set (concat (map ws_dependsOn (wd_steps d)))) (wd_steps d) =
      filter (\<lambda>st. \<forall>x \<in> set (wd_steps d). ws_id st \<notin> set (ws_dependsOn x)) (wd_steps d)" by simp
  have "(case map_of m (ws_id st) of None \<Rightarrow> JUndef | Some v \<Rightarrow> v) =
      (case recs (ws_id st) of None \<Rightarrow> JUndef | Some r \<Rightarrow> sr_result r)" if "st \<in> set (wd_steps d)" for st
    using assms that by fastforce
  then show ?thesis unfolding collectOutput_def leaf_results_def Let_def f by simp
qed

lemma ended_completed:
  assumes "ended base s r" "rr_status r = RunCompleted"
  shows "(\<forall>st \<in> set (wd_steps (er_def s)). completed_status (loadStep (er_store s) (er_runId s) (ws_id st))) \<and>
    rr_output r = leaf_results (er_def s) (loadStep (er_store s) (er_runId s))"
proof -
  have rec: "rec_of s = loadStep (er_store s) (er_runId s)" using assms(1) by (simp add: ended_def common_def agree_def)
  obtain m where m: "rr_output r = collectOutput (er_def s) m"
    "\<forall>st \<in> set (steps_of s). \<exists>v. map_of m (ws_id st) = Some v \<and> step_done s (ws_id st) v"
    using assms unfolding ended_def outcome_def by blast
  have d: "\<exists>v r. map_of m (ws_id st) = Some v \<and> rec_of s (ws_id st) = Some r \<and> sr_status r = StepCompleted \<and> sr_result r = v"
    if "st \<in> set (wd_steps (er_def s))" for st
    using m(2) that unfolding step_done_def steps_of_def by blast
  have "\<forall>st \<in> set (wd_steps (er_def s)). completed_status (rec_of s (ws_id st))" using d by force
  moreover have "collectOutput (er_def s) m = leaf_results (er_def s) (rec_of s)"
    by (rule collect_leaves) (use d in blast)
  ultimately show ?thesis unfolding rec [symmetric] m(1) by blast
qed

section \<open>Concrete runs\<close>

definition demo_step :: "string \<Rightarrow> string list \<Rightarrow> wf_step" where
  "demo_step i ds =
     \<lparr>ws_id = i, ws_toolName = ''t'', ws_args = JObj [], ws_dependsOn = ds, ws_idempotent = None,
      ws_resourceClaims = None, ws_retries = None, ws_timeoutMs = None\<rparr>"

definition demo_def :: workflow_def where
  "demo_def = \<lparr>wd_id = ''w'', wd_steps = [demo_step ''a'' [], demo_step ''b'' [''a'']]\<rparr>"

text \<open>One step of the run, from the grant of its resources to its return.\<close>

definition demo_events :: "int \<Rightarrow> (int \<times> env_event) list" where
  "demo_events v =
     map (\<lambda>r. (2, TaskReply 0 r)) [Granted, Resumed, Returned (ToolResult (JNum v) None), Resumed]"

definition demo_start :: engine_run where
  "demo_start = (case start_workflow (\<lambda>x. None) 1 demo_def ''r'' JNull (open_store []) of
     Some (Inr s) \<Rightarrow> s | _ \<Rightarrow> launch (\<lambda>x. None) 1 demo_def \<lparr>rr_runId = '''', rr_workflowId = '''', rr_status = Queued, rr_params = JNull,
       rr_output = JUndef, rr_error = None, rr_createdAt = 0, rr_startedAt = None, rr_completedAt = None\<rparr> (open_store []))"

definition demo_lives :: "engine_run list" where
  "demo_lives = lifetimes (\<lambda>x. None) (foldl (engine_step (\<lambda>x. None)) demo_start (demo_events 1)) [(5, demo_events 2)]"

lemma demo_store: "plain_id ''r''" "kinds_ok (open_store [])" "\<forall>i. loadStep (open_store []) ''r'' i = None"
  by (simp_all add: plain_id_def kinds_ok_def open_store_def kv_ok_def load_defs)

lemma demo_started: "start_workflow (\<lambda>x. None) 1 demo_def ''r'' JNull (open_store []) = Some (Inr demo_start)"
proof -
  have "validateDefinition demo_def = Some (Inr ())" by code_simp
  then show ?thesis by (simp add: demo_start_def start_workflow_def Let_def)
qed

lemma demo_ran:
  "map er_calls demo_lives = [[(''a'', ''t'', JObj [])], [(''b'', ''t'', JObj [])]]"
  "map (\<lambda>s. case er_phase s of Ended r \<Rightarrow> Some (rr_output r) | _ \<Rightarrow> None) demo_lives = [None, Some (JObj [(''b'', JNum 2)])]"
  by code_simp+

lemma demo_two:
  obtains s t where "demo_lives = [s, t]" "er_calls s = [(''a'', ''t'', JObj [])]" "er_calls t = [(''b'', ''t'', JObj [])]"
    "t \<in> set (lifetimes (\<lambda>x. None) (foldl (engine_step (\<lambda>x. None)) demo_start (demo_events 1)) [(5, demo_events 2)])"
proof -
  obtain s t where l: "demo_lives = [s, t]" "er_calls s = [(''a'', ''t'', JObj [])]" "er_calls t = [(''b'', ''t'', JObj [])]"
    using demo_ran(1) by (auto simp: map_eq_Cons_conv)
  moreover have "t \<in> set demo_lives" unfolding l(1) by simp
  ultimately show thesis using that unfolding demo_lives_def by blast
qed

section \<open>Properties\<close>

text \<open>
  C18. Whatever the tools, the pool, the clock, the operator and the crashes do, a tool is called only
  for a step of the definition, when every dependency of the step is recorded as completed in the
  store, and with the step's arguments in which the references are replaced by results on record.
\<close>
theorem calls_follow_dependencies:
  assumes "plain_id runId" "kinds_ok store" "\<forall>i. loadStep store runId i = None"
    and "start_workflow num now d runId params store = Some (Inr s)"
    and "t \<in> set (lifetimes num (foldl (engine_step num) s es) ss)" "(i, tool, args) \<in> set (er_calls t)"
  shows "\<exists>st \<in> set (wd_steps d). \<exists>m. i = ws_id st \<and> tool = ws_toolName st \<and> args = resolveRefs (ws_args st) m \<and>
    set (ws_dependsOn st) \<subseteq> dom (map_of m) \<and>
    (\<forall>k v. map_of m k = Some v \<longrightarrow>
       (\<exists>r. loadStep (er_store t) runId k = Some r \<and> sr_status r = StepCompleted \<and> sr_result r = v))"
proof -
  obtain b where b: "run_inv b t" "er_runId t = runId" "er_def t = d" by (rule life_inv [OF assms(1-5)])
  obtain st m where st: "st \<in> set (wd_steps d)" "(i, tool, args) = (ws_id st, ws_toolName st, resolveRefs (ws_args st) m)"
    "\<forall>k v. map_of m k = Some v \<longrightarrow> step_done t k v" "\<forall>d \<in> set (ws_dependsOn st). map_of m d \<noteq> None"
    using invoked_steps [OF b(1) assms(6)] b(3) unfolding call_ok_def steps_of_def by blast
  have "\<forall>k v. map_of m k = Some v \<longrightarrow>
      (\<exists>r. loadStep (er_store t) runId k = Some r \<and> sr_status r = StepCompleted \<and> sr_result r = v)"
    using st(3) done_stored [OF b(1)] b(2) by simp
  moreover have "set (ws_dependsOn st) \<subseteq> dom (map_of m)" using st(4) by blast
  ultimately show ?thesis using st(1,2) by blast
qed

theorem calls_follow_dependencies_witness:
  "\<exists>s t m. demo_lives = [s, t] \<and> er_calls t = [(''b'', ''t'', JObj [])] \<and> ''a'' \<in> dom (map_of m) \<and>
     (\<forall>k v. map_of m k = Some v \<longrightarrow>
       (\<exists>r. loadStep (er_store t) ''r'' k = Some r \<and> sr_status r = StepCompleted \<and> sr_result r = v))"
proof -
  obtain s t where l: "demo_lives = [s, t]" "er_calls t = [(''b'', ''t'', JObj [])]"
    and m: "t \<in> set (lifetimes (\<lambda>x. None) (foldl (engine_step (\<lambda>x. None)) demo_start (demo_events 1)) [(5, demo_events 2)])" by (rule demo_two)
  from calls_follow_dependencies [OF demo_store demo_started m, of "''b''" "''t''" "JObj []"] l
  show ?thesis by (auto simp: demo_def_def demo_step_def)
qed

text \<open>
  C17. A step that a process completed stays completed with the same record in every later process of
  the run, and no later process calls its tool again: a restart never repeats finished work.
\<close>
theorem completed_steps_run_once:
  assumes "plain_id runId" "kinds_ok store" "\<forall>i. loadStep store runId i = None"
    and "start_workflow num now d runId params store = Some (Inr s)"
  shows "sorted_wrt (\<lambda>t u. \<forall>i r. loadStep (er_store t) runId i = Some r \<and> sr_status r = StepCompleted \<longrightarrow>
      loadStep (er_store u) runId i = Some r \<and> i \<notin> fst ` set (er_calls u))
    (lifetimes num (foldl (engine_step num) s es) ss)"
proof -
  note st = start_inv [OF assms]
  note i = engine.run_inv [OF st(1), of num es]
  have id: "er_runId t = runId" if "t \<in> set (lifetimes num (foldl (engine_step num) s es) ss)" for t
    by (rule life_inv [OF assms that])
  show ?thesis
  proof (rule sorted_wrt_mono_rel [OF _ lifetimes_kept [OF i, where ss = ss, THEN conjunct1]])
    fix t u assume "t \<in> set (lifetimes num (foldl (engine_step num) s es) ss)"
      "u \<in> set (lifetimes num (foldl (engine_step num) s es) ss)" "kept_in t u"
    then show "\<forall>i r. loadStep (er_store t) runId i = Some r \<and> sr_status r = StepCompleted \<longrightarrow>
        loadStep (er_store u) runId i = Some r \<and> i \<notin> fst ` set (er_calls u)"
      using id by (auto simp: kept_in_def completed_in_simps calls_of_def filter_empty_conv)
  qed
qed

theorem completed_steps_run_once_witness:
  "\<exists>t u. demo_lives = [t, u] \<and> er_calls t = [(''a'', ''t'', JObj [])] \<and>
     (\<forall>i r. loadStep (er_store t) ''r'' i = Some r \<and> sr_status r = StepCompleted \<longrightarrow>
        loadStep (er_store u) ''r'' i = Some r \<and> i \<notin> fst ` set (er_calls u))"
proof -
  obtain t u where l: "demo_lives = [t, u]" "er_calls t = [(''a'', ''t'', JObj [])]" by (rule demo_two)
  from completed_steps_run_once [OF demo_store demo_started, of "demo_events 1" "[(5, demo_events 2)]",
      folded demo_lives_def, unfolded l(1)] l(2)
  show ?thesis unfolding l(1) by auto
qed



text \<open>
  C20. When a run has ended, the record that ended it is in the store and is terminal; a completed run
  has a completed record of every step, and its output holds the recorded results of exactly the
  steps nobody depends on; a failed run failed at a step whose dependencies had all completed, so an
  accepted definition never deadlocks. A completed or failed run cannot be resumed.
\<close>
theorem run_outcome:
  assumes "plain_id runId" "kinds_ok store" "\<forall>i. loadStep store runId i = None"
    and "start_workflow num now d runId params store = Some (Inr s)"
    and "t \<in> set (lifetimes num (foldl (engine_step num) s es) ss)" "er_phase t = Ended r"
  shows "loadRun (er_store t) runId = Some r \<and> rr_status r \<in> {RunCompleted, RunFailed, RunCancelled} \<and>
    (rr_status r = RunCompleted \<longrightarrow>
       (\<forall>st \<in> set (wd_steps d). completed_status (loadStep (er_store t) runId (ws_id st))) \<and>
       rr_output r = leaf_results d (loadStep (er_store t) runId)) \<and>
    (rr_status r = RunFailed \<longrightarrow>
       (\<exists>st \<in> set (wd_steps d). \<not> completed_status (loadStep (er_store t) runId (ws_id st)) \<and>
          (\<forall>d \<in> set (ws_dependsOn st). completed_status (loadStep (er_store t) runId d)))) \<and>
    (rr_status r \<noteq> RunCancelled \<longrightarrow>
       resume_workflow num now' runId (open_store (wf_kv (er_store t))) = Inl (ResumeTerminal (rr_status r)))"
proof -
  obtain b where b: "run_inv b t" "er_runId t = runId" "er_def t = d" by (rule life_inv [OF assms(1-5)])
  have e: "ended b t r" using b(1) assms(6) by (simp add: run_inv_def)
  have wf: "well_formed (er_def t)" using start_inv(3) [OF assms(1-4)] b(3) by simp
  have o: "loadRun (er_store t) (er_runId t) = Some r" "outcome r t" using e by (simp_all add: ended_def)
  have rec: "rec_of t = loadStep (er_store t) runId" using e b(2) by (simp add: ended_def common_def agree_def)
  have "rr_status r = RunFailed \<longrightarrow> (\<exists>st \<in> set (wd_steps d). \<not> completed_status (loadStep (er_store t) runId (ws_id st)) \<and>
      (\<forall>d \<in> set (ws_dependsOn st). completed_status (loadStep (er_store t) runId d)))"
    using o(2) wf unfolding outcome_def steps_of_def b(3) rec by blast
  then show ?thesis
    using o ended_completed [OF e] b(2,3) by (auto simp: outcome_def resume_workflow_def)
qed

theorem run_outcome_witness:
  "\<exists>t r. t = last demo_lives \<and> er_phase t = Ended r \<and> loadRun (er_store t) ''r'' = Some r \<and>
     rr_output r = JObj [(''b'', JNum 2)]"
proof -
  obtain s t where l: "demo_lives = [s, t]"
    and m: "t \<in> set (lifetimes (\<lambda>x. None) (foldl (engine_step (\<lambda>x. None)) demo_start (demo_events 1)) [(5, demo_events 2)])" by (rule demo_two)
  obtain r where r: "er_phase t = Ended r" "rr_output r = JObj [(''b'', JNum 2)]"
    using demo_ran(2) unfolding l by (auto split: run_phase.splits)
  from run_outcome [OF demo_store demo_started m r(1)] show ?thesis using r by (auto simp: l)
qed

end
