(* ===== verification/Evidence_Verify.thy ===== *)
theory Evidence_Verify
  imports Canonical_Json
begin

text \<open>
  Verification of evidence records: the DSSE envelope (packages/aep/src/dsse.ts) and the record and
  chain checks of packages/aep/src/verify.ts. A byte array is a \<open>string\<close> of bytes. SHA-256 in hex
  (\<open>sha\<close>), base64 decoding (\<open>b64\<close>), \<open>JSON.parse\<close> of decoded text (\<open>parse\<close>, \<open>None\<close> when it throws) and
  the Ed25519 check (\<open>ed\<close>, \<open>None\<close> when it throws) are arguments.
\<close>

section \<open>Bytes\<close>

text \<open>\<open>TextEncoder\<close> on the code units modelled.\<close>

definition utf8_char :: "char \<Rightarrow> string" where
  "utf8_char c =
     (let n = (of_char c :: nat) in if n < 128 then [c] else [char_of (192 + n div 64), char_of (128 + n mod 64)])"

definition utf8 :: "string \<Rightarrow> string" where
  "utf8 s = concat (map utf8_char s)"

definition canonicalBytes :: "json \<Rightarrow> string" where
  "canonicalBytes v = utf8 (canonicalJson v)"

definition canonicalDigest :: "(string \<Rightarrow> string) \<Rightarrow> json \<Rightarrow> string" where
  "canonicalDigest sha v = sha (canonicalBytes v)"

section \<open>Records\<close>

record dsse_signature =
  sg_keyid :: string
  sg_sig :: string

record dsse_envelope =
  de_payloadType :: string
  de_payload :: string
  de_signatures :: "dsse_signature list"

text \<open>An evidence record: the members the three attachments are stripped from, and the attachments.\<close>

record aep_record =
  ar_fields :: "(string \<times> json) list"
  ar_signature :: "json option"
  ar_envelope :: "dsse_envelope option"
  ar_proof :: "json option"

text \<open>\<open>o.k\<close> for the members of an object, and for any value that is not null.\<close>

definition field :: "(string \<times> json) list \<Rightarrow> string \<Rightarrow> json" where
  "field kvs k = (case map_of kvs k of None \<Rightarrow> JUndef | Some v \<Rightarrow> v)"

definition member_of :: "json \<Rightarrow> string \<Rightarrow> json" where
  "member_of v k = (case v of JObj kvs \<Rightarrow> field kvs k | _ \<Rightarrow> JUndef)"

definition attached :: "string \<Rightarrow> json option \<Rightarrow> (string \<times> json) list" where
  "attached k x = (case x of None \<Rightarrow> [] | Some v \<Rightarrow> [(k, v)])"

definition envelope_json :: "dsse_envelope \<Rightarrow> json" where
  "envelope_json e =
     JObj [(''payloadType'', JStr (de_payloadType e)), (''payload'', JStr (de_payload e)),
       (''signatures'', JArr (map (\<lambda>s. JObj [(''keyid'', JStr (sg_keyid s)), (''sig'', JStr (sg_sig s))]) (de_signatures e)))]"

definition record_json :: "aep_record \<Rightarrow> json" where
  "record_json r =
     JObj (ar_fields r @ attached ''signature'' (ar_signature r) @
       attached ''dsse_envelope'' (map_option envelope_json (ar_envelope r)) @ attached ''timestamp_proof'' (ar_proof r))"

section \<open>The envelope (dsse.ts)\<close>

definition AEP_PREDICATE_TYPE :: string where
  "AEP_PREDICATE_TYPE = ''https://wasmagent.dev/attestations/aep/v0.4''"

definition IN_TOTO_PAYLOAD_TYPE :: string where
  "IN_TOTO_PAYLOAD_TYPE = ''application/vnd.in-toto+json''"

definition paeEncode :: "string \<Rightarrow> string \<Rightarrow> string" where
  "paeEncode payloadType payload =
     (let typeBytes = utf8 payloadType
      in ''DSSEv1 '' @ nat_str (length typeBytes) @ '' '' @ typeBytes @ '' '' @ nat_str (length payload) @ '' '' @ payload)"

definition wrapInTotoStatement :: "(string \<times> json) list \<Rightarrow> string \<Rightarrow> string \<Rightarrow> json" where
  "wrapInTotoStatement rec runId payloadDigest =
     JObj [(''_type'', JStr ''https://in-toto.io/Statement/v1''),
       (''subject'', JArr [JObj [(''name'', JStr (''urn:wasmagent:run:'' @ runId)),
                                 (''digest'', JObj [(''sha256'', JStr payloadDigest)])]]),
       (''predicateType'', JStr AEP_PREDICATE_TYPE),
       (''predicate'', JObj rec)]"

definition decodeBase64Either :: "(string \<Rightarrow> string) \<Rightarrow> string \<Rightarrow> string" where
  "decodeBase64Either b64 input =
     b64 (map (\<lambda>c. if c = CHR ''-'' then CHR ''+'' else if c = CHR ''_'' then CHR ''/'' else c) input)"

definition verifyDSSEEnvelope ::
  "(string \<Rightarrow> string) \<Rightarrow> (string \<Rightarrow> string \<Rightarrow> 'key \<Rightarrow> bool option) \<Rightarrow> dsse_envelope \<Rightarrow> 'key \<Rightarrow> bool" where
  "verifyDSSEEnvelope b64 ed envelope publicKey =
     (case de_signatures envelope of
        [s] \<Rightarrow>
          de_payloadType envelope = IN_TOTO_PAYLOAD_TYPE \<and> sg_sig s \<noteq> [] \<and>
          ed (decodeBase64Either b64 (sg_sig s))
             (paeEncode (de_payloadType envelope) (decodeBase64Either b64 (de_payload envelope))) publicKey = Some True
      | _ \<Rightarrow> False)"

section \<open>The binding of a record to its envelope (verify.ts)\<close>

datatype binding_mode = Exact | LegacyNormalized | NotApplicable | InvalidBinding

datatype authenticity_mode = DsseValid | Unsigned | InvalidAuthenticity

text \<open>\<open>a === b\<close> for values from two parses: objects and arrays are never the same.\<close>

fun strict_eq :: "json \<Rightarrow> json \<Rightarrow> bool" where
  "strict_eq (JObj x) b = False"
| "strict_eq (JArr x) b = False"
| "strict_eq a b = (a = b)"

text \<open>\<open>{ ...v }\<close>.\<close>

definition spread :: "json \<Rightarrow> (string \<times> json) list" where
  "spread v =
     (case v of
        JObj kvs \<Rightarrow> kvs
      | JArr xs \<Rightarrow> zip (map nat_str [0..<length xs]) xs
      | JStr s \<Rightarrow> zip (map nat_str [0..<length s]) (map (\<lambda>c. JStr [c]) s)
      | _ \<Rightarrow> [])"

text \<open>The signed predicate against the inline fields: the mode and the predicate with its version normalised.\<close>

definition predicate_binding :: "(string \<times> json) list \<Rightarrow> (string \<times> json) list \<Rightarrow> (binding_mode \<times> (string \<times> json) list) option" where
  "predicate_binding predicate unsigned =
     (if strict_eq (field predicate ''schema_version'') (field unsigned ''schema_version'') then Some (Exact, predicate)
      else if field predicate ''schema_version'' = JStr ''aep/v0.3'' \<and> field unsigned ''schema_version'' = JStr ''aep/v0.4''
      then Some (LegacyNormalized, AList.update ''schema_version'' (field unsigned ''schema_version'') predicate)
      else None)"

definition is_falsy :: "json \<Rightarrow> bool" where
  "is_falsy v = (v \<in> {JUndef, JNull, JBool False, JNum 0, JStr ''''})"

definition dsseEnvelopeBinding ::
  "(string \<Rightarrow> string) \<Rightarrow> (string \<Rightarrow> string) \<Rightarrow> (string \<Rightarrow> json option) \<Rightarrow> aep_record \<Rightarrow> binding_mode" where
  "dsseEnvelopeBinding sha b64 parse r =
     (case ar_envelope r of
        None \<Rightarrow> InvalidBinding
      | Some envelope \<Rightarrow>
          (case parse (decodeBase64Either b64 (de_payload envelope)) of
             None \<Rightarrow> InvalidBinding
           | Some statement \<Rightarrow>
               (case (member_of statement ''predicate'', member_of statement ''subject'') of
                  (JUndef, _) \<Rightarrow> InvalidBinding
                | (p, JArr [subject]) \<Rightarrow>
                    if member_of statement ''predicateType'' \<noteq> JStr AEP_PREDICATE_TYPE then InvalidBinding
                    else if member_of statement ''_type'' \<noteq> JStr ''https://in-toto.io/Statement/v1'' then InvalidBinding
                    else (case predicate_binding (spread p) (ar_fields r) of
                            None \<Rightarrow> InvalidBinding
                          | Some (mode, predicate) \<Rightarrow>
                              if canonicalDigest sha (JObj predicate) \<noteq> canonicalDigest sha (JObj (ar_fields r)) then InvalidBinding
                              else if is_falsy subject then InvalidBinding
                              else if member_of (member_of subject ''digest'') ''sha256'' \<noteq> JStr (canonicalDigest sha (JObj predicate)) \<and>
                                      member_of (member_of subject ''digest'') ''sha256'' \<noteq> JStr (canonicalDigest sha (JObj (ar_fields r)))
                              then InvalidBinding
                              else (case field (ar_fields r) ''run_id'' of
                                      JStr runId \<Rightarrow>
                                        if runId = [] then InvalidBinding
                                        else if member_of subject ''name'' \<noteq> JStr (''urn:wasmagent:run:'' @ runId) then InvalidBinding
                                        else mode
                                    | _ \<Rightarrow> InvalidBinding))
                | _ \<Rightarrow> InvalidBinding)))"

record verification =
  vf_valid :: bool
  vf_authenticity :: authenticity_mode
  vf_binding :: binding_mode

definition verifyAEPRecordDetailed ::
  "(string \<Rightarrow> string) \<Rightarrow> (string \<Rightarrow> string) \<Rightarrow> (string \<Rightarrow> json option) \<Rightarrow> (string \<Rightarrow> string \<Rightarrow> 'key \<Rightarrow> bool option) \<Rightarrow>
     aep_record \<Rightarrow> 'key \<Rightarrow> verification" where
  "verifyAEPRecordDetailed sha b64 parse ed r publicKey =
     (case ar_envelope r of
        Some envelope \<Rightarrow>
          if \<not> verifyDSSEEnvelope b64 ed envelope publicKey
          then \<lparr>vf_valid = False, vf_authenticity = InvalidAuthenticity, vf_binding = NotApplicable\<rparr>
          else (let binding = dsseEnvelopeBinding sha b64 parse r
                in \<lparr>vf_valid = (binding \<noteq> InvalidBinding),
                    vf_authenticity = (if binding = InvalidBinding then InvalidAuthenticity else DsseValid),
                    vf_binding = binding\<rparr>)
      | None \<Rightarrow>
          if (case ar_signature r of None \<Rightarrow> True | Some s \<Rightarrow> is_falsy s)
          then \<lparr>vf_valid = False, vf_authenticity = Unsigned, vf_binding = NotApplicable\<rparr>
          else \<lparr>vf_valid = False, vf_authenticity = InvalidAuthenticity, vf_binding = NotApplicable\<rparr>)"

definition verifyAEPRecord ::
  "(string \<Rightarrow> string) \<Rightarrow> (string \<Rightarrow> string) \<Rightarrow> (string \<Rightarrow> json option) \<Rightarrow> (string \<Rightarrow> string \<Rightarrow> 'key \<Rightarrow> bool option) \<Rightarrow>
     aep_record \<Rightarrow> 'key \<Rightarrow> bool" where
  "verifyAEPRecord sha b64 parse ed r publicKey = vf_valid (verifyAEPRecordDetailed sha b64 parse ed r publicKey)"

section \<open>The chain of records\<close>

datatype chain_status = Intact | NotPresent | PartialChain | Orphaned | BrokenAt nat

definition prev_link :: "aep_record \<Rightarrow> json" where
  "prev_link r = field (ar_fields r) ''prev_record_hash''"

definition no_link :: "aep_record \<Rightarrow> bool" where
  "no_link r = (prev_link r = JUndef \<or> prev_link r = JNull)"

text \<open>What a link hashes: the record without signature and envelope.\<close>

definition linked_json :: "aep_record \<Rightarrow> json" where
  "linked_json r = JObj (ar_fields r @ attached ''timestamp_proof'' (ar_proof r))"

text \<open>The loop over the pairs: the index, and how many links were right and how many missing.\<close>

fun chain_loop :: "(string \<Rightarrow> string) \<Rightarrow> nat \<Rightarrow> nat \<Rightarrow> nat \<Rightarrow> aep_record \<Rightarrow> aep_record list \<Rightarrow> nat + nat \<times> nat" where
  "chain_loop sha i linked missing prev [] = Inr (linked, missing)"
| "chain_loop sha i linked missing prev (r # rs) =
     (if no_link r then chain_loop sha (i + 1) linked (missing + 1) r rs
      else if prev_link r \<noteq> JStr (canonicalDigest sha (linked_json prev)) then Inl i
      else chain_loop sha (i + 1) (linked + 1) missing r rs)"

definition verifyAEPChain :: "(string \<Rightarrow> string) \<Rightarrow> aep_record list \<Rightarrow> chain_status" where
  "verifyAEPChain sha records =
     (case records of
        [] \<Rightarrow> NotPresent
      | [r] \<Rightarrow> if no_link r then NotPresent else Orphaned
      | r # rs \<Rightarrow>
          (case chain_loop sha 1 0 0 r rs of
             Inl i \<Rightarrow> BrokenAt i
           | Inr (linked, missing) \<Rightarrow>
               if linked = 0 then NotPresent
               else if missing > 0 then PartialChain
               else if \<not> no_link r then Orphaned
               else Intact))"

definition chain_valid :: "chain_status \<Rightarrow> bool" where
  "chain_valid s = (case s of BrokenAt i \<Rightarrow> False | _ \<Rightarrow> True)"

section \<open>Bytes determine the text\<close>

lemma utf8_char_ne [simp]: "utf8_char c \<noteq> []"
  by (simp add: utf8_char_def Let_def)

lemma utf8_char_inj: "utf8_char c @ r = utf8_char d @ r' \<Longrightarrow> c = d \<and> r = r'"
proof -
  assume e: "utf8_char c @ r = utf8_char d @ r'"
  define m where "m = (of_char c :: nat)"
  define n where "n = (of_char d :: nat)"
  have b: "m < 256" "n < 256" by (simp_all add: m_def n_def of_char_of [symmetric] nat_of_char_less_256)
  have cd: "c = char_of m" "d = char_of n" by (simp_all add: m_def n_def)
  have hi: "(of_char (char_of (192 + k div 64) :: char) :: nat) = 192 + k div 64"
    and lo: "(of_char (char_of (128 + k mod 64) :: char) :: nat) = 128 + k mod 64" if "k < 256" for k :: nat
  proof -
    have "k div 64 < 4" using that by (simp add: div_less_iff_less_mult)
    then show "(of_char (char_of (192 + k div 64) :: char) :: nat) = 192 + k div 64" by simp
    have "k mod 64 < 64" by simp
    then show "(of_char (char_of (128 + k mod 64) :: char) :: nat) = 128 + k mod 64" by simp
  qed
  consider (a) "m < 128" "n < 128" | (b) "m < 128" "\<not> n < 128" | (c) "\<not> m < 128" "n < 128" | (d) "\<not> m < 128" "\<not> n < 128"
    by blast
  then show "c = d \<and> r = r'"
  proof cases
    case a
    then show ?thesis using e by (simp add: utf8_char_def m_def n_def)
  next
    case b
    then have "c = char_of (192 + n div 64)" using e by (simp add: utf8_char_def m_def n_def Let_def)
    then have "m = 192 + n div 64" using hi [OF \<open>n < 256\<close>] by (simp add: m_def)
    then show ?thesis using b by simp
  next
    case c
    then have "d = char_of (192 + m div 64)" using e by (simp add: utf8_char_def m_def n_def Let_def)
    then have "n = 192 + m div 64" using hi [OF \<open>m < 256\<close>] by (simp add: n_def)
    then show ?thesis using c by simp
  next
    case d
    then have q: "char_of (192 + m div 64) = (char_of (192 + n div 64) :: char)"
      "char_of (128 + m mod 64) = (char_of (128 + n mod 64) :: char)" "r = r'"
      using e by (simp_all add: utf8_char_def m_def n_def Let_def)
    have "m div 64 = n div 64" using arg_cong [OF q(1), of "of_char :: char \<Rightarrow> nat"] hi b by simp
    moreover have "m mod 64 = n mod 64" using arg_cong [OF q(2), of "of_char :: char \<Rightarrow> nat"] lo b by simp
    ultimately have "m = n" by (metis div_mult_mod_eq)
    then show ?thesis using cd q(3) by simp
  qed
qed

lemma utf8_inj: "utf8 s = utf8 t \<longleftrightarrow> s = t"
proof
  show "utf8 s = utf8 t \<Longrightarrow> s = t"
  proof (induction s arbitrary: t)
    case Nil
    then show ?case by (cases t) (auto simp: utf8_def)
  next
    case (Cons c s)
    then obtain d u where t: "t = d # u" by (cases t) (auto simp: utf8_def)
    have "utf8_char c @ utf8 s = utf8_char d @ utf8 u" using Cons.prems t by (simp add: utf8_def)
    from utf8_char_inj [OF this] show ?case using Cons.IH t by simp
  qed
qed simp

definition same_data :: "json \<Rightarrow> json \<Rightarrow> bool" where
  "same_data v w \<longleftrightarrow> canonical_value v = canonical_value w"

lemma canonical_bytes_eq: "canonicalBytes v = canonicalBytes w \<longleftrightarrow> same_data v w"
  using stable_inj [of v w] by (simp add: canonicalBytes_def utf8_inj same_data_def serialize_print stable_print)

text \<open>Two values whose texts differ and have one digest.\<close>

definition digest_collision :: "(string \<Rightarrow> string) \<Rightarrow> json \<Rightarrow> json \<Rightarrow> bool" where
  "digest_collision sha v w \<longleftrightarrow> canonicalBytes v \<noteq> canonicalBytes w \<and> canonicalDigest sha v = canonicalDigest sha w"

lemma digest_eq: "canonicalDigest sha v = canonicalDigest sha w \<Longrightarrow> same_data v w \<or> digest_collision sha v w"
  by (auto simp: digest_collision_def canonical_bytes_eq)

text \<open>Members of objects with the same data.\<close>

lemma canonical_member:
  assumes "distinct (map fst kvs)"
  shows "canonical_value (field kvs k) =
    (case canonical_value (JObj kvs) of JObj m \<Rightarrow> (case map_of m k of None \<Rightarrow> JNull | Some v \<Rightarrow> v) | _ \<Rightarrow> JNull)"
proof -
  let ?m = "map (\<lambda>(k, v). (k, canonical_value v)) (filter (\<lambda>(k, v). v \<noteq> JUndef) kvs)"
  have d: "distinct (map fst ?m)" using assms by (induction kvs) (auto simp: image_iff)
  moreover have "distinct (map fst (sort_key fst ?m))"
    using d mset_eq_imp_distinct_iff [of "map fst (sort_key fst ?m)" "map fst ?m"] by (simp only: mset_map mset_sort)
  ultimately have "map_of (sort_key fst ?m) = map_of ?m"
    by (simp only: map_of_inject_set set_sort)
  moreover have "map_of ?m k = (case map_of kvs k of None \<Rightarrow> None | Some v \<Rightarrow> if v = JUndef then None else Some (canonical_value v))"
    using assms by (induction kvs) (auto split: option.splits simp: map_of_eq_None_iff image_iff)
  ultimately show ?thesis by (auto simp: field_def split: option.splits)
qed

lemma same_member:
  assumes "same_data (JObj kvs) (JObj lvs)" "distinct (map fst kvs)" "distinct (map fst lvs)"
  shows "canonical_value (field kvs k) = canonical_value (field lvs k)"
  using assms(1) canonical_member [OF assms(2), of k] canonical_member [OF assms(3), of k] unfolding same_data_def by presburger

section \<open>Unambiguous encoding\<close>

lemma numeral_prefix:
  assumes "nat_str m @ CHR '' '' # x = nat_str n @ CHR '' '' # y"
  shows "m = n \<and> x = y"
proof -
  have s: "CHR '' '' \<notin> set (nat_str k)" for k
    using num_str_digits [of "CHR '' ''" k] by (auto simp: is_digit_def)
  have "takeWhile (\<lambda>c. c \<noteq> CHR '' '') (nat_str k @ CHR '' '' # z) = nat_str k" for k z
    using s [of k] by (subst takeWhile_append2) auto
  then have "nat_str m = nat_str n" using assms by metis
  then show ?thesis using assms by (simp add: nat_str_inj)
qed

lemma pae_inj:
  assumes "paeEncode t b = paeEncode t' b'"
  shows "t = t' \<and> b = b'"
proof -
  have "nat_str (length (utf8 t)) @ CHR '' '' # utf8 t @ CHR '' '' # nat_str (length b) @ CHR '' '' # b =
      nat_str (length (utf8 t')) @ CHR '' '' # utf8 t' @ CHR '' '' # nat_str (length b') @ CHR '' '' # b'"
    using assms by (simp add: paeEncode_def Let_def)
  note 1 = numeral_prefix [OF this]
  then have 2: "utf8 t = utf8 t'" by (metis append_eq_append_conv)
  with 1 have "nat_str (length b) @ CHR '' '' # b = nat_str (length b') @ CHR '' '' # b'" by simp
  from numeral_prefix [OF this] 2 show ?thesis by (simp add: utf8_inj)
qed

section \<open>What a chain commits to\<close>

fun links_ok :: "(string \<Rightarrow> string) \<Rightarrow> aep_record list \<Rightarrow> bool" where
  "links_ok sha (r # s # rs) = (prev_link s = JStr (canonicalDigest sha (linked_json r)) \<and> links_ok sha (s # rs))"
| "links_ok sha rs = True"

lemma links_snoc: "rs \<noteq> [] \<Longrightarrow> links_ok sha (rs @ [s]) \<longleftrightarrow> links_ok sha rs \<and> prev_link s = JStr (canonicalDigest sha (linked_json (last rs)))"
  by (induction sha rs rule: links_ok.induct) auto

lemma chain_loop_counts: "chain_loop sha i l m p rs = Inr (l', m') \<Longrightarrow> m \<le> m' \<and> l \<le> l'"
  by (induction sha i l m p rs rule: chain_loop.induct) (auto split: if_splits)

lemma chain_loop_full:
  "chain_loop sha i l m p rs = Inr (l', m) \<longleftrightarrow>
     links_ok sha (p # rs) \<and> list_all (\<lambda>r. \<not> no_link r) rs \<and> l' = l + length rs"
proof (induction sha i l m p rs rule: chain_loop.induct)
  case (2 sha i l m p r rs)
  have "chain_loop sha (i + 1) l (m + 1) r rs \<noteq> Inr (l', m)"
    using chain_loop_counts [of sha "i + 1" l "m + 1" r rs l' m] by auto
  then show ?case using 2 by auto
qed auto

lemma link_present: "prev_link r = JStr x \<Longrightarrow> \<not> no_link r"
  by (simp add: no_link_def)

lemma intact_iff:
  "verifyAEPChain sha rs = Intact \<longleftrightarrow> 2 \<le> length rs \<and> no_link (hd rs) \<and> links_ok sha rs"
proof -
  have l: "links_ok sha (p # xs) \<Longrightarrow> list_all (\<lambda>r. \<not> no_link r) xs" for p xs
    by (induction xs arbitrary: p) (auto simp: link_present)
  show ?thesis
  proof (cases rs)
    case (Cons r xs)
    then show ?thesis
    proof (cases xs)
      case (Cons s ys)
      have "chain_loop sha 1 0 0 r xs = Inr (l', 0) \<longleftrightarrow> links_ok sha (r # xs) \<and> l' = length xs" for l'
        using chain_loop_full [of sha 1 0 0 r xs l'] l [of r xs] by auto
      moreover have "verifyAEPChain sha (r # s # ys) = Intact \<longleftrightarrow>
          no_link r \<and> (\<exists>l'. chain_loop sha 1 0 0 r (s # ys) = Inr (l', 0) \<and> l' \<noteq> 0)"
        unfolding verifyAEPChain_def list.case by (auto split: sum.splits prod.splits simp del: chain_loop.simps)
      ultimately show ?thesis using \<open>rs = r # xs\<close> Cons by (simp del: chain_loop.simps links_ok.simps)
    qed (auto simp: verifyAEPChain_def)
  qed (simp add: verifyAEPChain_def)
qed

definition wrong_link :: "(string \<Rightarrow> string) \<Rightarrow> aep_record \<Rightarrow> aep_record list \<Rightarrow> nat \<Rightarrow> bool" where
  "wrong_link sha p rs j \<longleftrightarrow>
     \<not> no_link (rs ! j) \<and> prev_link (rs ! j) \<noteq> JStr (canonicalDigest sha (linked_json ((p # rs) ! j)))"

lemma wrong_link_Cons [simp]:
  "wrong_link sha p (r # rs) 0 \<longleftrightarrow> \<not> no_link r \<and> prev_link r \<noteq> JStr (canonicalDigest sha (linked_json p))"
  "wrong_link sha p (r # rs) (Suc j) \<longleftrightarrow> wrong_link sha r rs j"
  by (simp_all add: wrong_link_def)

lemma broken_iff:
  "chain_loop sha i l m p rs = Inl k \<longleftrightarrow>
     (\<exists>j < length rs. k = i + j \<and> wrong_link sha p rs j \<and> (\<forall>j' < j. \<not> wrong_link sha p rs j'))"
proof (induction sha i l m p rs rule: chain_loop.induct)
  case (2 sha i l m p r rs)
  have "(\<exists>j < length (r # rs). k = i + j \<and> wrong_link sha p (r # rs) j \<and> (\<forall>j' < j. \<not> wrong_link sha p (r # rs) j')) \<longleftrightarrow>
      wrong_link sha p (r # rs) 0 \<and> k = i \<or>
      \<not> wrong_link sha p (r # rs) 0 \<and>
      (\<exists>j < length rs. k = i + 1 + j \<and> wrong_link sha r rs j \<and> (\<forall>j' < j. \<not> wrong_link sha r rs j'))"
    by (auto simp: Ex_less_Suc2 All_less_Suc2 simp del: wrong_link_Cons(1))
  then show ?case using 2 by (auto simp: link_present)
qed simp

definition record_ok :: "aep_record \<Rightarrow> bool" where
  "record_ok r \<longleftrightarrow> distinct (map fst (ar_fields r @ attached ''timestamp_proof'' (ar_proof r)))"

definition same_record :: "aep_record \<Rightarrow> aep_record \<Rightarrow> bool" where
  "same_record r s \<longleftrightarrow> same_data (linked_json r) (linked_json s)"

lemma same_link:
  assumes "same_record r s" "record_ok r" "record_ok s"
  shows "canonical_value (prev_link r) = canonical_value (prev_link s)"
proof -
  have p: "field (ar_fields r @ attached ''timestamp_proof'' (ar_proof r)) ''prev_record_hash'' = prev_link r" for r
    by (simp add: field_def prev_link_def attached_def map_add_def split: option.splits)
  show ?thesis
    using same_member [OF assms(1) [unfolded same_record_def linked_json_def] assms(2,3) [unfolded record_ok_def],
        of "''prev_record_hash''"] by (simp only: p)
qed

lemma canonical_str: "canonical_value v = JStr x \<longleftrightarrow> v = JStr x" "canonical_value v = JNull \<longleftrightarrow> v = JUndef \<or> v = JNull"
  by (cases v; simp)+

lemma same_link_iff:
  assumes "same_record r s" "record_ok r" "record_ok s"
  shows "prev_link r = JStr x \<longleftrightarrow> prev_link s = JStr x" "no_link r = no_link s"
  using same_link [OF assms] canonical_str by (metis, metis no_link_def)

lemma chain_commits:
  assumes "links_ok sha (rs @ [r])" "links_ok sha (ss @ [s])" "no_link (hd (rs @ [r]))" "no_link (hd (ss @ [s]))"
    and "\<forall>x \<in> set (rs @ [r]) \<union> set (ss @ [s]). record_ok x" "same_record r s"
  shows "list_all2 same_record (rs @ [r]) (ss @ [s]) \<or>
    (\<exists>x \<in> set rs. \<exists>y \<in> set ss. digest_collision sha (linked_json x) (linked_json y))"
  using assms
proof (induction rs arbitrary: r s ss rule: rev_induct)
  case Nil
  then have "no_link s" using same_link_iff(2) [of r s] by simp
  then have "ss = []" using Nil.prems(2) links_snoc [of ss sha s] link_present by blast
  then show ?case using Nil by simp
next
  case (snoc x rs)
  have lr: "links_ok sha (rs @ [x])" "prev_link r = JStr (canonicalDigest sha (linked_json x))"
    using snoc.prems(1) links_snoc [of "rs @ [x]" sha r] by simp_all
  have "record_ok r" "record_ok s" using snoc.prems(5) by simp_all
  then have ps: "prev_link s = JStr (canonicalDigest sha (linked_json x))"
    using same_link_iff(1) [OF snoc.prems(6)] lr(2) by blast
  have "ss \<noteq> []" using snoc.prems(4) link_present [OF ps] by auto
  then obtain ys y where ss: "ss = ys @ [y]" by (metis rev_exhaust)
  have ls: "links_ok sha (ys @ [y])" "prev_link s = JStr (canonicalDigest sha (linked_json y))"
    using snoc.prems(2) links_snoc [of "ys @ [y]" sha s] ss by simp_all
  have hd: "no_link (hd (rs @ [x]))" "no_link (hd (ys @ [y]))" using snoc.prems(3,4) ss by (cases rs; cases ys; simp)+
  have ok: "\<forall>z \<in> set (rs @ [x]) \<union> set (ys @ [y]). record_ok z" using snoc.prems(5) ss by simp
  have "canonicalDigest sha (linked_json x) = canonicalDigest sha (linked_json y)" using ps ls(2) by simp
  from digest_eq [OF this] show ?case
  proof
    assume "same_data (linked_json x) (linked_json y)"
    then have "same_record x y" by (simp add: same_record_def)
    from snoc.IH [OF lr(1) ls(1) hd ok this] show ?thesis
    proof
      assume "list_all2 same_record (rs @ [x]) (ys @ [y])"
      then have "list_all2 same_record ((rs @ [x]) @ [r]) ((ys @ [y]) @ [s])"
        by (rule list_all2_appendI) (use snoc.prems(6) in \<open>simp only: list_all2_Cons list_all2_Nil simp_thms\<close>)
      then show ?thesis using ss by simp
    qed (use ss in auto)
  qed (use ss in auto)
qed

section \<open>Concrete records\<close>

definition demo_fields :: "string \<Rightarrow> json \<Rightarrow> (string \<times> json) list" where
  "demo_fields i link = [(''run_id'', JStr i), (''schema_version'', JStr ''aep/v0.5''), (''prev_record_hash'', link)]"

definition demo_record :: "string \<Rightarrow> json \<Rightarrow> aep_record" where
  "demo_record i link =
     \<lparr>ar_fields = demo_fields i link, ar_signature = None,
      ar_envelope = Some \<lparr>de_payloadType = IN_TOTO_PAYLOAD_TYPE, de_payload = ''p'', de_signatures = [\<lparr>sg_keyid = ''k'', sg_sig = ''s''\<rparr>]\<rparr>,
      ar_proof = None\<rparr>"

definition demo_chain :: "aep_record list" where
  "demo_chain =
     [demo_record ''a'' JNull, demo_record ''b'' (JStr (canonicalDigest rev (linked_json (demo_record ''a'' JNull))))]"

lemma demo_intact: "verifyAEPChain rev demo_chain = Intact"
  by code_simp

section \<open>Properties\<close>

text \<open>
  The bytes a signature covers determine what was signed: two pairs of payload type and body have
  the same pre-authentication encoding only when they are equal.
\<close>
theorem pae_unambiguous:
  "paeEncode t b = paeEncode t' b' \<longleftrightarrow> t = t' \<and> b = b'"
  using pae_inj by blast

text \<open>
  C21. A record verifies only when the key signed a statement of the AEP type for its run, whose
  predicate holds the same data as the inline fields of the record, the version of a record of the
  legacy window apart; otherwise the two texts are a collision of the digest.
\<close>
theorem verified_record_is_signed:
  assumes "verifyAEPRecord sha b64 parse ed r key"
  shows "\<exists>e sig statement subject runId signed mode. ar_envelope r = Some e \<and>
    ed sig (paeEncode IN_TOTO_PAYLOAD_TYPE (decodeBase64Either b64 (de_payload e))) key = Some True \<and>
    parse (decodeBase64Either b64 (de_payload e)) = Some statement \<and>
    member_of statement ''predicateType'' = JStr AEP_PREDICATE_TYPE \<and>
    member_of statement ''subject'' = JArr [subject] \<and> field (ar_fields r) ''run_id'' = JStr runId \<and> runId \<noteq> [] \<and>
    member_of subject ''name'' = JStr (''urn:wasmagent:run:'' @ runId) \<and>
    (same_data (JObj signed) (JObj (ar_fields r)) \<or> digest_collision sha (JObj signed) (JObj (ar_fields r))) \<and>
    mode = vf_binding (verifyAEPRecordDetailed sha b64 parse ed r key) \<and>
    (mode = Exact \<and> signed = spread (member_of statement ''predicate'') \<or>
     mode = LegacyNormalized \<and> field (ar_fields r) ''schema_version'' = JStr ''aep/v0.4'' \<and>
       field (spread (member_of statement ''predicate'')) ''schema_version'' = JStr ''aep/v0.3'' \<and>
       signed = AList.update ''schema_version'' (JStr ''aep/v0.4'') (spread (member_of statement ''predicate'')))"
proof -
  obtain e where e: "ar_envelope r = Some e" "verifyDSSEEnvelope b64 ed e key" "dsseEnvelopeBinding sha b64 parse r \<noteq> InvalidBinding"
    using assms by (auto simp: verifyAEPRecord_def verifyAEPRecordDetailed_def Let_def split: option.splits if_splits)
  have mode: "vf_binding (verifyAEPRecordDetailed sha b64 parse ed r key) = dsseEnvelopeBinding sha b64 parse r"
    using e by (simp add: verifyAEPRecordDetailed_def Let_def)
  obtain sig where sig: "ed sig (paeEncode IN_TOTO_PAYLOAD_TYPE (decodeBase64Either b64 (de_payload e))) key = Some True"
    using e(2) by (auto simp: verifyDSSEEnvelope_def split: list.splits)
  obtain statement where st: "parse (decodeBase64Either b64 (de_payload e)) = Some statement"
    using e by (auto simp: dsseEnvelopeBinding_def split: option.splits)
  obtain subject where sub: "member_of statement ''subject'' = JArr [subject]"
    using e st by (auto simp: dsseEnvelopeBinding_def split: json.splits list.splits)
  let ?p = "spread (member_of statement ''predicate'')"
  have b: "dsseEnvelopeBinding sha b64 parse r =
      (if member_of statement ''predicate'' = JUndef \<or> member_of statement ''predicateType'' \<noteq> JStr AEP_PREDICATE_TYPE \<or>
          member_of statement ''_type'' \<noteq> JStr ''https://in-toto.io/Statement/v1'' then InvalidBinding
       else (case predicate_binding ?p (ar_fields r) of
               None \<Rightarrow> InvalidBinding
             | Some (mode, predicate) \<Rightarrow>
                 if canonicalDigest sha (JObj predicate) \<noteq> canonicalDigest sha (JObj (ar_fields r)) then InvalidBinding
                 else if is_falsy subject then InvalidBinding
                 else if member_of (member_of subject ''digest'') ''sha256'' \<noteq> JStr (canonicalDigest sha (JObj predicate)) \<and>
                         member_of (member_of subject ''digest'') ''sha256'' \<noteq> JStr (canonicalDigest sha (JObj (ar_fields r)))
                 then InvalidBinding
                 else (case field (ar_fields r) ''run_id'' of
                         JStr runId \<Rightarrow>
                           if runId = [] then InvalidBinding
                           else if member_of subject ''name'' \<noteq> JStr (''urn:wasmagent:run:'' @ runId) then InvalidBinding
                           else mode
                       | _ \<Rightarrow> InvalidBinding)))"
    unfolding dsseEnvelopeBinding_def using e(1) st sub by (simp split: json.splits)
  obtain mode signed where pb: "predicate_binding ?p (ar_fields r) = Some (mode, signed)"
    using e(3) unfolding b by (auto split: option.splits if_splits)
  obtain runId where run: "field (ar_fields r) ''run_id'' = JStr runId" "runId \<noteq> []"
    "member_of subject ''name'' = JStr (''urn:wasmagent:run:'' @ runId)"
    "canonicalDigest sha (JObj signed) = canonicalDigest sha (JObj (ar_fields r))"
    "member_of statement ''predicateType'' = JStr AEP_PREDICATE_TYPE" "dsseEnvelopeBinding sha b64 parse r = mode"
    using e(3) unfolding b pb by (auto split: if_splits json.splits)
  have "mode = Exact \<and> signed = ?p \<or> mode = LegacyNormalized \<and> field (ar_fields r) ''schema_version'' = JStr ''aep/v0.4'' \<and>
      field ?p ''schema_version'' = JStr ''aep/v0.3'' \<and> signed = AList.update ''schema_version'' (JStr ''aep/v0.4'') ?p"
    using pb by (auto simp: predicate_binding_def split: if_splits)
  then show ?thesis using e(1) sig st sub run digest_eq [OF run(4)] unfolding mode by blast
qed

theorem verified_record_is_signed_witness:
  "\<exists>signed. same_data (JObj signed) (JObj (demo_fields ''a'' JNull)) \<or>
     digest_collision rev (JObj signed) (JObj (demo_fields ''a'' JNull))"
proof -
  have "verifyAEPRecord rev (\<lambda>x. x)
      (\<lambda>x. Some (wrapInTotoStatement (demo_fields ''a'' JNull) ''a'' (canonicalDigest rev (JObj (demo_fields ''a'' JNull)))))
      (\<lambda>s m k. Some (k = ()) ) (demo_record ''a'' JNull) ()" by code_simp
  from verified_record_is_signed [OF this] show ?thesis by (auto simp: demo_record_def)
qed

text \<open>
  A chain is reported broken at the first record whose link is present and wrong, and intact
  exactly when there are two records or more, the first names no predecessor and every other one
  names the digest of the record before it.
\<close>
theorem chain_status_exact:
  "(verifyAEPChain sha rs = Intact \<longleftrightarrow> 2 \<le> length rs \<and> no_link (hd rs) \<and>
      (\<forall>i < length rs - 1. prev_link (rs ! Suc i) = JStr (canonicalDigest sha (linked_json (rs ! i))))) \<and>
   (verifyAEPChain sha rs = BrokenAt k \<longleftrightarrow>
      (\<exists>j < length rs - 1. k = Suc j \<and> wrong_link sha (hd rs) (tl rs) j \<and> (\<forall>j' < j. \<not> wrong_link sha (hd rs) (tl rs) j')))"
proof -
  have n: "links_ok sha rs \<longleftrightarrow> (\<forall>i < length rs - 1. prev_link (rs ! Suc i) = JStr (canonicalDigest sha (linked_json (rs ! i))))"
    by (induction sha rs rule: links_ok.induct) (auto simp: All_less_Suc2)
  have "verifyAEPChain sha rs = BrokenAt k \<longleftrightarrow>
      (\<exists>j < length rs - 1. k = Suc j \<and> wrong_link sha (hd rs) (tl rs) j \<and> (\<forall>j' < j. \<not> wrong_link sha (hd rs) (tl rs) j'))"
  proof (cases "2 \<le> length rs")
    case True
    then obtain r s ss where rs: "rs = r # s # ss" by (cases rs rule: remdups_adj.cases) auto
    have "verifyAEPChain sha rs = BrokenAt k \<longleftrightarrow> chain_loop sha 1 0 0 r (s # ss) = Inl k"
      unfolding rs verifyAEPChain_def by (simp only: list.case) (auto split: sum.splits prod.splits simp del: chain_loop.simps)
    then show ?thesis using broken_iff [of sha 1 0 0 r "s # ss" k] rs by (simp del: chain_loop.simps)
  next
    case False
    then show ?thesis by (cases rs rule: remdups_adj.cases) (auto simp: verifyAEPChain_def)
  qed
  then show ?thesis by (simp add: intact_iff n)
qed

theorem chain_status_exact_witness:
  "verifyAEPChain rev demo_chain = Intact \<and>
   prev_link (demo_chain ! 1) = JStr (canonicalDigest rev (linked_json (demo_chain ! 0)))"
  using chain_status_exact [of rev demo_chain] demo_intact by (simp add: demo_chain_def)

text \<open>
  The last record of an intact chain commits to the whole chain: two intact chains whose last
  records hold the same data have the same length and the same data in every record, or two of their
  records are a collision of the digest.
\<close>
theorem chain_head_commits:
  assumes "verifyAEPChain sha rs = Intact" "verifyAEPChain sha ss = Intact"
    and "\<forall>x \<in> set rs \<union> set ss. record_ok x" "same_record (last rs) (last ss)"
  shows "list_all2 same_record rs ss \<or> (\<exists>x \<in> set rs. \<exists>y \<in> set ss. digest_collision sha (linked_json x) (linked_json y))"
proof -
  have i: "rs \<noteq> [] \<and> no_link (hd rs) \<and> links_ok sha rs" "ss \<noteq> [] \<and> no_link (hd ss) \<and> links_ok sha ss"
    using assms(1,2) by (auto simp: intact_iff)
  have "list_all2 same_record (butlast rs @ [last rs]) (butlast ss @ [last ss]) \<or>
    (\<exists>x \<in> set (butlast rs). \<exists>y \<in> set (butlast ss). digest_collision sha (linked_json x) (linked_json y))"
    by (rule chain_commits) (use i assms(3,4) in simp_all)
  then show ?thesis using i in_set_butlastD by fastforce
qed

theorem chain_head_commits_witness:
  "list_all2 same_record demo_chain demo_chain \<or>
   (\<exists>x \<in> set demo_chain. \<exists>y \<in> set demo_chain. digest_collision rev (linked_json x) (linked_json y))"
proof (rule chain_head_commits [OF demo_intact demo_intact])
  show "\<forall>x \<in> set demo_chain \<union> set demo_chain. record_ok x"
    by (simp add: demo_chain_def record_ok_def demo_record_def demo_fields_def attached_def)
qed (simp add: same_record_def same_data_def)

end
