(* ===== verification/Evidence_Ledger.thy ===== *)
theory Evidence_Ledger
  imports Evidence_Verify "HOL-Library.Sublist"
begin

text \<open>
  The evidence store and the hash-chained ledger (packages/aep/src/evidenceStore.ts, ledger.ts). The
  ledger persists to an in-memory store; SHA-256 in hex (\<open>sha\<close>) is an argument.
\<close>

section \<open>Actions of a record\<close>

record action =
  ac_tool_name :: string
  ac_state_changing :: bool
  ac_side_effect_class :: "string option"
  ac_outcome :: "string option"

definition opt_text :: "json \<Rightarrow> string option" where
  "opt_text v = (case v of JStr s \<Rightarrow> Some s | _ \<Rightarrow> None)"

definition action_of :: "json \<Rightarrow> action" where
  "action_of v =
     \<lparr>ac_tool_name = (case member_of v ''tool_name'' of JStr s \<Rightarrow> s | _ \<Rightarrow> ''''),
      ac_state_changing = (\<not> is_falsy (member_of v ''state_changing'')),
      ac_side_effect_class = opt_text (member_of v ''side_effect_class''),
      ac_outcome = opt_text (member_of v ''outcome'')\<rparr>"

definition actions_of :: "aep_record \<Rightarrow> action list" where
  "actions_of r = (case field (ar_fields r) ''actions'' of JArr xs \<Rightarrow> map action_of xs | _ \<Rightarrow> [])"

definition created_at :: "aep_record \<Rightarrow> int" where
  "created_at r = (case field (ar_fields r) ''created_at_ms'' of JNum n \<Rightarrow> n | _ \<Rightarrow> 0)"

definition run_id_of :: "aep_record \<Rightarrow> string" where
  "run_id_of r = (case field (ar_fields r) ''run_id'' of JStr s \<Rightarrow> s | _ \<Rightarrow> '''')"

section \<open>The store\<close>

record store_query =
  sq_run_id :: "string option"
  sq_model_id :: "string option"
  sq_created_after_ms :: "int option"
  sq_created_before_ms :: "int option"
  sq_action_type :: "string option"
  sq_tool_name :: "string option"

definition matchesFilter :: "aep_record \<Rightarrow> store_query \<Rightarrow> bool" where
  "matchesFilter r f =
     ((case sq_run_id f of None \<Rightarrow> True | Some x \<Rightarrow> field (ar_fields r) ''run_id'' = JStr x) \<and>
      (case sq_model_id f of None \<Rightarrow> True | Some x \<Rightarrow> field (ar_fields r) ''model_id'' = JStr x) \<and>
      (case sq_created_after_ms f of None \<Rightarrow> True | Some t \<Rightarrow> \<not> created_at r < t) \<and>
      (case sq_created_before_ms f of None \<Rightarrow> True | Some t \<Rightarrow> \<not> t < created_at r) \<and>
      (case sq_action_type f of None \<Rightarrow> True
         | Some x \<Rightarrow> list_ex (\<lambda>a. ac_side_effect_class a = Some x) (actions_of r)) \<and>
      (case sq_tool_name f of None \<Rightarrow> True
         | Some x \<Rightarrow> list_ex (\<lambda>a. ac_tool_name a = x) (actions_of r)))"

definition store_append :: "aep_record \<Rightarrow> aep_record list \<Rightarrow> aep_record list" where
  "store_append r rs = rs @ [r]"

definition store_search :: "store_query option \<Rightarrow> aep_record list \<Rightarrow> aep_record list" where
  "store_search f rs = (case f of None \<Rightarrow> rs | Some q \<Rightarrow> filter (\<lambda>r. matchesFilter r q) rs)"

definition getByRunId :: "string \<Rightarrow> aep_record list \<Rightarrow> aep_record list" where
  "getByRunId runId rs = filter (\<lambda>r. field (ar_fields r) ''run_id'' = JStr runId) rs"

section \<open>The ledger\<close>

record ledger_record =
  lr_seq :: nat
  lr_prevHash :: string
  lr_record :: aep_record
  lr_hash :: string

definition GENESIS_PREV_HASH :: string where
  "GENESIS_PREV_HASH = ''''"

definition unhashed_json :: "ledger_record \<Rightarrow> json" where
  "unhashed_json lr =
     JObj [(''seq'', JNum (int (lr_seq lr))), (''prevHash'', JStr (lr_prevHash lr)), (''record'', record_json (lr_record lr))]"

definition hashLedgerRecord :: "(string \<Rightarrow> string) \<Rightarrow> ledger_record \<Rightarrow> string" where
  "hashLedgerRecord sha lr = canonicalDigest sha (unhashed_json lr)"

record ledger =
  lg_records :: "ledger_record list"
  lg_store :: "aep_record list option"

definition new_ledger :: "aep_record list option \<Rightarrow> ledger" where
  "new_ledger store = \<lparr>lg_records = [], lg_store = store\<rparr>"

datatype ledger_error = SignatureMissing | NothingToCompact | TooFewRecords nat | EmptyRange

definition ledger_append :: "(string \<Rightarrow> string) \<Rightarrow> aep_record \<Rightarrow> ledger \<Rightarrow> ledger_error + ledger_record \<times> ledger" where
  "ledger_append sha r l =
     (if (case ar_signature r of None \<Rightarrow> True | Some s \<Rightarrow> is_falsy s) then Inl SignatureMissing
      else
        (let seq = length (lg_records l);
             prevHash = (if seq = 0 then GENESIS_PREV_HASH
                         else case nth_opt (lg_records l) (seq - 1) of None \<Rightarrow> '''' | Some p \<Rightarrow> lr_hash p);
             blank = \<lparr>lr_seq = seq, lr_prevHash = prevHash, lr_record = r, lr_hash = ''''\<rparr>;
             lr = blank\<lparr>lr_hash := hashLedgerRecord sha blank\<rparr>
         in Inr (lr, l\<lparr>lg_records := lg_records l @ [lr], lg_store := map_option (store_append r) (lg_store l)\<rparr>)))"

definition getRange :: "nat \<Rightarrow> nat \<Rightarrow> ledger \<Rightarrow> ledger_record list" where
  "getRange fromSeq toSeq l = filter (\<lambda>lr. fromSeq \<le> lr_seq lr \<and> lr_seq lr \<le> toSeq) (lg_records l)"

section \<open>Compaction\<close>

record tool_rollup =
  tr_tool_name :: string
  tr_count :: nat
  tr_state_changing_count :: nat
  tr_side_effect_classes :: "(string \<times> nat) list"
  tr_error_count :: nat
  tr_error_rate :: rat
  tr_outcome_distribution :: "(string \<times> nat) list"

definition isErrorOutcome :: "string \<Rightarrow> bool" where
  "isErrorOutcome s = (s = ''error'' \<or> s = ''failed'' \<or> s = ''failure'')"

text \<open>\<open>d[k] = (d[k] ?? 0) + 1\<close>.\<close>

definition bump :: "string \<Rightarrow> (string \<times> nat) list \<Rightarrow> (string \<times> nat) list" where
  "bump k d = AList.update k ((case map_of d k of None \<Rightarrow> 0 | Some n \<Rightarrow> n) + 1) d"

definition roll_into :: "action \<Rightarrow> tool_rollup \<Rightarrow> tool_rollup" where
  "roll_into a e =
     e\<lparr>tr_count := tr_count e + 1,
       tr_state_changing_count := tr_state_changing_count e + (if ac_state_changing a then 1 else 0),
       tr_side_effect_classes :=
         bump (case ac_side_effect_class a of None \<Rightarrow> ''unknown'' | Some c \<Rightarrow> c) (tr_side_effect_classes e),
       tr_outcome_distribution :=
         (case ac_outcome a of None \<Rightarrow> tr_outcome_distribution e | Some x \<Rightarrow> bump x (tr_outcome_distribution e)),
       tr_error_count :=
         tr_error_count e + (case ac_outcome a of None \<Rightarrow> 0 | Some x \<Rightarrow> if isErrorOutcome x then 1 else 0)\<rparr>"

definition roll_action :: "(string \<times> tool_rollup) list \<Rightarrow> action \<Rightarrow> (string \<times> tool_rollup) list" where
  "roll_action m a =
     AList.update (ac_tool_name a)
       (roll_into a
         (case map_of m (ac_tool_name a) of
            None \<Rightarrow> \<lparr>tr_tool_name = ac_tool_name a, tr_count = 0, tr_state_changing_count = 0,
                     tr_side_effect_classes = [], tr_error_count = 0, tr_error_rate = 0, tr_outcome_distribution = []\<rparr>
          | Some e \<Rightarrow> e)) m"

definition buildToolRollups :: "ledger_record list \<Rightarrow> tool_rollup list" where
  "buildToolRollups records =
     map (\<lambda>(k, e). e\<lparr>tr_error_rate := (if tr_count e = 0 then 0 else of_nat (tr_error_count e) / of_nat (tr_count e))\<rparr>)
       (foldl roll_action [] (concat (map (\<lambda>lr. actions_of (lr_record lr)) records)))"

definition computeProofHash :: "(string \<Rightarrow> string) \<Rightarrow> ledger_record list \<Rightarrow> string" where
  "computeProofHash sha records = sha (utf8 (concat (map lr_hash records)))"

record compaction_options =
  co_upToSeq :: "int option"
  co_minRecords :: "int option"
  co_label :: "string option"

record compaction =
  cp_fromSeq :: nat
  cp_toSeq :: nat
  cp_recordCount :: nat
  cp_proofHash :: string
  cp_firstRecordHash :: string
  cp_firstRecordPrevHash :: string
  cp_lastRecordHash :: string
  cp_toolRollups :: "tool_rollup list"
  cp_startedAtMs :: int
  cp_endedAtMs :: int
  cp_runIds :: "string list"
  cp_label :: "string option"
  cp_compactedAtMs :: int

text \<open>\<open>[...new Set(xs)]\<close>: the first occurrence of each.\<close>

definition unique :: "'a list \<Rightarrow> 'a list" where
  "unique xs = rev (remdups (rev xs))"

definition compact :: "(string \<Rightarrow> string) \<Rightarrow> int \<Rightarrow> compaction_options \<Rightarrow> ledger \<Rightarrow> ledger_error + compaction" where
  "compact sha now opts l =
     (let n = length (lg_records l);
          upToSeq = (case co_upToSeq opts of Some u \<Rightarrow> u | None \<Rightarrow> if n > 0 then int n - 1 else - 1);
          minRecords = (case co_minRecords opts of Some m \<Rightarrow> m | None \<Rightarrow> 2)
      in if upToSeq < 0 then Inl NothingToCompact
         else
           (let rs = filter (\<lambda>lr. int (lr_seq lr) \<le> upToSeq) (lg_records l)
            in if int (length rs) < minRecords then Inl (TooFewRecords (length rs))
               else
                 (case rs of
                    [] \<Rightarrow> Inl EmptyRange
                  | first # _ \<Rightarrow>
                      (let final = last rs; times = map (\<lambda>lr. created_at (lr_record lr)) rs
                       in Inr \<lparr>cp_fromSeq = lr_seq first, cp_toSeq = lr_seq final, cp_recordCount = length rs,
                            cp_proofHash = computeProofHash sha rs, cp_firstRecordHash = lr_hash first,
                            cp_firstRecordPrevHash = lr_prevHash first, cp_lastRecordHash = lr_hash final,
                            cp_toolRollups = buildToolRollups rs,
                            cp_startedAtMs = Min (set times), cp_endedAtMs = Max (set times),
                            cp_runIds = unique (map (\<lambda>lr. run_id_of (lr_record lr)) rs),
                            cp_label = co_label opts, cp_compactedAtMs = now\<rparr>))))"

definition verifyCompaction :: "(string \<Rightarrow> string) \<Rightarrow> compaction \<Rightarrow> ledger \<Rightarrow> bool" where
  "verifyCompaction sha c l =
     (let rs = filter (\<lambda>lr. cp_fromSeq c \<le> lr_seq lr \<and> lr_seq lr \<le> cp_toSeq c) (lg_records l)
      in length rs = cp_recordCount c \<and> computeProofHash sha rs = cp_proofHash c \<and>
         (case rs of
            [] \<Rightarrow> False
          | first # _ \<Rightarrow>
              lr_hash first = cp_firstRecordHash c \<and> lr_prevHash first = cp_firstRecordPrevHash c \<and>
              lr_hash (last rs) = cp_lastRecordHash c))"

section \<open>The ledger stays chained\<close>

definition ledger_step :: "(string \<Rightarrow> string) \<Rightarrow> ledger \<Rightarrow> aep_record \<Rightarrow> ledger" where
  "ledger_step sha l r = (case ledger_append sha r l of Inl e \<Rightarrow> l | Inr (lr, l') \<Rightarrow> l')"

definition chained_records :: "(string \<Rightarrow> string) \<Rightarrow> ledger_record list \<Rightarrow> bool" where
  "chained_records sha rs \<longleftrightarrow>
     (\<forall>i < length rs. lr_seq (rs ! i) = i \<and> lr_hash (rs ! i) = hashLedgerRecord sha (rs ! i) \<and>
        lr_prevHash (rs ! i) = (if i = 0 then '''' else lr_hash (rs ! (i - 1))))"

definition ledger_ok :: "(string \<Rightarrow> string) \<Rightarrow> ledger \<Rightarrow> bool" where
  "ledger_ok sha l \<longleftrightarrow>
     chained_records sha (lg_records l) \<and> (\<forall>rs. lg_store l = Some rs \<longrightarrow> suffix (map lr_record (lg_records l)) rs)"

lemma hash_blank: "hashLedgerRecord sha (lr\<lparr>lr_hash := h\<rparr>) = hashLedgerRecord sha lr"
  by (simp add: hashLedgerRecord_def unhashed_json_def)

lemma append_result:
  assumes "ledger_append sha r l = Inr (lr, l')"
  shows "lg_records l' = lg_records l @ [lr]" "lr_record lr = r" "lg_store l' = map_option (\<lambda>rs. rs @ [r]) (lg_store l)"
    "chained_records sha (lg_records l) \<Longrightarrow> chained_records sha (lg_records l')"
proof -
  let ?n = "length (lg_records l)"
  have lr: "lr = \<lparr>lr_seq = ?n, lr_prevHash = (if ?n = 0 then '''' else lr_hash (lg_records l ! (?n - 1))), lr_record = r,
      lr_hash = hashLedgerRecord sha lr\<rparr>"
    using assms hash_blank
    by (auto simp: ledger_append_def Let_def GENESIS_PREV_HASH_def nth_opt_def split: if_splits)
       (simp_all add: hashLedgerRecord_def unhashed_json_def)
  show l: "lg_records l' = lg_records l @ [lr]" "lr_record lr = r" "lg_store l' = map_option (\<lambda>rs. rs @ [r]) (lg_store l)"
    using assms by (auto simp: ledger_append_def Let_def store_append_def [abs_def] split: if_splits)
  have p: "lr_seq lr = ?n" "lr_prevHash lr = (if ?n = 0 then '''' else lr_hash (lg_records l ! (?n - 1)))"
    "lr_hash lr = hashLedgerRecord sha lr" by (subst lr, simp)+
  show "chained_records sha (lg_records l')" if "chained_records sha (lg_records l)"
    using that p unfolding chained_records_def l by (auto simp: nth_append less_Suc_eq)
qed

interpretation ledger: kept_invariant "ledger_step sha" "ledger_ok sha" for sha
proof
  fix l r assume ok: "ledger_ok sha l"
  show "ledger_ok sha (ledger_step sha l r)"
  proof (cases "ledger_append sha r l")
    case (Inr p)
    then obtain lr l' where a: "ledger_append sha r l = Inr (lr, l')" by (cases p) auto
    note res = append_result [OF a]
    show ?thesis using ok a res by (auto simp: ledger_ok_def ledger_step_def)
  qed (use ok in \<open>simp add: ledger_step_def\<close>)
qed

lemma ledger_grows: "\<exists>more. lg_records (foldl (ledger_step sha) l rs) = lg_records l @ more"
proof (induction rs arbitrary: l)
  case (Cons r rs)
  have "\<exists>x. lg_records (ledger_step sha l r) = lg_records l @ x"
    by (cases "ledger_append sha r l") (auto simp: ledger_step_def append_result(1))
  then show ?case using Cons [of "ledger_step sha l r"] by auto
qed simp

lemma new_ok: "ledger_ok sha (new_ledger store)"
  by (simp add: ledger_ok_def new_ledger_def chained_records_def)

lemmas filled_ok = ledger.run_inv [OF new_ok]

section \<open>What a hash commits to\<close>

definition same_entry :: "ledger_record \<Rightarrow> ledger_record \<Rightarrow> bool" where
  "same_entry a b \<longleftrightarrow>
     lr_seq a = lr_seq b \<and> lr_prevHash a = lr_prevHash b \<and> same_data (record_json (lr_record a)) (record_json (lr_record b))"

lemma same_unhashed:
  assumes "same_data (unhashed_json a) (unhashed_json b)"
  shows "same_entry a b"
proof -
  have m: "canonical_value (field [(''seq'', JNum (int (lr_seq a))), (''prevHash'', JStr (lr_prevHash a)), (''record'', record_json (lr_record a))] k) =
      canonical_value (field [(''seq'', JNum (int (lr_seq b))), (''prevHash'', JStr (lr_prevHash b)), (''record'', record_json (lr_record b))] k)" for k
    by (rule same_member) (use assms in \<open>simp_all add: unhashed_json_def\<close>)
  show ?thesis
    using m [of "''seq''"] m [of "''prevHash''"] m [of "''record''"] by (simp add: same_entry_def same_data_def field_def)
qed

lemma ledger_snoc:
  assumes "chained_records sha (rs @ [r])"
  shows "chained_records sha rs" "lr_seq r = length rs" "lr_hash r = hashLedgerRecord sha r"
    "rs \<noteq> [] \<Longrightarrow> lr_prevHash r = lr_hash (last rs)"
proof -
  have c: "lr_seq ((rs @ [r]) ! i) = i \<and> lr_hash ((rs @ [r]) ! i) = hashLedgerRecord sha ((rs @ [r]) ! i) \<and>
        lr_prevHash ((rs @ [r]) ! i) = (if i = 0 then '''' else lr_hash ((rs @ [r]) ! (i - 1)))" if "i \<le> length rs" for i
    using assms that unfolding chained_records_def by simp
  show "lr_seq r = length rs" "lr_hash r = hashLedgerRecord sha r" using c [of "length rs"] by simp_all
  show "lr_prevHash r = lr_hash (last rs)" if "rs \<noteq> []"
    using c [of "length rs"] that by (simp add: nth_append last_conv_nth)
  show "chained_records sha rs"
    unfolding chained_records_def
  proof (intro allI impI)
    fix i assume "i < length rs"
    then show "lr_seq (rs ! i) = i \<and> lr_hash (rs ! i) = hashLedgerRecord sha (rs ! i) \<and>
        lr_prevHash (rs ! i) = (if i = 0 then '''' else lr_hash (rs ! (i - 1)))"
      using c [of i] by (simp add: nth_append less_imp_diff_less split: if_splits)
  qed
qed

lemma hash_commits:
  assumes "chained_records sha (rs @ [r])" "chained_records sha (ss @ [s])" "lr_hash r = lr_hash s"
  shows "list_all2 same_entry (rs @ [r]) (ss @ [s]) \<or>
    (\<exists>x \<in> set (rs @ [r]). \<exists>y \<in> set (ss @ [s]). digest_collision sha (unhashed_json x) (unhashed_json y))"
  using assms
proof (induction rs arbitrary: r s ss rule: rev_induct)
  case Nil
  note r = ledger_snoc [OF Nil.prems(1)] and s = ledger_snoc [OF Nil.prems(2)]
  have "canonicalDigest sha (unhashed_json r) = canonicalDigest sha (unhashed_json s)"
    using r(3) s(3) Nil.prems(3) by (simp add: hashLedgerRecord_def)
  from digest_eq [OF this] show ?case
  proof
    assume "same_data (unhashed_json r) (unhashed_json s)"
    then have e: "same_entry r s" by (rule same_unhashed)
    then have "length ss = 0" using r(2) s(2) by (simp add: same_entry_def)
    then show ?thesis using e by simp
  qed simp
next
  case (snoc x rs)
  note r = ledger_snoc [OF snoc.prems(1)] and s = ledger_snoc [OF snoc.prems(2)]
  have "canonicalDigest sha (unhashed_json r) = canonicalDigest sha (unhashed_json s)"
    using r(3) s(3) snoc.prems(3) by (simp add: hashLedgerRecord_def)
  from digest_eq [OF this] show ?case
  proof
    assume "same_data (unhashed_json r) (unhashed_json s)"
    then have e: "same_entry r s" by (rule same_unhashed)
    then have "length ss = Suc (length rs)" using r(2) s(2) by (simp add: same_entry_def)
    then obtain ys y where ss: "ss = ys @ [y]" by (cases ss rule: rev_cases) auto
    have "lr_hash x = lr_hash y" using e r(4) s(4) ss by (simp add: same_entry_def)
    from snoc.IH [OF r(1) s(1) [unfolded ss] this] show ?thesis
    proof
      assume "list_all2 same_entry (rs @ [x]) (ys @ [y])"
      then have "list_all2 same_entry ((rs @ [x]) @ [r]) ((ys @ [y]) @ [s])"
        by (rule list_all2_appendI) (use e in \<open>simp only: list_all2_Cons list_all2_Nil simp_thms\<close>)
      then show ?thesis using ss by simp
    next
      assume "\<exists>a \<in> set (rs @ [x]). \<exists>b \<in> set (ys @ [y]). digest_collision sha (unhashed_json a) (unhashed_json b)"
      then show ?thesis using ss by (metis UnI1 set_append)
    qed
  qed (metis UnI2 list.set_intros(1) set_append)
qed

lemma seq_take:
  assumes "chained_records sha rs"
  shows "filter (\<lambda>lr. lr_seq lr < k) rs = take k rs"
  using assms
proof (induction rs rule: rev_induct)
  case (snoc r rs)
  note c = ledger_snoc [OF snoc.prems]
  have "filter (\<lambda>lr. lr_seq lr < k) rs = take k rs" by (rule snoc.IH [OF c(1)])
  then show ?case using c(2) by (cases "length rs < k") simp_all
qed simp

lemma chained_take: "chained_records sha rs \<Longrightarrow> chained_records sha (take k rs)"
  unfolding chained_records_def by (auto simp: less_imp_diff_less)

text \<open>What a compaction says of the ledger it was made from.\<close>

lemma compact_prefix:
  assumes ok: "chained_records sha (lg_records l)" and c: "compact sha now opts l = Inr c"
  obtains "0 < cp_recordCount c" "cp_recordCount c \<le> length (lg_records l)" "cp_fromSeq c = 0" "Suc (cp_toSeq c) = cp_recordCount c"
    "cp_proofHash c = computeProofHash sha (take (cp_recordCount c) (lg_records l))"
    "cp_firstRecordHash c = lr_hash (hd (lg_records l))" "cp_firstRecordPrevHash c = ''''"
    "cp_lastRecordHash c = lr_hash (last (take (cp_recordCount c) (lg_records l)))"
    "cp_toolRollups c = buildToolRollups (take (cp_recordCount c) (lg_records l))"
proof -
  define u where "u = (case co_upToSeq opts of Some u \<Rightarrow> u | None \<Rightarrow> if length (lg_records l) > 0 then int (length (lg_records l)) - 1 else - 1)"
  define rs where "rs = filter (\<lambda>lr. int (lr_seq lr) \<le> u) (lg_records l)"
  have u0: "0 \<le> u" using c by (simp add: compact_def Let_def u_def split: if_splits)
  have r: "rs = take (nat u + 1) (lg_records l)"
  proof -
    have "(\<lambda>lr :: ledger_record. int (lr_seq lr) \<le> u) = (\<lambda>lr. lr_seq lr < nat u + 1)" using u0 by (auto simp: fun_eq_iff)
    then show ?thesis unfolding rs_def by (simp only: seq_take [OF ok])
  qed
  obtain first rest where rs: "rs = first # rest"
    and f: "cp_fromSeq c = lr_seq first" "cp_toSeq c = lr_seq (last rs)" "cp_recordCount c = length rs"
      "cp_proofHash c = computeProofHash sha rs" "cp_firstRecordHash c = lr_hash first" "cp_firstRecordPrevHash c = lr_prevHash first"
      "cp_lastRecordHash c = lr_hash (last rs)" "cp_toolRollups c = buildToolRollups rs"
    using c u0 unfolding compact_def Let_def u_def [symmetric] rs_def [symmetric]
    by (auto split: if_splits list.splits)
  have n: "length rs \<le> length (lg_records l)" using r by simp
  have t: "rs = take (length rs) (lg_records l)"
    by (cases "nat u + 1 \<le> length (lg_records l)") (simp_all add: r min_def)
  have ch: "chained_records sha rs" using chained_take [OF ok] r by simp
  then have "lr_seq first = 0" "lr_prevHash first = ''''" unfolding chained_records_def rs by force+
  moreover have "Suc (lr_seq (last rs)) = length rs"
  proof -
    have "rs \<noteq> []" by (simp add: rs)
    then have "lr_seq (last rs) = length rs - 1" using ch by (simp add: chained_records_def last_conv_nth)
    then show ?thesis using \<open>rs \<noteq> []\<close> by (cases rs) simp_all
  qed
  moreover have "first = hd (lg_records l)" using t rs by (metis hd_take length_greater_0_conv list.distinct(1) list.sel(1))
  moreover have "0 < length rs" by (simp add: rs)
  ultimately show thesis using that f n t by metis
qed

lemma verify_prefix:
  assumes ok: "chained_records sha (lg_records l)" and c: "cp_fromSeq c = 0" "Suc (cp_toSeq c) = cp_recordCount c"
  shows "verifyCompaction sha c l \<longleftrightarrow>
    (let rs = take (cp_recordCount c) (lg_records l)
     in length rs = cp_recordCount c \<and> computeProofHash sha rs = cp_proofHash c \<and>
        lr_hash (hd rs) = cp_firstRecordHash c \<and> lr_prevHash (hd rs) = cp_firstRecordPrevHash c \<and>
        lr_hash (last rs) = cp_lastRecordHash c)"
proof -
  have "(\<lambda>lr :: ledger_record. cp_fromSeq c \<le> lr_seq lr \<and> lr_seq lr \<le> cp_toSeq c) = (\<lambda>lr. lr_seq lr < cp_recordCount c)"
    using c by (auto simp: fun_eq_iff)
  then have f: "filter (\<lambda>lr. cp_fromSeq c \<le> lr_seq lr \<and> lr_seq lr \<le> cp_toSeq c) (lg_records l) = take (cp_recordCount c) (lg_records l)"
    by (simp only: seq_take [OF ok])
  define rs where "rs = take (cp_recordCount c) (lg_records l)"
  show ?thesis
    unfolding verifyCompaction_def Let_def f unfolding rs_def [symmetric] by (cases rs) (use c(2) in auto)
qed

section \<open>What a rollup counts\<close>

text \<open>The rollup of the actions \<open>as\<close> of one tool, before the rate is filled in.\<close>

definition rollup_of :: "string \<Rightarrow> action list \<Rightarrow> tool_rollup" where
  "rollup_of t as =
     \<lparr>tr_tool_name = t, tr_count = length as, tr_state_changing_count = length (filter ac_state_changing as),
      tr_side_effect_classes = foldl (\<lambda>d k. bump k d) [] (map (\<lambda>a. case ac_side_effect_class a of None \<Rightarrow> ''unknown'' | Some c \<Rightarrow> c) as),
      tr_error_count = length (filter (\<lambda>a. case ac_outcome a of None \<Rightarrow> False | Some x \<Rightarrow> isErrorOutcome x) as),
      tr_error_rate = 0,
      tr_outcome_distribution = foldl (\<lambda>d k. bump k d) [] (List.map_filter ac_outcome as)\<rparr>"

lemma roll_one:
  "map_of (roll_action m a) t =
     (if t = ac_tool_name a then Some (roll_into a (case map_of m t of None \<Rightarrow> rollup_of t [] | Some e \<Rightarrow> e)) else map_of m t)"
  by (auto simp: roll_action_def update_conv rollup_of_def List.map_filter_def split: option.splits)

lemma rollup_snoc: "rollup_of t (as @ [a]) = roll_into a (rollup_of t as)"
  by (auto simp: rollup_of_def roll_into_def List.map_filter_def split: option.splits)

lemma rolled:
  "map_of (foldl roll_action [] as) t =
     (let bs = filter (\<lambda>a. ac_tool_name a = t) as in if bs = [] then None else Some (rollup_of t bs))"
proof (induction as rule: rev_induct)
  case (snoc a as)
  then show ?case
    by (auto simp: roll_one Let_def rollup_snoc rollup_snoc [of _ "[]", unfolded append_Nil])
qed simp

lemma rolled_distinct: "distinct (map fst (foldl roll_action [] as))"
  by (induction as rule: rev_induct) (simp_all add: roll_action_def Let_def distinct_update)

lemma bumped: "map_of (foldl (\<lambda>d k. bump k d) [] ks) k = (if k \<in> set ks then Some (count_list ks k) else None)"
  by (induction ks rule: rev_induct) (auto simp: bump_def update_conv)

section \<open>A concrete ledger\<close>

definition demo_signed :: "string \<Rightarrow> aep_record" where
  "demo_signed outcome =
     \<lparr>ar_fields = [(''run_id'', JStr ''r''), (''created_at_ms'', JNum 1),
        (''actions'', JArr [JObj [(''tool_name'', JStr ''t''), (''outcome'', JStr outcome)]])],
      ar_signature = Some (JStr ''s''), ar_envelope = None, ar_proof = None\<rparr>"

definition demo_ledger :: ledger where
  "demo_ledger = foldl (ledger_step rev) (new_ledger None) [demo_signed ''ok'', demo_signed ''error'']"

lemma demo_records: "\<exists>x y. lg_records demo_ledger = [x] @ [y] \<and> actions_of (lr_record y) =
    [\<lparr>ac_tool_name = ''t'', ac_state_changing = False, ac_side_effect_class = None, ac_outcome = Some ''error''\<rparr>]"
proof -
  have "length (lg_records demo_ledger) = 2" by code_simp
  then obtain x y where l: "lg_records demo_ledger = [x] @ [y]"
    by (metis (no_types, lifting) append_Cons append_Nil length_0_conv length_Suc_conv numeral_2_eq_2)
  have "actions_of (lr_record (lg_records demo_ledger ! 1)) =
      [\<lparr>ac_tool_name = ''t'', ac_state_changing = False, ac_side_effect_class = None, ac_outcome = Some ''error''\<rparr>]"
    by code_simp
  then show ?thesis using l by auto
qed

text \<open>The check of a compaction compares stored hashes only; it never looks at the records.\<close>

lemma verify_ignores_records:
  "verifyCompaction sha c (l\<lparr>lg_records := map (\<lambda>lr. lr\<lparr>lr_record := f (lr_record lr)\<rparr>) (lg_records l)\<rparr>) = verifyCompaction sha c l"
proof -
  have f: "filter P (map (\<lambda>lr. lr\<lparr>lr_record := f (lr_record lr)\<rparr>) rs) = map (\<lambda>lr. lr\<lparr>lr_record := f (lr_record lr)\<rparr>) (filter P rs)"
    if "\<And>lr g. P (lr\<lparr>lr_record := g\<rparr>) = P lr" for P :: "ledger_record \<Rightarrow> bool" and rs
    using that by (induction rs) auto
  define rs where "rs = filter (\<lambda>lr. cp_fromSeq c \<le> lr_seq lr \<and> lr_seq lr \<le> cp_toSeq c) (lg_records l)"
  have "filter (\<lambda>lr. cp_fromSeq c \<le> lr_seq lr \<and> lr_seq lr \<le> cp_toSeq c) (map (\<lambda>lr. lr\<lparr>lr_record := f (lr_record lr)\<rparr>) (lg_records l)) =
      map (\<lambda>lr. lr\<lparr>lr_record := f (lr_record lr)\<rparr>) rs"
    unfolding rs_def by (rule f) simp
  moreover have "computeProofHash sha (map (\<lambda>lr. lr\<lparr>lr_record := f (lr_record lr)\<rparr>) rs) = computeProofHash sha rs"
    by (simp add: computeProofHash_def comp_def)
  ultimately show ?thesis
    unfolding verifyCompaction_def Let_def rs_def [symmetric]
    by (cases rs) (simp_all add: last_map rs_def [symmetric])
qed

section \<open>Properties\<close>

text \<open>
  The hash of the newest ledger record commits to the whole ledger: two ledgers built by appends
  whose last hashes agree hold the same number of records with the same data in the same order, or
  two of their records are a collision of the digest.
\<close>
theorem ledger_head_commits:
  assumes "lg_records (foldl (ledger_step sha) (new_ledger s) as) = rs @ [r]"
    and "lg_records (foldl (ledger_step sha) (new_ledger s') bs) = rs' @ [r']" "lr_hash r = lr_hash r'"
  shows "list_all2 same_entry (rs @ [r]) (rs' @ [r']) \<or>
    (\<exists>x \<in> set (rs @ [r]). \<exists>y \<in> set (rs' @ [r']). digest_collision sha (unhashed_json x) (unhashed_json y))"
  using hash_commits [of sha rs r rs' r'] assms filled_ok [of sha s as] filled_ok [of sha s' bs] by (simp add: ledger_ok_def)

theorem ledger_head_commits_witness:
  "\<exists>rs r. lg_records demo_ledger = rs @ [r] \<and>
     (list_all2 same_entry (rs @ [r]) (rs @ [r]) \<or>
      (\<exists>x \<in> set (rs @ [r]). \<exists>y \<in> set (rs @ [r]). digest_collision rev (unhashed_json x) (unhashed_json y)))"
proof -
  obtain x y where l: "lg_records demo_ledger = [x] @ [y]" using demo_records by blast
  from ledger_head_commits [OF l [unfolded demo_ledger_def] l [unfolded demo_ledger_def] refl] show ?thesis using l by blast
qed

text \<open>
  A compaction verifies against the ledger it was made from however much is appended later, and
  when it verifies against another ledger built by appends, that ledger starts with the same records,
  or two records are a collision of the digest.
\<close>
theorem compaction_verifies_exactly:
  assumes "compact sha now opts (foldl (ledger_step sha) (new_ledger s) as) = Inr c"
  shows "verifyCompaction sha c (foldl (ledger_step sha) (new_ledger s) (as @ xs)) \<and>
    (verifyCompaction sha c (foldl (ledger_step sha) (new_ledger s') bs) \<longrightarrow>
      (let rs = take (cp_recordCount c) (lg_records (foldl (ledger_step sha) (new_ledger s) as));
           rs' = take (cp_recordCount c) (lg_records (foldl (ledger_step sha) (new_ledger s') bs))
       in list_all2 same_entry rs rs' \<or>
          (\<exists>x \<in> set rs. \<exists>y \<in> set rs'. digest_collision sha (unhashed_json x) (unhashed_json y))))"
proof -
  define l where "l = foldl (ledger_step sha) (new_ledger s) as"
  define l2 where "l2 = foldl (ledger_step sha) (new_ledger s) (as @ xs)"
  define l' where "l' = foldl (ledger_step sha) (new_ledger s') bs"
  have ok: "chained_records sha (lg_records l)" "chained_records sha (lg_records l2)" "chained_records sha (lg_records l')"
    unfolding l_def l2_def l'_def using filled_ok unfolding ledger_ok_def by blast+
  from compact_prefix [OF ok(1) assms [folded l_def]]
  have c: "0 < cp_recordCount c" "cp_recordCount c \<le> length (lg_records l)" "cp_fromSeq c = 0" "Suc (cp_toSeq c) = cp_recordCount c"
    "cp_proofHash c = computeProofHash sha (take (cp_recordCount c) (lg_records l))"
    "cp_firstRecordHash c = lr_hash (hd (lg_records l))" "cp_firstRecordPrevHash c = ''''"
    "cp_lastRecordHash c = lr_hash (last (take (cp_recordCount c) (lg_records l)))" by metis+
  obtain x where "lg_records l2 = lg_records l @ x" using ledger_grows [of sha l xs] by (auto simp: l2_def l_def)
  then have t: "take (cp_recordCount c) (lg_records l2) = take (cp_recordCount c) (lg_records l)" using c(2) by simp
  have "lg_records l \<noteq> []" using c(1,2) by auto
  then have "lr_prevHash (hd (lg_records l)) = ''''" using ok(1) by (auto simp: chained_records_def hd_conv_nth)
  then have 1: "verifyCompaction sha c l2"
    unfolding verify_prefix [OF ok(2) c(3,4)] Let_def t using c by (simp add: hd_take)
  have "list_all2 same_entry (take (cp_recordCount c) (lg_records l)) (take (cp_recordCount c) (lg_records l')) \<or>
      (\<exists>x \<in> set (take (cp_recordCount c) (lg_records l)). \<exists>y \<in> set (take (cp_recordCount c) (lg_records l')).
        digest_collision sha (unhashed_json x) (unhashed_json y))" if v: "verifyCompaction sha c l'"
  proof -
    let ?a = "take (cp_recordCount c) (lg_records l)" and ?b = "take (cp_recordCount c) (lg_records l')"
    have b: "length ?b = cp_recordCount c" "lr_hash (last ?a) = lr_hash (last ?b)"
      using v c(8) unfolding verify_prefix [OF ok(3) c(3,4)] Let_def by auto
    have "length ?a = cp_recordCount c" using c(2) by simp
    then have ne: "?a \<noteq> []" "?b \<noteq> []" using b(1) c(1) by (metis length_greater_0_conv)+
    have "chained_records sha (butlast ?a @ [last ?a])" "chained_records sha (butlast ?b @ [last ?b])"
      using ne chained_take [OF ok(1)] chained_take [OF ok(3)] by simp_all
    from hash_commits [OF this b(2)] show ?thesis unfolding append_butlast_last_id [OF ne(1)] append_butlast_last_id [OF ne(2)] .
  qed
  then show ?thesis using 1 unfolding l_def l2_def l'_def Let_def by blast
qed

theorem compaction_verifies_exactly_witness:
  "\<exists>c. compact rev 7 \<lparr>co_upToSeq = None, co_minRecords = None, co_label = None\<rparr> demo_ledger = Inr c \<and>
     verifyCompaction rev c (foldl (ledger_step rev) (new_ledger None) ([demo_signed ''ok'', demo_signed ''error''] @ [demo_signed ''x'']))"
proof -
  have l: "length (lg_records demo_ledger) = 2" by code_simp
  have "length (filter (\<lambda>lr. int (lr_seq lr) \<le> 1) (lg_records demo_ledger)) = 2" by code_simp
  then obtain a rest where f: "filter (\<lambda>lr. int (lr_seq lr) \<le> 1) (lg_records demo_ledger) = a # rest" "length rest = 1"
    by (metis One_nat_def Suc_inject length_Suc_conv numeral_2_eq_2)
  obtain c where c: "compact rev 7 \<lparr>co_upToSeq = None, co_minRecords = None, co_label = None\<rparr> demo_ledger = Inr c"
    using l f by (simp add: compact_def Let_def)
  from compaction_verifies_exactly [OF c [unfolded demo_ledger_def], of "[demo_signed ''x'']" None "[]"] c
  show ?thesis by blast
qed

text \<open>
  A rollup counts exactly: there is one entry per tool that occurs, and it holds the number of its
  calls, of those that changed state, of those whose outcome is an error, and, for each outcome and
  each effect class, how many calls reported it.
\<close>
theorem rollups_count_exactly:
  assumes "as = concat (map (\<lambda>lr. actions_of (lr_record lr)) rs)" "e \<in> set (buildToolRollups rs)"
  shows "tr_tool_name e \<in> ac_tool_name ` set as \<and>
    (let bs = filter (\<lambda>a. ac_tool_name a = tr_tool_name e) as;
         classes = map (\<lambda>a. case ac_side_effect_class a of None \<Rightarrow> ''unknown'' | Some c \<Rightarrow> c) bs;
         errors = length (filter (\<lambda>a. case ac_outcome a of None \<Rightarrow> False | Some x \<Rightarrow> isErrorOutcome x) bs)
     in tr_count e = length bs \<and> tr_state_changing_count e = length (filter ac_state_changing bs) \<and>
        tr_error_count e = errors \<and> tr_error_rate e = of_nat errors / of_nat (length bs) \<and>
        (\<forall>k. map_of (tr_outcome_distribution e) k =
           (if k \<in> set (List.map_filter ac_outcome bs) then Some (count_list (List.map_filter ac_outcome bs) k) else None)) \<and>
        (\<forall>k. map_of (tr_side_effect_classes e) k = (if k \<in> set classes then Some (count_list classes k) else None)))"
proof -
  let ?m = "foldl roll_action [] as"
  obtain k x where x: "(k, x) \<in> set ?m"
    and e: "e = x\<lparr>tr_error_rate := (if tr_count x = 0 then 0 else of_nat (tr_error_count x) / of_nat (tr_count x))\<rparr>"
    using assms by (auto simp: buildToolRollups_def)
  have "map_of ?m k = Some x" using x rolled_distinct by (rule map_of_is_SomeI [rotated])
  then have r: "filter (\<lambda>a. ac_tool_name a = k) as \<noteq> []" "x = rollup_of k (filter (\<lambda>a. ac_tool_name a = k) as)"
    using rolled [of as k] by (auto simp: Let_def split: if_splits)
  then have "k \<in> ac_tool_name ` set as" by (auto simp: filter_empty_conv)
  then show ?thesis using r(1) unfolding e r(2) by (simp add: rollup_of_def bumped Let_def)
qed

theorem rollups_count_exactly_witness:
  "\<exists>e \<in> set (buildToolRollups (lg_records demo_ledger)). tr_tool_name e = ''t'' \<and> tr_count e = 2 \<and> tr_error_count e = 1"
proof -
  let ?as = "concat (map (\<lambda>lr. actions_of (lr_record lr)) (lg_records demo_ledger))"
  define mk where "mk = (\<lambda>x. \<lparr>ac_tool_name = ''t'', ac_state_changing = False, ac_side_effect_class = None, ac_outcome = Some x\<rparr>)"
  have "?as = map (\<lambda>x. \<lparr>ac_tool_name = ''t'', ac_state_changing = False, ac_side_effect_class = None, ac_outcome = Some x\<rparr>)
      [''ok'', ''error'']" by code_simp
  then have as: "?as = [mk ''ok'', mk ''error'']" by (simp add: mk_def)
  have "map fst (foldl roll_action [] ?as) = [''t'']" unfolding as by (simp add: roll_action_def mk_def)
  then obtain e where e: "e \<in> set (buildToolRollups (lg_records demo_ledger))"
    unfolding buildToolRollups_def by (metis (no_types, lifting) list.map_disc_iff list.set_intros(1) map_is_Nil_conv neq_Nil_conv)
  from rollups_count_exactly [OF as [symmetric] e] e show ?thesis
    by (auto simp: mk_def isErrorOutcome_def Let_def)
qed

end
