(* ===== verification/Shared_Merge.thy ===== *)
theory Shared_Merge
  imports Canonical_Json
begin

text \<open>
  Three-way merge, dirty tracking and projection deltas of the shared state
  (packages/core/src/shared-state/merge.ts, projection.ts, and \<open>replayActions\<close> of StateModel.ts).
  An object is its list of members with distinct keys; no key is one that every object inherits.
\<close>

type_synonym members = "(string \<times> json) list"

section \<open>Equality\<close>

definition is_composite :: "json \<Rightarrow> bool" where
  "is_composite v = (case v of JArr xs \<Rightarrow> True | JObj kvs \<Rightarrow> True | _ \<Rightarrow> False)"

text \<open>Composite values compare by their texts; \<open>a === b\<close> on the others.\<close>

definition deepEqual :: "json \<Rightarrow> json \<Rightarrow> bool" where
  "deepEqual a b =
     (if \<not> is_composite a \<and> \<not> is_composite b \<and> a = b then True
      else if a = JNull \<or> b = JNull then False
      else if is_composite a \<noteq> is_composite b then False
      else if \<not> is_composite a then False
      else json_stringify a = json_stringify b)"

text \<open>\<open>o[k]\<close>.\<close>

definition at_key :: "members \<Rightarrow> string \<Rightarrow> json" where
  "at_key kvs k = (case map_of kvs k of None \<Rightarrow> JUndef | Some v \<Rightarrow> v)"

section \<open>Dirty tracking\<close>

definition dirtyKeys :: "members \<Rightarrow> members \<Rightarrow> string list" where
  "dirtyKeys baseline current = filter (\<lambda>k. \<not> deepEqual (at_key current k) (at_key baseline k)) (map fst current)"

section \<open>Three-way merge\<close>

datatype conflict_strategy = LastWriteWins | AgentYieldsToHuman | ManualMerge

definition resolveConflict :: "conflict_strategy \<Rightarrow> members \<Rightarrow> string \<Rightarrow> bool \<Rightarrow> json \<Rightarrow> json \<Rightarrow> json" where
  "resolveConflict strategy base k inBase lv rv =
     (case strategy of
        LastWriteWins \<Rightarrow> rv
      | AgentYieldsToHuman \<Rightarrow> lv
      | ManualMerge \<Rightarrow> if inBase then at_key base k else JUndef)"

definition has_key :: "members \<Rightarrow> string \<Rightarrow> bool" where
  "has_key kvs k = (k \<in> fst ` set kvs)"

definition merge_key ::
  "conflict_strategy \<Rightarrow> members \<Rightarrow> members \<Rightarrow> members \<Rightarrow> members \<times> string list \<Rightarrow> string \<Rightarrow> members \<times> string list" where
  "merge_key strategy base local remote out k =
     (let (merged, conflicts) = out;
          inBase = has_key base k; inLocal = has_key local k; inRemote = has_key remote k
      in if inLocal \<and> inRemote then
           (let lv = at_key local k; rv = at_key remote k
            in if deepEqual lv rv then (AList.update k lv merged, conflicts)
               else
                 (let localChanged = (\<not> inBase \<or> \<not> deepEqual (at_key base k) lv);
                      remoteChanged = (\<not> inBase \<or> \<not> deepEqual (at_key base k) rv)
                  in if localChanged \<and> remoteChanged then
                       (AList.update k (resolveConflict strategy base k inBase lv rv) merged, conflicts @ [k])
                     else if remoteChanged then (AList.update k rv merged, conflicts)
                     else if localChanged then (AList.update k lv merged, conflicts)
                     else (AList.update k (at_key base k) merged, conflicts)))
         else if inLocal then (AList.update k (at_key local k) merged, conflicts)
         else if inRemote then (AList.update k (at_key remote k) merged, conflicts)
         else (merged, conflicts))"

text \<open>\<open>new Set([...Object.keys(base), ...])\<close>: each key once, at its first occurrence.\<close>

definition all_keys :: "members \<Rightarrow> members \<Rightarrow> members \<Rightarrow> string list" where
  "all_keys base local remote = rev (remdups (rev (map fst base @ map fst local @ map fst remote)))"

definition threeWayMerge ::
  "members \<Rightarrow> members \<Rightarrow> members \<Rightarrow> conflict_strategy \<Rightarrow> members \<times> string list" where
  "threeWayMerge base local remote strategy =
     foldl (merge_key strategy base local remote) ([], []) (all_keys base local remote)"

section \<open>Projection deltas\<close>

record projection_delta =
  pd_changed :: members
  pd_removed :: "string list"
  pd_conflicts :: "string list option"

definition rootKey :: string where
  "rootKey = ''$root''"

definition root_delta :: "json \<Rightarrow> json \<Rightarrow> projection_delta" where
  "root_delta prev next =
     \<lparr>pd_changed = (if deepEqual prev next then [] else [(rootKey, next)]), pd_removed = [], pd_conflicts = None\<rparr>"

definition computeDelta :: "json \<Rightarrow> json \<Rightarrow> projection_delta" where
  "computeDelta prev next =
     (case (prev, next) of
        (JObj p, JObj n) \<Rightarrow>
          \<lparr>pd_changed = foldl (\<lambda>c k. if deepEqual (at_key p k) (at_key n k) then c else AList.update k (at_key n k) c) []
                          (map fst n),
           pd_removed = filter (\<lambda>k. \<not> has_key n k) (map fst p), pd_conflicts = None\<rparr>
      | _ \<Rightarrow> root_delta prev next)"

record ('s, 'a) state_model =
  sm_initial :: 's
  sm_reduce :: "'s \<Rightarrow> 'a \<Rightarrow> 's"
  sm_project :: "('s \<Rightarrow> json) option"

definition replayActions :: "('s, 'a) state_model \<Rightarrow> 'a list \<Rightarrow> 's option \<Rightarrow> 's" where
  "replayActions m actions from = foldl (sm_reduce m) (case from of None \<Rightarrow> sm_initial m | Some s \<Rightarrow> s) actions"

text \<open>The pipeline on states that are JSON objects; the identity when the model has no projection.\<close>

definition project :: "(members, 'a) state_model \<Rightarrow> members \<Rightarrow> json" where
  "project m s = (case sm_project m of None \<Rightarrow> JObj s | Some f \<Rightarrow> f s)"

definition pipeline_diff :: "(members, 'a) state_model \<Rightarrow> members \<Rightarrow> members \<Rightarrow> projection_delta" where
  "pipeline_diff m prev next = computeDelta (project m prev) (project m next)"

definition mergeDelta ::
  "(members, 'a) state_model \<Rightarrow> members \<Rightarrow> members \<Rightarrow> members \<Rightarrow> conflict_strategy \<Rightarrow> projection_delta" where
  "mergeDelta m base local remote strategy =
     (let (merged, conflicts) = threeWayMerge base local remote strategy;
          delta = computeDelta (project m base) (project m merged)
      in delta\<lparr>pd_conflicts := Some conflicts\<rparr>)"

section \<open>What the equality decides\<close>

text \<open>The value a text stands for: undefined members dropped, undefined elements null.\<close>

fun plain_value :: "json \<Rightarrow> json" where
  "plain_value JUndef = JNull"
| "plain_value (JArr xs) = JArr (map plain_value xs)"
| "plain_value (JObj kvs) = JObj (map (\<lambda>(k, v). (k, plain_value v)) (filter (\<lambda>(k, v). v \<noteq> JUndef) kvs))"
| "plain_value v = v"

lemma stringify_print: "json_stringify v = print_json (plain_value v)"
proof (induction v rule: json_stringify.induct)
  case (6 xs)
  then show ?case by (simp cong: map_cong)
next
  case (7 kvs)
  have f: "filter (\<lambda>(k, v, s). v \<noteq> JUndef) (map (\<lambda>(k, v). (k, v, json_stringify v)) kvs) =
      map (\<lambda>(k, v). (k, v, json_stringify v)) (filter (\<lambda>(k, v). v \<noteq> JUndef) kvs)"
    by (induction kvs) auto
  have m: "map (\<lambda>(k, v). json_quote k @ '':'' @ json_stringify v) (filter (\<lambda>(k, v). v \<noteq> JUndef) kvs) =
      map (\<lambda>(k, v). json_quote k @ '':'' @ print_json (plain_value v)) (filter (\<lambda>(k, v). v \<noteq> JUndef) kvs)"
    using 7 by auto
  show ?case
    unfolding json_stringify.simps plain_value.simps print_json.simps f
    using m by (simp add: comp_def split_def del: map_eq_conv)
qed simp_all

lemma plain_no_undef: "no_undef (plain_value v)"
  by (induction v) (auto simp: list_all_iff)

lemma stringify_eq: "json_stringify v = json_stringify w \<longleftrightarrow> plain_value v = plain_value w"
  using print_inj [of "plain_value v" "[]" "plain_value w" "[]"] plain_no_undef
  by (auto simp: stringify_print value_end_def)

lemma deep_equal_iff:
  "deepEqual a b \<longleftrightarrow> a = b \<or> is_composite a \<and> is_composite b \<and> plain_value a = plain_value b"
  by (auto simp: deepEqual_def stringify_eq is_composite_def)

lemma deep_equal_equiv: "deepEqual a a" "deepEqual a b \<Longrightarrow> deepEqual b a" "deepEqual a b \<Longrightarrow> deepEqual b c \<Longrightarrow> deepEqual a c"
  by (auto simp: deep_equal_iff)

lemma deep_equal_euclid: "deepEqual a b \<Longrightarrow> deepEqual a c \<Longrightarrow> deepEqual b c"
  using deep_equal_equiv by blast

section \<open>What a merge decides for one key\<close>

definition conflicted :: "json option \<Rightarrow> json option \<Rightarrow> json option \<Rightarrow> bool" where
  "conflicted b l r \<longleftrightarrow>
     (\<exists>lv rv. l = Some lv \<and> r = Some rv \<and> \<not> deepEqual lv rv \<and>
        (\<forall>bv. b = Some bv \<longrightarrow> \<not> deepEqual bv lv \<and> \<not> deepEqual bv rv))"

definition merge_value :: "conflict_strategy \<Rightarrow> json option \<Rightarrow> json option \<Rightarrow> json option \<Rightarrow> json option" where
  "merge_value strategy b l r =
     (case (l, r) of
        (None, None) \<Rightarrow> None
      | (Some lv, None) \<Rightarrow> Some lv
      | (None, Some rv) \<Rightarrow> Some rv
      | (Some lv, Some rv) \<Rightarrow>
          Some (if conflicted b l r then
                  (case strategy of
                     LastWriteWins \<Rightarrow> rv
                   | AgentYieldsToHuman \<Rightarrow> lv
                   | ManualMerge \<Rightarrow> (case b of None \<Rightarrow> JUndef | Some bv \<Rightarrow> bv))
                else if deepEqual lv rv then lv
                else if \<exists>bv. b = Some bv \<and> deepEqual bv lv then rv else lv))"

lemma has_key_map: "has_key kvs k \<longleftrightarrow> map_of kvs k \<noteq> None"
  by (simp add: has_key_def map_of_eq_None_iff)

lemma merge_key_value:
  "merge_key strategy base local remote (m, c) k =
     ((case merge_value strategy (map_of base k) (map_of local k) (map_of remote k) of
         None \<Rightarrow> m | Some v \<Rightarrow> AList.update k v m),
      c @ (if conflicted (map_of base k) (map_of local k) (map_of remote k) then [k] else []))"
proof (cases "map_of local k")
  case None
  then show ?thesis
    by (cases "map_of remote k") (simp_all add: merge_key_def merge_value_def conflicted_def has_key_map at_key_def Let_def)
next
  case (Some lv)
  note l = Some
  show ?thesis
  proof (cases "map_of remote k")
    case None
    then show ?thesis using l by (simp add: merge_key_def merge_value_def conflicted_def has_key_map at_key_def Let_def)
  next
    case (Some rv)
    then show ?thesis using l
      by (cases "map_of base k"; cases strategy)
        (auto simp: merge_key_def merge_value_def conflicted_def has_key_map at_key_def resolveConflict_def Let_def
          dest: deep_equal_euclid)
  qed
qed

lemma merge_loop:
  assumes "distinct ks"
  shows "map_of (fst (foldl (merge_key strategy base local remote) (m, c) ks)) k =
      (if k \<in> set ks then
         (case merge_value strategy (map_of base k) (map_of local k) (map_of remote k) of None \<Rightarrow> map_of m k | Some v \<Rightarrow> Some v)
       else map_of m k) \<and>
    snd (foldl (merge_key strategy base local remote) (m, c) ks) =
      c @ filter (\<lambda>k. conflicted (map_of base k) (map_of local k) (map_of remote k)) ks"
  using assms
proof (induction ks arbitrary: m c)
  case (Cons x ks)
  then show ?case
    by (auto simp: merge_key_value update_conv split: option.splits)
qed simp

lemma all_keys_exact: "distinct (all_keys base local remote)"
  "set (all_keys base local remote) = fst ` set base \<union> fst ` set local \<union> fst ` set remote"
  by (auto simp: all_keys_def)

lemma merge_maps:
  "map_of (fst (threeWayMerge base local remote strategy)) k =
     merge_value strategy (map_of base k) (map_of local k) (map_of remote k)"
proof -
  have "merge_value strategy (map_of base k) (map_of local k) (map_of remote k) = None"
    if "k \<notin> set (all_keys base local remote)"
    using that by (simp add: all_keys_exact map_of_eq_None_iff [symmetric] merge_value_def)
  then show ?thesis
    using merge_loop [OF all_keys_exact(1), of strategy base local remote "[]" "[]" base local remote k]
    by (auto simp: threeWayMerge_def split: option.splits)
qed

lemma merge_conflicts:
  "snd (threeWayMerge base local remote strategy) =
     filter (\<lambda>k. conflicted (map_of base k) (map_of local k) (map_of remote k)) (all_keys base local remote)"
  using merge_loop [OF all_keys_exact(1), of strategy base local remote "[]" "[]" base local remote]
  by (simp add: threeWayMerge_def)

section \<open>What a delta says\<close>

lemma delta_changed:
  "map_of (foldl (\<lambda>c k. if deepEqual (at_key p k) (at_key n k) then c else AList.update k (at_key n k) c) c ks) k =
     (if k \<in> set ks \<and> \<not> deepEqual (at_key p k) (at_key n k) then Some (at_key n k) else map_of c k)"
  by (induction ks arbitrary: c) (auto simp: update_conv)

text \<open>The reader of a delta: removed fields dropped, changed ones set.\<close>

definition apply_delta :: "projection_delta \<Rightarrow> members \<Rightarrow> members" where
  "apply_delta d p =
     foldl (\<lambda>m (k, v). AList.update k v m) (filter (\<lambda>(k, v). k \<notin> set (pd_removed d)) p) (pd_changed d)"

lemma apply_map:
  "map_of (foldl (\<lambda>m (k, v). AList.update k v m) m cs) k =
     (case map_of (rev cs) k of None \<Rightarrow> map_of m k | Some v \<Rightarrow> Some v)"
  by (induction cs arbitrary: m) (auto simp: update_conv map_add_def split: option.splits)

lemma filter_key_map: "map_of (filter (\<lambda>(k, v). k \<notin> X) p) k = (if k \<in> X then None else map_of p k)"
  by (induction p) auto

section \<open>Properties\<close>

text \<open>
  A three-way merge gives every key the value the rule for single values gives it (a side that did
  not change yields, sides that agree or a side alone keep their value, a true conflict goes to the
  strategy), and reports exactly the keys in conflict, once each.
\<close>
theorem merge_decides_exactly:
  "map_of (fst (threeWayMerge base local remote strategy)) k =
     merge_value strategy (map_of base k) (map_of local k) (map_of remote k) \<and>
   (k \<in> set (snd (threeWayMerge base local remote strategy)) \<longleftrightarrow>
     conflicted (map_of base k) (map_of local k) (map_of remote k)) \<and>
   distinct (snd (threeWayMerge base local remote strategy))"
proof -
  have "k \<in> set (all_keys base local remote)" if "conflicted (map_of base k) (map_of local k) (map_of remote k)"
    using that by (force simp: conflicted_def all_keys_exact dest: map_of_SomeD)
  then show ?thesis using all_keys_exact(1) by (auto simp: merge_maps merge_conflicts)
qed



text \<open>Two objects that list the same members in another order count as changed.\<close>

lemma member_order_is_dirty:
  "dirtyKeys [(''o'', JObj [(''a'', JNum 1), (''b'', JNum 2)])] [(''o'', JObj [(''b'', JNum 2), (''a'', JNum 1)])] = [''o'']"
  by code_simp

text \<open>
  A delta between two projected objects carries the change: applied to the first it gives the
  second, field by field, and it names no field whose value is the same.
\<close>
theorem delta_roundtrip:
  "deepEqual (at_key (apply_delta (computeDelta (JObj p) (JObj n)) p) k) (at_key n k) \<and>
   (k \<in> fst ` set (pd_changed (computeDelta (JObj p) (JObj n))) \<longleftrightarrow> has_key n k \<and> \<not> deepEqual (at_key p k) (at_key n k)) \<and>
   (k \<in> set (pd_removed (computeDelta (JObj p) (JObj n))) \<longleftrightarrow> has_key p k \<and> \<not> has_key n k)"
proof -
  define c where "c = pd_changed (computeDelta (JObj p) (JObj n))"
  have m: "map_of c k = (if has_key n k \<and> \<not> deepEqual (at_key p k) (at_key n k) then Some (at_key n k) else None)" for k
    by (auto simp: c_def computeDelta_def delta_changed has_key_def)
  have "distinct (map fst c)"
  proof -
    have "distinct (map fst (foldl (\<lambda>c k. if deepEqual (at_key p k) (at_key n k) then c else AList.update k (at_key n k) c) c ks))"
      if "distinct (map fst c)" for c ks
      using that by (induction ks arbitrary: c) (auto simp: distinct_update)
    then show ?thesis by (simp add: c_def computeDelta_def)
  qed
  then have r: "map_of (rev c) = map_of c" using map_of_inject_set [of "rev c" c] by (simp add: rev_map [symmetric])
  have "k \<in> fst ` set c \<longleftrightarrow> map_of c k \<noteq> None" by (simp add: map_of_eq_None_iff)
  moreover have "set (pd_removed (computeDelta (JObj p) (JObj n))) = {k. has_key p k \<and> \<not> has_key n k}"
    by (auto simp: computeDelta_def has_key_def)
  moreover have "deepEqual (at_key (apply_delta (computeDelta (JObj p) (JObj n)) p) k) (at_key n k)"
    unfolding apply_delta_def at_key_def [of "foldl _ _ _"] apply_map c_def [symmetric] r m filter_key_map
    using calculation(2) deep_equal_equiv(1) by (auto simp: has_key_map at_key_def split: option.splits)
  ultimately show ?thesis unfolding c_def [symmetric] m by auto
qed

end
