(* ===== verification/Shared_Store.thy ===== *)
theory Shared_Store
  imports Wa_Prelude
begin

text \<open>
  The session-keyed store of shared state, \<open>SharedStateStore\<close>
  (packages/core/src/shared-state/SharedStateStore.ts), as a state machine. An operation stands at one
  of its \<open>await\<close>s; an event calls an operation or resumes one. The backend reads and writes when it is
  asked and answers later, in any order. The reducer is an argument, \<open>None\<close> where it throws.

  The promise chain of a session's lock is the order of its dispatches and replacements in the list
  of tasks: one runs when all earlier ones have ended. Listeners come down to the events emitted.
\<close>

datatype ('s, 'a) shared_op = OpGet | OpDispatch 'a string | OpReplace 's string

datatype 's op_phase =
    WaitingForLock
  | ReadingBackend "'s option"
  | SavingInitial 's
  | Got 's
  | Persisting 's
  | Ended "'s option"

record ('s, 'a) shared_task =
  st_session :: string
  st_op :: "('s, 'a) shared_op"
  st_phase :: "'s op_phase"

record ('s, 'a) change_event =
  ce_sessionId :: string
  ce_state :: 's
  ce_action :: "'a option"
  ce_source :: string

record ('s, 'a) shared_store =
  ss_memory :: "(string \<times> 's) list"
  ss_accessOrder :: "(string \<times> nat) list"
  ss_accessCounter :: nat
  ss_backend :: "(string \<times> 's) list option"
  ss_tasks :: "('s, 'a) shared_task list"
  ss_events :: "('s, 'a) change_event list"

definition new_shared :: "(string \<times> 's) list option \<Rightarrow> ('s, 'a) shared_store" where
  "new_shared backend =
     \<lparr>ss_memory = [], ss_accessOrder = [], ss_accessCounter = 0, ss_backend = backend, ss_tasks = [], ss_events = []\<rparr>"

section \<open>The parts of an operation\<close>

definition touchAccess :: "string \<Rightarrow> ('s, 'a) shared_store \<Rightarrow> ('s, 'a) shared_store" where
  "touchAccess i s =
     s\<lparr>ss_accessOrder := AList.update i (ss_accessCounter s + 1) (ss_accessOrder s),
       ss_accessCounter := ss_accessCounter s + 1\<rparr>"

definition remember :: "string \<Rightarrow> 's \<Rightarrow> ('s, 'a) shared_store \<Rightarrow> ('s, 'a) shared_store" where
  "remember i v s = s\<lparr>ss_memory := AList.update i v (ss_memory s)\<rparr>"

definition put_backend :: "string \<Rightarrow> 's \<Rightarrow> ('s, 'a) shared_store \<Rightarrow> ('s, 'a) shared_store" where
  "put_backend i v s = s\<lparr>ss_backend := map_option (AList.update i v) (ss_backend s)\<rparr>"

text \<open>The session whose last access is the oldest, the first one when two tie.\<close>

fun oldest :: "(string \<times> nat) list \<Rightarrow> (string \<times> nat) option" where
  "oldest [] = None"
| "oldest ((k, t) # m) = (case oldest m of None \<Rightarrow> Some (k, t) | Some (k', t') \<Rightarrow> if t' < t then Some (k', t') else Some (k, t))"

definition evictIfNeeded :: "nat \<Rightarrow> ('s, 'a) shared_store \<Rightarrow> ('s, 'a) shared_store" where
  "evictIfNeeded maxSessions s =
     (if length (ss_memory s) \<le> maxSessions then s
      else (case oldest (ss_accessOrder s) of
              None \<Rightarrow> s
            | Some (k, t) \<Rightarrow>
                if k = [] then s
                else s\<lparr>ss_memory := AList.delete k (ss_memory s), ss_accessOrder := AList.delete k (ss_accessOrder s)\<rparr>))"

text \<open>\<open>get\<close> up to its first await: the phase it is in then.\<close>

definition begin_get :: "'s \<Rightarrow> string \<Rightarrow> ('s, 'a) shared_store \<Rightarrow> 's op_phase \<times> ('s, 'a) shared_store" where
  "begin_get initial i s =
     (let s1 = touchAccess i s
      in case map_of (ss_memory s1) i of
           Some v \<Rightarrow> (Got v, s1)
         | None \<Rightarrow>
             (case ss_backend s1 of
                Some b \<Rightarrow> (ReadingBackend (map_of b i), s1)
              | None \<Rightarrow> (Got initial, remember i initial s1)))"

text \<open>\<open>#persist\<close> up to its await.\<close>

definition persist :: "nat \<Rightarrow> string \<Rightarrow> 's \<Rightarrow> ('s, 'a) shared_store \<Rightarrow> ('s, 'a) shared_store" where
  "persist maxSessions i v s = put_backend i v (evictIfNeeded maxSessions (touchAccess i (remember i v s)))"

definition notify :: "('s, 'a) change_event \<Rightarrow> ('s, 'a) shared_store \<Rightarrow> ('s, 'a) shared_store" where
  "notify e s = s\<lparr>ss_events := ss_events s @ [e]\<rparr>"

text \<open>What an operation does with the state it got.\<close>

definition use_state ::
  "nat \<Rightarrow> ('s \<Rightarrow> 'a \<Rightarrow> 's option) \<Rightarrow> string \<Rightarrow> ('s, 'a) shared_op \<Rightarrow> 's \<Rightarrow> ('s, 'a) shared_store \<Rightarrow> 's op_phase \<times> ('s, 'a) shared_store" where
  "use_state maxSessions reduce i f v s =
     (case f of
        OpDispatch a source \<Rightarrow>
          (case reduce v a of None \<Rightarrow> (Ended None, s) | Some next \<Rightarrow> (Persisting next, persist maxSessions i next s))
      | _ \<Rightarrow> (Ended (Some v), s))"

text \<open>The event an operation emits when its state is saved.\<close>

definition event_of :: "string \<Rightarrow> ('s, 'a) shared_op \<Rightarrow> 's \<Rightarrow> ('s, 'a) change_event" where
  "event_of i f v =
     \<lparr>ce_sessionId = i, ce_state = v,
      ce_action = (case f of OpDispatch a source \<Rightarrow> Some a | _ \<Rightarrow> None),
      ce_source = (case f of OpDispatch a source \<Rightarrow> source | OpReplace r source \<Rightarrow> source | OpGet \<Rightarrow> '''')\<rparr>"

definition resume_op ::
  "nat \<Rightarrow> ('s \<Rightarrow> 'a \<Rightarrow> 's option) \<Rightarrow> 's \<Rightarrow> string \<Rightarrow> ('s, 'a) shared_op \<Rightarrow> 's op_phase \<Rightarrow> ('s, 'a) shared_store \<Rightarrow>
     's op_phase \<times> ('s, 'a) shared_store" where
  "resume_op maxSessions reduce initial i f p s =
     (case p of
        WaitingForLock \<Rightarrow>
          (case f of
             OpReplace v source \<Rightarrow> (Persisting v, persist maxSessions i v s)
           | _ \<Rightarrow> begin_get initial i s)
      | ReadingBackend (Some v) \<Rightarrow> (Got v, remember i v s)
      | ReadingBackend None \<Rightarrow> (SavingInitial initial, put_backend i initial (remember i initial s))
      | SavingInitial v \<Rightarrow> (Got v, s)
      | Got v \<Rightarrow> use_state maxSessions reduce i f v s
      | Persisting v \<Rightarrow> (Ended (Some v), notify (event_of i f v) s)
      | Ended r \<Rightarrow> (p, s))"

section \<open>The store\<close>

datatype ('s, 'a) shared_event = CallOp string "('s, 'a) shared_op" | ResumeOp nat

fun ended_phase :: "'s op_phase \<Rightarrow> bool" where
  "ended_phase (Ended r) = True"
| "ended_phase p = False"

fun takes_lock :: "('s, 'a) shared_op \<Rightarrow> bool" where
  "takes_lock OpGet = False"
| "takes_lock f = True"

definition add_task :: "string \<Rightarrow> ('s, 'a) shared_op \<Rightarrow> 's op_phase \<Rightarrow> ('s, 'a) shared_store \<Rightarrow> ('s, 'a) shared_store" where
  "add_task i f p s = s\<lparr>ss_tasks := ss_tasks s @ [\<lparr>st_session = i, st_op = f, st_phase = p\<rparr>]\<rparr>"

definition lock_held :: "string \<Rightarrow> ('s, 'a) shared_task list \<Rightarrow> bool" where
  "lock_held i ts = list_ex (\<lambda>t. st_session t = i \<and> takes_lock (st_op t) \<and> \<not> ended_phase (st_phase t)) ts"

definition shared_step ::
  "nat \<Rightarrow> ('s \<Rightarrow> 'a \<Rightarrow> 's option) \<Rightarrow> 's \<Rightarrow> ('s, 'a) shared_store \<Rightarrow> ('s, 'a) shared_event \<Rightarrow> ('s, 'a) shared_store" where
  "shared_step maxSessions reduce initial s e =
     (case e of
        CallOp i OpGet \<Rightarrow> (let (p, s') = begin_get initial i s in add_task i OpGet p s')
      | CallOp i f \<Rightarrow> add_task i f WaitingForLock s
      | ResumeOp n \<Rightarrow>
          if n < length (ss_tasks s) then
            (let t = ss_tasks s ! n
             in if st_phase t = WaitingForLock \<and> lock_held (st_session t) (take n (ss_tasks s)) then s
                else (let (p, s') = resume_op maxSessions reduce initial (st_session t) (st_op t) (st_phase t) s
                      in s'\<lparr>ss_tasks := (ss_tasks s)[n := t\<lparr>st_phase := p\<rparr>]\<rparr>))
          else s)"

section \<open>The history of a session\<close>

definition session_events :: "string \<Rightarrow> ('s, 'a) shared_store \<Rightarrow> ('s, 'a) change_event list" where
  "session_events i s = filter (\<lambda>e. ce_sessionId e = i) (ss_events s)"

text \<open>Each state is the one before it, reduced by the action, or a replacement.\<close>

fun linear_history :: "('s \<Rightarrow> 'a \<Rightarrow> 's option) \<Rightarrow> 's \<Rightarrow> ('s, 'a) change_event list \<Rightarrow> bool" where
  "linear_history reduce v [] = True"
| "linear_history reduce v (e # es) =
     ((case ce_action e of None \<Rightarrow> True | Some a \<Rightarrow> reduce v a = Some (ce_state e)) \<and> linear_history reduce (ce_state e) es)"

fun final_state :: "'s \<Rightarrow> ('s, 'a) change_event list \<Rightarrow> 's" where
  "final_state v [] = v"
| "final_state v (e # es) = final_state (ce_state e) es"

lemma final_append [simp]: "final_state v (es @ fs) = final_state (final_state v es) fs"
  by (induction v es rule: final_state.induct) auto

lemma linear_append:
  "linear_history reduce v (es @ fs) \<longleftrightarrow> linear_history reduce v es \<and> linear_history reduce (final_state v es) fs"
  by (induction reduce v es rule: linear_history.induct) auto

text \<open>What the cache and the backend hold for a session whose state is \<open>v\<close>.\<close>

definition cached_ok :: "string \<Rightarrow> 's \<Rightarrow> ('s, 'a) shared_store \<Rightarrow> bool" where
  "cached_ok i v s \<longleftrightarrow> map_of (ss_memory s) i \<in> {None, Some v}"

definition stored :: "string \<Rightarrow> ('s, 'a) shared_store \<Rightarrow> 's option" where
  "stored i s = (case ss_backend s of None \<Rightarrow> None | Some b \<Rightarrow> map_of b i)"

definition stored_ok :: "'s \<Rightarrow> string \<Rightarrow> 's \<Rightarrow> ('s, 'a) shared_store \<Rightarrow> bool" where
  "stored_ok initial i v s \<longleftrightarrow> ss_backend s \<noteq> None \<and> (stored i s = Some v \<or> stored i s = None \<and> v = initial)"

fun phase_ok :: "('s \<Rightarrow> 'a \<Rightarrow> 's option) \<Rightarrow> 's \<Rightarrow> string \<Rightarrow> ('s, 'a) shared_op \<Rightarrow> 's op_phase \<Rightarrow> 's \<Rightarrow> ('s, 'a) shared_store \<Rightarrow> bool" where
  "phase_ok reduce initial i f WaitingForLock v s = (cached_ok i v s \<and> stored_ok initial i v s)"
| "phase_ok reduce initial i f (Ended r) v s = (cached_ok i v s \<and> stored_ok initial i v s)"
| "phase_ok reduce initial i f (ReadingBackend r) v s = (cached_ok i v s \<and> stored_ok initial i v s \<and> r = stored i s)"
| "phase_ok reduce initial i f (SavingInitial w) v s = (cached_ok i v s \<and> stored_ok initial i v s \<and> w = v)"
| "phase_ok reduce initial i f (Got w) v s = (cached_ok i v s \<and> stored_ok initial i v s \<and> w = v)"
| "phase_ok reduce initial i f (Persisting w) v s =
     (cached_ok i w s \<and> stored_ok initial i w s \<and>
      (case f of OpDispatch a source \<Rightarrow> reduce v a = Some w | OpReplace r source \<Rightarrow> w = r | OpGet \<Rightarrow> False))"

lemma touch_simps [simp]:
  "ss_memory (touchAccess i s) = ss_memory s" "ss_backend (touchAccess i s) = ss_backend s"
  "ss_tasks (touchAccess i s) = ss_tasks s" "ss_events (touchAccess i s) = ss_events s"
  by (simp_all add: touchAccess_def)

lemma remember_simps [simp]:
  "map_of (ss_memory (remember i v s)) j = (if j = i then Some v else map_of (ss_memory s) j)"
  "ss_backend (remember i v s) = ss_backend s" "ss_tasks (remember i v s) = ss_tasks s" "ss_events (remember i v s) = ss_events s"
  by (simp_all add: remember_def update_conv)

lemma put_simps [simp]:
  "ss_memory (put_backend i v s) = ss_memory s" "ss_tasks (put_backend i v s) = ss_tasks s"
  "ss_events (put_backend i v s) = ss_events s" "ss_backend (put_backend i v s) = None \<longleftrightarrow> ss_backend s = None"
  by (simp_all add: put_backend_def)

lemma stored_put [simp]:
  "stored j (put_backend i v s) = (if j = i \<and> ss_backend s \<noteq> None then Some v else stored j s)"
  by (simp add: stored_def put_backend_def update_conv split: option.splits)

lemma evict_simps [simp]:
  "ss_backend (evictIfNeeded n s) = ss_backend s" "ss_tasks (evictIfNeeded n s) = ss_tasks s" "ss_events (evictIfNeeded n s) = ss_events s"
  by (auto simp: evictIfNeeded_def split: option.splits prod.splits)

lemma evict_memory: "map_of (ss_memory (evictIfNeeded n s)) j \<in> {None, map_of (ss_memory s) j}"
  by (auto simp: evictIfNeeded_def delete_conv split: option.splits prod.splits)

lemma stored_same [simp]:
  "stored i (remember j v s) = stored i s" "stored i (touchAccess j s) = stored i s" "stored i (evictIfNeeded n s) = stored i s"
  by (simp_all add: stored_def)

lemma persist_simps [simp]:
  "ss_tasks (persist n i v s) = ss_tasks s" "ss_events (persist n i v s) = ss_events s"
  "ss_backend (persist n i v s) = None \<longleftrightarrow> ss_backend s = None"
  by (simp_all add: persist_def)

lemma persist_values:
  "map_of (ss_memory (persist n i v s)) j \<in> {None, if j = i then Some v else map_of (ss_memory s) j}"
  "stored j (persist n i v s) = (if j = i \<and> ss_backend s \<noteq> None then Some v else stored j s)"
proof -
  show "map_of (ss_memory (persist n i v s)) j \<in> {None, if j = i then Some v else map_of (ss_memory s) j}"
    using evict_memory [of n "touchAccess i (remember i v s)" j] by (simp add: persist_def)
  show "stored j (persist n i v s) = (if j = i \<and> ss_backend s \<noteq> None then Some v else stored j s)"
    by (simp add: persist_def) (simp add: stored_def)
qed

text \<open>One block of an operation on the session \<open>i\<close>, which is the only one running there.\<close>

lemma resume_ok:
  assumes "phase_ok reduce initial i f p v s" "takes_lock f" "\<not> ended_phase p"
    and "resume_op n reduce initial i f p s = (p', s')"
  shows "\<exists>es. ss_events s' = ss_events s @ es \<and> (\<forall>e \<in> set es. ce_sessionId e = i) \<and>
    (linear_history reduce v es) \<and> phase_ok reduce initial i f p' (final_state v es) s' \<and> p' \<noteq> WaitingForLock"
proof -
  have none: ?thesis if "ss_events s' = ss_events s" "phase_ok reduce initial i f p' v s'" "p' \<noteq> WaitingForLock"
    using that by (intro exI [of _ "[]"]) simp
  have per: "cached_ok i w (persist n i w s) \<and> stored_ok initial i w (persist n i w s)" if "ss_backend s \<noteq> None" for w
    using that persist_values [where n = n and i = i and v = w and s = s and j = i] by (simp add: cached_ok_def stored_ok_def)
  show ?thesis
  proof (cases p)
    case WaitingForLock
    then have ok: "cached_ok i v s" "stored_ok initial i v s" using assms(1) by simp_all
    show ?thesis
    proof (cases f)
      case (OpReplace w source)
      then show ?thesis using none per ok assms(4) WaitingForLock by (auto simp: resume_op_def stored_ok_def)
    next
      case (OpDispatch a source)
      have s1: "stored j (touchAccess i s) = stored j s" for j by (simp add: stored_def)
      have "begin_get initial i s = (p', s')" using assms(4) WaitingForLock OpDispatch by (simp add: resume_op_def)
      then show ?thesis using none ok s1
        by (auto simp: begin_get_def Let_def cached_ok_def stored_ok_def stored_def split: option.splits)
    qed (use assms(2) in simp)
  next
    case (ReadingBackend r)
    then have ok: "cached_ok i v s" "stored_ok initial i v s" "r = stored i s" using assms(1) by simp_all
    show ?thesis
    proof (cases r)
      case None
      then have v: "v = initial" "ss_backend s \<noteq> None" using ok by (auto simp: stored_ok_def)
      have e: "p' = SavingInitial initial" "s' = put_backend i initial (remember i initial s)"
        using assms(4) ReadingBackend None by (simp_all add: resume_op_def)
      show ?thesis by (rule none) (use v in \<open>simp_all add: e cached_ok_def stored_ok_def\<close>)
    next
      case (Some w)
      then have "w = v" using ok by (auto simp: stored_ok_def)
      then have "p' = Got v" "s' = remember i v s" using assms(4) ReadingBackend Some by (simp_all add: resume_op_def)
      moreover have "stored_ok initial i v (remember i v s)" using ok(2) by (simp add: stored_ok_def)
      ultimately show ?thesis using none by (simp add: cached_ok_def)
    qed
  next
    case (SavingInitial w)
    then show ?thesis using none assms by (auto simp: resume_op_def)
  next
    case (Got w)
    then have ok: "cached_ok i v s" "stored_ok initial i v s" "w = v" using assms(1) by simp_all
    then show ?thesis using none per assms(2,4) Got
      by (cases f) (auto simp: resume_op_def use_state_def stored_ok_def split: option.splits)
  next
    case (Persisting w)
    then have "s' = notify (event_of i f w) s" "p' = Ended (Some w)" using assms(4) by (simp_all add: resume_op_def)
    moreover have "cached_ok i w (notify e s) = cached_ok i w s" "stored_ok initial i w (notify e s) = stored_ok initial i w s" for e
      by (simp_all add: cached_ok_def stored_ok_def notify_def stored_def)
    ultimately show ?thesis using assms(1,2) Persisting
      by (intro exI [of _ "[event_of i f w]"]) (cases f; simp add: notify_def event_of_def)
  next
    case (Ended r)
    then show ?thesis using assms(3) by simp
  qed
qed


text \<open>What another session's operation does to the session \<open>j\<close>: at most evict it.\<close>

lemma resume_other:
  assumes "resume_op n reduce initial i f p s = (p', s')" "j \<noteq> i"
  shows "map_of (ss_memory s') j \<in> {None, map_of (ss_memory s) j}" "stored j s' = stored j s"
    "ss_backend s' = None \<longleftrightarrow> ss_backend s = None"
    "\<exists>es. ss_events s' = ss_events s @ es \<and> (\<forall>e \<in> set es. ce_sessionId e = i)"
proof -
  have t: "stored j (touchAccess i s) = stored j s" "stored j (remember i w s) = stored j s" for w
    by (simp_all add: stored_def)
  have b: "begin_get initial i s = (p', s') \<Longrightarrow> map_of (ss_memory s') j = map_of (ss_memory s) j \<and> stored j s' = stored j s \<and>
      (ss_backend s' = None \<longleftrightarrow> ss_backend s = None) \<and> ss_events s' = ss_events s"
    using assms(2) t by (auto simp: begin_get_def Let_def stored_def split: option.splits)
  have u: "use_state n reduce i f w s = (p', s') \<Longrightarrow> map_of (ss_memory s') j \<in> {None, map_of (ss_memory s) j} \<and>
      stored j s' = stored j s \<and> (ss_backend s' = None \<longleftrightarrow> ss_backend s = None) \<and> ss_events s' = ss_events s" for w
    using assms(2) persist_values [where n = n and i = i and s = s and j = j]
    by (auto simp: use_state_def split: shared_op.splits option.splits)
  have "map_of (ss_memory s') j \<in> {None, map_of (ss_memory s) j} \<and> stored j s' = stored j s \<and>
      (ss_backend s' = None \<longleftrightarrow> ss_backend s = None) \<and>
      (\<exists>es. ss_events s' = ss_events s @ es \<and> (\<forall>e \<in> set es. ce_sessionId e = i))"
  proof (cases p)
    case WaitingForLock
    then show ?thesis
      using assms b persist_values [where n = n and i = i and s = s and j = j] by (cases f) (auto simp: resume_op_def)
  next
    case (ReadingBackend r)
    then show ?thesis using assms t by (cases r) (auto simp: resume_op_def)
  next
    case (Got w)
    then show ?thesis using assms u [of w] by (auto simp: resume_op_def)
  next
    case (Persisting w)
    then show ?thesis using assms by (auto simp: resume_op_def notify_def stored_def event_of_def)
  qed (use assms in \<open>auto simp: resume_op_def\<close>)
  then show "map_of (ss_memory s') j \<in> {None, map_of (ss_memory s) j}" "stored j s' = stored j s"
    "ss_backend s' = None \<longleftrightarrow> ss_backend s = None"
    "\<exists>es. ss_events s' = ss_events s @ es \<and> (\<forall>e \<in> set es. ce_sessionId e = i)" by blast+
qed

lemma phase_ok_other:
  assumes "phase_ok reduce initial j f p v s" "map_of (ss_memory s') j \<in> {None, map_of (ss_memory s) j}"
    "stored j s' = stored j s" "ss_backend s' = None \<longleftrightarrow> ss_backend s = None"
  shows "phase_ok reduce initial j f p v s'"
proof -
  have "cached_ok j w s \<Longrightarrow> cached_ok j w s'" "stored_ok initial j w s' = stored_ok initial j w s" for w
    using assms(2-4) by (auto simp: cached_ok_def stored_ok_def)
  then show ?thesis using assms(1,3) by (cases p) auto
qed

section \<open>The invariant of a session\<close>

definition session_tasks :: "string \<Rightarrow> ('s, 'a) shared_task list \<Rightarrow> ('s, 'a) shared_task list" where
  "session_tasks i ts = filter (\<lambda>t. st_session t = i) ts"

text \<open>The operations of a session run one after the other.\<close>

definition one_by_one :: "('s, 'a) shared_task list \<Rightarrow> bool" where
  "one_by_one ts \<longleftrightarrow> sorted_wrt (\<lambda>t u. ended_phase (st_phase t) \<or> st_phase u = WaitingForLock) ts"

definition session_inv :: "('s \<Rightarrow> 'a \<Rightarrow> 's option) \<Rightarrow> 's \<Rightarrow> 's \<Rightarrow> string \<Rightarrow> ('s, 'a) shared_store \<Rightarrow> bool" where
  "session_inv reduce initial base i s \<longleftrightarrow>
     (let v = final_state base (session_events i s)
      in linear_history reduce base (session_events i s) \<and>
         one_by_one (session_tasks i (ss_tasks s)) \<and>
         (\<forall>t \<in> set (session_tasks i (ss_tasks s)). takes_lock (st_op t)) \<and>
         ((\<forall>t \<in> set (session_tasks i (ss_tasks s)). ended_phase (st_phase t) \<or> st_phase t = WaitingForLock) \<longrightarrow>
            cached_ok i v s \<and> stored_ok initial i v s) \<and>
         (\<forall>t \<in> set (session_tasks i (ss_tasks s)). \<not> ended_phase (st_phase t) \<longrightarrow> st_phase t \<noteq> WaitingForLock \<longrightarrow>
            phase_ok reduce initial i (st_op t) (st_phase t) v s))"

lemma session_split: "session_tasks i (xs @ t # ys) = session_tasks i xs @ (if st_session t = i then [t] else []) @ session_tasks i ys"
  by (simp add: session_tasks_def)

lemma lock_held_iff:
  "(\<forall>t \<in> set (session_tasks i ts). takes_lock (st_op t)) \<Longrightarrow>
     lock_held i ts \<longleftrightarrow> (\<exists>t \<in> set (session_tasks i ts). \<not> ended_phase (st_phase t))"
  by (auto simp: lock_held_def session_tasks_def list_ex_iff)

lemma resume_session:
  assumes inv: "session_inv reduce initial base i s" and n: "n < length (ss_tasks s)" and i: "st_session (ss_tasks s ! n) = i"
    and free: "\<not> (st_phase (ss_tasks s ! n) = WaitingForLock \<and> lock_held i (take n (ss_tasks s)))"
    and step: "resume_op m reduce initial i (st_op (ss_tasks s ! n)) (st_phase (ss_tasks s ! n)) s = (p', s')"
  shows "session_inv reduce initial base i (s'\<lparr>ss_tasks := (ss_tasks s)[n := (ss_tasks s ! n)\<lparr>st_phase := p'\<rparr>]\<rparr>)"
proof -
  define t where "t = ss_tasks s ! n"
  define xs where "xs = session_tasks i (take n (ss_tasks s))"
  define ys where "ys = session_tasks i (drop (Suc n) (ss_tasks s))"
  let ?v = "final_state base (session_events i s)" and ?t = "t\<lparr>st_phase := p'\<rparr>"
  have split: "ss_tasks s = take n (ss_tasks s) @ t # drop (Suc n) (ss_tasks s)" using id_take_nth_drop [OF n] by (simp add: t_def)
  have old: "session_tasks i (ss_tasks s) = xs @ t # ys"
    by (subst split, subst session_split) (use i in \<open>simp add: xs_def ys_def t_def\<close>)
  have upd: "(ss_tasks s)[n := ?t] = take n (ss_tasks s) @ ?t # drop (Suc n) (ss_tasks s)" using n by (simp add: upd_conv_take_nth_drop)
  have new: "session_tasks i ((ss_tasks s)[n := ?t]) = xs @ ?t # ys"
    unfolding upd session_split using i by (simp add: xs_def ys_def t_def)
  have p: "st_phase ?t = p'" "st_op ?t = st_op t" by simp_all
  have hist: "linear_history reduce base (session_events i s)" and obo: "one_by_one (xs @ t # ys)"
    and lock: "\<forall>u \<in> set (xs @ t # ys). takes_lock (st_op u)"
    and rest: "(\<forall>u \<in> set (xs @ t # ys). ended_phase (st_phase u) \<or> st_phase u = WaitingForLock) \<longrightarrow> cached_ok i ?v s \<and> stored_ok initial i ?v s"
    and act: "\<forall>u \<in> set (xs @ t # ys). \<not> ended_phase (st_phase u) \<longrightarrow> st_phase u \<noteq> WaitingForLock \<longrightarrow>
      phase_ok reduce initial i (st_op u) (st_phase u) ?v s"
    using inv unfolding session_inv_def Let_def old by blast+
  show ?thesis
  proof (cases "ended_phase (st_phase t)")
    case True
    then have "p' = st_phase t" "s' = s" using step by (cases "st_phase t"; simp add: t_def resume_op_def)+
    then have "s'\<lparr>ss_tasks := (ss_tasks s)[n := ?t]\<rparr> = s" using n by (simp add: t_def)
    then show ?thesis using inv by (simp add: t_def)
  next
    case False
    have X: "\<forall>u \<in> set xs. ended_phase (st_phase u)"
    proof (cases "st_phase t = WaitingForLock")
      case True
      have "\<forall>u \<in> set xs. takes_lock (st_op u)" using lock by simp
      then have "\<not> lock_held i (take n (ss_tasks s)) \<longleftrightarrow> (\<forall>u \<in> set xs. ended_phase (st_phase u))"
        unfolding xs_def by (subst lock_held_iff) auto
      then show ?thesis using free True by (simp add: t_def)
    next
      case False
      then show ?thesis using obo by (auto simp: one_by_one_def sorted_wrt_append)
    qed
    have Y: "\<forall>u \<in> set ys. st_phase u = WaitingForLock" using obo False by (auto simp: one_by_one_def sorted_wrt_append)
    have ph: "phase_ok reduce initial i (st_op t) (st_phase t) ?v s"
    proof (cases "st_phase t = WaitingForLock")
      case True
      have "\<forall>u \<in> set (xs @ t # ys). ended_phase (st_phase u) \<or> st_phase u = WaitingForLock" using True X Y by auto
      then show ?thesis using rest True by simp
    next
      case False
      then show ?thesis using act \<open>\<not> ended_phase (st_phase t)\<close> by simp
    qed
    obtain es where es: "ss_events s' = ss_events s @ es" "\<forall>e \<in> set es. ce_sessionId e = i" "linear_history reduce ?v es"
      "phase_ok reduce initial i (st_op t) p' (final_state ?v es) s'" "p' \<noteq> WaitingForLock"
      using resume_ok [OF ph _ False step [folded t_def]] lock by auto
    let ?s = "s'\<lparr>ss_tasks := (ss_tasks s)[n := ?t]\<rparr>"
    have ev: "session_events i ?s = session_events i s @ es"
      using es(1,2) by (simp add: session_events_def filter_id_conv)
    have same: "cached_ok i w ?s = cached_ok i w s'" "stored_ok initial i w ?s = stored_ok initial i w s'" "stored i ?s = stored i s'" for w
      by (simp_all add: cached_ok_def stored_ok_def stored_def)
    then have po: "phase_ok reduce initial i f p w ?s = phase_ok reduce initial i f p w s'" for f p w
      by (cases p) simp_all
    have "one_by_one (xs @ ?t # ys)"
      using obo X Y by (auto simp: one_by_one_def sorted_wrt_append)
    moreover have "linear_history reduce base (session_events i s @ es)" using hist es(3) by (simp add: linear_append)
    moreover have "ended_phase p' \<Longrightarrow> cached_ok i (final_state ?v es) s' \<and> stored_ok initial i (final_state ?v es) s'"
      using es(4) by (cases p') simp_all
    ultimately show ?thesis
      unfolding session_inv_def Let_def t_def [symmetric] ev same po using new X Y lock es(4,5) by auto
  qed
qed


lemma other_session:
  assumes inv: "session_inv reduce initial base j s"
    and tasks: "session_tasks j (ss_tasks s') = session_tasks j (ss_tasks s)" and ev: "session_events j s' = session_events j s"
    and val: "map_of (ss_memory s') j \<in> {None, map_of (ss_memory s) j}" "stored j s' = stored j s"
      "ss_backend s' = None \<longleftrightarrow> ss_backend s = None"
  shows "session_inv reduce initial base j s'"
proof -
  have p: "phase_ok reduce initial j f p w s \<Longrightarrow> phase_ok reduce initial j f p w s'" for f p w
    by (rule phase_ok_other [OF _ val])
  then have c: "cached_ok j w s \<and> stored_ok initial j w s \<Longrightarrow> cached_ok j w s' \<and> stored_ok initial j w s'" for w
    using p [of OpGet WaitingForLock w] by simp
  let ?v = "final_state base (session_events j s)"
  have old: "(\<forall>t \<in> set (session_tasks j (ss_tasks s)). ended_phase (st_phase t) \<or> st_phase t = WaitingForLock) \<longrightarrow>
        cached_ok j ?v s \<and> stored_ok initial j ?v s"
    "\<forall>t \<in> set (session_tasks j (ss_tasks s)). \<not> ended_phase (st_phase t) \<longrightarrow> st_phase t \<noteq> WaitingForLock \<longrightarrow>
        phase_ok reduce initial j (st_op t) (st_phase t) ?v s"
    using inv unfolding session_inv_def Let_def by blast+
  have new: "(\<forall>t \<in> set (session_tasks j (ss_tasks s)). ended_phase (st_phase t) \<or> st_phase t = WaitingForLock) \<longrightarrow>
        cached_ok j ?v s' \<and> stored_ok initial j ?v s'"
    "\<forall>t \<in> set (session_tasks j (ss_tasks s)). \<not> ended_phase (st_phase t) \<longrightarrow> st_phase t \<noteq> WaitingForLock \<longrightarrow>
        phase_ok reduce initial j (st_op t) (st_phase t) ?v s'"
    using old p c by blast+
  show ?thesis using inv new unfolding session_inv_def Let_def tasks ev by blast
qed

lemma shared_step_inv:
  assumes inv: "\<forall>i. session_inv reduce initial (base i) i s" and e: "\<forall>i. e \<noteq> CallOp i OpGet"
  shows "session_inv reduce initial (base j) j (shared_step m reduce initial s e)"
proof (cases e)
  case (CallOp i f)
  then have f: "takes_lock f" using e by (cases f) auto
  then have st: "shared_step m reduce initial s e = add_task i f WaitingForLock s"
    using CallOp by (cases f) (simp_all add: shared_step_def)
  let ?t = "\<lparr>st_session = i, st_op = f, st_phase = WaitingForLock\<rparr>"
  have tasks: "session_tasks j (ss_tasks (add_task i f WaitingForLock s)) = session_tasks j (ss_tasks s) @ (if i = j then [?t] else [])"
    by (simp add: add_task_def session_tasks_def)
  have ev: "session_events j (add_task i f WaitingForLock s) = session_events j s" by (simp add: session_events_def add_task_def)
  have same: "cached_ok j w (add_task i f WaitingForLock s) = cached_ok j w s"
    "stored_ok initial j w (add_task i f WaitingForLock s) = stored_ok initial j w s"
    "stored j (add_task i f WaitingForLock s) = stored j s" for w
    by (simp_all add: cached_ok_def stored_ok_def stored_def add_task_def)
  then have p: "phase_ok reduce initial j g p w (add_task i f WaitingForLock s) = phase_ok reduce initial j g p w s" for g p w
    by (cases p) simp_all
  have "one_by_one (ts @ (if i = j then [?t] else []))" if "one_by_one ts" for ts
    using that by (simp add: one_by_one_def sorted_wrt_append)
  then show ?thesis
    using inv [rule_format, of j] f unfolding st session_inv_def Let_def tasks ev same p by auto
next
  case (ResumeOp n)
  let ?t = "ss_tasks s ! n"
  show ?thesis
  proof (cases "n < length (ss_tasks s) \<and> \<not> (st_phase ?t = WaitingForLock \<and> lock_held (st_session ?t) (take n (ss_tasks s)))")
    case True
    then have n: "n < length (ss_tasks s)" by simp
    obtain p' s' where step: "resume_op m reduce initial (st_session ?t) (st_op ?t) (st_phase ?t) s = (p', s')" by fastforce
    let ?s = "s'\<lparr>ss_tasks := (ss_tasks s)[n := ?t\<lparr>st_phase := p'\<rparr>]\<rparr>"
    have st: "shared_step m reduce initial s e = ?s"
      using True step ResumeOp by (auto simp: shared_step_def Let_def)
    show ?thesis
    proof (cases "st_session ?t = j")
      case True
      have "session_inv reduce initial (base j) j s" using inv by blast
      then show ?thesis
        unfolding st using resume_session [of reduce initial "base j" j s n m p' s'] n True step
          \<open>n < length (ss_tasks s) \<and> \<not> (st_phase ?t = WaitingForLock \<and> lock_held (st_session ?t) (take n (ss_tasks s)))\<close>
        by blast
    next
      case False
      note o = resume_other [OF step False [symmetric]]
      obtain es where es: "ss_events s' = ss_events s @ es" "\<forall>e \<in> set es. ce_sessionId e = st_session ?t" using o(4) by blast
      have "session_events j ?s = session_events j s"
        using es False by (auto simp: session_events_def filter_empty_conv)
      moreover have "session_tasks j (ss_tasks ?s) = session_tasks j (ss_tasks s)"
      proof -
        have a: "ss_tasks s = take n (ss_tasks s) @ ?t # drop (Suc n) (ss_tasks s)" using id_take_nth_drop [OF n] .
        have b: "(ss_tasks s)[n := ?t\<lparr>st_phase := p'\<rparr>] = take n (ss_tasks s) @ ?t\<lparr>st_phase := p'\<rparr> # drop (Suc n) (ss_tasks s)"
          using n by (simp add: upd_conv_take_nth_drop)
        have "session_tasks j (ss_tasks s) = session_tasks j (take n (ss_tasks s)) @ session_tasks j (drop (Suc n) (ss_tasks s))"
          by (subst a, subst session_split) (use False in simp)
        then show ?thesis using b session_split [of j "take n (ss_tasks s)" "?t\<lparr>st_phase := p'\<rparr>"] False by simp
      qed
      moreover have "stored j ?s = stored j s'" by (simp add: stored_def)
      ultimately show ?thesis
        unfolding st by (intro other_session [OF inv [rule_format, of j]]) (use o in simp_all)
    qed
  next
    case False
    then have "shared_step m reduce initial s e = s" using ResumeOp by (auto simp: shared_step_def Let_def)
    then show ?thesis using inv by simp
  qed
qed

lemma shared_run_inv:
  assumes "list_all (\<lambda>e. \<forall>i. e \<noteq> CallOp i OpGet) es" "\<forall>i. session_inv reduce initial (base i) i s"
  shows "\<forall>i. session_inv reduce initial (base i) i (foldl (shared_step m reduce initial) s es)"
  using assms
proof (induction es arbitrary: s)
  case (Cons e es)
  have "\<forall>i. session_inv reduce initial (base i) i (shared_step m reduce initial s e)"
    using shared_step_inv [OF Cons.prems(2)] Cons.prems(1) by simp
  then show ?case using Cons by simp
qed simp

definition first_state :: "'s \<Rightarrow> (string \<times> 's) list \<Rightarrow> string \<Rightarrow> 's" where
  "first_state initial b i = (case map_of b i of None \<Rightarrow> initial | Some v \<Rightarrow> v)"

lemma new_session: "session_inv reduce initial (first_state initial b i) i (new_shared (Some b))"
  by (auto simp: session_inv_def new_shared_def session_events_def session_tasks_def one_by_one_def cached_ok_def
      stored_ok_def stored_def first_state_def split: option.splits)

section \<open>Properties\<close>



text \<open>
  A \<open>get\<close> is not covered by the lock: one that read the backend before a dispatch of the same session
  saved, and is answered after it, puts the old state back into the cache, and the next dispatch
  reduces that.
\<close>

lemma stale_get_loses_update:
  "map ce_state (session_events ''x'' (foldl (shared_step 1 (\<lambda>v a. Some (v + a)) 0) (new_shared (Some [(''x'', 10)]))
     [CallOp ''x'' OpGet, CallOp ''x'' (OpDispatch (1 :: nat) ''u''), ResumeOp 1, ResumeOp 1, ResumeOp 1, ResumeOp 1,
      ResumeOp 0, CallOp ''x'' (OpDispatch 2 ''u''), ResumeOp 2, ResumeOp 2, ResumeOp 2])) = [11, 12]"
  by code_simp

text \<open>A \<open>get\<close> never evicts, so reads alone take the cache beyond its maximum.\<close>

lemma gets_exceed_maximum:
  "length (ss_memory (foldl (shared_step 1 (\<lambda>v (a :: nat). Some v) (0 :: nat)) (new_shared None) [CallOp ''x'' OpGet, CallOp ''y'' OpGet])) = 2"
  by code_simp

end
