(* ===== verification/Kernel_Pool.thy ===== *)
theory Kernel_Pool
  imports Wa_Prelude
begin

text \<open>
  The pool of sandbox kernels, \<open>KernelPool\<close> (packages/core/src/executor/KernelPool.ts), as a state
  machine over its synchronous blocks. A kernel is a number, counted up by the factory, which answers
  later, in any order, or fails. Calls of \<open>acquire\<close> are numbered in the order in which they are made.
\<close>

datatype kernel_answer = KernelReady nat | FactoryFailed | PoolDisposed

record kernel_pool =
  kp_active :: "(string \<times> nat) list"
  kp_idle :: "nat list"
  kp_waitQueue :: "(nat \<times> string) list"
  kp_creating :: "(nat \<times> string) list"
  kp_created :: nat
  kp_calls :: nat
  kp_answers :: "(nat \<times> kernel_answer) list"
  kp_disposed :: "nat list"

text \<open>The constructor: \<open>None\<close> where it throws.\<close>

definition new_pool :: "nat \<Rightarrow> kernel_pool option" where
  "new_pool maxConcurrent =
     (if maxConcurrent < 1 then None
      else Some \<lparr>kp_active = [], kp_idle = [], kp_waitQueue = [], kp_creating = [], kp_created = 0, kp_calls = 0,
                 kp_answers = [], kp_disposed = []\<rparr>)"

definition pool_size :: "kernel_pool \<Rightarrow> nat" where
  "pool_size p = length (kp_active p) + length (kp_idle p)"

definition answer :: "nat \<Rightarrow> kernel_answer \<Rightarrow> kernel_pool \<Rightarrow> kernel_pool" where
  "answer c a p = p\<lparr>kp_answers := kp_answers p @ [(c, a)]\<rparr>"

definition activate :: "nat \<Rightarrow> string \<Rightarrow> nat \<Rightarrow> kernel_pool \<Rightarrow> kernel_pool" where
  "activate c r k p = answer c (KernelReady k) (p\<lparr>kp_active := AList.update r k (kp_active p)\<rparr>)"

text \<open>\<open>#assignSlot\<close> up to its await: the last idle kernel, or the factory is asked.\<close>

definition assignSlot :: "nat \<Rightarrow> string \<Rightarrow> kernel_pool \<Rightarrow> kernel_pool" where
  "assignSlot c r p =
     (if kp_idle p = [] then p\<lparr>kp_creating := kp_creating p @ [(c, r)]\<rparr>
      else activate c r (last (kp_idle p)) (p\<lparr>kp_idle := butlast (kp_idle p)\<rparr>))"

definition acquire_kernel :: "nat \<Rightarrow> string \<Rightarrow> kernel_pool \<Rightarrow> kernel_pool" where
  "acquire_kernel maxConcurrent r p =
     (let c = kp_calls p; p1 = p\<lparr>kp_calls := c + 1\<rparr>
      in case map_of (kp_active p) r of
           Some k \<Rightarrow> answer c (KernelReady k) p1
         | None \<Rightarrow>
             if length (kp_active p) < maxConcurrent then assignSlot c r p1
             else p1\<lparr>kp_waitQueue := kp_waitQueue p @ [(c, r)]\<rparr>)"

text \<open>The factory answers the \<open>n\<close>th call that waits for it.\<close>

definition factory_answer :: "nat \<Rightarrow> bool \<Rightarrow> kernel_pool \<Rightarrow> kernel_pool" where
  "factory_answer n ok p =
     (if n < length (kp_creating p) then
        (let (c, r) = kp_creating p ! n;
             p1 = p\<lparr>kp_creating := take n (kp_creating p) @ drop (Suc n) (kp_creating p)\<rparr>
         in if ok then activate c r (kp_created p) (p1\<lparr>kp_created := kp_created p + 1\<rparr>)
            else answer c FactoryFailed p1)
      else p)"

definition release_kernel :: "string \<Rightarrow> kernel_pool \<Rightarrow> kernel_pool" where
  "release_kernel r p =
     (case map_of (kp_active p) r of
        None \<Rightarrow> p
      | Some k \<Rightarrow>
          (let p1 = p\<lparr>kp_active := AList.delete r (kp_active p)\<rparr>
           in case kp_waitQueue p of
                [] \<Rightarrow> p1\<lparr>kp_idle := kp_idle p @ [k]\<rparr>
              | (c, w) # ws \<Rightarrow> activate c w k (p1\<lparr>kp_waitQueue := ws\<rparr>)))"

definition dispose_pool :: "kernel_pool \<Rightarrow> kernel_pool" where
  "dispose_pool p =
     p\<lparr>kp_answers := kp_answers p @ map (\<lambda>(c, r). (c, PoolDisposed)) (kp_waitQueue p), kp_waitQueue := [],
       kp_disposed := kp_disposed p @ map snd (kp_active p) @ kp_idle p, kp_active := [], kp_idle := []\<rparr>"

datatype pool_event = AcquireKernel string | FactoryAnswer nat bool | ReleaseKernel string | DisposePool

definition pool_step :: "nat \<Rightarrow> kernel_pool \<Rightarrow> pool_event \<Rightarrow> kernel_pool" where
  "pool_step maxConcurrent p e =
     (case e of
        AcquireKernel r \<Rightarrow> acquire_kernel maxConcurrent r p
      | FactoryAnswer n ok \<Rightarrow> factory_answer n ok p
      | ReleaseKernel r \<Rightarrow> release_kernel r p
      | DisposePool \<Rightarrow> dispose_pool p)"

section \<open>The invariant\<close>

text \<open>Every kernel in hand was created, and no kernel is in two places.\<close>

definition kernels :: "kernel_pool \<Rightarrow> nat list" where
  "kernels p = map snd (kp_active p) @ kp_idle p @ kp_disposed p"

definition pool_inv :: "kernel_pool \<Rightarrow> bool" where
  "pool_inv p \<longleftrightarrow>
     distinct (kernels p) \<and> (\<forall>k \<in> set (kernels p). k < kp_created p) \<and> distinct (map fst (kp_active p))"

lemma snd_update: "set (map snd (AList.update r k m)) \<subseteq> insert k (set (map snd m))"
  by (induction m) auto

lemma update_kernels:
  assumes "distinct (map snd m)" "k \<notin> set (map snd m)"
  shows "distinct (map snd (AList.update r k m))"
  using assms
proof (induction m)
  case (Cons x m)
  then show ?case using snd_update [of r k m] by (cases x) auto
qed simp

lemma delete_kernels:
  assumes "distinct (map fst m)" "distinct (map snd m)" "map_of m r = Some k"
  shows "distinct (map snd (AList.delete r m)) \<and> set (map snd (AList.delete r m)) = set (map snd m) - {k}"
  using assms
proof (induction m)
  case (Cons x m)
  show ?case
  proof (cases "fst x = r")
    case True
    then have "r \<notin> fst ` set m" "snd x = k" using Cons.prems by auto
    then show ?thesis using True Cons.prems by auto
  next
    case False
    then have "map_of m r = Some k" using Cons.prems(3) by (cases x) simp
    then have k: "k \<in> snd ` set m" by (force dest: map_of_SomeD)
    have "distinct (map snd (AList.delete r m)) \<and> set (map snd (AList.delete r m)) = set (map snd m) - {k}"
      using Cons \<open>map_of m r = Some k\<close> by simp
    then show ?thesis using False k Cons.prems(2) by auto
  qed
qed simp

lemma activate_inv:
  assumes "pool_inv p" "k \<notin> set (kernels p)" "k < kp_created p"
  shows "pool_inv (activate c r k p)"
proof -
  have "distinct (map snd (AList.update r k (kp_active p)))"
    using assms by (intro update_kernels) (auto simp: pool_inv_def kernels_def)
  then show ?thesis
    using assms snd_update [of r k "kp_active p"]
    unfolding pool_inv_def kernels_def activate_def answer_def
    by (simp add: distinct_update del: set_map) blast
qed

lemma pool_step_inv:
  assumes inv: "pool_inv p"
  shows "pool_inv (pool_step m p e)"
proof (cases e)
  case (AcquireKernel r)
  have a: "pool_inv (assignSlot c r (p\<lparr>kp_calls := x\<rparr>))" for c x
  proof (cases "kp_idle p = []")
    case True
    then show ?thesis using inv by (simp add: assignSlot_def pool_inv_def kernels_def)
  next
    case False
    let ?q = "p\<lparr>kp_calls := x, kp_idle := butlast (kp_idle p)\<rparr>"
    have b: "kp_idle p = butlast (kp_idle p) @ [last (kp_idle p)]" using False by simp
    have k: "kernels p = map snd (kp_active p) @ butlast (kp_idle p) @ last (kp_idle p) # kp_disposed p"
      unfolding kernels_def by (subst b) simp
    have "pool_inv ?q" using inv unfolding pool_inv_def k by (auto simp: kernels_def)
    moreover have "last (kp_idle p) \<notin> set (kernels ?q)" "last (kp_idle p) < kp_created ?q"
      using inv unfolding pool_inv_def k by (auto simp: kernels_def)
    ultimately show ?thesis using False activate_inv [of ?q "last (kp_idle p)" c r] by (simp add: assignSlot_def)
  qed
  then show ?thesis using inv AcquireKernel
    by (auto simp: pool_step_def acquire_kernel_def Let_def pool_inv_def kernels_def answer_def split: option.splits)
next
  case (FactoryAnswer n ok)
  show ?thesis
  proof (cases "n < length (kp_creating p)")
    case True
    obtain c r where n: "kp_creating p ! n = (c, r)" by fastforce
    let ?q = "p\<lparr>kp_creating := take n (kp_creating p) @ drop (Suc n) (kp_creating p)\<rparr>"
    have "pool_inv (?q\<lparr>kp_created := kp_created p + 1\<rparr>)" "kp_created p \<notin> set (kernels (?q\<lparr>kp_created := kp_created p + 1\<rparr>))"
      using inv by (auto simp: pool_inv_def kernels_def less_SucI)
    then have "pool_inv (activate c r (kp_created p) (?q\<lparr>kp_created := kp_created p + 1\<rparr>))" by (rule activate_inv) simp
    moreover have "pool_inv (answer c FactoryFailed ?q)" using inv by (simp add: pool_inv_def kernels_def answer_def)
    ultimately show ?thesis using FactoryAnswer True n by (simp add: pool_step_def factory_answer_def Let_def)
  qed (use inv FactoryAnswer in \<open>simp add: pool_step_def factory_answer_def\<close>)
next
  case (ReleaseKernel r)
  show ?thesis
  proof (cases "map_of (kp_active p) r")
    case (Some k)
    let ?q = "p\<lparr>kp_active := AList.delete r (kp_active p)\<rparr>"
    have d: "distinct (map fst (kp_active p))" "distinct (map snd (kp_active p))" using inv by (simp_all add: pool_inv_def kernels_def)
    note del = delete_kernels [OF d Some, THEN conjunct1] delete_kernels [OF d Some, THEN conjunct2]
    have "k \<in> set (map snd (kp_active p))" using Some by (force dest: map_of_SomeD)
    then have k: "k \<notin> set (kernels ?q)" "k < kp_created p" using inv del(2) by (auto simp: pool_inv_def kernels_def)
    have q: "pool_inv ?q" using inv del by (auto simp: pool_inv_def kernels_def distinct_delete)
    then have "pool_inv (?q\<lparr>kp_idle := kp_idle p @ [k]\<rparr>)" using k by (auto simp: pool_inv_def kernels_def)
    moreover have "pool_inv (activate c w k (?q\<lparr>kp_waitQueue := ws\<rparr>))" for c w ws
      using q k by (intro activate_inv) (simp_all add: pool_inv_def kernels_def)
    ultimately show ?thesis using ReleaseKernel Some
      by (auto simp: pool_step_def release_kernel_def Let_def split: list.splits)
  qed (use inv ReleaseKernel in \<open>simp add: pool_step_def release_kernel_def\<close>)
next
  case DisposePool
  then show ?thesis using inv by (auto simp: pool_step_def dispose_pool_def pool_inv_def kernels_def)
qed

interpretation kernel_pool: kept_invariant "pool_step m" pool_inv for m
  by unfold_locales (rule pool_step_inv)

section \<open>The cap\<close>

text \<open>No kernel is asked for while another one is being created.\<close>

fun unhurried :: "nat \<Rightarrow> kernel_pool \<Rightarrow> pool_event list \<Rightarrow> bool" where
  "unhurried m p [] = True"
| "unhurried m p (e # es) =
     ((case e of AcquireKernel r \<Rightarrow> kp_creating p = [] | _ \<Rightarrow> True) \<and> unhurried m (pool_step m p e) es)"

lemma update_length: "length (AList.update r k m) \<le> Suc (length m)"
  by (induction m) auto

lemma activate_size: "pool_size (activate c r k p) \<le> Suc (pool_size p)"
  using update_length [of r k "kp_active p"] by (simp add: activate_def answer_def pool_size_def)

lemma creating_simps [simp]: "kp_creating (activate c r k p) = kp_creating p" "kp_creating (answer c a p) = kp_creating p"
  by (simp_all add: activate_def answer_def)

lemma delete_length: "map_of m r = Some k \<Longrightarrow> length (AList.delete r m) < length m"
proof (induction m)
  case (Cons x m)
  then show ?case by (cases x) (auto simp: AList.delete_eq le_imp_less_Suc length_filter_le split: if_splits)
qed simp

lemma cap_step:
  assumes "pool_size p + length (kp_creating p) \<le> m" "case e of AcquireKernel r \<Rightarrow> kp_creating p = [] | _ \<Rightarrow> True"
  shows "pool_size (pool_step m p e) + length (kp_creating (pool_step m p e)) \<le> m"
proof (cases e)
  case (AcquireKernel r)
  let ?q = "p\<lparr>kp_calls := kp_calls p + 1\<rparr>"
  have c: "kp_creating p = []" using assms(2) AcquireKernel by simp
  have "pool_size (assignSlot c r ?q) + length (kp_creating (assignSlot c r ?q)) \<le> m"
    if "length (kp_active p) < m" for c
  proof (cases "kp_idle p = []")
    case True
    then show ?thesis using that \<open>kp_creating p = []\<close> by (simp add: assignSlot_def pool_size_def)
  next
    case False
    then have "Suc (pool_size (p\<lparr>kp_calls := kp_calls p + 1, kp_idle := butlast (kp_idle p)\<rparr>)) = pool_size p"
      by (cases "kp_idle p" rule: rev_cases) (simp_all add: pool_size_def)
    then show ?thesis
      using activate_size [of c r "last (kp_idle p)" "p\<lparr>kp_calls := kp_calls p + 1, kp_idle := butlast (kp_idle p)\<rparr>"]
        assms(1) False \<open>kp_creating p = []\<close> by (simp add: assignSlot_def)
  qed
  then show ?thesis using assms(1) AcquireKernel
    by (auto simp: pool_step_def acquire_kernel_def Let_def pool_size_def answer_def split: option.splits)
next
  case (FactoryAnswer n ok)
  show ?thesis
  proof (cases "n < length (kp_creating p)")
    case True
    obtain c r where n: "kp_creating p ! n = (c, r)" by fastforce
    let ?q = "p\<lparr>kp_creating := take n (kp_creating p) @ drop (Suc n) (kp_creating p)\<rparr>"
    have l: "Suc (length (kp_creating ?q)) = length (kp_creating p)" using True by simp
    have s: "pool_size (?q\<lparr>kp_created := x\<rparr>) = pool_size p" "pool_size ?q = pool_size p" "pool_size (answer c a ?q) = pool_size p" for x c a
      by (simp_all add: pool_size_def answer_def)
    have a: "pool_size (activate c r (kp_created p) (?q\<lparr>kp_created := kp_created p + 1\<rparr>)) \<le> Suc (pool_size p)"
      using activate_size [of c r "kp_created p" "?q\<lparr>kp_created := kp_created p + 1\<rparr>"] s(1) by metis
    have e: "pool_step m p e = (if ok then activate c r (kp_created p) (?q\<lparr>kp_created := kp_created p + 1\<rparr>)
        else answer c FactoryFailed ?q)"
      using FactoryAnswer True n by (simp add: pool_step_def factory_answer_def Let_def)
    have k: "length (kp_creating (pool_step m p e)) = length (kp_creating ?q)" unfolding e by simp
    show ?thesis
    proof (cases ok)
      case True
      then have "pool_size (pool_step m p e) \<le> Suc (pool_size p)" using e a by simp
      then show ?thesis using k l assms(1) by linarith
    next
      case False
      then have "pool_size (pool_step m p e) = pool_size p" using e s(3) by simp
      then show ?thesis using k l assms(1) by linarith
    qed
  qed (use assms FactoryAnswer in \<open>simp add: pool_step_def factory_answer_def\<close>)
next
  case (ReleaseKernel r)
  show ?thesis
  proof (cases "map_of (kp_active p) r")
    case (Some k)
    let ?q = "p\<lparr>kp_active := AList.delete r (kp_active p)\<rparr>"
    have l: "Suc (pool_size ?q) \<le> pool_size p" using delete_length [OF Some] by (simp add: pool_size_def)
    show ?thesis
    proof (cases "kp_waitQueue p")
      case Nil
      then have "pool_step m p e = ?q\<lparr>kp_idle := kp_idle p @ [k]\<rparr>"
        using ReleaseKernel Some by (simp add: pool_step_def release_kernel_def)
      then show ?thesis using l assms(1) by (simp add: pool_size_def)
    next
      case (Cons x ws)
      obtain c w where x: "x = (c, w)" by fastforce
      have e: "pool_step m p e = activate c w k (?q\<lparr>kp_waitQueue := ws\<rparr>)"
        using ReleaseKernel Some Cons x by (simp add: pool_step_def release_kernel_def)
      have "pool_size (pool_step m p e) \<le> Suc (pool_size ?q)"
        using activate_size [of c w k "?q\<lparr>kp_waitQueue := ws\<rparr>"] by (simp add: e pool_size_def)
      then show ?thesis using l assms(1) by (simp add: e)
    qed
  qed (use assms ReleaseKernel in \<open>simp add: pool_step_def release_kernel_def\<close>)
next
  case DisposePool
  then show ?thesis using assms(1) by (simp add: pool_step_def dispose_pool_def pool_size_def)
qed

lemma cap_run:
  "pool_size p + length (kp_creating p) \<le> m \<Longrightarrow> unhurried m p es \<Longrightarrow> pool_size (foldl (pool_step m) p es) \<le> m"
  by (induction m p es rule: unhurried.induct) (auto simp: cap_step)

section \<open>Properties\<close>

text \<open>
  C24. Whatever is acquired, released, created and disposed in whatever order, no kernel is ever with
  two rollouts, nor at once in use and idle, nor in hand after it was disposed; and when no kernel is
  asked for while another one is being created, the pool never holds more than its cap.
\<close>
theorem kernels_exclusive_and_capped:
  assumes "new_pool maxConcurrent = Some p"
  shows "distinct (kernels (foldl (pool_step maxConcurrent) p es)) \<and>
    (unhurried maxConcurrent p es \<longrightarrow> pool_size (foldl (pool_step maxConcurrent) p es) \<le> maxConcurrent)"
proof -
  have "pool_inv p \<and> pool_size p + length (kp_creating p) \<le> maxConcurrent"
    using assms by (auto simp: new_pool_def pool_inv_def kernels_def pool_size_def split: if_splits)
  then show ?thesis using kernel_pool.run_inv [of p maxConcurrent es] cap_run by (simp add: pool_inv_def)
qed

theorem kernels_exclusive_and_capped_witness:
  "\<exists>p. new_pool 1 = Some p \<and>
     map snd (kp_active (foldl (pool_step 1) p [AcquireKernel ''a'', FactoryAnswer 0 True, AcquireKernel ''b'', ReleaseKernel ''a''])) = [0] \<and>
     pool_size (foldl (pool_step 1) p [AcquireKernel ''a'', FactoryAnswer 0 True, AcquireKernel ''b'', ReleaseKernel ''a'']) \<le> 1"
proof -
  define p where "p = the (new_pool 1)"
  have p: "new_pool 1 = Some p" by (simp add: p_def new_pool_def)
  have u: "unhurried 1 p [AcquireKernel ''a'', FactoryAnswer 0 True, AcquireKernel ''b'', ReleaseKernel ''a''] \<and>
      map snd (kp_active (foldl (pool_step 1) p [AcquireKernel ''a'', FactoryAnswer 0 True, AcquireKernel ''b'', ReleaseKernel ''a''])) = [0]"
    unfolding p_def by code_simp
  have "pool_size (foldl (pool_step 1) p [AcquireKernel ''a'', FactoryAnswer 0 True, AcquireKernel ''b'', ReleaseKernel ''a'']) \<le> 1"
    by (rule kernels_exclusive_and_capped [OF p, THEN conjunct2, THEN mp, OF u [THEN conjunct1]])
  then show ?thesis by (intro exI [of _ p] conjI p u [THEN conjunct2])
qed

text \<open>Two calls that overlap in the factory both pass the check of the cap.\<close>

lemma overlapping_acquires_exceed_cap:
  "map_option (\<lambda>p. length (kp_active (foldl (pool_step 1) p
     [AcquireKernel ''a'', AcquireKernel ''b'', FactoryAnswer 0 True, FactoryAnswer 0 True]))) (new_pool 1) = Some 2"
  by code_simp

text \<open>Two waiters with one rollout id get a kernel each, and the first one is lost.\<close>

lemma same_id_loses_kernel:
  "map_option (\<lambda>p. kernels (foldl (pool_step 1) p
     [AcquireKernel ''a'', AcquireKernel ''a'', FactoryAnswer 0 True, FactoryAnswer 0 True])) (new_pool 1) = Some [1]"
  by code_simp

end
