(* ===== verification/Sandbox_Paths.thy ===== *)
theory Sandbox_Paths
  imports Resource_Path
begin

text \<open>
  The file-system gates of the sandbox (packages/core/src/executor/capabilities.ts): the lexical gate
  \<open>assertPathAllowed\<close>, the symlink-aware gate \<open>assertRealpathContained\<close>, and the two operations of
  \<open>__fs__\<close> that pass both. The working directory, \<open>fs.realpath\<close>, \<open>fs.stat\<close>, \<open>fs.readFile\<close> and
  \<open>fs.writeFile\<close> are arguments; the file system does not change during one operation.
\<close>

section \<open>Lexical resolution\<close>

abbreviation backslash :: char where "backslash \<equiv> CHR 0x5C"

definition is_letter :: "char \<Rightarrow> bool" where
  "is_letter c = (let n = (of_char c :: nat) in 65 \<le> n \<and> n \<le> 90 \<or> 97 \<le> n \<and> n \<le> 122)"

definition is_sep :: "char \<Rightarrow> bool" where
  "is_sep c = (c = CHR ''/'' \<or> c = backslash)"

text \<open>\<open>/^[A-Za-z]:[\\/]/.test(path) || path.startsWith("\\\\")\<close>.\<close>

definition windows_abs :: "string \<Rightarrow> bool" where
  "windows_abs p =
     ((case p of c # d # e # r \<Rightarrow> is_letter c \<and> d = CHR '':'' \<and> is_sep e | _ \<Rightarrow> False) \<or>
      starts_with p [backslash, backslash])"

definition posix_abs :: "string \<Rightarrow> bool" where
  "posix_abs p = starts_with p ''/''"

definition sepFor :: "string \<Rightarrow> string" where
  "sepFor p = (if windows_abs p then [backslash] else ''/'')"

text \<open>\<open>path.split(/[/\\]+/).filter((p) => p !== "" && p !== ".")\<close>.\<close>

definition path_parts :: "string \<Rightarrow> string list" where
  "path_parts p = filter (\<lambda>w. w \<noteq> [] \<and> w \<noteq> ''.'') (split_on (CHR ''/'') (forward_slashes p))"

definition stack_step :: "string list \<Rightarrow> string \<Rightarrow> string list" where
  "stack_step stack part = (if part = ''..'' then butlast stack else stack @ [part])"

definition resolved_stack :: "string \<Rightarrow> string list" where
  "resolved_stack p = foldl stack_step [] (path_parts p)"

definition anchored :: "string \<Rightarrow> string \<Rightarrow> string" where
  "anchored cwd p = (if windows_abs p \<or> posix_abs p then p else cwd @ ''/'' @ p)"

definition resolveSync :: "string \<Rightarrow> string \<Rightarrow> string" where
  "resolveSync cwd p =
     (if windows_abs p then join_on [backslash] (resolved_stack p)
      else ''/'' @ join_on ''/'' (resolved_stack (anchored cwd p)))"

section \<open>The lexical gate\<close>

datatype fs_operation = ReadOp | WriteOp

datatype capability_denied =
    NoPathsAllowed
  | NotInAllowedPaths
  | CannotResolve string
  | EscapesAllowed

text \<open>\<open>None\<close> where the function returns, the error where it throws.\<close>

definition assertPathAllowed :: "string \<Rightarrow> string \<Rightarrow> string list \<Rightarrow> capability_denied option" where
  "assertPathAllowed cwd p allowedPaths =
     (if allowedPaths = [] then Some NoPathsAllowed
      else (let resolved = resolveSync cwd p
            in if list_ex (\<lambda>pre. let rp = resolveSync cwd pre in resolved = rp \<or> starts_with resolved (rp @ sepFor p)) allowedPaths
               then None else Some NotInAllowedPaths))"

section \<open>The symlink-aware gate\<close>

text \<open>\<open>path.split(/[/\\]+/)\<close>: a run of separators separates once.\<close>

definition split_runs :: "string \<Rightarrow> string list" where
  "split_runs p =
     (let ws = split_on (CHR ''/'') (forward_slashes p)
      in if length ws \<le> 1 then ws
         else hd ws # filter (\<lambda>w. w \<noteq> []) (butlast (tl ws)) @ [last ws])"

text \<open>The loop of \<open>_splitAtExistingAncestor\<close>, over the parts that are left, last one first.\<close>

fun ancestor_loop :: "(string \<Rightarrow> bool) \<Rightarrow> string \<Rightarrow> string \<Rightarrow> string list \<Rightarrow> string list \<Rightarrow> string \<times> string" where
  "ancestor_loop exists p sep [] tailParts = (p, '''')"
| "ancestor_loop exists p sep (w # parts) tailParts =
     (let tailParts' = w # tailParts;
          candidate = (if posix_abs p \<and> parts = [] then ''/'' else join_on sep (rev parts))
      in if candidate \<noteq> [] \<and> exists candidate then (candidate, join_on sep tailParts')
         else ancestor_loop exists p sep parts tailParts')"

definition splitAtExistingAncestor :: "(string \<Rightarrow> bool) \<Rightarrow> string \<Rightarrow> string \<Rightarrow> string \<times> string" where
  "splitAtExistingAncestor exists p sep =
     (if exists p then (p, '''') else ancestor_loop exists p sep (rev (split_runs p)) [])"

record host_fs =
  hf_realpath :: "string \<Rightarrow> string option"
  hf_exists :: "string \<Rightarrow> bool"

definition real_request :: "host_fs \<Rightarrow> string \<Rightarrow> string \<Rightarrow> fs_operation \<Rightarrow> capability_denied + string" where
  "real_request fs cwd p op =
     (let sep = sepFor p; request = resolveSync cwd p
      in case op of
           ReadOp \<Rightarrow> (case hf_realpath fs request of None \<Rightarrow> Inl (CannotResolve request) | Some r \<Rightarrow> Inr r)
         | WriteOp \<Rightarrow>
             (let (ancestor, rest) = splitAtExistingAncestor (hf_exists fs) request sep
              in case hf_realpath fs ancestor of
                   None \<Rightarrow> Inl (CannotResolve ancestor)
                 | Some r \<Rightarrow> Inr (if rest = [] then r else r @ sep @ rest)))"

definition real_prefix_allows :: "host_fs \<Rightarrow> string \<Rightarrow> string \<Rightarrow> string \<Rightarrow> bool" where
  "real_prefix_allows fs cwd realRequest pre =
     (case hf_realpath fs (resolveSync cwd pre) of
        None \<Rightarrow> False
      | Some rp \<Rightarrow> realRequest = rp \<or> starts_with realRequest (rp @ sepFor rp))"

definition assertRealpathContained ::
  "host_fs \<Rightarrow> string \<Rightarrow> string \<Rightarrow> string list \<Rightarrow> fs_operation \<Rightarrow> capability_denied option" where
  "assertRealpathContained fs cwd p allowedPaths op =
     (if allowedPaths = [] then Some NoPathsAllowed
      else (case real_request fs cwd p op of
              Inl e \<Rightarrow> Some e
            | Inr r \<Rightarrow> if list_ex (real_prefix_allows fs cwd r) allowedPaths then None else Some EscapesAllowed))"

section \<open>The operations of the sandbox\<close>

definition both_gates :: "host_fs \<Rightarrow> string \<Rightarrow> string \<Rightarrow> string list \<Rightarrow> fs_operation \<Rightarrow> capability_denied option" where
  "both_gates fs cwd p allowedPaths op =
     (case assertPathAllowed cwd p allowedPaths of
        Some e \<Rightarrow> Some e | None \<Rightarrow> assertRealpathContained fs cwd p allowedPaths op)"

text \<open>The path as it was given goes to \<open>fs.readFile\<close> and \<open>fs.writeFile\<close>.\<close>

definition sandbox_readFile ::
  "host_fs \<Rightarrow> (string \<Rightarrow> string option) \<Rightarrow> string \<Rightarrow> string list \<Rightarrow> string \<Rightarrow> capability_denied + string option" where
  "sandbox_readFile fs fs_read cwd readPaths p =
     (case both_gates fs cwd p readPaths ReadOp of Some e \<Rightarrow> Inl e | None \<Rightarrow> Inr (fs_read p))"

definition sandbox_writeFile ::
  "host_fs \<Rightarrow> (string \<Rightarrow> string \<Rightarrow> 'disk \<Rightarrow> 'disk) \<Rightarrow> string \<Rightarrow> string list \<Rightarrow> string \<Rightarrow> string \<Rightarrow> 'disk \<Rightarrow> capability_denied + 'disk" where
  "sandbox_writeFile fs fs_write cwd writePaths p data disk =
     (case both_gates fs cwd p writePaths WriteOp of Some e \<Rightarrow> Inl e | None \<Rightarrow> Inr (fs_write p data disk))"

section \<open>Lemmas: segments\<close>

text \<open>The sandbox and the firewall resolve a path to the same segments.\<close>

lemma stack_step_norm:
  "list_all segment_ok st \<Longrightarrow> foldl stack_step st (filter (\<lambda>w. w \<noteq> [] \<and> w \<noteq> ''.'') ws) = foldl norm_step st ws"
proof (induction ws arbitrary: st)
  case (Cons w ws)
  have l: "st \<noteq> [] \<Longrightarrow> last st \<noteq> ''..''" using Cons.prems by (auto simp: list_all_iff segment_ok_def)
  then have s: "w \<noteq> [] \<Longrightarrow> w \<noteq> ''.'' \<Longrightarrow> stack_step st w = norm_step st w"
    by (cases "st = []") (auto simp: stack_step_def norm_step_def)
  have "list_all segment_ok (norm_step st w)" using Cons.prems by (rule norm_step_ok)
  then show ?case using Cons.IH [of "norm_step st w"] s by (cases "w = [] \<or> w = ''.''") auto
qed simp

lemma resolved_stack_segments: "resolved_stack p = path_segments p"
  unfolding resolved_stack_def path_parts_def path_segments_def resolve_segments_def
  by (rule stack_step_norm) simp

lemma split_on_subset: "w \<in> set (split_on sep s) \<Longrightarrow> set w \<subseteq> set s"
proof (induction s arbitrary: w)
  case (Cons c s)
  then show ?case by (cases "split_on sep s") (fastforce split: if_splits)+
qed simp

lemma segments_no_sep:
  assumes w: "w \<in> set (path_segments p)"
  shows "CHR ''/'' \<notin> set w" "backslash \<notin> set w" "w \<noteq> []"
proof -
  have "w \<in> set (split_on (CHR ''/'') (forward_slashes p))"
    using w foldl_norm_set [of "[]"] by (force simp: path_segments_def resolve_segments_def)
  then have "set w \<subseteq> set (forward_slashes p)" by (rule split_on_subset)
  then show "backslash \<notin> set w" by (auto simp: forward_slashes_def split: if_splits)
  show "CHR ''/'' \<notin> set w" using w by (auto simp: path_segments_def dest: resolve_no_slash)
  show "w \<noteq> []" using w path_segments_ok [of p] by (auto simp: list_all_iff segment_ok_def)
qed

definition clean :: "char \<Rightarrow> string list \<Rightarrow> bool" where
  "clean c ws = list_all (\<lambda>w. w \<noteq> [] \<and> c \<notin> set w) ws"

lemma segments_clean: "clean (CHR ''/'') (path_segments p)" "clean backslash (path_segments p)"
  using segments_no_sep by (auto simp: clean_def list_all_iff)

lemma split_snoc_sep: "split_on sep (a @ sep # b) = split_on sep a @ split_on sep b"
proof (induction a)
  case (Cons c a)
  then show ?case by (cases "split_on sep a") auto
qed simp

lemma join_append: "a \<noteq> [] \<Longrightarrow> b \<noteq> [] \<Longrightarrow> join_on s (a @ b) = join_on s a @ s @ join_on s b"
proof (induction s a rule: join_on.induct)
  case (2 s w)
  then show ?case by (cases b) auto
qed auto

lemma clean_split: "clean c ws \<Longrightarrow> ws \<noteq> [] \<Longrightarrow> split_on c (join_on [c] ws) = ws"
  by (rule split_join) (auto simp: clean_def list_all_iff)

lemma clean_join_Nil: "clean c ws \<Longrightarrow> join_on [c] ws = [] \<longleftrightarrow> ws = []"
  by (induction "[c]" ws rule: join_on.induct) (auto simp: clean_def)

lemma join_inj: "clean c a \<Longrightarrow> clean c b \<Longrightarrow> join_on [c] a = join_on [c] b \<longleftrightarrow> a = b"
  using clean_split clean_join_Nil by (metis join_on.simps(1))

lemma join_below:
  assumes "clean c a" "clean c b"
  shows "starts_with (join_on [c] b) (join_on [c] a @ [c]) \<longleftrightarrow> a \<noteq> [] \<and> strict_prefix a b"
proof
  assume "starts_with (join_on [c] b) (join_on [c] a @ [c])"
  then obtain r where r: "join_on [c] b = join_on [c] a @ c # r" by (auto simp: starts_with_iff)
  then have b: "b \<noteq> []" by auto
  then have s: "b = split_on c (join_on [c] a) @ split_on c r" using assms(2) r clean_split split_snoc_sep by metis
  then have "a \<noteq> []" using assms(2) by (auto simp: clean_def)
  then show "a \<noteq> [] \<and> strict_prefix a b" using s clean_split [OF assms(1)] by (auto simp: strict_prefix_def)
next
  assume "a \<noteq> [] \<and> strict_prefix a b"
  then obtain r where "b = a @ r" "r \<noteq> []" "a \<noteq> []" by (auto simp: strict_prefix_def prefix_def)
  then show "starts_with (join_on [c] b) (join_on [c] a @ [c])" by (simp add: join_append starts_with_iff)
qed

section \<open>The lexical gate is exact\<close>

definition request_segments :: "string \<Rightarrow> string \<Rightarrow> string list" where
  "request_segments cwd p = path_segments (anchored cwd p)"

lemma resolve_text:
  "resolveSync cwd p =
     (if windows_abs p then join_on [backslash] (request_segments cwd p)
      else CHR ''/'' # join_on [CHR ''/''] (request_segments cwd p))"
  by (simp add: resolveSync_def resolved_stack_segments request_segments_def anchored_def)

text \<open>\<open>p\<close> is the place \<open>pre\<close> names, or lies beneath it.\<close>

definition beneath :: "string \<Rightarrow> string \<Rightarrow> string \<Rightarrow> bool" where
  "beneath cwd p pre \<longleftrightarrow>
     request_segments cwd pre = request_segments cwd p \<or>
     request_segments cwd pre \<noteq> [] \<and> strict_prefix (request_segments cwd pre) (request_segments cwd p)"

lemma join_hd: "clean c ws \<Longrightarrow> ws \<noteq> [] \<Longrightarrow> join_on s ws \<noteq> [] \<and> hd (join_on s ws) \<in> set (hd ws)"
  by (induction s ws rule: join_on.induct) (auto simp: clean_def)

lemma gate_one:
  "(let rp = resolveSync cwd pre in resolveSync cwd p = rp \<or> starts_with (resolveSync cwd p) (rp @ sepFor p)) \<longleftrightarrow>
     (if windows_abs p = windows_abs pre then beneath cwd p pre
      else windows_abs pre \<and> request_segments cwd pre = [])"
proof -
  let ?a = "request_segments cwd pre" and ?b = "request_segments cwd p"
  note cl = segments_clean [of "anchored cwd pre", folded request_segments_def] segments_clean [of "anchored cwd p", folded request_segments_def]
  consider "windows_abs p" "windows_abs pre" | "\<not> windows_abs p" "\<not> windows_abs pre"
    | "windows_abs p" "\<not> windows_abs pre" | "\<not> windows_abs p" "windows_abs pre" by blast
  then show ?thesis
  proof cases
    case 1
    then show ?thesis using join_inj [OF cl(4,2)] join_below [OF cl(2,4)]
      by (auto simp: resolve_text sepFor_def beneath_def Let_def)
  next
    case 2
    then show ?thesis using join_inj [OF cl(3,1)] join_below [OF cl(1,3)]
      by (auto simp: resolve_text sepFor_def beneath_def Let_def)
  next
    case 3
    have "\<not> starts_with (join_on [backslash] ?b) (CHR ''/'' # r)" for r
    proof
      assume "starts_with (join_on [backslash] ?b) (CHR ''/'' # r)"
      then have h: "?b \<noteq> []" "hd (join_on [backslash] ?b) = CHR ''/''" by (cases ?b; auto simp: starts_with_iff)+
      then show False using join_hd [OF cl(3) h(1), of "[backslash]"] cl(3) by (cases ?b) (auto simp: clean_def)
    qed
    then show ?thesis using 3 starts_with_append [of "join_on [backslash] ?b" "[]"]
      by (auto simp: resolve_text sepFor_def Let_def)
  next
    case 4
    have n: False if "?a \<noteq> []" "CHR ''/'' # r = join_on [backslash] ?a @ s" for r s
      using that join_hd [OF cl(1) that(1), of "[backslash]"] cl(1)
      by (cases "join_on [backslash] ?a"; cases ?a) (auto simp: clean_def)
    have n': False if "?a \<noteq> []" "CHR ''/'' # r = join_on [backslash] ?a" for r
      using n [of r "[]"] that by simp
    show ?thesis using 4 starts_with_append [of "CHR ''/'' # join_on [CHR ''/''] ?b" "[]"]
      by (cases "?a = []") (auto simp: resolve_text sepFor_def Let_def starts_with_iff dest: n n')
  qed
qed

section \<open>What the second gate guarantees\<close>

text \<open>The parts of \<open>rp\<close>, split at its own separator, begin the parts of \<open>r\<close>.\<close>

definition inside :: "string \<Rightarrow> string \<Rightarrow> bool" where
  "inside r rp \<longleftrightarrow> (let c = (if windows_abs rp then backslash else CHR ''/'') in prefix (split_on c rp) (split_on c r))"

lemma inside_real: "real_prefix_allows fs cwd r pre \<Longrightarrow> \<exists>rp. hf_realpath fs (resolveSync cwd pre) = Some rp \<and> inside r rp"
  by (auto simp: real_prefix_allows_def inside_def sepFor_def Let_def starts_with_iff split_snoc_sep split: option.splits if_splits)

lemma both_gates_pass:
  assumes "both_gates fs cwd p allowed op = None"
  shows "\<exists>r pre rp. real_request fs cwd p op = Inr r \<and> pre \<in> set allowed \<and>
    hf_realpath fs (resolveSync cwd pre) = Some rp \<and> inside r rp"
proof -
  have "assertRealpathContained fs cwd p allowed op = None"
    using assms by (simp add: both_gates_def split: option.splits)
  then obtain r where r: "real_request fs cwd p op = Inr r" "list_ex (real_prefix_allows fs cwd r) allowed"
    by (auto simp: assertRealpathContained_def split: if_splits sum.splits)
  then obtain pre where "pre \<in> set allowed" "real_prefix_allows fs cwd r pre" by (auto simp: list_ex_iff)
  then show ?thesis using r(1) inside_real by blast
qed

text \<open>The ancestor a write is resolved from exists, and the request is the ancestor and the rest.\<close>

lemma ancestor_exists:
  "ancestor_loop ex p sep parts ts = (a, t) \<Longrightarrow> t \<noteq> [] \<Longrightarrow> ex a"
  by (induction ex p sep parts ts rule: ancestor_loop.induct) (auto simp: Let_def split: if_splits)

lemma split_exists: "splitAtExistingAncestor ex p sep = (a, t) \<Longrightarrow> t \<noteq> [] \<Longrightarrow> ex a"
  by (auto simp: splitAtExistingAncestor_def dest: ancestor_exists split: if_splits)

section \<open>Properties\<close>

text \<open>
  The lexical gate lets a path through exactly when an allowed prefix of its own style resolves
  to the same segments, or to a non-empty proper beginning of them, with every \<open>.\<close>, \<open>..\<close> and repeated
  separator resolved; apart from that only a Windows prefix that resolves to nothing lets every
  POSIX path through. So neither traversal nor a sibling whose name begins alike gets through, and
  the prefix \<open>/\<close> allows nothing but itself.
\<close>
theorem lexical_gate_exact:
  "assertPathAllowed cwd p allowed = None \<longleftrightarrow>
     (\<exists>pre. pre \<in> set allowed \<and>
        (windows_abs pre = windows_abs p \<and> beneath cwd p pre \<or>
         windows_abs pre \<and> \<not> windows_abs p \<and> request_segments cwd pre = []))"
proof -
  have "assertPathAllowed cwd p allowed = None \<longleftrightarrow>
      (\<exists>pre. pre \<in> set allowed \<and>
        (let rp = resolveSync cwd pre in resolveSync cwd p = rp \<or> starts_with (resolveSync cwd p) (rp @ sepFor p)))"
    by (auto simp: assertPathAllowed_def list_ex_iff Let_def)
  then show ?thesis unfolding gate_one by auto
qed


text \<open>A disk for the examples: the directories on the way are walked one by one, links are followed.\<close>

fun os_walk :: "(string list \<times> string list) list \<Rightarrow> string list \<Rightarrow> string list \<Rightarrow> string list" where
  "os_walk links cur [] = cur"
| "os_walk links cur (w # ws) =
     (if w = ''..'' then os_walk links (butlast cur) ws
      else os_walk links (case map_of links (cur @ [w]) of None \<Rightarrow> cur @ [w] | Some t \<Rightarrow> t) ws)"

definition os_name :: "(string list \<times> string list) list \<Rightarrow> string \<Rightarrow> string" where
  "os_name links p = ''/'' @ join_on ''/'' (os_walk links [] (path_parts p))"

definition linked_fs :: "(string list \<times> string list) list \<Rightarrow> host_fs" where
  "linked_fs links = \<lparr>hf_realpath = (\<lambda>p. Some (os_name links p)), hf_exists = (\<lambda>p. True)\<rparr>"

definition demo_links :: "(string list \<times> string list) list" where
  "demo_links = [([''allowed'', ''link''], [''outside'', ''dir''])]"


text \<open>
  The gates look at the resolved text, the file system at the path as given: after a link inside the
  allowed directory, \<open>..\<close> leaves it, for a read and for a write.
\<close>

lemma dotdot_after_link_escapes:
  "sandbox_readFile (linked_fs demo_links) (\<lambda>q. Some (os_name demo_links q)) ''/'' [''/allowed''] ''/allowed/link/../x'' =
     Inr (Some ''/outside/x'')"
  "sandbox_writeFile (linked_fs demo_links) (\<lambda>q d disk. AList.update (os_name demo_links q) d disk) ''/'' [''/allowed'']
     ''/allowed/link/../x'' ''data'' [] = Inr [(''/outside/x'', ''data'')]"
  by code_simp+

end
