(* ===== verification/Sandbox_Manifest.thy ===== *)
theory Sandbox_Manifest
  imports Wa_Prelude
begin

text \<open>
  The capability manifest of the sandbox (packages/core/src/executor/capabilities.ts): host globs, the
  guarded \<open>fetch\<close> with its manual redirects, the restrictive merge of two manifests, and the globals
  a manifest grants. \<open>new URL\<close> and the network are arguments. Environments are lists of members with
  distinct keys; no key is one that every object inherits.
\<close>

section \<open>Host globs\<close>

text \<open>
  The expression \<open>matchGlob\<close> builds and tests: \<open>*\<close> stands for any run without a dot, \<open>?\<close> for one
  character other than a dot, every other character for itself, and the whole host must match.
\<close>

fun matchGlob :: "string \<Rightarrow> string \<Rightarrow> bool" where
  "matchGlob [] s = (s = [])"
| "matchGlob (p # ps) [] = (p = CHR ''*'' \<and> matchGlob ps [])"
| "matchGlob (p # ps) (c # s) =
     (if p = CHR ''*'' then matchGlob ps (c # s) \<or> c \<noteq> CHR ''.'' \<and> matchGlob (p # ps) s
      else if p = CHR ''?'' then c \<noteq> CHR ''.'' \<and> matchGlob ps s
      else p = c \<and> matchGlob ps s)"

definition host_allowed :: "string list \<Rightarrow> string \<Rightarrow> bool" where
  "host_allowed allowedHosts hostname = list_ex (\<lambda>pattern. matchGlob pattern hostname) allowedHosts"

section \<open>The guarded fetch\<close>

record js_url =
  u_href :: string
  u_protocol :: string
  u_hostname :: string

record http_response =
  hr_status :: nat
  hr_location :: "string option"

datatype fetch_result =
    Fetched http_response
  | BadUrl
  | NetworkError
  | ProtocolDenied string
  | HostDenied string
  | TooManyRedirects
  | ProtocolDowngrade

definition MAX_REDIRECT_HOPS :: nat where "MAX_REDIRECT_HOPS = 5"

text \<open>The URLs requested from here on, and how the call ends. \<open>respond\<close> answers the \<open>n\<close>th request.\<close>

function fetch_loop ::
  "string list \<Rightarrow> (string \<Rightarrow> string \<Rightarrow> js_url option) \<Rightarrow> (nat \<Rightarrow> string \<Rightarrow> http_response option) \<Rightarrow> js_url \<Rightarrow> nat \<Rightarrow>
     js_url list \<times> fetch_result" where
  "fetch_loop allowedHosts parse_rel respond url hops =
     (case respond hops (u_href url) of
        None \<Rightarrow> ([url], NetworkError)
      | Some response \<Rightarrow>
          if 300 \<le> hr_status response \<and> hr_status response < 400 then
            if MAX_REDIRECT_HOPS \<le> hops then ([url], TooManyRedirects)
            else if \<not> truthy (hr_location response) then ([url], Fetched response)
            else (case parse_rel (the (hr_location response)) (u_href url) of
                    None \<Rightarrow> ([url], BadUrl)
                  | Some next_url \<Rightarrow>
                      if u_protocol next_url \<noteq> u_protocol url then ([url], ProtocolDowngrade)
                      else if \<not> host_allowed allowedHosts (u_hostname next_url) then ([url], HostDenied (u_hostname next_url))
                      else (let (urls, r) = fetch_loop allowedHosts parse_rel respond next_url (hops + 1) in (url # urls, r)))
          else ([url], Fetched response))"
  by pat_completeness auto
termination
  by (relation "measure (\<lambda>(_, _, _, _, hops). MAX_REDIRECT_HOPS - hops)") auto

definition sandbox_fetch ::
  "string list \<Rightarrow> (string \<Rightarrow> js_url option) \<Rightarrow> (string \<Rightarrow> string \<Rightarrow> js_url option) \<Rightarrow>
     (nat \<Rightarrow> string \<Rightarrow> http_response option) \<Rightarrow> string \<Rightarrow> js_url list \<times> fetch_result" where
  "sandbox_fetch allowedHosts parse_url parse_rel respond input =
     (case parse_url input of
        None \<Rightarrow> ([], BadUrl)
      | Some url \<Rightarrow>
          if u_protocol url \<noteq> ''https:'' \<and> u_protocol url \<noteq> ''http:'' then ([], ProtocolDenied (u_protocol url))
          else if \<not> host_allowed allowedHosts (u_hostname url) then ([], HostDenied (u_hostname url))
          else fetch_loop allowedHosts parse_rel respond url 0)"

section \<open>Manifests\<close>

record manifest =
  cm_allowedHosts :: "string list option"
  cm_allowedReadPaths :: "string list option"
  cm_allowedWritePaths :: "string list option"
  cm_extraCapabilities :: "string list option"
  cm_env :: "(string \<times> string) list option"
  cm_cpuMs :: "int option"
  cm_memoryLimitBytes :: "int option"

definition empty_manifest :: manifest where
  "empty_manifest =
     \<lparr>cm_allowedHosts = None, cm_allowedReadPaths = None, cm_allowedWritePaths = None, cm_extraCapabilities = None,
      cm_env = None, cm_cpuMs = None, cm_memoryLimitBytes = None\<rparr>"

definition intersectStrings :: "string list option \<Rightarrow> string list option \<Rightarrow> string list option" where
  "intersectStrings a b =
     (case (a, b) of
        (None, None) \<Rightarrow> None
      | (None, Some ys) \<Rightarrow> Some ys
      | (Some xs, None) \<Rightarrow> Some xs
      | (Some xs, Some ys) \<Rightarrow> Some (filter (\<lambda>x. x \<in> set xs) ys))"

definition min_limit :: "int option \<Rightarrow> int option \<Rightarrow> int option" where
  "min_limit bv cv =
     (case (bv, cv) of
        (Some b, Some c) \<Rightarrow> Some (min b c)
      | (Some b, None) \<Rightarrow> Some b
      | (None, c) \<Rightarrow> c)"

definition merge_env :: "(string \<times> string) list option \<Rightarrow> (string \<times> string) list option \<Rightarrow> (string \<times> string) list option" where
  "merge_env b c =
     (let given = (case c of None \<Rightarrow> [] | Some e \<Rightarrow> e);
          merged = (case b of None \<Rightarrow> given | Some e \<Rightarrow> filter (\<lambda>(k, v). k \<in> fst ` set e) given)
      in if merged = [] then None else Some merged)"

definition resolveEffectiveCapabilities :: "manifest option \<Rightarrow> manifest option \<Rightarrow> manifest" where
  "resolveEffectiveCapabilities base call =
     (if base = None \<and> call = None then empty_manifest
      else
        (let b = (case base of None \<Rightarrow> empty_manifest | Some m \<Rightarrow> m);
             c = (case call of None \<Rightarrow> empty_manifest | Some m \<Rightarrow> m)
         in \<lparr>cm_allowedHosts = intersectStrings (cm_allowedHosts b) (cm_allowedHosts c),
             cm_allowedReadPaths = intersectStrings (cm_allowedReadPaths b) (cm_allowedReadPaths c),
             cm_allowedWritePaths = intersectStrings (cm_allowedWritePaths b) (cm_allowedWritePaths c),
             cm_extraCapabilities = intersectStrings (cm_extraCapabilities b) (cm_extraCapabilities c),
             cm_env = merge_env (cm_env b) (cm_env c),
             cm_cpuMs = min_limit (cm_cpuMs b) (cm_cpuMs c),
             cm_memoryLimitBytes = min_limit (cm_memoryLimitBytes b) (cm_memoryLimitBytes c)\<rparr>))"

text \<open>\<open>buildCapabilityGlobals\<close>: the hosts \<open>fetch\<close> may reach, the paths of \<open>__fs__\<close>, and \<open>__env__\<close>.\<close>

record sandbox_globals =
  sg_fetch :: "string list option"
  sg_fs :: "(string list \<times> string list) option"
  sg_env :: "(string \<times> string) list option"

definition or_empty :: "'a list option \<Rightarrow> 'a list" where
  "or_empty l = (case l of None \<Rightarrow> [] | Some xs \<Rightarrow> xs)"

definition buildCapabilityGlobals :: "manifest \<Rightarrow> sandbox_globals" where
  "buildCapabilityGlobals m =
     (let hosts = or_empty (cm_allowedHosts m);
          reads = or_empty (cm_allowedReadPaths m);
          writes = or_empty (cm_allowedWritePaths m)
      in \<lparr>sg_fetch = (if hosts = [] then None else Some hosts),
          sg_fs = (if reads \<noteq> [] \<or> writes \<noteq> [] then Some (reads, writes) else None),
          sg_env = (if or_empty (cm_env m) \<noteq> [] then cm_env m else None)\<rparr>)"

section \<open>Lemmas: globs match label by label\<close>

lemma split_Cons:
  "split_on sep (c # s) =
     (if c = sep then [] # split_on sep s else (c # hd (split_on sep s)) # tl (split_on sep s))"
  by (cases "split_on sep s") simp_all

lemma split_hd_tl: "split_on sep s = hd (split_on sep s) # tl (split_on sep s)"
  by (cases "split_on sep s") simp_all

lemma all2_hd: "list_all2 P (x # xs) (split_on sep s) \<longleftrightarrow> P x (hd (split_on sep s)) \<and> list_all2 P xs (tl (split_on sep s))"
  by (cases "split_on sep s") (simp, simp)

lemma all2_one: "list_all2 P (split_on sep p) (x # xs) \<longleftrightarrow> P (hd (split_on sep p)) x \<and> list_all2 P (tl (split_on sep p)) xs"
  by (cases "split_on sep p") (simp, simp)

lemma all2_split: "list_all2 P (split_on sep p) (split_on sep s) \<longleftrightarrow>
    P (hd (split_on sep p)) (hd (split_on sep s)) \<and> list_all2 P (tl (split_on sep p)) (tl (split_on sep s))"
  by (subst split_hd_tl [of sep p]) (rule all2_hd)

lemma split_empty_iff: "hd (split_on sep s) = [] \<and> tl (split_on sep s) = [] \<longleftrightarrow> s = []"
  by (cases s) (auto simp: split_Cons simp del: split_on.simps(2))

lemma glob_labels: "matchGlob p s \<longleftrightarrow> list_all2 matchGlob (split_on (CHR ''.'') p) (split_on (CHR ''.'') s)"
proof (induction p s rule: matchGlob.induct)
  case (1 s)
  then show ?case using split_empty_iff [of "CHR ''.''" s] by (auto simp: all2_hd)
next
  case (2 p ps)
  then show ?case by (cases "p = CHR ''.''") (auto simp: split_Cons all2_one simp del: split_on.simps(2))
next
  case (3 p ps c s)
  have IH: "p = CHR ''*'' \<Longrightarrow> matchGlob ps (c # s) \<longleftrightarrow> list_all2 matchGlob (split_on (CHR ''.'') ps) (split_on (CHR ''.'') (c # s))"
    "p = CHR ''*'' \<Longrightarrow> c \<noteq> CHR ''.'' \<Longrightarrow> matchGlob (p # ps) s \<longleftrightarrow> list_all2 matchGlob (split_on (CHR ''.'') (p # ps)) (split_on (CHR ''.'') s)"
    "p \<noteq> CHR ''*'' \<Longrightarrow> (p = CHR ''?'' \<Longrightarrow> c \<noteq> CHR ''.'') \<Longrightarrow> (p \<noteq> CHR ''?'' \<Longrightarrow> p = c) \<Longrightarrow>
       matchGlob ps s \<longleftrightarrow> list_all2 matchGlob (split_on (CHR ''.'') ps) (split_on (CHR ''.'') s)"
    using 3 by metis+
  consider "p = CHR ''*''" | "p = CHR ''?''" | "p \<noteq> CHR ''*''" "p \<noteq> CHR ''?''" by blast
  then show ?case
  proof cases
    case 1
    show ?thesis
    proof (cases "c = CHR ''.''")
      case True
      then show ?thesis using 1 IH(1) by (cases "hd (split_on (CHR ''.'') ps)") (auto simp: split_Cons all2_split all2_hd all2_one simp del: split_on.simps(2))
    next
      case False
      then show ?thesis using 1 IH(1,2) by (auto simp: split_Cons all2_split all2_hd all2_one simp del: split_on.simps(2))
    qed
  next
    case 2
    then show ?thesis using IH(3) by (cases "c = CHR ''.''") (auto simp: split_Cons all2_split all2_hd all2_one simp del: split_on.simps(2))
  next
    case 3
    show ?thesis
    proof (cases "p = c")
      case True
      then have "matchGlob ps s \<longleftrightarrow> list_all2 matchGlob (split_on (CHR ''.'') ps) (split_on (CHR ''.'') s)"
        using 3 IH(3) by blast
      then show ?thesis using True 3 by (cases "c = CHR ''.''") (simp_all add: split_Cons all2_split del: split_on.simps(2))
    next
      case False
      then show ?thesis using 3
        by (cases "c = CHR ''.''"; cases "p = CHR ''.''") (simp_all add: split_Cons all2_split del: split_on.simps(2))
    qed
  qed
qed

section \<open>Lemmas: the fetch loop\<close>

declare fetch_loop.simps [simp del]

lemma fetch_loop_safe:
  "host_allowed hosts (u_hostname url) \<Longrightarrow> fetch_loop hosts parse_rel respond url hops = (urls, r) \<Longrightarrow>
     hd urls = url \<and> urls \<noteq> [] \<and> length urls \<le> Suc (MAX_REDIRECT_HOPS - hops) \<and>
     (\<forall>u \<in> set urls. host_allowed hosts (u_hostname u) \<and> u_protocol u = u_protocol url) \<and>
     (\<forall>rsp. r = Fetched rsp \<longrightarrow> respond (hops + length urls - 1) (u_href (last urls)) = Some rsp)"
proof (induction hosts parse_rel respond url hops arbitrary: urls r rule: fetch_loop.induct)
  case (1 hosts parse_rel respond url hops)
  show ?case
  proof (cases "\<exists>rsp u. respond hops (u_href url) = Some rsp \<and> 300 \<le> hr_status rsp \<and> hr_status rsp < 400 \<and>
      \<not> MAX_REDIRECT_HOPS \<le> hops \<and> truthy (hr_location rsp) \<and> parse_rel (the (hr_location rsp)) (u_href url) = Some u \<and>
      u_protocol u = u_protocol url \<and> host_allowed hosts (u_hostname u)")
    case True
    then obtain rsp u where s: "respond hops (u_href url) = Some rsp" "300 \<le> hr_status rsp" "hr_status rsp < 400"
      "\<not> MAX_REDIRECT_HOPS \<le> hops" "truthy (hr_location rsp)" "parse_rel (the (hr_location rsp)) (u_href url) = Some u"
      "u_protocol u = u_protocol url" "host_allowed hosts (u_hostname u)" by blast
    obtain us q where l: "fetch_loop hosts parse_rel respond u (hops + 1) = (us, q)" by fastforce
    have e: "urls = url # us" "r = q"
      using "1.prems"(2) s l by (simp_all add: fetch_loop.simps [of hosts parse_rel respond url hops])
    have "hd us = u \<and> us \<noteq> [] \<and> length us \<le> Suc (MAX_REDIRECT_HOPS - (hops + 1)) \<and>
     (\<forall>v \<in> set us. host_allowed hosts (u_hostname v) \<and> u_protocol v = u_protocol u) \<and>
     (\<forall>rsp. q = Fetched rsp \<longrightarrow> respond (hops + 1 + length us - 1) (u_href (last us)) = Some rsp)"
      using s by (intro "1.IH" [OF s(1)] l) simp_all
    then show ?thesis using e s "1.prems"(1) by auto
  next
    case False
    then have "urls = [url] \<and> (\<forall>rsp. r = Fetched rsp \<longrightarrow> respond hops (u_href url) = Some rsp)"
      using "1.prems"(2)
      by (auto simp: fetch_loop.simps [of hosts parse_rel respond url hops] split: option.splits if_splits prod.splits)
    then show ?thesis using "1.prems"(1) by simp
  qed
qed

section \<open>Lemmas: the merge\<close>

text \<open>What an axis permits; an absent one permits everything.\<close>

definition permits :: "'a list option \<Rightarrow> 'a \<Rightarrow> bool" where
  "permits axis x = (case axis of None \<Rightarrow> True | Some xs \<Rightarrow> x \<in> set xs)"

definition within_limit :: "int option \<Rightarrow> int \<Rightarrow> bool" where
  "within_limit l n = (case l of None \<Rightarrow> True | Some m \<Rightarrow> n \<le> m)"

definition env_value :: "(string \<times> string) list option \<Rightarrow> string \<Rightarrow> string option" where
  "env_value e k = map_of (or_empty e) k"

definition env_ceiling :: "(string \<times> string) list option \<Rightarrow> string \<Rightarrow> bool" where
  "env_ceiling e k = (case e of None \<Rightarrow> True | Some m \<Rightarrow> k \<in> fst ` set m)"

lemma permits_intersect: "permits (intersectStrings a b) x \<longleftrightarrow> permits a x \<and> permits b x"
  by (auto simp: permits_def intersectStrings_def split: option.splits)

lemma limit_min: "within_limit (min_limit a b) n \<longleftrightarrow> within_limit a n \<and> within_limit b n"
  by (auto simp: within_limit_def min_limit_def split: option.splits)

lemma map_of_key_filter: "map_of (filter (\<lambda>(k, v). P k) m) k = (if P k then map_of m k else None)"
  by (induction m) auto

lemma env_merge: "env_value (merge_env b c) k = (if env_ceiling b k then env_value c k else None)"
proof (cases b)
  case (Some e)
  then show ?thesis using map_of_key_filter [of "\<lambda>k. k \<in> fst ` set e" "or_empty c" k]
    by (auto simp: env_value_def env_ceiling_def merge_env_def or_empty_def Let_def split: option.splits if_splits)
qed (auto simp: env_value_def env_ceiling_def merge_env_def or_empty_def Let_def split: option.splits)

lemma effective_fields:
  "cm_allowedHosts (resolveEffectiveCapabilities (Some b) (Some c)) = intersectStrings (cm_allowedHosts b) (cm_allowedHosts c)"
  "cm_allowedReadPaths (resolveEffectiveCapabilities (Some b) (Some c)) = intersectStrings (cm_allowedReadPaths b) (cm_allowedReadPaths c)"
  "cm_allowedWritePaths (resolveEffectiveCapabilities (Some b) (Some c)) = intersectStrings (cm_allowedWritePaths b) (cm_allowedWritePaths c)"
  "cm_extraCapabilities (resolveEffectiveCapabilities (Some b) (Some c)) = intersectStrings (cm_extraCapabilities b) (cm_extraCapabilities c)"
  "cm_env (resolveEffectiveCapabilities (Some b) (Some c)) = merge_env (cm_env b) (cm_env c)"
  "cm_cpuMs (resolveEffectiveCapabilities (Some b) (Some c)) = min_limit (cm_cpuMs b) (cm_cpuMs c)"
  "cm_memoryLimitBytes (resolveEffectiveCapabilities (Some b) (Some c)) = min_limit (cm_memoryLimitBytes b) (cm_memoryLimitBytes c)"
  by (simp_all add: resolveEffectiveCapabilities_def Let_def)

section \<open>Properties\<close>


text \<open>
  C27. Every request the sandbox makes, redirects included, goes to a host an allowed glob matches, all
  with one protocol, \<open>http:\<close> or \<open>https:\<close>; there are at most six of them, and a response handed to
  the sandbox is the answer to the last one.
\<close>
theorem requests_stay_allowed:
  assumes "sandbox_fetch allowedHosts parse_url parse_rel respond input = (urls, r)"
  shows "length urls \<le> 6 \<and>
    (\<forall>u \<in> set urls. host_allowed allowedHosts (u_hostname u) \<and> u_protocol u \<in> {''http:'', ''https:''} \<and> u_protocol u = u_protocol (hd urls)) \<and>
    (\<forall>rsp. r = Fetched rsp \<longrightarrow> urls \<noteq> [] \<and> respond (length urls - 1) (u_href (last urls)) = Some rsp)"
proof (cases "\<exists>url. parse_url input = Some url \<and> u_protocol url \<in> {''http:'', ''https:''} \<and> host_allowed allowedHosts (u_hostname url)")
  case True
  then obtain url where u: "parse_url input = Some url" "u_protocol url \<in> {''http:'', ''https:''}" "host_allowed allowedHosts (u_hostname url)"
    by blast
  then have "fetch_loop allowedHosts parse_rel respond url 0 = (urls, r)" using assms by (auto simp: sandbox_fetch_def)
  from fetch_loop_safe [OF u(3) this] u(2) show ?thesis by (auto simp: MAX_REDIRECT_HOPS_def)
next
  case False
  then have "urls = [] \<and> (\<forall>rsp. r \<noteq> Fetched rsp)" using assms by (auto simp: sandbox_fetch_def split: option.splits if_splits)
  then show ?thesis by simp
qed

definition demo_url :: "string \<Rightarrow> js_url" where
  "demo_url h = \<lparr>u_href = h, u_protocol = ''https:'', u_hostname = h @ ''.x''\<rparr>"

definition demo_respond :: "nat \<Rightarrow> string \<Rightarrow> http_response option" where
  "demo_respond n h = Some (if n = 0 then \<lparr>hr_status = 302, hr_location = Some ''b''\<rparr> else \<lparr>hr_status = 200, hr_location = None\<rparr>)"

theorem requests_stay_allowed_witness:
  "sandbox_fetch [''*.x''] (\<lambda>i. Some (demo_url i)) (\<lambda>l b. Some (demo_url l)) demo_respond ''a'' =
     ([demo_url ''a'', demo_url ''b''], Fetched \<lparr>hr_status = 200, hr_location = None\<rparr>) \<and>
   demo_respond 1 (u_href (last [demo_url ''a'', demo_url ''b''])) = Some \<lparr>hr_status = 200, hr_location = None\<rparr>"
proof -
  have e: "sandbox_fetch [''*.x''] (\<lambda>i. Some (demo_url i)) (\<lambda>l b. Some (demo_url l)) demo_respond ''a'' =
     ([demo_url ''a'', demo_url ''b''], Fetched \<lparr>hr_status = 200, hr_location = None\<rparr>)" by code_simp
  from requests_stay_allowed [OF e] e show ?thesis by simp
qed

text \<open>
  A glob matches a host exactly when it has as many labels as the host and matches it label by
  label: no wildcard reaches across a dot, so a pattern never lets a deeper or a shallower host in.
\<close>
theorem globs_match_by_label:
  "matchGlob p s \<longleftrightarrow> list_all2 matchGlob (split_on (CHR ''.'') p) (split_on (CHR ''.'') s)"
  by (rule glob_labels)

text \<open>
  An axis the constructor leaves out is no ceiling, although an absent capability is said to be the
  same as an empty list.
\<close>

lemma absent_axis_is_no_ceiling:
  "sg_fetch (buildCapabilityGlobals (resolveEffectiveCapabilities (Some empty_manifest)
     (Some (empty_manifest\<lparr>cm_allowedHosts := Some [''*'']\<rparr>)))) = Some [''*'']"
  "sg_fetch (buildCapabilityGlobals (resolveEffectiveCapabilities (Some (empty_manifest\<lparr>cm_allowedHosts := Some []\<rparr>))
     (Some (empty_manifest\<lparr>cm_allowedHosts := Some [''*'']\<rparr>)))) = None"
  by code_simp+

text \<open>The environment of the constructor alone never reaches the sandbox.\<close>

lemma constructor_env_is_dropped:
  "cm_env c = None \<Longrightarrow> cm_env b \<noteq> None \<Longrightarrow> sg_env (buildCapabilityGlobals (resolveEffectiveCapabilities (Some b) (Some c))) = None"
  by (auto simp: buildCapabilityGlobals_def Let_def effective_fields merge_env_def or_empty_def)

text \<open>Globs intersect as texts: two lists that both let a host in can have nothing in common.\<close>

lemma glob_intersection_by_text:
  "host_allowed [''*.x''] ''a.x'' \<and> host_allowed [''a.x''] ''a.x'' \<and> intersectStrings (Some [''*.x'']) (Some [''a.x'']) = Some []"
  by code_simp

end
