(* ===== verification/Event_Log.thy ===== *)
theory Event_Log
  imports Workflow_Store
begin

text \<open>
  The persistent event log, \<open>EventLog\<close> (packages/core/src/streaming/EventLog.ts), over the map-backed
  backend. A stored text is the event it parses to, \<open>None\<close> when it does not parse. A write that fails
  leaves the backend as it was. \<open>Number\<close> is modelled on texts of digits; every other text reads as
  NaN, as the ids of the log that are not digits do.
\<close>

section \<open>Keys\<close>

definition ID_WIDTH :: nat where "ID_WIDTH = 12"

definition padId :: "nat \<Rightarrow> string" where
  "padId n = padStart ID_WIDTH (nat_str n)"

definition tracePrefix :: "string \<Rightarrow> string" where
  "tracePrefix traceId = ''evlog:'' @ traceId @ '':''"

definition logKey :: "string \<Rightarrow> string \<Rightarrow> string" where
  "logKey traceId paddedId = ''evlog:'' @ traceId @ '':'' @ paddedId"

section \<open>The operations\<close>

type_synonym 'e log_kv = "'e option kv"
type_synonym 'e logged = "string \<times> 'e"

text \<open>\<open>tap\<close>: the flag of an event says whether its write succeeds.\<close>

fun tap :: "string \<Rightarrow> nat \<Rightarrow> ('e \<times> bool) list \<Rightarrow> 'e log_kv \<Rightarrow> 'e logged list \<times> 'e log_kv" where
  "tap traceId seq [] kv = ([], kv)"
| "tap traceId seq ((ev, saved) # source) kv =
     (let eventId = padId seq;
          kv1 = (if saved then kv_put (logKey traceId eventId) (Some ev) kv else kv);
          (out, kv2) = tap traceId (seq + 1) source kv1
      in ((eventId, ev) # out, kv2))"

definition cutoff_of :: "string option \<Rightarrow> string option" where
  "cutoff_of afterId =
     (case afterId of
        None \<Rightarrow> None
      | Some a \<Rightarrow> if a \<noteq> [] \<and> list_all is_digit a then Some (padStart ID_WIDTH a) else None)"

text \<open>The keys are listed first; each is looked up when its turn comes.\<close>

fun replay_keys :: "string \<Rightarrow> string option \<Rightarrow> (string \<Rightarrow> 'e option option) \<Rightarrow> string list \<Rightarrow> 'e logged list" where
  "replay_keys traceId cutoff look [] = []"
| "replay_keys traceId cutoff look (key # keys) =
     (let eventId = drop (length (tracePrefix traceId)) key;
          rest = replay_keys traceId cutoff look keys
      in if (case cutoff of None \<Rightarrow> False | Some c \<Rightarrow> eventId \<le> c) then rest
         else (case look key of
                 None \<Rightarrow> rest
               | Some None \<Rightarrow> rest
               | Some (Some ev) \<Rightarrow> (eventId, ev) # rest))"

definition trace_keys :: "'e log_kv \<Rightarrow> string \<Rightarrow> string list" where
  "trace_keys kv traceId = sort (kv_list (tracePrefix traceId) kv)"

definition replay :: "'e log_kv \<Rightarrow> string \<Rightarrow> string option \<Rightarrow> 'e logged list" where
  "replay kv traceId afterId = replay_keys traceId (cutoff_of afterId) (kv_get kv) (trace_keys kv traceId)"

definition highWaterMark :: "'e log_kv \<Rightarrow> string \<Rightarrow> string option" where
  "highWaterMark kv traceId =
     (let keys = trace_keys kv traceId
      in if keys = [] then None
         else if last keys = [] then None
         else Some (drop (length (tracePrefix traceId)) (last keys)))"

text \<open>\<open>None\<close> is NaN.\<close>

definition nextSeq :: "'e log_kv \<Rightarrow> string \<Rightarrow> nat option" where
  "nextSeq kv traceId =
     (case highWaterMark kv traceId of
        None \<Rightarrow> Some 0
      | Some hw \<Rightarrow> if hw = [] then Some 0 else if list_all is_digit hw then Some (digits_value 10 hw + 1) else None)"

definition purge :: "string \<Rightarrow> 'e log_kv \<Rightarrow> 'e log_kv" where
  "purge traceId kv = foldl (\<lambda>m k. kv_delete k m) kv (kv_list (tracePrefix traceId) kv)"

definition formatSseFrame :: "('e \<Rightarrow> string) \<Rightarrow> ('e \<Rightarrow> string) \<Rightarrow> 'e logged \<Rightarrow> string" where
  "formatSseFrame event_name stringify logged =
     ''id: '' @ fst logged @ [CHR 0x0A] @ ''event: '' @ event_name (snd logged) @ [CHR 0x0A] @
     ''data: '' @ stringify (snd logged) @ [CHR 0x0A, CHR 0x0A]"

section \<open>The log of a trace\<close>

definition seqKey :: "string \<Rightarrow> nat \<Rightarrow> string" where
  "seqKey t n = logKey t (padId n)"

text \<open>The numbers under which a trace has an entry.\<close>

definition seqs :: "'e log_kv \<Rightarrow> string \<Rightarrow> nat set" where
  "seqs kv t = {n. n < seq_limit \<and> kv_get kv (seqKey t n) \<noteq> None}"

definition log_ok :: "'e log_kv \<Rightarrow> bool" where
  "log_ok kv \<longleftrightarrow>
     kv_ok kv \<and> (\<forall>k v. kv_get kv k = Some v \<longrightarrow> (\<exists>t n e. plain_id t \<and> n < seq_limit \<and> k = seqKey t n \<and> v = Some e))"

lemma pad_facts:
  assumes "n < seq_limit"
  shows "length (padId n) = 12" "list_all is_digit (padId n)" "digits_value 10 (padId n) = n" "padId n \<noteq> []"
  using padded [OF assms] by (auto simp: padId_def ID_WIDTH_def value_of_def)

lemma pad_less: "m < seq_limit \<Longrightarrow> n < seq_limit \<Longrightarrow> padId m < padId n \<longleftrightarrow> m < n"
  using digits_less [of "padId m" "padId n"] pad_facts by (simp add: value_of_def)

lemma pad_le: "m < seq_limit \<Longrightarrow> n < seq_limit \<Longrightarrow> padId m \<le> padId n \<longleftrightarrow> m \<le> n"
  using pad_less by (metis linorder_not_less)

lemma pad_no_colon: "n < seq_limit \<Longrightarrow> CHR '':'' \<notin> set (padId n)"
  using pad_facts(2) [of n] by (auto simp: list_all_iff is_digit_def)

lemma seq_key_prefix: "seqKey t n = tracePrefix t @ padId n"
  by (simp add: seqKey_def logKey_def tracePrefix_def)

lemma seq_key_other:
  "plain_id t \<Longrightarrow> plain_id t' \<Longrightarrow> starts_with (seqKey t' n) (tracePrefix t) \<longleftrightarrow> t' = t"
  by (auto simp: starts_with_iff seqKey_def logKey_def tracePrefix_def plain_id_def colon_split)

lemma seq_key_inj:
  "plain_id t \<Longrightarrow> plain_id t' \<Longrightarrow> m < seq_limit \<Longrightarrow> n < seq_limit \<Longrightarrow> seqKey t m = seqKey t' n \<longleftrightarrow> t = t' \<and> m = n"
  using pad_less by (auto simp: seqKey_def logKey_def plain_id_def colon_split) (metis nat_neq_iff less_irrefl)

lemma seqs_finite: "finite (seqs kv t)"
  by (rule finite_subset [of _ "{..< seq_limit}"]) (auto simp: seqs_def)

lemma keys_by_seq:
  assumes "log_ok kv" "plain_id t"
  shows "trace_keys kv t = map (seqKey t) (sorted_list_of_set (seqs kv t))"
proof (rule sorted_distinct_set_unique)
  show "sorted (trace_keys kv t)" by (simp add: trace_keys_def)
  show "distinct (trace_keys kv t)" using assms(1) by (simp add: trace_keys_def log_ok_def mem.listing_distinct)
  have s: "sorted_wrt (\<lambda>m n. seqKey t m \<le> seqKey t n) (sorted_list_of_set (seqs kv t))"
  proof (rule sorted_wrt_mono_rel [of _ "(\<le>)"])
    fix m n assume "m \<in> set (sorted_list_of_set (seqs kv t))" "n \<in> set (sorted_list_of_set (seqs kv t))" "m \<le> n"
    then show "seqKey t m \<le> seqKey t n"
      using pad_le [of m n] seqs_finite [of kv t] append_less [of "tracePrefix t" "padId n" "padId m"]
      by (auto simp: seqs_def seq_key_prefix linorder_not_less [symmetric])
  qed simp
  then show "sorted (map (seqKey t) (sorted_list_of_set (seqs kv t)))" by (simp add: sorted_wrt_map)
  show "distinct (map (seqKey t) (sorted_list_of_set (seqs kv t)))"
    using assms(2) seqs_finite [of kv t] seq_key_inj by (auto simp: distinct_map inj_on_def seqs_def)
  show "set (trace_keys kv t) = set (map (seqKey t) (sorted_list_of_set (seqs kv t)))"
  proof -
    have "k \<in> seqKey t ` seqs kv t" if k: "starts_with k (tracePrefix t)" "kv_get kv k \<noteq> None" for k
    proof -
      obtain t' n where n: "plain_id t'" "n < seq_limit" "k = seqKey t' n" using assms(1) k(2) by (force simp: log_ok_def)
      then have "t' = t" using k(1) assms(2) seq_key_other by blast
      then show ?thesis using n k(2) by (auto simp: seqs_def)
    qed
    then show ?thesis using seqs_finite [of kv t]
      by (auto simp: trace_keys_def mem.listing_exact) (auto simp: seqs_def seq_key_prefix)
  qed
qed

definition entry :: "'e log_kv \<Rightarrow> string \<Rightarrow> nat \<Rightarrow> 'e logged" where
  "entry kv t n = (padId n, the (the (kv_get kv (seqKey t n))))"

definition above :: "string option \<Rightarrow> nat \<Rightarrow> bool" where
  "above cutoff n = (case cutoff of None \<Rightarrow> True | Some c \<Rightarrow> c < padId n)"

lemma replay_keys_entries:
  assumes "log_ok kv" "set ns \<subseteq> seqs kv t"
  shows "replay_keys t cutoff (kv_get kv) (map (seqKey t) ns) = map (entry kv t) (filter (above cutoff) ns)"
  using assms(2)
proof (induction ns)
  case (Cons n ns)
  have d: "drop (length (tracePrefix t)) (seqKey t n) = padId n" by (simp add: seq_key_prefix)
  have "kv_get kv (seqKey t n) \<noteq> None" using Cons.prems by (simp add: seqs_def)
  then obtain e where e: "kv_get kv (seqKey t n) = Some (Some e)" using assms(1) by (auto simp: log_ok_def)
  show ?case using Cons e d by (auto simp: above_def entry_def linorder_not_le Let_def split: option.splits)
qed simp

lemma replay_entries:
  assumes "log_ok kv" "plain_id t"
  shows "replay kv t a = map (entry kv t) (filter (above (cutoff_of a)) (sorted_list_of_set (seqs kv t)))"
  unfolding replay_def keys_by_seq [OF assms]
  by (rule replay_keys_entries [OF assms(1)]) (simp add: seqs_finite)

lemma replay_all:
  "log_ok kv \<Longrightarrow> plain_id t \<Longrightarrow> replay kv t None = map (entry kv t) (sorted_list_of_set (seqs kv t))"
  by (simp add: replay_entries above_def cutoff_of_def)

lemma cutoff_pad: "m < seq_limit \<Longrightarrow> cutoff_of (Some (padId m)) = Some (padId m)"
  using pad_facts [of m] by (simp add: cutoff_of_def padStart_def ID_WIDTH_def)

lemma filter_above_drop:
  "sorted_wrt (<) xs \<Longrightarrow> k < length xs \<Longrightarrow> filter (\<lambda>n. xs ! k < n) xs = drop (Suc k) (xs :: nat list)"
proof (induction xs arbitrary: k)
  case (Cons x xs)
  show ?case
  proof (cases k)
    case 0
    then show ?thesis using Cons.prems by (simp add: filter_id_conv)
  next
    case (Suc j)
    then have "x < xs ! j" using Cons.prems by simp
    then have "\<not> xs ! j < x" by (rule less_not_sym)
    then show ?thesis using Suc Cons by simp
  qed
qed simp

lemma replay_resumes:
  assumes ok: "log_ok kv" and t: "plain_id t" and k: "k < length (replay kv t None)"
  shows "replay kv t (Some (fst (replay kv t None ! k))) = drop (Suc k) (replay kv t None)"
proof -
  let ?ns = "sorted_list_of_set (seqs kv t)"
  have k': "k < length ?ns" using k by (simp add: replay_all [OF ok t])
  then have m: "?ns ! k < seq_limit" using nth_mem [OF k'] seqs_finite [of kv t] by (simp add: seqs_def)
  have i: "fst (replay kv t None ! k) = padId (?ns ! k)" using k' by (simp add: replay_all [OF ok t] entry_def)
  have "filter (above (Some (padId (?ns ! k)))) ?ns = filter (\<lambda>n. ?ns ! k < n) ?ns"
    using seqs_finite [of kv t] m by (intro filter_cong refl) (auto simp: above_def pad_less seqs_def)
  then have f: "filter (above (Some (padId (?ns ! k)))) ?ns = drop (Suc k) ?ns"
    using filter_above_drop [of ?ns k] k' by (simp only: sorted_list_of_set.strict_sorted_key_list_of_set)
  show ?thesis
    unfolding i by (simp only: replay_entries [OF ok t, of "Some _"] cutoff_pad [OF m] f drop_map replay_all [OF ok t])
qed

section \<open>Tapping\<close>

abbreviation saved :: "'e list \<Rightarrow> ('e \<times> bool) list" where
  "saved evs \<equiv> map (\<lambda>e. (e, True)) evs"

lemma put_seq:
  assumes "log_ok kv" "plain_id t" "n < seq_limit"
  shows "log_ok (kv_put (seqKey t n) (Some e) kv)"
    "seqs (kv_put (seqKey t n) (Some e) kv) t = insert n (seqs kv t)"
    "plain_id t' \<Longrightarrow> t' \<noteq> t \<Longrightarrow> seqs (kv_put (seqKey t n) (Some e) kv) t' = seqs kv t'"
proof -
  show "log_ok (kv_put (seqKey t n) (Some e) kv)"
    unfolding log_ok_def
  proof (intro conjI allI impI)
    show "kv_ok (kv_put (seqKey t n) (Some e) kv)" using assms(1) by (simp add: log_ok_def mem.ok_put)
    fix k v assume v: "kv_get (kv_put (seqKey t n) (Some e) kv) k = Some v"
    show "\<exists>t n e. plain_id t \<and> n < seq_limit \<and> k = seqKey t n \<and> v = Some e"
    proof (cases "k = seqKey t n")
      case True
      then have "v = Some e" using v by simp
      then show ?thesis using assms(2,3) True by blast
    next
      case False
      then have "kv_get kv k = Some v" using v by simp
      then show ?thesis using assms(1) unfolding log_ok_def by blast
    qed
  qed
  show "seqs (kv_put (seqKey t n) (Some e) kv) t = insert n (seqs kv t)"
    using assms(2,3) by (auto simp: seqs_def seq_key_inj)
  show "seqs (kv_put (seqKey t n) (Some e) kv) t' = seqs kv t'" if "plain_id t'" "t' \<noteq> t"
    using that assms(2,3) by (auto simp: seqs_def seq_key_inj)
qed

lemma tap_effect:
  "log_ok kv \<Longrightarrow> plain_id t \<Longrightarrow> n + length evs \<le> seq_limit \<Longrightarrow> tap t n (saved evs) kv = (out, kv') \<Longrightarrow>
     log_ok kv' \<and> out = zip (map padId [n..<n + length evs]) evs \<and> seqs kv' t = seqs kv t \<union> {n..<n + length evs} \<and>
     (\<forall>i < length evs. kv_get kv' (seqKey t (n + i)) = Some (Some (evs ! i))) \<and>
     (\<forall>t' m. plain_id t' \<longrightarrow> m < seq_limit \<longrightarrow> t' \<noteq> t \<or> m < n \<longrightarrow> kv_get kv' (seqKey t' m) = kv_get kv (seqKey t' m)) \<and>
     (\<forall>t'. plain_id t' \<longrightarrow> t' \<noteq> t \<longrightarrow> seqs kv' t' = seqs kv t')"
proof (induction evs arbitrary: n kv out kv')
  case (Cons e evs)
  let ?kv = "kv_put (seqKey t n) (Some e) kv"
  obtain o1 where o: "tap t (Suc n) (saved evs) ?kv = (o1, kv')" "out = (padId n, e) # o1"
    using Cons.prems(4) by (auto simp: Let_def seqKey_def split: prod.splits)
  have n: "n < seq_limit" using Cons.prems(3) by simp
  note p = put_seq [OF Cons.prems(1,2) n, where e = e]
  have IH: "log_ok kv' \<and> o1 = zip (map padId [Suc n..<Suc n + length evs]) evs \<and> seqs kv' t = seqs ?kv t \<union> {Suc n..<Suc n + length evs} \<and>
     (\<forall>i < length evs. kv_get kv' (seqKey t (Suc n + i)) = Some (Some (evs ! i))) \<and>
     (\<forall>t' m. plain_id t' \<longrightarrow> m < seq_limit \<longrightarrow> t' \<noteq> t \<or> m < Suc n \<longrightarrow> kv_get kv' (seqKey t' m) = kv_get ?kv (seqKey t' m)) \<and>
     (\<forall>t'. plain_id t' \<longrightarrow> t' \<noteq> t \<longrightarrow> seqs kv' t' = seqs ?kv t')"
    using Cons.prems(3) by (intro Cons.IH [OF p(1) Cons.prems(2) _ o(1)]) simp
  have u: "[n..<n + length (e # evs)] = n # [Suc n..<Suc n + length evs]" by (simp add: upt_rec)
  have G: "kv_get kv' (seqKey t' m) = kv_get ?kv (seqKey t' m)" if "plain_id t'" "m < seq_limit" "t' \<noteq> t \<or> m < Suc n" for t' m
    using IH that by blast
  have 1: "kv_get kv' (seqKey t (n + i)) = Some (Some ((e # evs) ! i))" if "i < length (e # evs)" for i
  proof (cases i)
    case 0
    have "kv_get kv' (seqKey t n) = kv_get ?kv (seqKey t n)" by (rule G) (use Cons.prems(2) n in simp_all)
    then show ?thesis using 0 by simp
  next
    case (Suc j)
    then have "kv_get kv' (seqKey t (Suc n + j)) = Some (Some (evs ! j))" using IH that by simp
    then show ?thesis using Suc by simp
  qed
  have 2: "kv_get kv' (seqKey t' m) = kv_get kv (seqKey t' m)" if "plain_id t'" "m < seq_limit" "t' \<noteq> t \<or> m < n" for t' m
  proof -
    have "kv_get kv' (seqKey t' m) = kv_get ?kv (seqKey t' m)" by (rule G) (use that in auto)
    moreover have "seqKey t' m \<noteq> seqKey t n" using that Cons.prems(2) n by (auto simp: seq_key_inj)
    ultimately show ?thesis by simp
  qed
  have s: "seqs kv' t = seqs ?kv t \<union> {Suc n..<Suc n + length evs}" "\<And>t'. plain_id t' \<Longrightarrow> t' \<noteq> t \<Longrightarrow> seqs kv' t' = seqs ?kv t'"
    using IH by blast+
  have 3: "seqs kv' t = seqs kv t \<union> {n..<n + length (e # evs)}" unfolding s(1) p(2) by auto
  have 4: "seqs kv' t' = seqs kv t'" if "plain_id t'" "t' \<noteq> t" for t' using s(2) p(3) that by simp
  have "o1 = zip (map padId [Suc n..<Suc n + length evs]) evs" using IH by blast
  then have 5: "out = zip (map padId [n..<n + length (e # evs)]) (e # evs)" unfolding u using o(2) by simp
  have 6: "log_ok kv'" using IH by blast
  show ?case by (intro conjI allI impI 6 5 3 1 2 4)
qed simp

lemma sorted_le_last: "sorted xs \<Longrightarrow> y \<in> set xs \<Longrightarrow> y \<le> last (xs :: nat list)"
  by (induction xs) auto

lemma next_seq:
  assumes "log_ok kv" "plain_id t"
  shows "nextSeq kv t = Some (if seqs kv t = {} then 0 else Max (seqs kv t) + 1)"
proof (cases "seqs kv t = {}")
  case True
  then show ?thesis by (simp add: nextSeq_def highWaterMark_def keys_by_seq [OF assms])
next
  case False
  let ?ns = "sorted_list_of_set (seqs kv t)"
  have ne: "?ns \<noteq> []" using False seqs_finite [of kv t] by simp
  then have "last ?ns \<in> set ?ns" by (rule last_in_set)
  then have "last ?ns \<in> seqs kv t" by (simp add: seqs_finite)
  then have l: "last ?ns < seq_limit" by (simp add: seqs_def)
  have m: "last ?ns = Max (seqs kv t)"
  proof (rule Max_eqI [symmetric])
    fix y assume "y \<in> seqs kv t"
    then have "y \<in> set ?ns" by (simp add: seqs_finite)
    then show "y \<le> last ?ns" by (rule sorted_le_last [rotated]) simp
  qed (use seqs_finite \<open>last ?ns \<in> seqs kv t\<close> in auto)
  have "last (map (seqKey t) ?ns) = tracePrefix t @ padId (last ?ns)" using ne by (simp add: last_map seq_key_prefix)
  then have "highWaterMark kv t = Some (padId (last ?ns))"
    using ne by (simp add: highWaterMark_def keys_by_seq [OF assms] tracePrefix_def)
  then show ?thesis using False pad_facts [OF l] m by (simp add: nextSeq_def)
qed

lemma seqs_below:
  assumes "log_ok kv" "plain_id t" "nextSeq kv t = Some n" "m \<in> seqs kv t"
  shows "m < n"
  using assms next_seq [OF assms(1,2)] Max_ge [OF seqs_finite assms(4)] by (auto split: if_splits)

lemma sorted_set_append:
  assumes "finite A" "\<And>a. a \<in> A \<Longrightarrow> a < n"
  shows "sorted_list_of_set (A \<union> {n..<m}) = sorted_list_of_set A @ [n..<m]"
proof -
  have "a < x" if "a \<in> A" "n \<le> x" for a x using assms(2) [OF that(1)] that(2) by simp
  then show ?thesis using assms(1) by (intro sorted_distinct_set_unique) (force simp: sorted_append)+
qed

lemma tapped_replay:
  assumes ok: "log_ok kv" and t: "plain_id t" and n: "nextSeq kv t = Some n"
    and b: "n + length evs \<le> seq_limit" and tap: "tap t n (saved evs) kv = (out, kv')"
  shows "replay kv' t None = replay kv t None @ out"
proof -
  note e = tap_effect [OF ok t b tap]
  have ok': "log_ok kv'" and o: "out = zip (map padId [n..<n + length evs]) evs"
    and s: "seqs kv' t = seqs kv t \<union> {n..<n + length evs}"
    and v: "\<And>i. i < length evs \<Longrightarrow> kv_get kv' (seqKey t (n + i)) = Some (Some (evs ! i))"
    and u: "\<And>m. m < seq_limit \<Longrightarrow> m < n \<Longrightarrow> kv_get kv' (seqKey t m) = kv_get kv (seqKey t m)"
    using e t by blast+
  have l: "sorted_list_of_set (seqs kv' t) = sorted_list_of_set (seqs kv t) @ [n..<n + length evs]"
    unfolding s by (rule sorted_set_append [OF seqs_finite]) (rule seqs_below [OF ok t n])
  have 1: "map (entry kv' t) (sorted_list_of_set (seqs kv t)) = map (entry kv t) (sorted_list_of_set (seqs kv t))"
  proof (rule map_cong [OF refl])
    fix m assume "m \<in> set (sorted_list_of_set (seqs kv t))"
    then have "m \<in> seqs kv t" by (simp add: seqs_finite)
    then have "m < seq_limit" "m < n" using seqs_below [OF ok t n] by (auto simp: seqs_def)
    then show "entry kv' t m = entry kv t m" using u by (simp add: entry_def)
  qed
  have 2: "map (entry kv' t) [n..<n + length evs] = out"
    unfolding o by (rule nth_equalityI) (simp_all add: entry_def v)
  show ?thesis by (simp add: replay_all [OF ok' t] replay_all [OF ok t] l 1 2)
qed

lemma other_replay:
  assumes "log_ok kv" "plain_id t" "n + length evs \<le> seq_limit" "tap t n (saved evs) kv = (out, kv')" "plain_id t'" "t' \<noteq> t"
  shows "replay kv' t' a = replay kv t' a"
proof -
  note e = tap_effect [OF assms(1-4)]
  have ok': "log_ok kv'" and s: "seqs kv' t' = seqs kv t'"
    and u: "\<And>m. m < seq_limit \<Longrightarrow> kv_get kv' (seqKey t' m) = kv_get kv (seqKey t' m)"
    using e assms(5,6) by blast+
  have "entry kv' t' m = entry kv t' m" if "m \<in> seqs kv t'" for m using u that by (simp add: entry_def seqs_def)
  then show ?thesis unfolding replay_entries [OF ok' assms(5)] replay_entries [OF assms(1,5)] s
    by (intro map_cong) (auto simp: seqs_finite)
qed

section \<open>Properties\<close>

text \<open>
  C28. A log resumes exactly. When a run is tapped from \<open>nextSeq\<close> on and its writes succeed, the consumer
  gets its events, a full replay returns what was in the log before followed by what the consumer got,
  a client that reconnects with the id of any event it has seen gets exactly the events after that one,
  and the logs of other traces are as they were.
\<close>
theorem reconnect_resumes_exactly:
  assumes "log_ok kv" "plain_id t" "nextSeq kv t = Some n" "n + length evs \<le> seq_limit"
    and "tap t n (saved evs) kv = (out, kv')"
  shows "map snd out = evs \<and> replay kv' t None = replay kv t None @ out \<and>
    (\<forall>k < length (replay kv' t None).
       replay kv' t (Some (fst (replay kv' t None ! k))) = drop (Suc k) (replay kv' t None)) \<and>
    (\<forall>t' a. plain_id t' \<longrightarrow> t' \<noteq> t \<longrightarrow> replay kv' t' a = replay kv t' a)"
proof -
  have "log_ok kv'" "map snd out = evs" using tap_effect [OF assms(1,2,4,5)] by simp_all
  then show ?thesis
    using tapped_replay [OF assms] other_replay [OF assms(1,2,4,5)] replay_resumes [of kv' t] assms(2) by blast
qed

theorem reconnect_resumes_exactly_witness:
  "replay (snd (tap ''run'' 0 (saved [''a'', ''b'', ''c'']) [])) ''run'' (Some ''000000000000'') =
     [(''000000000001'', ''b''), (''000000000002'', ''c'')]"
proof -
  define out where "out = fst (tap ''run'' 0 (saved [''a'', ''b'', ''c'']) [])"
  define kv' where "kv' = snd (tap ''run'' 0 (saved [''a'', ''b'', ''c'']) [])"
  have 1: "log_ok ([] :: string log_kv)" by (simp add: log_ok_def kv_ok_def)
  have 2: "nextSeq ([] :: string log_kv) ''run'' = Some 0" by code_simp
  have 3: "0 + length [''a'', ''b'', ''c''] \<le> seq_limit" by (simp add: seq_limit_def)
  have 4: "tap ''run'' 0 (saved [''a'', ''b'', ''c'']) [] = (out, kv')" by (simp add: out_def kv'_def)
  have 5: "plain_id ''run''" by (simp add: plain_id_def)
  have 6: "replay kv' ''run'' None = [(''000000000000'', ''a''), (''000000000001'', ''b''), (''000000000002'', ''c'')]"
    unfolding kv'_def by code_simp
  have "replay kv' ''run'' (Some (fst (replay kv' ''run'' None ! 0))) = drop (Suc 0) (replay kv' ''run'' None)"
    by (rule reconnect_resumes_exactly [OF 1 5 2 3 4, THEN conjunct2, THEN conjunct2, THEN conjunct1, rule_format]) (simp add: 6)
  then show ?thesis unfolding 6 by (simp add: kv'_def)
qed

text \<open>A purge empties the log of its trace.\<close>

lemma purged_replay: "log_ok kv \<Longrightarrow> replay (purge t kv) t a = []"
proof -
  have "kv_get (purge t kv) k = None" if "starts_with k (tracePrefix t)" for k
    using that by (simp add: purge_def mem.clear_prefix)
  then have "set (kv_list (tracePrefix t) (purge t kv)) = {}" unfolding mem.listing_exact by auto
  then have "trace_keys (purge t kv) t = []" by (simp add: trace_keys_def)
  then show ?thesis by (simp add: replay_def)
qed

text \<open>A trace whose id goes on after a colon is replayed, numbered and purged with the shorter one.\<close>

lemma colon_traces_mix:
  "replay (snd (tap ''a:b'' 0 (saved [''x'']) [])) ''a'' None = [(''b:000000000000'', ''x'')]"
  "nextSeq (snd (tap ''a:b'' 0 (saved [''x'']) [])) ''a'' = None"
  "purge ''a'' (snd (tap ''a:b'' 0 (saved [''x'']) [])) = []"
  by code_simp+

end
