(* ===== verification/Tool_Registry.thy ===== *)
theory Tool_Registry
  imports Wa_Prelude
begin

text \<open>
  The registry of tools (packages/core/src/tools/ToolRegistry.ts) and its policy-gated subclass
  (packages/core/src/policies/policyGateway.ts): registration, the gates of a call in their order, and
  the rewriting of tool schemas. A tool's parser, body and hooks are functions of the tool, \<open>None\<close> or
  \<open>Inl\<close> where they throw; \<open>localeCompare\<close> and the schema library are arguments. Messages of errors
  come down to the values they mention.
\<close>

section \<open>Tools\<close>

datatype trust_level = Trusted | Untrusted

record agent_principal =
  ap_id :: string
  ap_grantedScopes :: "string list"

text \<open>
  The declarations a plain JavaScript caller can leave out are options. \<open>td_parse\<close> is \<open>safeParse\<close>: the
  fields in error or the data; a flag or a fixed key is a constant function; \<open>td_forward\<close>, \<open>td_sanitize\<close> and \<open>td_toModelOutput\<close> fail with a message.
\<close>

record tool_def =
  td_name :: string
  td_description :: string
  td_descriptionCompressed :: "string option"
  td_readOnly :: "bool option"
  td_idempotent :: "bool option"
  td_parse :: "(json \<Rightarrow> string list + json) option"
  td_rawInputJsonSchema :: "json option"
  td_alternatives :: "string list option"
  td_requiredCapability :: "string option"
  td_writeScope :: "string list option"
  td_deferLoading :: bool
  td_inputExamples :: "json list option"
  td_allowedCallers :: "string list option"
  td_trust :: "trust_level option"
  td_sanitize :: "(string \<Rightarrow> json \<Rightarrow> string + json) option"
  td_toModelOutput :: "(json \<Rightarrow> string + json) option"
  td_needsApproval :: "json \<Rightarrow> bool"
  td_resourceKey :: "json \<Rightarrow> string option"
  td_forward :: "json \<Rightarrow> string + json"

section \<open>Registration\<close>

datatype register_error =
    AlreadyRegistered
  | MissingReadOnly
  | MissingIdempotent
  | MissingSchema
  | DeferredWithExamples

type_synonym registry = "(string \<times> tool_def) list"

text \<open>The error thrown, if any, and the registry as it is left.\<close>

definition register :: "tool_def \<Rightarrow> registry \<Rightarrow> register_error option \<times> registry" where
  "register t r =
     (if map_of r (td_name t) \<noteq> None then (Some AlreadyRegistered, r)
      else if td_readOnly t = None then (Some MissingReadOnly, r)
      else if td_idempotent t = None then (Some MissingIdempotent, r)
      else if td_parse t = None then (Some MissingSchema, r)
      else (let r' = AList.update (td_name t) t r
            in if td_deferLoading t \<and> (case td_inputExamples t of None \<Rightarrow> False | Some es \<Rightarrow> es \<noteq> [])
               then (Some DeferredWithExamples, r') else (None, r')))"

definition get_tool :: "registry \<Rightarrow> string \<Rightarrow> tool_def option" where
  "get_tool r n = map_of r n"

definition list_tools :: "registry \<Rightarrow> tool_def list" where
  "list_tools r = map snd r"

definition names :: "registry \<Rightarrow> string list" where
  "names r = map fst r"

definition fallbacksFor :: "registry \<Rightarrow> string \<Rightarrow> tool_def list" where
  "fallbacksFor r n =
     (case map_of r n of
        None \<Rightarrow> []
      | Some t \<Rightarrow> (case td_alternatives t of None \<Rightarrow> [] | Some alts \<Rightarrow> List.map_filter (map_of r) alts))"

section \<open>Calls\<close>

datatype error_code = ValidationError | CapabilityDenied | ExecutionError | PolicyDenied

text \<open>The error with the names its message mentions.\<close>

record tool_error =
  te_code :: error_code
  te_names :: "string list"

record tool_result =
  rs_callId :: string
  rs_toolName :: string
  rs_output :: json
  rs_untrusted :: bool
  rs_error :: "tool_error option"

record tool_call =
  cl_toolName :: string
  cl_args :: json
  cl_callId :: string

definition failed_result :: "tool_call \<Rightarrow> error_code \<Rightarrow> string list \<Rightarrow> tool_result" where
  "failed_result c code ns =
     \<lparr>rs_callId = cl_callId c, rs_toolName = cl_toolName c, rs_output = JNull, rs_untrusted = False,
      rs_error = Some \<lparr>te_code = code, te_names = ns\<rparr>\<rparr>"

definition missing_scopes :: "tool_def \<Rightarrow> agent_principal option \<Rightarrow> string list" where
  "missing_scopes t who =
     (let granted = (case who of None \<Rightarrow> [] | Some p \<Rightarrow> ap_grantedScopes p)
      in if td_readOnly t = Some True then []
         else (case td_writeScope t of None \<Rightarrow> [] | Some ss \<Rightarrow> filter (\<lambda>s. s \<notin> set granted) ss))"

text \<open>What becomes of the output of the body: the sanitizer, then the hook for the model.\<close>

definition shaped_output :: "tool_def \<Rightarrow> json \<Rightarrow> json \<Rightarrow> string + json" where
  "shaped_output t data raw =
     (case (case (td_trust t, td_sanitize t, raw) of
              (Some Untrusted, Some f, JStr s) \<Rightarrow> f s data
            | _ \<Rightarrow> Inr raw) of
        Inl e \<Rightarrow> Inl e
      | Inr output \<Rightarrow> (case td_toModelOutput t of None \<Rightarrow> Inr output | Some g \<Rightarrow> g raw))"

text \<open>The result, and the data the body of the tool was run on, if it was run.\<close>

definition call_tool ::
  "registry \<Rightarrow> string list option \<Rightarrow> agent_principal option \<Rightarrow> tool_call \<Rightarrow> tool_result \<times> json option" where
  "call_tool r grantedCapabilities who c =
     (case map_of r (cl_toolName c) of
        None \<Rightarrow> (failed_result c ExecutionError (names r), None)
      | Some t \<Rightarrow>
          (let granted = (case grantedCapabilities of None \<Rightarrow> [] | Some gs \<Rightarrow> gs)
           in if truthy (td_requiredCapability t) \<and> the (td_requiredCapability t) \<notin> set granted
              then (failed_result c CapabilityDenied [the (td_requiredCapability t)], None)
              else if missing_scopes t who \<noteq> [] then (failed_result c CapabilityDenied (missing_scopes t who), None)
              else
                (case the (td_parse t) (cl_args c) of
                   Inl wrong \<Rightarrow> (failed_result c ValidationError wrong, None)
                 | Inr data \<Rightarrow>
                     (case (case td_forward t data of Inl e \<Rightarrow> Inl e | Inr raw \<Rightarrow> shaped_output t data raw) of
                        Inl e \<Rightarrow> (failed_result c ExecutionError [e], Some data)
                      | Inr output \<Rightarrow>
                          (\<lparr>rs_callId = cl_callId c, rs_toolName = cl_toolName c, rs_output = output,
                            rs_untrusted = (td_trust t = Some Untrusted), rs_error = None\<rparr>, Some data)))))"

section \<open>The policy gate\<close>

datatype policy_decision =
    AllowCall
  | DenyCall "string list" string
  | ConfirmCall string string

definition gated_call ::
  "registry \<Rightarrow> (string \<times> policy_decision) list \<Rightarrow> string list option \<Rightarrow> agent_principal option \<Rightarrow> tool_call \<Rightarrow> tool_result \<times> json option" where
  "gated_call r decisions grantedCapabilities who c =
     (case map_of decisions (cl_callId c) of
        Some (DenyCall ruleIds reason) \<Rightarrow> (failed_result c PolicyDenied (ruleIds @ [reason]), None)
      | _ \<Rightarrow> call_tool r grantedCapabilities who c)"

section \<open>The schemas handed to the model\<close>

text \<open>A stable sort by the order of \<open>localeCompare\<close>.\<close>

fun insert_by :: "(string \<Rightarrow> string \<Rightarrow> bool) \<Rightarrow> tool_def \<Rightarrow> tool_def list \<Rightarrow> tool_def list" where
  "insert_by le t [] = [t]"
| "insert_by le t (u # us) = (if le (td_name t) (td_name u) then t # u # us else u # insert_by le t us)"

definition sort_by :: "(string \<Rightarrow> string \<Rightarrow> bool) \<Rightarrow> tool_def list \<Rightarrow> tool_def list" where
  "sort_by le ts = foldr (insert_by le) ts []"

definition input_schema :: "(tool_def \<Rightarrow> json) \<Rightarrow> tool_def \<Rightarrow> json" where
  "input_schema zod_schema t =
     (case td_rawInputJsonSchema t of Some s \<Rightarrow> s | None \<Rightarrow> if td_parse t \<noteq> None then zod_schema t else JObj [])"

definition tool_schema :: "(tool_def \<Rightarrow> json) \<Rightarrow> bool \<Rightarrow> tool_def \<Rightarrow> json" where
  "tool_schema zod_schema short t =
     JObj ([(''name'', JStr (td_name t)),
            (''description'', JStr (if short \<and> truthy (td_descriptionCompressed t) then the (td_descriptionCompressed t) else td_description t)),
            (''input_schema'', input_schema zod_schema t)] @
           (case td_inputExamples t of None \<Rightarrow> [] | Some es \<Rightarrow> if es = [] then [] else [(''input_examples'', JArr es)]) @
           (case td_allowedCallers t of None \<Rightarrow> [] | Some cs \<Rightarrow> if cs = [] then [] else [(''allowed_callers'', JArr (map JStr cs))]))"

definition toJsonSchema :: "(string \<Rightarrow> string \<Rightarrow> bool) \<Rightarrow> (tool_def \<Rightarrow> json) \<Rightarrow> bool \<Rightarrow> registry \<Rightarrow> json list" where
  "toJsonSchema le zod_schema short r =
     map (tool_schema zod_schema short) (sort_by le (filter (\<lambda>t. \<not> td_deferLoading t) (list_tools r)))"

definition toDeferredJsonSchema :: "(string \<Rightarrow> string \<Rightarrow> bool) \<Rightarrow> (tool_def \<Rightarrow> json) \<Rightarrow> registry \<Rightarrow> json list" where
  "toDeferredJsonSchema le zod_schema r =
     map (\<lambda>t. JObj [(''name'', JStr (td_name t)),
                    (''description'', JStr (case td_descriptionCompressed t of Some d \<Rightarrow> d | None \<Rightarrow> td_description t)),
                    (''input_schema'', input_schema zod_schema t)])
       (sort_by le (filter td_deferLoading (list_tools r)))"

definition hasDeferred :: "registry \<Rightarrow> bool" where
  "hasDeferred r = list_ex td_deferLoading (list_tools r)"

definition hasProgrammaticCallers :: "registry \<Rightarrow> bool" where
  "hasProgrammaticCallers r = list_ex (\<lambda>t. case td_allowedCallers t of None \<Rightarrow> False | Some cs \<Rightarrow> cs \<noteq> []) (list_tools r)"

section \<open>Lemmas\<close>

text \<open>A registry as registration builds it.\<close>

definition registry_ok :: "registry \<Rightarrow> bool" where
  "registry_ok r \<longleftrightarrow>
     distinct (map fst r) \<and>
     (\<forall>(n, t) \<in> set r. td_name t = n \<and> td_readOnly t \<noteq> None \<and> td_idempotent t \<noteq> None \<and> td_parse t \<noteq> None)"

lemma register_ok: "registry_ok r \<Longrightarrow> registry_ok (snd (register t r))"
proof -
  assume r: "registry_ok r"
  show ?thesis
  proof (cases "map_of r (td_name t) = None \<and> td_readOnly t \<noteq> None \<and> td_idempotent t \<noteq> None \<and> td_parse t \<noteq> None")
    case True
    then have "AList.update (td_name t) t r = r @ [(td_name t, t)]" by (intro update_absent) (simp add: map_of_eq_None_iff)
    then show ?thesis using r True by (auto simp: register_def Let_def registry_ok_def map_of_eq_None_iff)
  qed (use r in \<open>auto simp: register_def\<close>)
qed

interpretation registry: kept_invariant "\<lambda>r t. snd (register t r)" registry_ok
  by unfold_locales (rule register_ok)

definition denied :: "(string \<times> policy_decision) list \<Rightarrow> tool_call \<Rightarrow> bool" where
  "denied decisions c \<longleftrightarrow> (\<exists>ids reason. map_of decisions (cl_callId c) = Some (DenyCall ids reason))"

definition scopes_granted :: "tool_def \<Rightarrow> agent_principal option \<Rightarrow> bool" where
  "scopes_granted t who \<longleftrightarrow>
     td_readOnly t = Some True \<or>
     (\<forall>ss s. td_writeScope t = Some ss \<longrightarrow> s \<in> set ss \<longrightarrow> (\<exists>p. who = Some p \<and> s \<in> set (ap_grantedScopes p)))"

lemma missing_none: "missing_scopes t who = [] \<longleftrightarrow> scopes_granted t who"
  by (auto simp: missing_scopes_def scopes_granted_def Let_def filter_empty_conv split: option.splits)

definition capability_granted :: "tool_def \<Rightarrow> string list option \<Rightarrow> bool" where
  "capability_granted t granted \<longleftrightarrow>
     (\<forall>cap. td_requiredCapability t = Some cap \<longrightarrow> cap \<noteq> [] \<longrightarrow> (\<exists>gs. granted = Some gs \<and> cap \<in> set gs))"

lemma capability_iff:
  "truthy (td_requiredCapability t) \<and> the (td_requiredCapability t) \<notin> set (case granted of None \<Rightarrow> [] | Some gs \<Rightarrow> gs) \<longleftrightarrow>
     \<not> capability_granted t granted"
  by (auto simp: capability_granted_def truthy_def split: option.splits)

lemma gated_cases:
  "gated_call r decisions granted who c = (if denied decisions c then gated_call r decisions granted who c else call_tool r granted who c)"
  by (auto simp: gated_call_def denied_def split: option.splits policy_decision.splits)

lemma denied_call:
  "denied decisions c \<Longrightarrow>
     snd (gated_call r decisions granted who c) = None \<and> rs_output (fst (gated_call r decisions granted who c)) = JNull \<and>
     map_option te_code (rs_error (fst (gated_call r decisions granted who c))) = Some PolicyDenied"
  by (auto simp: gated_call_def denied_def failed_result_def)

lemma call_runs:
  "snd (call_tool r granted who c) = Some d \<longleftrightarrow>
     (\<exists>t. map_of r (cl_toolName c) = Some t \<and> capability_granted t granted \<and> scopes_granted t who \<and>
        the (td_parse t) (cl_args c) = Inr d)"
proof (cases "map_of r (cl_toolName c)")
  case (Some t)
  show ?thesis
    unfolding call_tool_def Some option.case Let_def capability_iff missing_none [symmetric] not_not
    by (auto simp: Some split: sum.splits)
qed (simp add: call_tool_def)

lemma call_not_run:
  "snd (call_tool r granted who c) = None \<Longrightarrow> rs_error (fst (call_tool r granted who c)) \<noteq> None \<and> rs_output (fst (call_tool r granted who c)) = JNull"
  by (auto simp: call_tool_def failed_result_def Let_def split: option.splits if_splits sum.splits)

section \<open>Properties\<close>

text \<open>
  C30. The body of a tool runs, on the parsed arguments, exactly when the policy port did not deny the
  call, the tool is registered, its capability is granted, a writing tool has every scope it needs,
  and the arguments parse. A call whose body does not run has an error and no output.
\<close>
theorem body_runs_exactly_when_allowed:
  "(snd (gated_call r decisions granted who c) = Some d \<longleftrightarrow>
      \<not> denied decisions c \<and>
      (\<exists>t. map_of r (cl_toolName c) = Some t \<and> capability_granted t granted \<and> scopes_granted t who \<and>
         the (td_parse t) (cl_args c) = Inr d)) \<and>
   (snd (gated_call r decisions granted who c) = None \<longrightarrow>
      rs_error (fst (gated_call r decisions granted who c)) \<noteq> None \<and> rs_output (fst (gated_call r decisions granted who c)) = JNull)"
proof (cases "denied decisions c")
  case True
  then show ?thesis using denied_call [OF True, of r granted who] by auto
next
  case False
  then have "gated_call r decisions granted who c = call_tool r granted who c" using gated_cases by metis
  then show ?thesis using False call_runs call_not_run by simp
qed

definition demo_tool :: tool_def where
  "demo_tool =
     \<lparr>td_name = ''fetch'', td_description = ''d'', td_descriptionCompressed = None, td_readOnly = Some False,
      td_idempotent = Some True, td_parse = Some (\<lambda>v. Inr v), td_rawInputJsonSchema = None, td_alternatives = None,
      td_requiredCapability = Some ''net'', td_writeScope = Some [''w''], td_deferLoading = True, td_inputExamples = None,
      td_allowedCallers = None, td_trust = Some Untrusted, td_sanitize = Some (\<lambda>s d. Inr (JStr ''clean'')),
      td_toModelOutput = None, td_needsApproval = (\<lambda>v. False), td_resourceKey = (\<lambda>v. None), td_forward = (\<lambda>d. Inr (JStr ''raw''))\<rparr>"

definition demo_call :: tool_call where
  "demo_call = \<lparr>cl_toolName = ''fetch'', cl_args = JNull, cl_callId = ''1''\<rparr>"

theorem body_runs_exactly_when_allowed_witness:
  "snd (gated_call [(''fetch'', demo_tool)] [] (Some [''net'']) None demo_call) = None \<and>
   rs_error (fst (gated_call [(''fetch'', demo_tool)] [] (Some [''net'']) None demo_call)) \<noteq> None"
proof -
  have "snd (gated_call [(''fetch'', demo_tool)] [] (Some [''net'']) None demo_call) = None" by code_simp
  then show ?thesis
    using body_runs_exactly_when_allowed [of "[(''fetch'', demo_tool)]" "[]" "Some [''net'']" None demo_call] by simp
qed

text \<open>A deferred tool with examples is refused with an error, but it is registered and can be called.\<close>

lemma refused_tool_is_registered:
  "register (demo_tool\<lparr>td_inputExamples := Some [JNull]\<rparr>) [] =
     (Some DeferredWithExamples, [(''fetch'', demo_tool\<lparr>td_inputExamples := Some [JNull]\<rparr>)])"
  by (simp add: register_def demo_tool_def Let_def)

text \<open>The hook for the model gets the raw output: what the sanitizer returned is dropped.\<close>

lemma model_hook_bypasses_sanitizer:
  "shaped_output demo_tool d (JStr ''raw'') = Inr (JStr ''clean'') \<and>
   shaped_output (demo_tool\<lparr>td_toModelOutput := Some Inr\<rparr>) d (JStr ''raw'') = Inr (JStr ''raw'')"
  by (simp add: shaped_output_def demo_tool_def)

end
