(* ===== verification/Tool_Schema.thy ===== *)
theory Tool_Schema
  imports Wa_Prelude
begin

text \<open>
  The rewriting of tool schemas (packages/core/src/tools/ToolRegistry.ts): the bounds of draft 04 to
  those of draft 2020-12, and the strict form that OpenAI accepts. A schema is a JSON value whose
  objects have distinct keys; the numbers in it are integers.
\<close>

section \<open>Bounds\<close>

text \<open>One of the two \<open>if\<close>s of \<open>normaliseExclusiveBounds\<close>.\<close>

definition fix_bound :: "string \<Rightarrow> string \<Rightarrow> (string \<times> json) list \<Rightarrow> (string \<times> json) list" where
  "fix_bound exclusive limit obj =
     (case (map_of obj exclusive, map_of obj limit) of
        (Some (JBool True), Some (JNum n)) \<Rightarrow> AList.delete limit (AList.update exclusive (JNum n) obj)
      | (Some (JBool False), _) \<Rightarrow> AList.delete exclusive obj
      | _ \<Rightarrow> obj)"

definition fix_bounds :: "(string \<times> json) list \<Rightarrow> (string \<times> json) list" where
  "fix_bounds obj = fix_bound ''exclusiveMaximum'' ''maximum'' (fix_bound ''exclusiveMinimum'' ''minimum'' obj)"

lemma delete_sub: "set (AList.delete k m) \<subseteq> set m"
  by (auto simp: AList.delete_eq)

lemma update_sub: "set (AList.update k v m) \<subseteq> insert (k, v) (set m)"
  by (induction m) auto

lemma fix_bound_sub: "(k, v) \<in> set (fix_bound e l obj) \<Longrightarrow> (k, v) \<in> set obj \<or> (\<exists>n. v = JNum n)"
  using delete_sub update_sub
  by (fastforce simp: fix_bound_def split: option.splits json.splits bool.splits)

lemma fix_bounds_sub: "(k, v) \<in> set (fix_bounds obj) \<Longrightarrow> (k, v) \<in> set obj \<or> (\<exists>n. v = JNum n)"
  using fix_bound_sub unfolding fix_bounds_def by blast

lemma member_size: "(k, v) \<in> set kvs \<Longrightarrow> size v < size (JObj kvs)"
  by (induction kvs) auto

function normaliseExclusiveBounds :: "json \<Rightarrow> json" where
  "normaliseExclusiveBounds (JArr xs) = JArr (map normaliseExclusiveBounds xs)"
| "normaliseExclusiveBounds (JObj obj) = JObj (map (\<lambda>(k, v). (k, normaliseExclusiveBounds v)) (fix_bounds obj))"
| "normaliseExclusiveBounds JUndef = JUndef"
| "normaliseExclusiveBounds JNull = JNull"
| "normaliseExclusiveBounds (JBool b) = JBool b"
| "normaliseExclusiveBounds (JNum n) = JNum n"
| "normaliseExclusiveBounds (JStr s) = JStr s"
  by pat_completeness auto
termination
proof (relation "measure size", goal_cases)
  case (3 obj kv k v)
  then show ?case using fix_bounds_sub [of k v obj] member_size [of k v obj] by auto
qed (auto simp: size_list_estimation less_Suc_eq_le size_list_estimation')

section \<open>The strict form\<close>

definition bind_sum :: "'e + 'a \<Rightarrow> ('a \<Rightarrow> 'e + 'b) \<Rightarrow> 'e + 'b" where
  "bind_sum m f = (case m of Inl e \<Rightarrow> Inl e | Inr x \<Rightarrow> f x)"

lemma bind_sum_simps [simp]: "bind_sum (Inl e) f = Inl e" "bind_sum (Inr x) f = f x"
  by (simp_all add: bind_sum_def)

lemma bind_sum_Inr: "bind_sum m f = Inr y \<longleftrightarrow> (\<exists>x. m = Inr x \<and> f x = Inr y)"
  by (cases m) auto

lemma bind_sum_cong [fundef_cong]: "m = m' \<Longrightarrow> (\<And>x. m' = Inr x \<Longrightarrow> f x = g x) \<Longrightarrow> bind_sum m f = bind_sum m' g"
  by (cases m') auto

fun traverse :: "('a \<Rightarrow> 'e + 'b) \<Rightarrow> 'a list \<Rightarrow> 'e + 'b list" where
  "traverse f [] = Inr []"
| "traverse f (x # xs) = bind_sum (f x) (\<lambda>y. bind_sum (traverse f xs) (\<lambda>ys. Inr (y # ys)))"

lemma traverse_cong [fundef_cong]: "xs = ys \<Longrightarrow> (\<And>x. x \<in> set ys \<Longrightarrow> f x = g x) \<Longrightarrow> traverse f xs = traverse g ys"
  by (induction ys arbitrary: xs) auto

lemma traverse_Inr: "traverse f xs = Inr ys \<longleftrightarrow> list_all2 (\<lambda>x y. f x = Inr y) xs ys"
  by (induction xs arbitrary: ys) (auto simp: bind_sum_Inr list_all2_Cons1)

datatype schema_error = NestingTooDeep

text \<open>\<open>{ ...v }\<close>: the elements of an array become members named by their index.\<close>

definition spread_members :: "json \<Rightarrow> (string \<times> json) list" where
  "spread_members v =
     (case v of JObj kvs \<Rightarrow> kvs | JArr xs \<Rightarrow> map (\<lambda>i. (nat_str i, xs ! i)) [0..<length xs] | _ \<Rightarrow> [])"

definition is_object :: "json \<Rightarrow> bool" where
  "is_object v = (case v of JObj kvs \<Rightarrow> True | JArr xs \<Rightarrow> True | _ \<Rightarrow> False)"

definition member :: "(string \<times> json) list \<Rightarrow> string \<Rightarrow> json" where
  "member m k = (case map_of m k of None \<Rightarrow> JUndef | Some v \<Rightarrow> v)"

definition required_keys :: "(string \<times> json) list \<Rightarrow> json list" where
  "required_keys m = (case member m ''required'' of JArr ks \<Rightarrow> ks | _ \<Rightarrow> [])"

definition already_nullable :: "(string \<times> json) list \<Rightarrow> bool" where
  "already_nullable m =
     (case member m ''anyOf'' of
        JArr xs \<Rightarrow> list_ex (\<lambda>s. member (spread_members s) ''type'' = JStr ''null'') xs
      | _ \<Rightarrow> False)"

definition nullable :: "bool \<Rightarrow> (string \<times> json) list \<Rightarrow> (string \<times> json) list" where
  "nullable isOptional m =
     (let p = AList.delete ''default'' m
      in if isOptional \<and> \<not> already_nullable p
         then [(''anyOf'', JArr [JObj p, JObj [(''type'', JStr ''null'')]])] else p)"

definition MAX_SCHEMA_DEPTH :: nat where "MAX_SCHEMA_DEPTH = 5"

definition seal_object :: "(string \<times> json) list \<Rightarrow> (string \<times> json) list \<Rightarrow> (string \<times> json) list" where
  "seal_object result newProps =
     AList.delete ''default''
       (AList.update ''additionalProperties'' (JBool False)
         (AList.update ''required'' (JArr (map (\<lambda>(k, v). JStr k) newProps))
           (AList.update ''properties'' (JObj newProps) result)))"

text \<open>The members named \<open>k\<close> rewritten, when there is an array under it.\<close>

definition union_at :: "(json \<Rightarrow> schema_error + json) \<Rightarrow> (string \<times> json) list \<Rightarrow> string \<Rightarrow> schema_error + (string \<times> json) list" where
  "union_at f m k =
     (case member m k of
        JArr xs \<Rightarrow> bind_sum (traverse f xs) (\<lambda>ys. Inr (AList.update k (JArr ys) m))
      | _ \<Rightarrow> Inr m)"

lemma union_at_cong [fundef_cong]:
  "m = m' \<Longrightarrow> k = k' \<Longrightarrow> (\<And>x. f x = g x) \<Longrightarrow> union_at f m k = union_at g m' k'"
  by (auto simp: union_at_def intro!: bind_sum_cong traverse_cong split: json.splits)

function strictifySchema :: "json \<Rightarrow> nat \<Rightarrow> schema_error + json" where
  "strictifySchema schema depth =
     (if MAX_SCHEMA_DEPTH < depth then Inl NestingTooDeep
      else
        bind_sum
          (let m = spread_members schema
           in if member m ''type'' = JStr ''array'' \<and> is_object (member m ''items'')
              then bind_sum (strictifySchema (member m ''items'') (depth + 1)) (\<lambda>v. Inr (AList.update ''items'' v m))
              else Inr m)
          (\<lambda>m0. bind_sum (union_at (\<lambda>s. strictifySchema s (depth + 1)) m0 ''allOf'')
          (\<lambda>m1. bind_sum (union_at (\<lambda>s. strictifySchema s (depth + 1)) m1 ''anyOf'')
          (\<lambda>m2. bind_sum (union_at (\<lambda>s. strictifySchema s (depth + 1)) m2 ''oneOf'')
          (\<lambda>m3.
             if member m3 ''type'' \<noteq> JStr ''object'' \<or> \<not> is_object (member m3 ''properties'')
             then Inr (JObj (AList.delete ''default'' m3))
             else
               bind_sum
                 (traverse (\<lambda>(k, s). bind_sum (strictifySchema s (depth + 1))
                    (\<lambda>v. Inr (k, JObj (nullable (JStr k \<notin> set (required_keys m3)) (spread_members v)))))
                    (spread_members (member m3 ''properties'')))
                 (\<lambda>newProps. Inr (JObj (seal_object m3 newProps))))))))"
  by pat_completeness auto
termination
  by (relation "measure (\<lambda>(_, depth). Suc MAX_SCHEMA_DEPTH - depth)") auto

declare strictifySchema.simps [simp del]

section \<open>Lemmas: members\<close>

lemma member_update: "member (AList.update k v m) k' = (if k' = k then v else member m k')"
  by (simp add: member_def update_conv)

lemma member_delete: "member (AList.delete k m) k' = (if k' = k then JUndef else member m k')"
  by (simp add: member_def delete_conv)

lemmas member_simps = member_update member_delete

lemma member_map: "f JUndef = JUndef \<Longrightarrow> member (map (\<lambda>(k, v). (k, f v)) m) k = f (member m k)"
  by (induction m) (auto simp: member_def)

section \<open>Lemmas: bounds\<close>

fun all_nodes :: "((string \<times> json) list \<Rightarrow> bool) \<Rightarrow> json \<Rightarrow> bool" where
  "all_nodes P (JArr xs) = list_all (all_nodes P) xs"
| "all_nodes P (JObj kvs) = (P kvs \<and> list_all (\<lambda>(k, v). all_nodes P v) kvs)"
| "all_nodes P v = True"

definition bound_ok :: "string \<Rightarrow> string \<Rightarrow> (string \<times> json) list \<Rightarrow> bool" where
  "bound_ok e l m \<longleftrightarrow> member m e \<noteq> JBool False \<and> \<not> (member m e = JBool True \<and> (\<exists>n. member m l = JNum n))"

definition bounds_ok :: "(string \<times> json) list \<Rightarrow> bool" where
  "bounds_ok m \<longleftrightarrow> bound_ok ''exclusiveMinimum'' ''minimum'' m \<and> bound_ok ''exclusiveMaximum'' ''maximum'' m"

lemma fix_bound_alt:
  "fix_bound e l m =
     (if member m e = JBool False then AList.delete e m
      else if member m e = JBool True \<and> (\<exists>n. member m l = JNum n) then AList.delete l (AList.update e (member m l) m)
      else m)"
proof (cases "map_of m e")
  case (Some v)
  then show ?thesis by (cases v; cases "map_of m l") (auto simp: fix_bound_def member_def split: json.splits bool.splits)
qed (simp add: fix_bound_def member_def)

lemma fix_bound_member:
  assumes "e \<noteq> l"
  shows "member (fix_bound e l m) k =
     (if k = e then (if member m e = JBool False then JUndef
                     else if member m e = JBool True \<and> (\<exists>n. member m l = JNum n) then member m l else member m e)
      else if k = l \<and> member m e = JBool True \<and> (\<exists>n. member m l = JNum n) then JUndef
      else member m k)"
  using assms by (auto simp: fix_bound_alt member_simps)

lemma fix_bounds_member:
  "member (fix_bounds m) ''exclusiveMinimum'' = member (fix_bound ''exclusiveMinimum'' ''minimum'' m) ''exclusiveMinimum''"
  "member (fix_bounds m) ''minimum'' = member (fix_bound ''exclusiveMinimum'' ''minimum'' m) ''minimum''"
  "member (fix_bounds m) ''exclusiveMaximum'' = member (fix_bound ''exclusiveMaximum'' ''maximum'' m) ''exclusiveMaximum''"
  "member (fix_bounds m) ''maximum'' = member (fix_bound ''exclusiveMaximum'' ''maximum'' m) ''maximum''"
  by (auto simp: fix_bounds_def fix_bound_member)

lemma fix_bound_ok: "e \<noteq> l \<Longrightarrow> bound_ok e l (fix_bound e l m)"
  by (auto simp: bound_ok_def fix_bound_member)

lemma fix_bounds_ok: "bounds_ok (fix_bounds m)"
  using fix_bound_ok [of "''exclusiveMinimum''" "''minimum''" m] fix_bound_ok [of "''exclusiveMaximum''" "''maximum''" m]
  by (simp add: bounds_ok_def bound_ok_def fix_bounds_member)

lemma normalise_flat:
  "normaliseExclusiveBounds v = JBool b \<longleftrightarrow> v = JBool b" "normaliseExclusiveBounds v = JNum n \<longleftrightarrow> v = JNum n"
  by (cases v; simp)+

lemma bounds_ok_map: "bounds_ok (map (\<lambda>(k, v). (k, normaliseExclusiveBounds v)) m) = bounds_ok m"
  by (simp add: bounds_ok_def bound_ok_def member_map normalise_flat)

lemma normalised: "all_nodes bounds_ok (normaliseExclusiveBounds v)"
proof (induction v rule: normaliseExclusiveBounds.induct)
  case (2 obj)
  then show ?case using fix_bounds_ok [of obj] by (auto simp: list_all_iff bounds_ok_map)
qed (simp_all add: list_all_iff)

text \<open>The integers a node admits by its bounds, read by draft 04 and by draft 2020-12.\<close>

definition admits_04 :: "(string \<times> json) list \<Rightarrow> int \<Rightarrow> bool" where
  "admits_04 m n \<longleftrightarrow>
     (\<forall>b. member m ''minimum'' = JNum b \<longrightarrow> (if member m ''exclusiveMinimum'' = JBool True then b < n else b \<le> n)) \<and>
     (\<forall>b. member m ''maximum'' = JNum b \<longrightarrow> (if member m ''exclusiveMaximum'' = JBool True then n < b else n \<le> b))"

definition admits_2020 :: "(string \<times> json) list \<Rightarrow> int \<Rightarrow> bool" where
  "admits_2020 m n \<longleftrightarrow>
     (\<forall>b. member m ''minimum'' = JNum b \<longrightarrow> b \<le> n) \<and> (\<forall>b. member m ''exclusiveMinimum'' = JNum b \<longrightarrow> b < n) \<and>
     (\<forall>b. member m ''maximum'' = JNum b \<longrightarrow> n \<le> b) \<and> (\<forall>b. member m ''exclusiveMaximum'' = JNum b \<longrightarrow> n < b)"

definition draft_04 :: "(string \<times> json) list \<Rightarrow> bool" where
  "draft_04 m \<longleftrightarrow>
     (\<forall>n. member m ''exclusiveMinimum'' \<noteq> JNum n) \<and> (\<forall>n. member m ''exclusiveMaximum'' \<noteq> JNum n)"

lemma admits_map: "admits_2020 (map (\<lambda>(k, v). (k, normaliseExclusiveBounds v)) m) n = admits_2020 m n"
  by (simp add: admits_2020_def member_map normalise_flat)

lemma fix_admits: "draft_04 m \<Longrightarrow> admits_2020 (fix_bounds m) n = admits_04 m n"
  by (auto simp: admits_2020_def admits_04_def draft_04_def fix_bounds_member fix_bound_member)

section \<open>Lemmas: strict schemas\<close>

inductive strict :: "json \<Rightarrow> bool" where
  strict_object:
    "map_of m ''default'' = None \<Longrightarrow>
     (member m ''type'' = JStr ''array'' \<Longrightarrow> is_object (member m ''items'') \<Longrightarrow> strict (member m ''items'')) \<Longrightarrow>
     (\<And>k xs x. k \<in> {''allOf'', ''anyOf'', ''oneOf''} \<Longrightarrow> member m k = JArr xs \<Longrightarrow> x \<in> set xs \<Longrightarrow> strict x) \<Longrightarrow>
     (\<And>ps. member m ''type'' = JStr ''object'' \<Longrightarrow> member m ''properties'' = JObj ps \<Longrightarrow>
        member m ''additionalProperties'' = JBool False \<and> member m ''required'' = JArr (map (\<lambda>(k, v). JStr k) ps)) \<Longrightarrow>
     (\<And>ps k v. member m ''type'' = JStr ''object'' \<Longrightarrow> member m ''properties'' = JObj ps \<Longrightarrow> (k, v) \<in> set ps \<Longrightarrow> strict v) \<Longrightarrow>
     strict (JObj m)"

lemma strict_type: "strict (JObj [(''type'', JStr ''null'')])"
  by (rule strict_object) (auto simp: member_def split: if_splits)

lemma strict_wrap: "strict (JObj p) \<Longrightarrow> strict (JObj [(''anyOf'', JArr [JObj p, JObj [(''type'', JStr ''null'')]])])"
  by (rule strict_object) (auto simp: member_def strict_type split: if_splits)

lemma delete_absent: "map_of m k = None \<Longrightarrow> AList.delete k m = m"
  by (rule delete_id) (simp add: map_of_eq_None_iff)

lemma strict_nullable: "strict (JObj m) \<Longrightarrow> strict (JObj (nullable opt m))"
proof -
  assume s: "strict (JObj m)"
  then have "map_of m ''default'' = None" by cases simp
  then show ?thesis using s strict_wrap by (simp add: nullable_def Let_def delete_absent)
qed

definition part_strict :: "(string \<times> json) list \<Rightarrow> bool" where
  "part_strict m \<longleftrightarrow>
     (member m ''type'' = JStr ''array'' \<longrightarrow> is_object (member m ''items'') \<longrightarrow> strict (member m ''items''))"

definition union_strict :: "(string \<times> json) list \<Rightarrow> string \<Rightarrow> bool" where
  "union_strict m k \<longleftrightarrow> (\<forall>xs. member m k = JArr xs \<longrightarrow> (\<forall>x \<in> set xs. strict x))"

lemma union_at_strict:
  assumes "union_at f m k = Inr m'" "\<And>x y. f x = Inr y \<Longrightarrow> strict y"
  shows "union_strict m' k \<and> (\<forall>j. j \<noteq> k \<longrightarrow> member m' j = member m j)"
proof (cases "\<exists>xs. member m k = JArr xs")
  case True
  then obtain xs ys where "member m k = JArr xs" "traverse f xs = Inr ys" "m' = AList.update k (JArr ys) m"
    using assms(1) by (auto simp: union_at_def bind_sum_Inr)
  moreover have "strict y" if "y \<in> set ys" for y
  proof -
    obtain i where "i < length ys" "y = ys ! i" using \<open>y \<in> set ys\<close> by (auto simp: in_set_conv_nth)
    then have "f (xs ! i) = Inr y" using calculation(2) by (auto simp: traverse_Inr list_all2_conv_all_nth)
    then show ?thesis by (rule assms(2))
  qed
  ultimately show ?thesis by (simp add: union_strict_def member_simps)
next
  case False
  then have "m' = m" using assms(1) by (auto simp: union_at_def split: json.splits)
  then show ?thesis using False by (simp add: union_strict_def)
qed

text \<open>The last step of an object: its properties are rewritten and closed.\<close>

lemma seal_member:
  "member (seal_object m ps) k =
     (if k = ''default'' then JUndef else if k = ''additionalProperties'' then JBool False
      else if k = ''required'' then JArr (map (\<lambda>(k, v). JStr k) ps) else if k = ''properties'' then JObj ps else member m k)"
  by (simp add: seal_object_def member_simps)

lemma seal_default: "map_of (seal_object m ps) ''default'' = None" "map_of (AList.delete ''default'' m) ''default'' = None"
  by (simp_all add: seal_object_def delete_conv)

lemma close_strict:
  assumes "part_strict m" "union_strict m ''allOf''" "union_strict m ''anyOf''" "union_strict m ''oneOf''" "\<And>k v. (k, v) \<in> set ps \<Longrightarrow> strict v"
  shows "strict (JObj (seal_object m ps))"
  using assms by (intro strict_object) (auto simp: seal_member seal_default part_strict_def union_strict_def)

lemma open_strict:
  assumes "part_strict m" "union_strict m ''allOf''" "union_strict m ''anyOf''" "union_strict m ''oneOf''"
    and "member m ''type'' \<noteq> JStr ''object'' \<or> \<not> is_object (member m ''properties'')"
  shows "strict (JObj (AList.delete ''default'' m))"
  using assms by (intro strict_object) (auto simp: member_simps seal_default part_strict_def union_strict_def is_object_def)

lemma all2_right: "list_all2 R xs ys \<Longrightarrow> y \<in> set ys \<Longrightarrow> \<exists>x. R x y"
  by (induction rule: list_all2_induct) auto

lemma strictify_step:
  assumes IH: "\<And>s r. strictifySchema s (depth + 1) = Inr r \<Longrightarrow> strict r \<and> (\<exists>m. r = JObj m)"
    and S: "strictifySchema schema depth = Inr r"
  shows "strict r \<and> (\<exists>m. r = JObj m)"
proof -
  let ?m = "spread_members schema" and ?f = "\<lambda>s. strictifySchema s (depth + 1)"
  have f: "\<And>x y. ?f x = Inr y \<Longrightarrow> strict y" using IH by blast
  have d: "\<not> MAX_SCHEMA_DEPTH < depth" using S by (auto simp: strictifySchema.simps [of schema depth] split: if_splits)
  note S' = S [unfolded strictifySchema.simps [of schema depth] if_not_P [OF d] Let_def bind_sum_Inr]
  obtain m0 m1 m2 m3 where m0: "(if member ?m ''type'' = JStr ''array'' \<and> is_object (member ?m ''items'')
              then bind_sum (?f (member ?m ''items'')) (\<lambda>v. Inr (AList.update ''items'' v ?m)) else Inr ?m) = Inr m0"
    and m1: "union_at ?f m0 ''allOf'' = Inr m1" and m2: "union_at ?f m1 ''anyOf'' = Inr m2" and m3: "union_at ?f m2 ''oneOf'' = Inr m3"
    and r: "(if member m3 ''type'' \<noteq> JStr ''object'' \<or> \<not> is_object (member m3 ''properties'')
             then Inr (JObj (AList.delete ''default'' m3))
             else bind_sum
                 (traverse (\<lambda>(k, s). bind_sum (?f s)
                    (\<lambda>v. Inr (k, JObj (nullable (JStr k \<notin> set (required_keys m3)) (spread_members v)))))
                    (spread_members (member m3 ''properties'')))
                 (\<lambda>newProps. Inr (JObj (seal_object m3 newProps)))) = Inr r"
    using S' by blast
  have p0: "part_strict m0" using m0 f by (auto simp: part_strict_def bind_sum_Inr member_simps split: if_splits)
  note u = union_at_strict [OF m1 f] union_at_strict [OF m2 f] union_at_strict [OF m3 f]
  have p: "part_strict m3" using p0 u by (simp add: part_strict_def)
  have us: "union_strict m3 ''allOf''" "union_strict m3 ''anyOf''" "union_strict m3 ''oneOf''"
    using u by (simp_all add: union_strict_def)
  show ?thesis
  proof (cases "member m3 ''type'' \<noteq> JStr ''object'' \<or> \<not> is_object (member m3 ''properties'')")
    case True
    then have "r = JObj (AList.delete ''default'' m3)" using r by simp
    then show ?thesis using open_strict [OF p us True] by simp
  next
    case False
    let ?g = "\<lambda>(k, s). bind_sum (?f s) (\<lambda>v. Inr (k, JObj (nullable (JStr k \<notin> set (required_keys m3)) (spread_members v))))"
    obtain ps where ps: "r = JObj (seal_object m3 ps)" "traverse ?g (spread_members (member m3 ''properties'')) = Inr ps"
      using r False by (auto simp: bind_sum_Inr)
    have "strict v" if "(k, v) \<in> set ps" for k v
    proof -
      have "list_all2 (\<lambda>x y. ?g x = Inr y) (spread_members (member m3 ''properties'')) ps" using ps(2) by (simp only: traverse_Inr)
      from all2_right [OF this that] obtain x where "?g x = Inr (k, v)" by blast
      then obtain s w where "?f s = Inr w" "v = JObj (nullable (JStr k \<notin> set (required_keys m3)) (spread_members w))"
        by (cases x) (auto simp: bind_sum_Inr)
      then show ?thesis using IH strict_nullable by (force simp: spread_members_def)
    qed
    then show ?thesis using ps(1) close_strict [OF p us] by blast
  qed
qed

lemma strictified: "strictifySchema schema depth = Inr r \<Longrightarrow> strict r \<and> (\<exists>m. r = JObj m)"
proof (induction n \<equiv> "Suc MAX_SCHEMA_DEPTH - depth" arbitrary: depth schema r)
  case 0
  then show ?case by (simp add: strictifySchema.simps [of schema depth])
next
  case (Suc n)
  have "strict s' \<and> (\<exists>m. s' = JObj m)" if "strictifySchema s (depth + 1) = Inr s'" for s s'
    by (rule Suc(1) [OF _ that]) (use Suc(2) in simp)
  then show ?case using Suc(3) by (rule strictify_step)
qed

section \<open>Properties\<close>

text \<open>
  A schema that comes back from the strict rewriting is strict throughout: no defaults, every
  object with properties closed, with all of them required, and the same for its properties, the
  items of its arrays and the members of its unions.
\<close>
theorem strict_form_is_strict:
  assumes "strictifySchema schema 0 = Inr r"
  shows "strict r"
  using strictified [OF assms] by blast

theorem strict_form_is_strict_witness:
  "strict (JObj [(''type'', JStr ''object''),
     (''properties'', JObj [(''a'', JObj [(''anyOf'', JArr [JObj [(''type'', JStr ''string'')], JObj [(''type'', JStr ''null'')]])])]),
     (''required'', JArr [JStr ''a'']), (''additionalProperties'', JBool False)])"
  by (rule strict_form_is_strict [of "JObj [(''type'', JStr ''object''),
     (''properties'', JObj [(''a'', JObj [(''type'', JStr ''string''), (''default'', JStr ''x'')])])]"]) code_simp

text \<open>
  The rewriting of bounds keeps their meaning: a node of draft 04 admits the same integers as its
  rewriting read by draft 2020-12, and no node is left with a boolean bound that has a number to
  take its place.
\<close>
theorem bounds_keep_meaning:
  assumes "draft_04 obj"
  shows "\<exists>obj'. normaliseExclusiveBounds (JObj obj) = JObj obj' \<and> admits_2020 obj' n = admits_04 obj n \<and>
    all_nodes bounds_ok (JObj obj')"
  using normalised [of "JObj obj"] by (auto simp: admits_map fix_admits [OF assms])

theorem bounds_keep_meaning_witness:
  "\<exists>obj'. normaliseExclusiveBounds (JObj [(''minimum'', JNum 0), (''exclusiveMinimum'', JBool True)]) = JObj obj' \<and>
     admits_2020 obj' 0 = admits_04 [(''minimum'', JNum 0), (''exclusiveMinimum'', JBool True)] 0 \<and>
     all_nodes bounds_ok (JObj obj')"
  by (rule bounds_keep_meaning) (simp add: draft_04_def member_def)

text \<open>The schema of a tuple, an array of schemas under \<open>items\<close>, becomes an object of index keys.\<close>

lemma tuple_items_broken:
  "strictifySchema (JObj [(''type'', JStr ''array''), (''items'', JArr [JObj [], JObj []])]) 0 =
     Inr (JObj [(''type'', JStr ''array''), (''items'', JObj [(''0'', JObj []), (''1'', JObj [])])])"
  by code_simp

end
