(* ===== verification/Stop_Conditions.thy ===== *)
theory Stop_Conditions
  imports Message_Assembler
begin

text \<open>
  Stop conditions of the agent loop (packages/core/src/agents/stopConditions.ts) and its token
  account (\<open>TokenBudget\<close> in packages/core/src/models/types.ts). A condition is a function of the step,
  the tokens spent and the calls of the earlier steps. \<open>Number(text)\<close> is an argument whose answers
  are integers; \<open>None\<close> is NaN.
\<close>

section \<open>Fingerprints of calls\<close>

text \<open>
  \<open>JSON.stringify(args, keys)\<close> with an array as its second argument lists, at every depth, the members
  whose names are in the array, in the order of the array.
\<close>

definition pick_keys :: "string list \<Rightarrow> (string \<times> json) list \<Rightarrow> (string \<times> json) list" where
  "pick_keys ks m = List.map_filter (\<lambda>k. map_option (\<lambda>v. (k, v)) (map_of m k)) ks"

fun keep_keys :: "string list \<Rightarrow> json \<Rightarrow> json" where
  "keep_keys ks (JArr vs) = JArr (map (keep_keys ks) vs)"
| "keep_keys ks (JObj m) = JObj (pick_keys ks (map (\<lambda>(k, v). (k, keep_keys ks v)) m))"
| "keep_keys ks v = v"

fun object_keys :: "json \<Rightarrow> string list" where
  "object_keys (JObj m) = map fst m"
| "object_keys v = []"

definition callFingerprint :: "string \<Rightarrow> json \<Rightarrow> string" where
  "callFingerprint name args = name @ '':'' @ json_stringify (keep_keys (sort (object_keys args)) args)"

section \<open>Conditions\<close>

record stop_context =
  sx_step :: nat
  sx_totalTokens :: nat
  sx_callHistory :: "string list list"

type_synonym stop_condition = "stop_context \<Rightarrow> bool"

definition stepCountIs :: "int \<Rightarrow> stop_condition" where
  "stepCountIs n ctx = (int (sx_step ctx) > n)"

text \<open>\<open>history.slice(-k)\<close>: the last \<open>k\<close>, everything for zero, all but the first \<open>-k\<close> for a negative \<open>k\<close>.\<close>

definition slice_last :: "int \<Rightarrow> 'a list \<Rightarrow> 'a list" where
  "slice_last k xs = (if k > 0 then drop (length xs - nat k) xs else drop (nat (- k)) xs)"

definition noProgress :: "int \<Rightarrow> stop_condition" where
  "noProgress k ctx =
     (let history = sx_callHistory ctx
      in if int (length history) < k then False
         else (let recent = slice_last k history
               in if list_ex (\<lambda>fp. fp = []) recent then False
                  else list_all (\<lambda>fp. json_stringify (JArr (map JStr fp)) =
                                      json_stringify (JArr (map JStr (hd recent)))) recent))"

definition costBudget :: "int \<Rightarrow> stop_condition" where
  "costBudget maxTokens ctx = (int (sx_totalTokens ctx) \<ge> maxTokens)"

section \<open>Descriptors\<close>

datatype policy_error = UnrecognisedDescriptor string | NotANumber string | UnrecognisedKey string string

definition parseStopPolicy :: "(string \<Rightarrow> int option) \<Rightarrow> string \<Rightarrow> policy_error + stop_condition" where
  "parseStopPolicy number_of desc =
     (let d = trim desc
      in if d = ''noProgress'' then Inr (noProgress 3)
         else if CHR '':'' \<notin> set d then Inl (UnrecognisedDescriptor d)
         else (let key = takeWhile (\<lambda>c. c \<noteq> CHR '':'') d
               in case number_of (drop (length key + 1) d) of
                    None \<Rightarrow> Inl (NotANumber d)
                  | Some n \<Rightarrow>
                      if key = ''steps'' \<or> key = ''stepCount'' then Inr (stepCountIs n)
                      else if key = ''cost'' \<or> key = ''costBudget'' then Inr (costBudget n)
                      else if key = ''noProgress'' then Inr (noProgress n)
                      else Inl (UnrecognisedKey key d)))"

fun parseStopPolicies :: "(string \<Rightarrow> int option) \<Rightarrow> string list \<Rightarrow> policy_error + stop_condition list" where
  "parseStopPolicies number_of [] = Inr []"
| "parseStopPolicies number_of (d # ds) =
     (case parseStopPolicy number_of d of
        Inl e \<Rightarrow> Inl e
      | Inr c \<Rightarrow> (case parseStopPolicies number_of ds of Inl e \<Rightarrow> Inl e | Inr cs \<Rightarrow> Inr (c # cs)))"

section \<open>The token account\<close>

record token_usage =
  tu_inputTokens :: nat
  tu_outputTokens :: nat
  tu_cacheReadTokens :: "nat option"
  tu_cacheWriteTokens :: "nat option"
  tu_cacheWriteTokens1h :: "nat option"

record token_budget =
  tb_inputTokens :: nat
  tb_outputTokens :: nat
  tb_cacheReadTokens :: nat
  tb_cacheWriteTokens :: nat
  tb_cacheWriteTokens1h :: nat
  tb_calls :: nat

definition new_budget :: token_budget where
  "new_budget = \<lparr>tb_inputTokens = 0, tb_outputTokens = 0, tb_cacheReadTokens = 0, tb_cacheWriteTokens = 0,
                 tb_cacheWriteTokens1h = 0, tb_calls = 0\<rparr>"

definition or_zero :: "nat option \<Rightarrow> nat" where
  "or_zero n = (case n of None \<Rightarrow> 0 | Some k \<Rightarrow> k)"

definition recordUsage :: "token_usage \<Rightarrow> token_budget \<Rightarrow> token_budget" where
  "recordUsage u b =
     \<lparr>tb_inputTokens = tb_inputTokens b + tu_inputTokens u, tb_outputTokens = tb_outputTokens b + tu_outputTokens u,
      tb_cacheReadTokens = tb_cacheReadTokens b + or_zero (tu_cacheReadTokens u),
      tb_cacheWriteTokens = tb_cacheWriteTokens b + or_zero (tu_cacheWriteTokens u),
      tb_cacheWriteTokens1h = tb_cacheWriteTokens1h b + or_zero (tu_cacheWriteTokens1h u),
      tb_calls = tb_calls b + 1\<rparr>"

text \<open>The text of a result is what a handle prints as.\<close>

fun block_tokens :: "content_block \<Rightarrow> nat" where
  "block_tokens (TextBlock t) = estimateTokens t"
| "block_tokens (ToolResultBlock i v e) = estimateTokens (shown v)"
| "block_tokens (ToolUseBlock i n v) = estimateTokens (json_stringify v)"

fun content_tokens :: "content \<Rightarrow> nat" where
  "content_tokens (TextContent t) = estimateTokens t"
| "content_tokens (BlockContent bs) = sum_list (map block_tokens bs)"

definition estimateMessagesTokens :: "model_message list \<Rightarrow> nat" where
  "estimateMessagesTokens ms = sum_list (map (\<lambda>m. content_tokens (mm_content m)) ms)"

definition estimateFallback :: "model_message list \<Rightarrow> string \<Rightarrow> token_budget \<Rightarrow> token_budget" where
  "estimateFallback ms response b =
     b\<lparr>tb_inputTokens := tb_inputTokens b + estimateMessagesTokens ms,
       tb_outputTokens := tb_outputTokens b + estimateTokens response, tb_calls := tb_calls b + 1\<rparr>"

definition total_tokens :: "token_budget \<Rightarrow> nat" where
  "total_tokens b = tb_inputTokens b + tb_outputTokens b"

section \<open>Lemmas\<close>

lemma account_grows:
  "total_tokens b \<le> total_tokens (recordUsage u b)" "total_tokens b \<le> total_tokens (estimateFallback ms r b)"
  by (simp_all add: total_tokens_def recordUsage_def estimateFallback_def)

lemma stable_of_texts:
  "stableStringify (JArr (map JStr fp)) = json_stringify (JArr (map JStr fp))"
  by (simp add: comp_def)

lemma texts_injective:
  "json_stringify (JArr (map JStr xs)) = json_stringify (JArr (map JStr ys)) \<longleftrightarrow> xs = ys"
proof -
  have "canonical_value (JArr (map JStr fp)) = JArr (map JStr fp)" for fp by (induction fp) auto
  then show ?thesis
    using stable_inj [of "JArr (map JStr xs)" "JArr (map JStr ys)"] inj_map_eq_map [of JStr xs ys]
    unfolding stable_of_texts by (auto simp: inj_def)
qed

text \<open>
  With a positive count the condition holds exactly when the last steps, that many, made the same
  calls, at least one.
\<close>

lemma no_progress_exact:
  assumes "0 < k"
  shows "noProgress (int k) ctx \<longleftrightarrow>
    (\<exists>before fp. fp \<noteq> [] \<and> sx_callHistory ctx = before @ replicate k fp)"
proof -
  let ?h = "sx_callHistory ctx"
  have len: "length (drop (length ?h - k) ?h) = k" if "k \<le> length ?h" using that by simp
  have "noProgress (int k) ctx \<longleftrightarrow>
      k \<le> length ?h \<and> (\<forall>fp \<in> set (drop (length ?h - k) ?h). fp \<noteq> [] \<and> fp = hd (drop (length ?h - k) ?h))"
    using assms by (auto simp: noProgress_def slice_last_def Let_def list_ex_iff list_all_iff texts_injective
        simp del: json_stringify.simps)
  also have "\<dots> \<longleftrightarrow> (\<exists>before fp. fp \<noteq> [] \<and> ?h = before @ replicate k fp)"
  proof
    assume h: "k \<le> length ?h \<and> (\<forall>fp \<in> set (drop (length ?h - k) ?h). fp \<noteq> [] \<and> fp = hd (drop (length ?h - k) ?h))"
    let ?r = "drop (length ?h - k) ?h"
    have "?r = replicate k (hd ?r)" using h len by (metis replicate_length_same)
    moreover have "hd ?r \<noteq> []" using h len assms by (metis hd_in_set length_0_conv less_irrefl)
    ultimately show "\<exists>before fp. fp \<noteq> [] \<and> ?h = before @ replicate k fp" by (metis append_take_drop_id)
  next
    assume "\<exists>before fp. fp \<noteq> [] \<and> ?h = before @ replicate k fp"
    then obtain before fp where e: "fp \<noteq> []" "?h = before @ replicate k fp" by blast
    then have "drop (length ?h - k) ?h = replicate k fp" by simp
    then show "k \<le> length ?h \<and> (\<forall>fp \<in> set (drop (length ?h - k) ?h). fp \<noteq> [] \<and> fp = hd (drop (length ?h - k) ?h))"
      using e assms by simp
  qed
  finally show ?thesis .
qed

text \<open>A fingerprint does not depend on the order of the arguments.\<close>

lemma pick_keys_cong: "(\<And>k. map_of m k = map_of m' k) \<Longrightarrow> pick_keys ks m = pick_keys ks m'"
  by (simp add: pick_keys_def)

lemma fingerprint_of_reordered:
  assumes "distinct (map fst m)" "mset m = mset m'"
  shows "callFingerprint name (JObj m) = callFingerprint name (JObj m')"
proof -
  have d: "distinct (map fst m')" using assms by (metis mset_eq_imp_distinct_iff mset_map)
  have k: "sort (map fst m) = sort (map fst m')"
    using assms(2) by (metis mset_map properties_for_sort mset_sort sorted_sort)
  have "map_of (map (\<lambda>(k, v). (k, f v)) m) k = map_of (map (\<lambda>(k, v). (k, f v)) m') k" for f k
    using map_of_inject_set [OF assms(1) d] mset_eq_setD [OF assms(2)] by (simp add: map_of_map)
  then have "pick_keys ks (map (\<lambda>(k, v). (k, f v)) m) = pick_keys ks (map (\<lambda>(k, v). (k, f v)) m')" for ks f
    by (intro pick_keys_cong)
  then show ?thesis using k by (simp add: callFingerprint_def)
qed

text \<open>Arguments below the first level are ignored, so calls that differ there count as the same call.\<close>

lemma nested_arguments_ignored:
  "callFingerprint ''edit'' (JObj [(''at'', JObj [(''line'', JNum 1)])]) =
   callFingerprint ''edit'' (JObj [(''at'', JObj [(''line'', JNum 2)])])"
  by code_simp

text \<open>With a count of zero, which is what \<open>noProgress:\<close> reads as, the condition holds before the first step.\<close>

lemma zero_stops_at_once: "sx_callHistory ctx = [] \<Longrightarrow> noProgress 0 ctx"
  by (simp add: noProgress_def slice_last_def)

end
