(* ===== verification/Agent_Dispatch.thy ===== *)
theory Agent_Dispatch
  imports Scheduler Tool_Registry Stop_Conditions
begin

text \<open>
  How one step of the agent loop dispatches the calls of a model reply (the second half of \<open>run\<close> in
  packages/core/src/agents/ToolCallingAgent.ts): through the wave scheduler, with calls that name
  others judged again when their references are resolved, or side by side. Here the tool registry, the
  policy gate, the dependency derivation and the scheduler meet. The policy gateway of a run is an
  argument: a function of the observations it was given and of the call. The texts of error messages
  are an argument, the bodies of tools answer per step and call; metrics and timings are left out.
\<close>

section \<open>Calls, results and what is observed\<close>

record pending_call =
  pc_id :: string
  pc_name :: string
  pc_input :: json

record policy_observation =
  po_callId :: string
  po_toolName :: string
  po_output :: string
  po_isError :: bool

type_synonym gateway = "policy_observation list \<Rightarrow> Tool_Registry.tool_call \<Rightarrow> policy_decision"

definition request_of :: "pending_call \<Rightarrow> Tool_Registry.tool_call" where
  "request_of c = \<lparr>cl_toolName = pc_name c, cl_args = pc_input c, cl_callId = pc_id c\<rparr>"

text \<open>The string that enters the history, and the flags that go with it.\<close>

record call_result =
  cr_output :: string
  cr_isError :: bool
  cr_isUntrusted :: bool

definition no_output :: string where
  "no_output = ''Tool execution failed with no output.''"

definition or_text :: "string \<Rightarrow> string \<Rightarrow> string" where
  "or_text s d = (if s = [] then d else s)"

text \<open>The settings of the agent that matter here; \<open>ag_describe\<close> gives the message and the hint of an error.\<close>

record dispatch_config =
  ag_tools :: registry
  ag_gateway :: "gateway option"
  ag_synthesisCodeTool :: "string option"
  ag_describe :: "Tool_Registry.tool_call \<Rightarrow> tool_error \<Rightarrow> string \<times> string option"
  ag_parse :: "string \<Rightarrow> json option"

text \<open>A tool result, and the object it is for the scheduler and for the calls that refer to it.\<close>

definition result_of_call :: "dispatch_config \<Rightarrow> Tool_Registry.tool_call \<Rightarrow> tool_result \<Rightarrow> call_result" where
  "result_of_call cfg c r =
     (case rs_error r of
        Some e \<Rightarrow> \<lparr>cr_output = or_text (fst (ag_describe cfg c e)) no_output, cr_isError = True, cr_isUntrusted = rs_untrusted r\<rparr>
      | None \<Rightarrow> \<lparr>cr_output = json_stringify (rs_output r), cr_isError = False, cr_isUntrusted = rs_untrusted r\<rparr>)"

fun code_name :: "error_code \<Rightarrow> string" where
  "code_name ValidationError = ''validation_error''"
| "code_name CapabilityDenied = ''capability_denied''"
| "code_name ExecutionError = ''execution_error''"
| "code_name PolicyDenied = ''policy_denied''"

definition error_object :: "dispatch_config \<Rightarrow> Tool_Registry.tool_call \<Rightarrow> tool_error \<Rightarrow> json" where
  "error_object cfg c e =
     JObj ([(''code'', JStr (code_name (te_code e))), (''message'', JStr (fst (ag_describe cfg c e)))] @
           (case snd (ag_describe cfg c e) of None \<Rightarrow> [] | Some h \<Rightarrow> [(''retryHint'', JStr h)]))"

definition result_object :: "dispatch_config \<Rightarrow> Tool_Registry.tool_call \<Rightarrow> tool_result \<Rightarrow> json" where
  "result_object cfg c r =
     JObj ([(''callId'', JStr (rs_callId r)), (''toolName'', JStr (rs_toolName r)), (''output'', rs_output r)] @
           (if rs_untrusted r then [(''trust'', JStr ''untrusted'')] else []) @
           (case rs_error r of None \<Rightarrow> [] | Some e \<Rightarrow> [(''error'', error_object cfg c e)]))"

fun field :: "json \<Rightarrow> string \<Rightarrow> json" where
  "field (JObj m) k = (case map_of m k of None \<Rightarrow> JUndef | Some v \<Rightarrow> v)"
| "field v k = JUndef"

definition read_result :: "json \<Rightarrow> call_result" where
  "read_result v =
     (let untrusted = (field v ''trust'' = JStr ''untrusted'')
      in if field v ''error'' \<noteq> JUndef
         then \<lparr>cr_output = (case field (field v ''error'') ''message'' of JStr m \<Rightarrow> or_text m no_output | _ \<Rightarrow> no_output),
               cr_isError = True, cr_isUntrusted = untrusted\<rparr>
         else \<lparr>cr_output = json_stringify (field v ''output''), cr_isError = False, cr_isUntrusted = untrusted\<rparr>)"

lemma read_result_object: "read_result (result_object cfg c r) = result_of_call cfg c r"
  by (auto simp: read_result_def result_object_def result_of_call_def error_object_def split: option.splits)

text \<open>The body a tool has in this step for this call.\<close>

type_synonym bodies = "string \<Rightarrow> string \<Rightarrow> json \<Rightarrow> string + json"

definition tools_for :: "bodies \<Rightarrow> registry \<Rightarrow> string \<Rightarrow> registry" where
  "tools_for body r i = map (\<lambda>(n, t). (n, t\<lparr>td_forward := body i n\<rparr>)) r"

definition run_call ::
  "dispatch_config \<Rightarrow> bodies \<Rightarrow> (string \<times> policy_decision) list \<Rightarrow> Tool_Registry.tool_call \<Rightarrow> tool_result \<times> json option" where
  "run_call cfg body decisions c = gated_call (tools_for body (ag_tools cfg) (cl_callId c)) decisions None None c"

section \<open>The graph of a batch\<close>

definition node_of :: "registry \<Rightarrow> dep_map \<Rightarrow> pending_call \<Rightarrow> ir_node" where
  "node_of r deps c =
     (let t = get_tool r (pc_name c)
      in \<lparr>in_id = pc_id c, in_toolName = pc_name c, in_args = pc_input c,
          in_dependsOn = (case map_of deps (pc_id c) of None \<Rightarrow> [] | Some ds \<Rightarrow> ds),
          in_readOnly = (case t of None \<Rightarrow> False | Some t \<Rightarrow> td_readOnly t = Some True),
          in_idempotent = (case t of None \<Rightarrow> False | Some t \<Rightarrow> td_idempotent t = Some True),
          in_extraCapabilities = None,
          in_resourceKey = (case t of None \<Rightarrow> None
                            | Some t \<Rightarrow> if truthy (td_resourceKey t (pc_input c)) then td_resourceKey t (pc_input c) else None)\<rparr>)"

definition ref_ids :: "dep_map \<Rightarrow> string list" where
  "ref_ids deps = map fst (filter (\<lambda>(i, ds). ds \<noteq> []) deps)"

text \<open>Consent cannot be asked for in the middle of a batch: a \<open>confirm\<close> is a denial there.\<close>

definition late_decision :: "policy_decision \<Rightarrow> policy_decision" where
  "late_decision d =
     (case d of
        ConfirmCall prompt reason \<Rightarrow>
          DenyCall [''consent-unavailable'']
            (reason @ '' (consent cannot be granted mid-batch - resubmit the call in a later step)'')
      | _ \<Rightarrow> d)"

text \<open>What the gateway observed at every result of the batch reported so far.\<close>

fun observation_of :: "ir_node list \<Rightarrow> sched_event \<Rightarrow> policy_observation list" where
  "observation_of nodes (NodeDone i v) =
     (case find (\<lambda>nd. in_id nd = i) nodes of
        None \<Rightarrow> []
      | Some nd \<Rightarrow> [\<lparr>po_callId = i, po_toolName = in_toolName nd, po_output = cr_output (read_result v),
                    po_isError = cr_isError (read_result v)\<rparr>])"
| "observation_of nodes e = []"

definition observations :: "ir_node list \<Rightarrow> sched_event list \<Rightarrow> policy_observation list" where
  "observations nodes es = concat (map (observation_of nodes) es)"

definition node_request :: "ir_node \<Rightarrow> json \<Rightarrow> Tool_Registry.tool_call" where
  "node_request nd args = \<lparr>cl_toolName = in_toolName nd, cl_args = args, cl_callId = in_id nd\<rparr>"

definition authorize_late ::
  "dispatch_config \<Rightarrow> policy_observation list \<Rightarrow> ir_node list \<Rightarrow> string list \<Rightarrow> authorization" where
  "authorize_late cfg observed nodes refIds es nd args =
     (case ag_gateway cfg of
        None \<Rightarrow> None
      | Some g \<Rightarrow>
          if in_id nd \<notin> set refIds then None
          else (case late_decision (g (observed @ observations nodes es) (node_request nd args)) of
                  DenyCall ruleIds reason \<Rightarrow>
                    Some (result_object cfg (node_request nd args) (failed_result (node_request nd args) PolicyDenied (ruleIds @ [reason])))
                | _ \<Rightarrow> None))"

definition call_node ::
  "dispatch_config \<Rightarrow> bodies \<Rightarrow> (string \<times> policy_decision) list \<Rightarrow> Scheduler.tool_call" where
  "call_node cfg body decisions nd args =
     Fulfilled (result_object cfg (node_request nd args) (fst (run_call cfg body decisions (node_request nd args))))"

section \<open>Events\<close>

text \<open>The events of a run, without identifiers of trace and batch, channels and times.\<close>

datatype agent_error =
    AbortedBySignal nat
  | StopConditionTriggered nat
  | TokenBudgetExhausted nat nat
  | TimeBudgetExhausted int int
  | InputGuardrailTriggered string nat
  | SchemaValidationFailed nat string nat
  | OutputGuardrailTriggered string nat
  | ToolGuardrailBlocked string string nat
  | DeniedByHuman string nat
  | MaxStepsReached nat

datatype agent_event =
    RunStart string
  | Planning nat string string
  | StepStart nat
  | ModelStart nat "model_message list"
  | ModelDone nat nat nat nat nat
  | GuardrailTripwire string string
  | AgentError agent_error
  | FinalAnswer json
  | ActionProposed string string "string option" "string option"
  | ToolCallEvent string string json nat
  | ToolSynthesised string string nat
  | ToolExecuting string string nat
  | ActionExecuting string
  | PolicyDeniedStatus string string "string list" string nat
  | LateDenialStatus string string nat
  | AwaitHumanInput string string nat
  | ToolResultEvent string string "string + json" nat
  | FallbackOffered string string "string list" nat
  | ActionCompleted string "string option"

section \<open>Alternatives to a failed tool\<close>

definition FALLBACK_CAP :: nat where "FALLBACK_CAP = 3"

definition candidates_of :: "dispatch_config \<Rightarrow> string \<Rightarrow> tool_def list" where
  "candidates_of cfg failedTool = take FALLBACK_CAP (fallbacksFor (ag_tools cfg) failedTool)"

definition emitFallbacksIfAny :: "dispatch_config \<Rightarrow> string \<Rightarrow> string \<Rightarrow> nat \<Rightarrow> agent_event list" where
  "emitFallbacksIfAny cfg failedTool errorMessage k =
     (if candidates_of cfg failedTool = [] then []
      else [FallbackOffered failedTool errorMessage (map td_name (candidates_of cfg failedTool)) k])"

text \<open>An empty name counts as none.\<close>

definition synthesis_tool :: "'a dispatch_config_scheme \<Rightarrow> string option" where
  "synthesis_tool cfg = (if truthy (ag_synthesisCodeTool cfg) then ag_synthesisCodeTool cfg else None)"

definition augmentErrorWithFallbacks :: "dispatch_config \<Rightarrow> string \<Rightarrow> string \<Rightarrow> string" where
  "augmentErrorWithFallbacks cfg failedTool errorOutput =
     (let candidates = candidates_of cfg failedTool
      in if candidates = [] then
           (case synthesis_tool cfg of
              None \<Rightarrow> errorOutput
            | Some code \<Rightarrow>
                errorOutput @ nl @ nl @ ''[framework hint] No registered alternatives to '' @ failedTool @ ''. You may use `'' @
                code @ ''` to synthesise a one-off, or retry '' @ failedTool @ '' with different args.'')
         else
           (let lines = join_on nl (map (\<lambda>t. ''- '' @ td_name t @ '': '' @ td_description t) candidates);
                option = (case synthesis_tool cfg of
                            None \<Rightarrow> [] | Some code \<Rightarrow> '', or use `'' @ code @ ''` to synthesise a one-off'')
            in errorOutput @ nl @ nl @ ''[framework hint] The registry lists these alternatives to '' @ failedTool @
               '' - you may try one, retry '' @ failedTool @ '' with different args'' @ option @ '':'' @ nl @ lines))"

section \<open>What a dispatch leaves\<close>

record body_run =
  br_callId :: string
  br_toolName :: string
  br_data :: json

record dispatched =
  ds_calls :: "tool_use_call list"
  ds_events :: "agent_event list"
  ds_observed :: "policy_observation list"
  ds_ran :: "body_run list"

text \<open>\<open>JSON.parse\<close> of the text, or the text.\<close>

definition parsed_output :: "dispatch_config \<Rightarrow> string \<Rightarrow> json" where
  "parsed_output cfg t = (case ag_parse cfg t of None \<Rightarrow> JStr t | Some v \<Rightarrow> v)"

definition result_event :: "dispatch_config \<Rightarrow> nat \<Rightarrow> pending_call \<Rightarrow> call_result \<Rightarrow> agent_event" where
  "result_event cfg k c r =
     ToolResultEvent (pc_id c) (pc_name c) (if cr_isError r then Inl (cr_output r) else Inr (parsed_output cfg (cr_output r))) k"

definition final_output :: "dispatch_config \<Rightarrow> pending_call \<Rightarrow> call_result \<Rightarrow> string" where
  "final_output cfg c r = (if cr_isError r then augmentErrorWithFallbacks cfg (pc_name c) (cr_output r) else cr_output r)"

definition recorded_call :: "dispatch_config \<Rightarrow> pending_call \<Rightarrow> call_result \<Rightarrow> tool_use_call" where
  "recorded_call cfg c r =
     \<lparr>tc_id = pc_id c, tc_name = pc_name c, tc_input = pc_input c, tc_output = Text (final_output cfg c r),
      tc_isError = cr_isError r, tc_isUntrusted = cr_isUntrusted r\<rparr>"

definition fallback_events :: "dispatch_config \<Rightarrow> nat \<Rightarrow> pending_call \<Rightarrow> call_result \<Rightarrow> agent_event list" where
  "fallback_events cfg k c r = (if cr_isError r then emitFallbacksIfAny cfg (pc_name c) (cr_output r) k else [])"

text \<open>The body run for a call, if any.\<close>

definition body_of ::
  "dispatch_config \<Rightarrow> bodies \<Rightarrow> (string \<times> policy_decision) list \<Rightarrow> Tool_Registry.tool_call \<Rightarrow> body_run list" where
  "body_of cfg body decisions c =
     (case snd (run_call cfg body decisions c) of
        None \<Rightarrow> [] | Some data \<Rightarrow> [\<lparr>br_callId = cl_callId c, br_toolName = cl_toolName c, br_data = data\<rparr>])"

section \<open>Dispatch through the scheduler\<close>

definition reason_text :: "json \<Rightarrow> string" where
  "reason_text v = (case v of JStr s \<Rightarrow> s | JUndef \<Rightarrow> ''unknown error'' | JNull \<Rightarrow> ''unknown error'' | _ \<Rightarrow> json_stringify v)"

fun event_result :: "(string \<times> call_result) list \<Rightarrow> sched_event \<Rightarrow> (string \<times> call_result) list" where
  "event_result m (NodeDone i v) = AList.update i (read_result v) m"
| "event_result m (NodeError i reason) =
     AList.update i \<lparr>cr_output = ''Tool dispatch threw: '' @ reason_text reason, cr_isError = True, cr_isUntrusted = False\<rparr> m"
| "event_result m e = m"

text \<open>A node that is done without having been called was denied at its dispatch.\<close>

fun late_denial :: "nat \<Rightarrow> ir_node list \<Rightarrow> string list \<Rightarrow> sched_event \<Rightarrow> agent_event list" where
  "late_denial k nodes called (NodeDone i v) =
     (if i \<in> set called then []
      else case find (\<lambda>nd. in_id nd = i) nodes of None \<Rightarrow> [] | Some nd \<Rightarrow> [LateDenialStatus i (in_toolName nd) k])"
| "late_denial k nodes called e = []"

definition missing_result :: call_result where
  "missing_result = \<lparr>cr_output = no_output, cr_isError = True, cr_isUntrusted = False\<rparr>"

definition report_dag :: "dispatch_config \<Rightarrow> nat \<Rightarrow> pending_call \<Rightarrow> call_result \<Rightarrow> agent_event list" where
  "report_dag cfg k c r =
     result_event cfg k c r # fallback_events cfg k c r @
     [ActionCompleted (pc_id c) (if cr_isError r then Some (cr_output r) else None)]"

text \<open>\<open>Inl\<close>: an exception leaves the run, after what had happened by then.\<close>

definition sched_effects ::
  "dispatch_config \<Rightarrow> bodies \<Rightarrow> (string \<times> policy_decision) list \<Rightarrow> nat \<Rightarrow> ir_node list \<Rightarrow> sched \<Rightarrow> dispatched" where
  "sched_effects cfg body decisions k nodes st =
     \<lparr>ds_calls = [],
      ds_events = concat (map (late_denial k nodes (map fst (sc_calls st))) (sc_events st)),
      ds_observed = (case ag_gateway cfg of None \<Rightarrow> [] | Some g \<Rightarrow> observations nodes (sc_events st)),
      ds_ran = concat (map (\<lambda>(i, args). case find (\<lambda>nd. in_id nd = i) nodes of
                 None \<Rightarrow> [] | Some nd \<Rightarrow> body_of cfg body decisions (node_request nd args)) (sc_calls st))\<rparr>"

definition no_effects :: dispatched where
  "no_effects = \<lparr>ds_calls = [], ds_events = [], ds_observed = [], ds_ran = []\<rparr>"

definition dispatch_dag ::
  "dispatch_config \<Rightarrow> bodies \<Rightarrow> policy_observation list \<Rightarrow> (string \<times> policy_decision) list \<Rightarrow> nat \<Rightarrow> pending_call list \<Rightarrow>
     dispatched + dispatched" where
  "dispatch_dag cfg body observed decisions k calls =
     (case deriveDependencies (map (\<lambda>c. \<lparr>cd_id = pc_id c, cd_input = pc_input c\<rparr>) calls) of
        Inl e \<Rightarrow> Inl no_effects
      | Inr deps \<Rightarrow>
          (let nodes = map (node_of (ag_tools cfg) deps) calls
           in case execute nodes (call_node cfg body decisions) (authorize_late cfg observed nodes (ref_ids deps)) of
                None \<Rightarrow> Inl no_effects
              | Some (Deadlock pending st) \<Rightarrow> Inl (sched_effects cfg body decisions k nodes st)
              | Some (Finished st) \<Rightarrow>
                  (let resultMap = foldl event_result [] (sc_events st);
                       result = (\<lambda>c. case map_of resultMap (pc_id c) of None \<Rightarrow> missing_result | Some r \<Rightarrow> r);
                       fx = sched_effects cfg body decisions k nodes st
                   in Inr (fx\<lparr>ds_calls := map (\<lambda>c. recorded_call cfg c (result c)) calls,
                              ds_events := ds_events fx @ concat (map (\<lambda>c. report_dag cfg k c (result c)) calls)\<rparr>))))"

section \<open>Dispatch side by side\<close>

fun inputContainsRef :: "json \<Rightarrow> bool" where
  "inputContainsRef (JStr s) = (ref_target s \<noteq> None)"
| "inputContainsRef (JArr vs) = list_ex inputContainsRef vs"
| "inputContainsRef (JObj kvs) = list_ex (\<lambda>(k, v). inputContainsRef v) kvs"
| "inputContainsRef v = False"

definition ref_event_text :: string where
  "ref_event_text =
     ''Call input contains a \"$ref\" placeholder, which requires scheduler=\"dag\". This call was NOT executed - '' @
     ''resubmit it in a later step or switch the scheduler to \"dag\".''"

definition ref_history_text :: string where
  "ref_history_text =
     ''Call input contains a \"$ref\" placeholder, which requires scheduler=\"dag\". Not executed.''"

definition refused_ref :: "pending_call \<Rightarrow> tool_use_call" where
  "refused_ref c =
     \<lparr>tc_id = pc_id c, tc_name = pc_name c, tc_input = pc_input c, tc_output = Text ref_history_text,
      tc_isError = True, tc_isUntrusted = False\<rparr>"

definition parallel_result ::
  "dispatch_config \<Rightarrow> bodies \<Rightarrow> (string \<times> policy_decision) list \<Rightarrow> pending_call \<Rightarrow> call_result" where
  "parallel_result cfg body decisions c =
     result_of_call cfg (request_of c) (fst (run_call cfg body decisions (request_of c)))"

definition parallel_observation :: "dispatch_config \<Rightarrow> pending_call \<Rightarrow> call_result \<Rightarrow> policy_observation" where
  "parallel_observation cfg c r =
     \<lparr>po_callId = pc_id c, po_toolName = pc_name c, po_output = final_output cfg c r, po_isError = cr_isError r\<rparr>"

definition dispatch_parallel ::
  "dispatch_config \<Rightarrow> bodies \<Rightarrow> (string \<times> policy_decision) list \<Rightarrow> nat \<Rightarrow> pending_call list \<Rightarrow> dispatched" where
  "dispatch_parallel cfg body decisions k calls =
     (let refErroneous = filter (\<lambda>c. inputContainsRef (pc_input c)) calls;
          runnable = filter (\<lambda>c. \<not> inputContainsRef (pc_input c)) calls;
          result = parallel_result cfg body decisions
      in \<lparr>ds_calls = map refused_ref refErroneous @ map (\<lambda>c. recorded_call cfg c (result c)) runnable,
          ds_events = map (\<lambda>c. ToolResultEvent (pc_id c) (pc_name c) (Inl ref_event_text) k) refErroneous @
                      concat (map (\<lambda>c. result_event cfg k c (result c) # fallback_events cfg k c (result c)) runnable),
          ds_observed = (case ag_gateway cfg of None \<Rightarrow> [] | Some g \<Rightarrow> map (\<lambda>c. parallel_observation cfg c (result c)) runnable),
          ds_ran = concat (map (\<lambda>c. body_of cfg body decisions (request_of c)) runnable)\<rparr>)"

end
