(* ===== verification/Agent_Loop.thy ===== *)
theory Agent_Loop
  imports Agent_Dispatch
begin

text \<open>
  The agent loop (\<open>ToolCallingAgent.run\<close> in packages/core/src/agents/ToolCallingAgent.ts and the
  planning step of packages/core/src/agents/prompts.ts): one run is a function of the configuration
  and of a world that answers for the model, the enhancement runners, the bodies of the tools, the
  human, the clock and the abort signal. The generator's events are a list; a run returns or throws.
  Identifiers, metrics, prices and the configuration snapshot are left out.
\<close>

section \<open>Model streams\<close>

datatype stream_event =
    TextDelta string
  | ToolCallDelta pending_call
  | UsageEvent token_usage
  | OtherEvent

fun stream_text :: "stream_event list \<Rightarrow> string" where
  "stream_text [] = []"
| "stream_text (TextDelta s # es) = s @ stream_text es"
| "stream_text (e # es) = stream_text es"

fun stream_calls :: "stream_event list \<Rightarrow> pending_call list" where
  "stream_calls [] = []"
| "stream_calls (ToolCallDelta c # es) = c # stream_calls es"
| "stream_calls (e # es) = stream_calls es"

fun stream_usages :: "stream_event list \<Rightarrow> token_usage list" where
  "stream_usages [] = []"
| "stream_usages (UsageEvent u # es) = u # stream_usages es"
| "stream_usages (e # es) = stream_usages es"

section \<open>Configuration and world\<close>

datatype runner = BudgetForcing | ReflectRefine | SelfConsistency | ParallelForkJoin

record enhancement_policy =
  ep_budgetForcing :: bool
  ep_reflectRefine :: bool
  ep_selfConsistency :: bool
  ep_parallelForkJoin :: bool

record agent_config = dispatch_config +
  ag_assembler :: assembler_config
  ag_maxSteps :: nat
  ag_planningInterval :: "nat option"
  ag_maxTokens :: "nat option"
  ag_maxDurationMs :: "int option"
  ag_dagMode :: bool
  ag_stopWhen :: "stop_condition list"
  ag_hasCheckpointer :: bool
  ag_inputGuardrails :: "(string \<times> (string \<Rightarrow> model_message list \<Rightarrow> bool)) list"
  ag_outputGuardrails :: "(string \<times> (json \<Rightarrow> bool)) list"
  ag_toolGuardrails :: "(string \<times> (string \<Rightarrow> string \<Rightarrow> json \<Rightarrow> bool)) list"
  ag_policy :: enhancement_policy
  ag_supportsBudgetForcing :: bool
  ag_outputSchema :: "(json \<Rightarrow> string + json) option"
  ag_outputSchemaRetries :: nat
  ag_schemaDesc :: string
  ag_repairJson :: "string \<Rightarrow> string"

text \<open>
  What the world answers in step \<open>k\<close>: the core memory blocks as they render, the replies of the model
  to the context, the answers of a runner, the text the human gave to a prompt within the polls.
\<close>

record world =
  aw_memory :: "nat \<Rightarrow> string"
  aw_reply :: "nat \<Rightarrow> model_message list \<Rightarrow> stream_event list"
  aw_plan :: "nat \<Rightarrow> model_message list \<Rightarrow> stream_event list"
  aw_fix :: "nat \<Rightarrow> nat \<Rightarrow> model_message list \<Rightarrow> stream_event list"
  aw_enhance :: "nat \<Rightarrow> runner \<Rightarrow> model_message list \<Rightarrow> string"
  aw_aborted :: "nat \<Rightarrow> bool"
  aw_elapsedMs :: "nat \<Rightarrow> int"
  aw_body :: "nat \<Rightarrow> bodies"
  aw_response :: "nat \<Rightarrow> string \<Rightarrow> string option"

text \<open>A guardrail is a name and a test; the first of the list that trips is reported.\<close>

definition first_tripped :: "(string \<times> 'f) list \<Rightarrow> ('f \<Rightarrow> bool) \<Rightarrow> string option" where
  "first_tripped gs trips = map_option fst (find (\<lambda>(n, f). trips f) gs)"

section \<open>The state of a run\<close>

record checkpoint =
  ck_stepIndex :: nat
  ck_pendingHumanInput :: "string option"

record reported_stats =
  rp_input :: nat
  rp_output :: nat
  rp_cacheRead :: nat
  rp_calls :: nat

record agent_state =
  as_assembler :: assembler
  as_budget :: token_budget
  as_reported :: reported_stats
  as_callHistory :: "string list list"
  as_observed :: "policy_observation list"
  as_checkpoint :: "checkpoint option"
  as_events :: "agent_event list"
  as_ran :: "(nat \<times> body_run) list"

datatype flow = Running agent_state | Returned agent_state | Threw agent_state

fun and_then :: "flow \<Rightarrow> (agent_state \<Rightarrow> flow) \<Rightarrow> flow" where
  "and_then (Running st) f = f st"
| "and_then (Returned st) f = Returned st"
| "and_then (Threw st) f = Threw st"

definition emits :: "agent_event list \<Rightarrow> agent_state \<Rightarrow> agent_state" where
  "emits es st = st\<lparr>as_events := as_events st @ es\<rparr>"

definition fails :: "agent_error \<Rightarrow> agent_state \<Rightarrow> flow" where
  "fails e st = Returned (emits [AgentError e] st)"

definition add_history :: "agent_config \<Rightarrow> history_step \<Rightarrow> agent_state \<Rightarrow> agent_state" where
  "add_history cfg s st = st\<lparr>as_assembler := addStep (ag_assembler cfg) s (as_assembler st)\<rparr>"

text \<open>The context; the list built has no hole as long as the assembler's counts are right.\<close>

definition context_of :: "agent_config \<Rightarrow> world \<Rightarrow> nat \<Rightarrow> agent_state \<Rightarrow> model_message list" where
  "context_of cfg w k st = map the (build (ag_assembler cfg) (aw_memory w k) (as_assembler st))"

section \<open>Before the model is asked\<close>

definition check_abort :: "agent_config \<Rightarrow> world \<Rightarrow> nat \<Rightarrow> agent_state \<Rightarrow> flow" where
  "check_abort cfg w k st =
     (if aw_aborted w k
      then fails (AbortedBySignal k)
             (if ag_hasCheckpointer cfg
              then st\<lparr>as_checkpoint := Some \<lparr>ck_stepIndex = k, ck_pendingHumanInput = None\<rparr>\<rparr> else st)
      else Running st)"

definition check_stop :: "agent_config \<Rightarrow> nat \<Rightarrow> agent_state \<Rightarrow> flow" where
  "check_stop cfg k st =
     (if list_ex (\<lambda>cond. cond \<lparr>sx_step = k, sx_totalTokens = total_tokens (as_budget st),
                              sx_callHistory = as_callHistory st\<rparr>) (ag_stopWhen cfg)
      then fails (StopConditionTriggered k) st else Running st)"

definition check_tokens :: "agent_config \<Rightarrow> agent_state \<Rightarrow> flow" where
  "check_tokens cfg st =
     (case ag_maxTokens cfg of
        None \<Rightarrow> Running st
      | Some n \<Rightarrow> if n \<noteq> 0 \<and> n \<le> total_tokens (as_budget st)
                  then fails (TokenBudgetExhausted (total_tokens (as_budget st)) n) st else Running st)"

definition check_time :: "agent_config \<Rightarrow> world \<Rightarrow> nat \<Rightarrow> agent_state \<Rightarrow> flow" where
  "check_time cfg w k st =
     (case ag_maxDurationMs cfg of
        None \<Rightarrow> Running st
      | Some n \<Rightarrow> if n \<noteq> 0 \<and> n \<le> aw_elapsedMs w k then fails (TimeBudgetExhausted (aw_elapsedMs w k) n) st else Running st)"

text \<open>\<open><tag>([\\s\\S]*?)</tag>\<close>: the shortest text between the first opening tag and a closing tag after it.\<close>

fun until_text :: "string \<Rightarrow> string \<Rightarrow> string option" where
  "until_text pat [] = (if pat = [] then Some [] else None)"
| "until_text pat (c # s) = (if starts_with (c # s) pat then Some [] else map_option (Cons c) (until_text pat s))"

fun after_text :: "string \<Rightarrow> string \<Rightarrow> string option" where
  "after_text pat [] = (if pat = [] then Some [] else None)"
| "after_text pat (c # s) = (if starts_with (c # s) pat then Some (drop (length pat) (c # s)) else after_text pat s)"

definition extractTagContent :: "string \<Rightarrow> string \<Rightarrow> string option" where
  "extractTagContent text tag =
     (case after_text (''<'' @ tag @ ''>'') text of
        None \<Rightarrow> None
      | Some rest \<Rightarrow> map_option trim (until_text (''</'' @ tag @ ''>'') rest))"

definition PLANNING_PROMPT :: string where
  "PLANNING_PROMPT =
     ''Based on the task and observations so far, provide:'' @ nl @
     ''1. A structured plan for remaining steps (inside <plan>...</plan> tags)'' @ nl @
     ''2. Key facts established so far (inside <facts>...</facts> tags)''"

definition record_stream :: "stream_event list \<Rightarrow> token_budget \<Rightarrow> token_budget" where
  "record_stream es b = foldl (\<lambda>b u. recordUsage u b) b (stream_usages es)"

definition estimate_missing :: "model_message list \<Rightarrow> stream_event list \<Rightarrow> token_budget \<Rightarrow> token_budget" where
  "estimate_missing messages es b = (if stream_usages es = [] then estimateFallback messages (stream_text es) b else b)"

definition runPlanningStep :: "agent_config \<Rightarrow> world \<Rightarrow> nat \<Rightarrow> agent_state \<Rightarrow> agent_state" where
  "runPlanningStep cfg w k st =
     (let messages = context_of cfg w k st @ [plain_message UserRole (TextContent PLANNING_PROMPT)];
          es = aw_plan w k messages;
          response = stream_text es;
          plan = (case extractTagContent response ''plan'' of None \<Rightarrow> response | Some t \<Rightarrow> t);
          facts = (case extractTagContent response ''facts'' of None \<Rightarrow> [] | Some t \<Rightarrow> t)
      in emits [Planning k plan facts]
           (add_history cfg (PlanningStep plan facts)
             (st\<lparr>as_budget := estimate_missing messages es (record_stream es (as_budget st))\<rparr>)))"

definition plan_phase :: "agent_config \<Rightarrow> world \<Rightarrow> nat \<Rightarrow> agent_state \<Rightarrow> flow" where
  "plan_phase cfg w k st =
     Running (case ag_planningInterval cfg of
                None \<Rightarrow> st
              | Some n \<Rightarrow> if n \<noteq> 0 \<and> k > 1 \<and> (k - 1) mod n = 0 then runPlanningStep cfg w k st else st)"

section \<open>The model's turn\<close>

text \<open>The guardrail of the input was started before the loop; its verdict is looked at after the first reply.\<close>

definition ask_model :: "agent_config \<Rightarrow> world \<Rightarrow> string option \<Rightarrow> nat \<Rightarrow> agent_state \<Rightarrow> flow" where
  "ask_model cfg w tripped k st =
     (let messages = context_of cfg w k st;
          es = aw_reply w k messages;
          st1 = (emits [StepStart k, ModelStart k messages] st)\<lparr>as_budget := record_stream es (as_budget st)\<rparr>
      in case (if k = 1 then tripped else None) of
           Some name \<Rightarrow> fails (InputGuardrailTriggered name k) (emits [GuardrailTripwire name ''input''] st1)
         | None \<Rightarrow>
             (let b = estimate_missing messages es (as_budget st1);
                  r = as_reported st
              in Running (emits [ModelDone k (tb_inputTokens b - rp_input r) (tb_outputTokens b - rp_output r)
                                   (tb_cacheReadTokens b - rp_cacheRead r) (tb_calls b - rp_calls r)]
                   (st1\<lparr>as_budget := b,
                        as_reported := \<lparr>rp_input = tb_inputTokens b, rp_output = tb_outputTokens b,
                                        rp_cacheRead = tb_cacheReadTokens b, rp_calls = tb_calls b\<rparr>\<rparr>))))"

section \<open>A reply without calls is the answer\<close>

definition chosen_runner :: "agent_config \<Rightarrow> runner option" where
  "chosen_runner cfg =
     (let p = ag_policy cfg
      in if ep_budgetForcing p \<and> ag_supportsBudgetForcing cfg then Some BudgetForcing
         else if ep_reflectRefine p then Some ReflectRefine
         else if ep_selfConsistency p then Some SelfConsistency
         else if ep_parallelForkJoin p then Some ParallelForkJoin
         else None)"

definition parseCandidate :: "agent_config \<Rightarrow> string \<Rightarrow> json" where
  "parseCandidate cfg raw =
     (case ag_parse cfg raw of
        Some v \<Rightarrow> v
      | None \<Rightarrow> (case ag_parse cfg (ag_repairJson cfg raw) of Some v \<Rightarrow> v | None \<Rightarrow> JStr raw))"

definition fix_message :: "agent_config \<Rightarrow> string \<Rightarrow> model_message" where
  "fix_message cfg err =
     plain_message UserRole (TextContent (''Your previous answer failed schema validation: '' @ err @ nl @
       ''Please respond with a valid JSON object matching this schema: '' @ ag_schemaDesc cfg))"

text \<open>The retries; the last error if all fail.\<close>

fun fix_answer ::
  "agent_config \<Rightarrow> world \<Rightarrow> nat \<Rightarrow> model_message list \<Rightarrow> (json \<Rightarrow> string + json) \<Rightarrow> nat \<Rightarrow> nat \<Rightarrow> string + json \<Rightarrow> string + json" where
  "fix_answer cfg w k ms schema n retries (Inr v) = Inr v"
| "fix_answer cfg w k ms schema 0 retries (Inl e) = Inl e"
| "fix_answer cfg w k ms schema (Suc n) retries (Inl e) =
     fix_answer cfg w k ms schema n (retries + 1)
       (schema (parseCandidate cfg (trim (stream_text (aw_fix w k (retries + 1) (ms @ [fix_message cfg e]))))))"

definition validated_answer :: "agent_config \<Rightarrow> world \<Rightarrow> nat \<Rightarrow> model_message list \<Rightarrow> string \<Rightarrow> string + json" where
  "validated_answer cfg w k ms answer =
     (case ag_outputSchema cfg of
        None \<Rightarrow> Inr (JStr answer)
      | Some schema \<Rightarrow>
          fix_answer cfg w k ms schema (ag_outputSchemaRetries cfg) 0 (schema (parseCandidate cfg answer)))"

definition finish_answer :: "agent_config \<Rightarrow> world \<Rightarrow> nat \<Rightarrow> string \<Rightarrow> agent_state \<Rightarrow> flow" where
  "finish_answer cfg w k fullText st =
     (let messages = context_of cfg w k st;
          plain = or_text (trim fullText) ''No answer provided'';
          answer = (case chosen_runner cfg of None \<Rightarrow> plain | Some r \<Rightarrow> or_text (aw_enhance w k r messages) plain)
      in case validated_answer cfg w k messages answer of
           Inl e \<Rightarrow> fails (SchemaValidationFailed (ag_outputSchemaRetries cfg) e k) st
         | Inr v \<Rightarrow>
             (case first_tripped (ag_outputGuardrails cfg) (\<lambda>trips. trips v) of
                Some name \<Rightarrow> fails (OutputGuardrailTriggered name k) (emits [GuardrailTripwire name ''output''] st)
              | None \<Rightarrow> Returned (emits [FinalAnswer v] (add_history cfg (FinalAnswerStep v) st))))"

section \<open>Gates in front of the calls\<close>

definition announce_calls :: "agent_config \<Rightarrow> nat \<Rightarrow> string \<Rightarrow> pending_call list \<Rightarrow> agent_event list" where
  "announce_calls cfg k fullText calls =
     map (\<lambda>c. ActionProposed (pc_id c) (pc_name c)
                (case field (pc_input c) ''path'' of JStr p \<Rightarrow> Some p | _ \<Rightarrow> None)
                (if fullText = [] then None else Some (take 150 fullText))) calls @
     concat (map (\<lambda>c. ToolCallEvent (pc_id c) (pc_name c) (pc_input c) k #
                (if synthesis_tool cfg = Some (pc_name c)
                 then [ToolSynthesised (pc_name c) (pc_id c) k] else [])) calls) @
     concat (map (\<lambda>c. [ToolExecuting (pc_name c) (pc_id c) k, ActionExecuting (pc_id c)]) calls)"

fun guard_calls :: "agent_config \<Rightarrow> string \<Rightarrow> nat \<Rightarrow> pending_call list \<Rightarrow> agent_state \<Rightarrow> flow" where
  "guard_calls cfg task k [] st = Running st"
| "guard_calls cfg task k (c # cs) st =
     (case first_tripped (ag_toolGuardrails cfg) (\<lambda>trips. trips task (pc_name c) (pc_input c)) of
        Some name \<Rightarrow> fails (ToolGuardrailBlocked name (pc_name c) k) (emits [GuardrailTripwire name ''tool''] st)
      | None \<Rightarrow> guard_calls cfg task k cs st)"

text \<open>Without a checkpointer there is no one to ask: a \<open>confirm\<close> is a denial.\<close>

definition effective_decision :: "agent_config \<Rightarrow> policy_decision \<Rightarrow> policy_decision" where
  "effective_decision cfg d =
     (case d of
        ConfirmCall prompt reason \<Rightarrow>
          if ag_hasCheckpointer cfg then d
          else DenyCall [''consent-unavailable'']
                 (reason @ '' (consent required but no checkpointer is wired - refusing fail-closed)'')
      | _ \<Rightarrow> d)"

definition judge_call :: "agent_config \<Rightarrow> gateway \<Rightarrow> policy_observation list \<Rightarrow> pending_call \<Rightarrow> policy_decision" where
  "judge_call cfg g observed c = effective_decision cfg (g observed (request_of c))"

definition judge_calls ::
  "agent_config \<Rightarrow> policy_observation list \<Rightarrow> pending_call list \<Rightarrow> (string \<times> policy_decision) list" where
  "judge_calls cfg observed calls =
     (case ag_gateway cfg of
        None \<Rightarrow> []
      | Some g \<Rightarrow> foldl (\<lambda>m c. AList.update (pc_id c) (judge_call cfg g observed c) m) [] calls)"

definition denial_events :: "agent_config \<Rightarrow> policy_observation list \<Rightarrow> nat \<Rightarrow> pending_call list \<Rightarrow> agent_event list" where
  "denial_events cfg observed k calls =
     (case ag_gateway cfg of
        None \<Rightarrow> []
      | Some g \<Rightarrow> concat (map (\<lambda>c. case judge_call cfg g observed c of
                                       DenyCall rules reason \<Rightarrow> [PolicyDeniedStatus (pc_name c) (pc_id c) rules reason k]
                                     | _ \<Rightarrow> []) calls))"

section \<open>Human approval\<close>

definition wants_approval :: "agent_config \<Rightarrow> pending_call \<Rightarrow> bool" where
  "wants_approval cfg c = (case get_tool (ag_tools cfg) (pc_name c) of None \<Rightarrow> False | Some t \<Rightarrow> td_needsApproval t (pc_input c))"

definition approves :: "string \<Rightarrow> bool" where
  "approves response = (ascii_lower (trim response) \<in> {''yes'', ''y'', ''approve'', ''approved''})"

definition prompt_id :: "pending_call \<Rightarrow> string" where
  "prompt_id c = ''approval-'' @ pc_id c"

definition approved_in :: "world \<Rightarrow> nat \<Rightarrow> pending_call \<Rightarrow> bool" where
  "approved_in w k c = (case aw_response w k (prompt_id c) of None \<Rightarrow> False | Some r \<Rightarrow> approves r)"

definition prompt_for :: "(string \<times> policy_decision) list \<Rightarrow> pending_call \<Rightarrow> string" where
  "prompt_for decisions c =
     (case map_of decisions (pc_id c) of
        Some (ConfirmCall prompt reason) \<Rightarrow> prompt
      | _ \<Rightarrow> ''Approve execution of tool \"'' @ pc_name c @ ''\" with args: '' @ json_stringify (pc_input c) @ ''?'')"

fun is_confirm :: "policy_decision option \<Rightarrow> bool" where
  "is_confirm (Some (ConfirmCall prompt reason)) = True"
| "is_confirm d = False"

fun is_deny :: "policy_decision option \<Rightarrow> bool" where
  "is_deny (Some (DenyCall rules reason)) = True"
| "is_deny d = False"

text \<open>The checkpoint is saved before the human is asked and deleted after the polls, whatever the answer was.\<close>

definition ask_human :: "nat \<Rightarrow> (string \<times> policy_decision) list \<Rightarrow> pending_call \<Rightarrow> agent_state \<Rightarrow> agent_state" where
  "ask_human k decisions c st =
     (emits [AwaitHumanInput (prompt_id c) (prompt_for decisions c) k]
       (st\<lparr>as_checkpoint := Some \<lparr>ck_stepIndex = k, ck_pendingHumanInput = Some (prompt_id c)\<rparr>\<rparr>))\<lparr>as_checkpoint := None\<rparr>"

text \<open>The decisions after the approvals, and the state.\<close>

fun approve_calls ::
  "agent_config \<Rightarrow> world \<Rightarrow> nat \<Rightarrow> pending_call list \<Rightarrow> (string \<times> policy_decision) list \<Rightarrow> agent_state \<Rightarrow>
     (string \<times> policy_decision) list \<times> flow" where
  "approve_calls cfg w k [] decisions st = (decisions, Running st)"
| "approve_calls cfg w k (c # cs) decisions st =
     (let decision = map_of decisions (pc_id c)
      in if is_deny decision \<or> \<not> (is_confirm decision \<or> wants_approval cfg c) then approve_calls cfg w k cs decisions st
         else if \<not> approved_in w k c then (decisions, fails (DeniedByHuman (pc_name c) k) (ask_human k decisions c st))
         else approve_calls cfg w k cs (if is_confirm decision then AList.update (pc_id c) AllowCall decisions else decisions)
                (ask_human k decisions c st))"

definition approval_phase ::
  "agent_config \<Rightarrow> world \<Rightarrow> nat \<Rightarrow> pending_call list \<Rightarrow> (string \<times> policy_decision) list \<Rightarrow> agent_state \<Rightarrow>
     (string \<times> policy_decision) list \<times> flow" where
  "approval_phase cfg w k calls decisions st =
     (if ag_hasCheckpointer cfg then approve_calls cfg w k calls decisions st else (decisions, Running st))"

section \<open>Dispatch and history\<close>

definition take_effects :: "nat \<Rightarrow> dispatched \<Rightarrow> agent_state \<Rightarrow> agent_state" where
  "take_effects k d st =
     st\<lparr>as_events := as_events st @ ds_events d, as_observed := as_observed st @ ds_observed d,
        as_ran := as_ran st @ map (Pair k) (ds_ran d)\<rparr>"

definition history_step_of :: "string \<Rightarrow> tool_use_call list \<Rightarrow> history_step" where
  "history_step_of fullText rs =
     (case rs of [c] \<Rightarrow> ToolUseStep (trim fullText) c | _ \<Rightarrow> ParallelToolUseStep (trim fullText) rs)"

definition record_calls :: "agent_config \<Rightarrow> string \<Rightarrow> tool_use_call list \<Rightarrow> agent_state \<Rightarrow> agent_state" where
  "record_calls cfg fullText rs st =
     (add_history cfg (history_step_of fullText rs) st)
       \<lparr>as_callHistory := as_callHistory st @ [map (\<lambda>c. callFingerprint (tc_name c) (tc_input c)) rs]\<rparr>"

definition dispatch_calls ::
  "agent_config \<Rightarrow> world \<Rightarrow> nat \<Rightarrow> policy_observation list \<Rightarrow> (string \<times> policy_decision) list \<Rightarrow> pending_call list \<Rightarrow>
     dispatched + dispatched" where
  "dispatch_calls cfg w k observed decisions calls =
     (let d = dispatch_config.truncate cfg
      in if ag_dagMode cfg then dispatch_dag d (aw_body w k) observed decisions k calls
         else Inr (dispatch_parallel d (aw_body w k) decisions k calls))"

definition run_calls :: "agent_config \<Rightarrow> world \<Rightarrow> string \<Rightarrow> nat \<Rightarrow> string \<Rightarrow> pending_call list \<Rightarrow> agent_state \<Rightarrow> flow" where
  "run_calls cfg w task k fullText calls st =
     and_then (guard_calls cfg task k calls (emits (announce_calls cfg k fullText calls) st))
       (\<lambda>st1.
          (let st2 = emits (denial_events cfg (as_observed st1) k calls) st1;
               (decisions, gate) = approval_phase cfg w k calls (judge_calls cfg (as_observed st1) calls) st2
           in and_then gate
                (\<lambda>st3. case dispatch_calls cfg w k (as_observed st3) decisions calls of
                          Inl d \<Rightarrow> Threw (take_effects k d st3)
                        | Inr d \<Rightarrow> Running (record_calls cfg fullText (ds_calls d) (take_effects k d st3)))))"

section \<open>The loop\<close>

text \<open>What the model replied in this step, to the context it was asked with.\<close>

definition step_body :: "agent_config \<Rightarrow> world \<Rightarrow> string \<Rightarrow> string option \<Rightarrow> nat \<Rightarrow> agent_state \<Rightarrow> flow" where
  "step_body cfg w task tripped k st =
     (let es = aw_reply w k (context_of cfg w k st)
      in and_then (ask_model cfg w tripped k st)
           (\<lambda>st1. if stream_calls es = [] then finish_answer cfg w k (stream_text es) st1
                  else run_calls cfg w task k (stream_text es) (stream_calls es) st1))"

definition agent_step :: "agent_config \<Rightarrow> world \<Rightarrow> string \<Rightarrow> string option \<Rightarrow> nat \<Rightarrow> agent_state \<Rightarrow> flow" where
  "agent_step cfg w task tripped k st =
     and_then (and_then (and_then (and_then (and_then (check_abort cfg w k st) (check_stop cfg k)) (check_tokens cfg))
       (check_time cfg w k)) (plan_phase cfg w k)) (step_body cfg w task tripped k)"

primrec run_steps :: "agent_config \<Rightarrow> world \<Rightarrow> string \<Rightarrow> string option \<Rightarrow> nat \<Rightarrow> nat \<Rightarrow> agent_state \<Rightarrow> flow" where
  "run_steps cfg w task tripped 0 k st = fails (MaxStepsReached (ag_maxSteps cfg)) st"
| "run_steps cfg w task tripped (Suc n) k st =
     and_then (agent_step cfg w task tripped k st) (run_steps cfg w task tripped n (k + 1))"

text \<open>The assembler and the statistics reported survive from run to run of one agent.\<close>

definition start_run :: "agent_config \<Rightarrow> string \<Rightarrow> model_message list \<Rightarrow> assembler \<Rightarrow> reported_stats \<Rightarrow> agent_state" where
  "start_run cfg task given a reported =
     (let a1 = (if ma_history a = [] then reset a else a);
          a2 = foldl (\<lambda>a m. addStep (ag_assembler cfg) (RawMessageStep m) a) a1 given
      in \<lparr>as_assembler = addStep (ag_assembler cfg) (UserMessageStep task) a2, as_budget = new_budget, as_reported = reported,
          as_callHistory = [], as_observed = [], as_checkpoint = None, as_events = [RunStart task], as_ran = []\<rparr>)"

definition agent_run ::
  "agent_config \<Rightarrow> world \<Rightarrow> string \<Rightarrow> model_message list \<Rightarrow> assembler \<Rightarrow> reported_stats \<Rightarrow> flow" where
  "agent_run cfg w task given a reported =
     (let st = start_run cfg task given a reported;
          tripped = first_tripped (ag_inputGuardrails cfg) (\<lambda>trips. trips task (context_of cfg w 0 st))
      in run_steps cfg w task tripped (ag_maxSteps cfg) 1 st)"

section \<open>Lemmas: how a run ends\<close>

fun is_terminal :: "agent_event \<Rightarrow> bool" where
  "is_terminal (AgentError e) = True"
| "is_terminal (FinalAnswer v) = True"
| "is_terminal e = False"

fun is_model_start :: "agent_event \<Rightarrow> bool" where
  "is_model_start (ModelStart k ms) = True"
| "is_model_start e = False"

definition quiet :: "agent_event list \<Rightarrow> bool" where
  "quiet es = list_all (\<lambda>e. \<not> is_terminal e) es"

definition model_starts :: "agent_event list \<Rightarrow> nat" where
  "model_starts es = length (filter is_model_start es)"

lemma quiet_simps [simp]:
  "quiet []" "quiet (e # es) = (\<not> is_terminal e \<and> quiet es)" "quiet (xs @ ys) = (quiet xs \<and> quiet ys)"
  "model_starts [] = 0" "model_starts (e # es) = (if is_model_start e then 1 else 0) + model_starts es"
  "model_starts (xs @ ys) = model_starts xs + model_starts ys"
  by (auto simp: quiet_def model_starts_def)

text \<open>A run goes on without a terminal event, and ends with its only one; no prompt is left in the checkpointer.\<close>

definition live :: "nat \<Rightarrow> agent_state \<Rightarrow> bool" where
  "live b st = (quiet (as_events st) \<and> model_starts (as_events st) \<le> b \<and> as_checkpoint st = None)"

definition ended :: "nat \<Rightarrow> agent_state \<Rightarrow> bool" where
  "ended b st =
     ((\<exists>es e. as_events st = es @ [e] \<and> is_terminal e \<and> quiet es \<and> model_starts es \<le> b) \<and>
      (\<forall>c. as_checkpoint st = Some c \<longrightarrow> ck_pendingHumanInput c = None))"

fun shaped :: "nat \<Rightarrow> flow \<Rightarrow> bool" where
  "shaped b (Running st) = live b st"
| "shaped b (Returned st) = ended b st"
| "shaped b (Threw st) = live b st"

lemma shaped_then: "shaped b m \<Longrightarrow> (\<And>st. live b st \<Longrightarrow> shaped b (f st)) \<Longrightarrow> shaped b (and_then m f)"
  by (cases m) auto

lemma shaped_mono: "shaped b m \<Longrightarrow> b \<le> b' \<Longrightarrow> shaped b' m"
  by (cases m) (auto simp: live_def ended_def)

lemma emits_simps [simp]:
  "as_events (emits es st) = as_events st @ es" "as_assembler (emits es st) = as_assembler st"
  "as_observed (emits es st) = as_observed st" "as_ran (emits es st) = as_ran st" "as_budget (emits es st) = as_budget st"
  "as_checkpoint (emits es st) = as_checkpoint st" "as_events (add_history cfg s st) = as_events st"
  "as_observed (add_history cfg s st) = as_observed st" "as_ran (add_history cfg s st) = as_ran st"
  "as_checkpoint (add_history cfg s st) = as_checkpoint st"
  by (simp_all add: emits_def add_history_def)

lemma live_emits: "live b st \<Longrightarrow> quiet es \<Longrightarrow> model_starts es = 0 \<Longrightarrow> live b (emits es st)"
  by (simp add: live_def)

lemma fails_shaped: "live b st \<Longrightarrow> shaped b (fails e st)"
  by (auto simp: fails_def ended_def live_def)

lemma live_fields [simp]:
  "live b (st\<lparr>as_budget := x\<rparr>) = live b st"
  "live b (add_history cfg s st) = live b st" "live b (st\<lparr>as_callHistory := h\<rparr>) = live b st"
  "live b (st\<lparr>as_reported := r\<rparr>) = live b st"
  by (simp_all add: live_def add_history_def)

lemma abort_shaped: "live b st \<Longrightarrow> shaped b (check_abort cfg w k st)"
  by (auto simp: check_abort_def fails_def ended_def live_def)

lemma checks_shaped:
  assumes "live b st"
  shows "shaped b (check_stop cfg k st)" "shaped b (check_tokens cfg st)" "shaped b (check_time cfg w k st)"
    "shaped b (plan_phase cfg w k st)"
  using assms
  by (auto simp: check_stop_def check_tokens_def check_time_def plan_phase_def runPlanningStep_def Let_def
      split: option.splits intro!: fails_shaped live_emits)

lemma ask_shaped: "live b st \<Longrightarrow> shaped (b + 1) (ask_model cfg w tripped k st)"
proof -
  assume l: "live b st"
  have m: "live (b + 1) ((emits [StepStart k, ModelStart k messages] st)\<lparr>as_budget := x\<rparr>)" for messages x
    using l by (auto simp: live_def)
  show ?thesis
    using m by (auto simp: ask_model_def Let_def split: option.splits intro!: fails_shaped live_emits)
qed

lemma finish_shaped: "live b st \<Longrightarrow> shaped b (finish_answer cfg w k t st)"
  by (auto simp: finish_answer_def Let_def split: sum.splits option.splits intro!: fails_shaped live_emits)
    (auto simp: ended_def live_def)

lemma guard_shaped: "live b st \<Longrightarrow> shaped b (guard_calls cfg task k cs st)"
  by (induction cs) (auto split: option.splits intro!: fails_shaped live_emits)

lemma ask_live: "live b st \<Longrightarrow> live b (ask_human k ds c st)"
  by (simp add: ask_human_def live_def)

lemma approve_shaped: "live b st \<Longrightarrow> shaped b (snd (approve_calls cfg w k cs ds st))"
  by (induction cs arbitrary: ds st) (auto simp: Let_def ask_live intro: fails_shaped)

text \<open>The events of a dispatch neither end the run nor ask the model.\<close>

lemma quiet_concat: "(\<And>x. x \<in> set xs \<Longrightarrow> quiet (f x) \<and> model_starts (f x) = 0) \<Longrightarrow>
    quiet (concat (map f xs)) \<and> model_starts (concat (map f xs)) = 0"
  by (induction xs) auto

lemma quiet_map: "(\<And>x. \<not> is_terminal (f x) \<and> \<not> is_model_start (f x)) \<Longrightarrow> quiet (map f xs) \<and> model_starts (map f xs) = 0"
  by (induction xs) auto

lemma report_quiet:
  "quiet (report_dag cfg k c r) \<and> model_starts (report_dag cfg k c r) = 0"
  "quiet (result_event cfg k c r # fallback_events cfg k c r) \<and> model_starts (result_event cfg k c r # fallback_events cfg k c r) = 0"
  "quiet (late_denial k nodes called e) \<and> model_starts (late_denial k nodes called e) = 0"
  by (simp_all add: report_dag_def result_event_def fallback_events_def emitFallbacksIfAny_def)
    (cases e, auto split: option.splits)

definition ds_quiet :: "dispatched \<Rightarrow> bool" where
  "ds_quiet d = (quiet (ds_events d) \<and> model_starts (ds_events d) = 0)"

lemma dispatch_quiet:
  assumes "dispatch_calls cfg w k obs ds calls = r"
  shows "(case r of Inl d \<Rightarrow> ds_quiet d | Inr d \<Rightarrow> ds_quiet d)"
proof -
  have fx: "ds_quiet (sched_effects c body ds k nodes st)" for c body nodes st
    using quiet_concat [of "sc_events st" "late_denial k nodes (map fst (sc_calls st))"] report_quiet(3)
    by (simp add: ds_quiet_def sched_effects_def)
  have rep: "quiet (concat (map (\<lambda>x. report_dag c k x (f x)) calls)) \<and> model_starts (concat (map (\<lambda>x. report_dag c k x (f x)) calls)) = 0" for c f
    by (rule quiet_concat) (rule report_quiet(1))
  have "case dispatch_dag c body obs ds k calls of Inl d \<Rightarrow> ds_quiet d | Inr d \<Rightarrow> ds_quiet d" for c body
    using fx rep by (auto simp: dispatch_dag_def no_effects_def ds_quiet_def Let_def
        split: sum.splits option.splits sched_result.splits)
  moreover have "ds_quiet (dispatch_parallel c body ds k calls)" for c body
    using quiet_map [of "\<lambda>x. ToolResultEvent (pc_id x) (pc_name x) (Inl ref_event_text) k"]
      quiet_concat [of _ "\<lambda>x. result_event c k x (parallel_result c body ds x) # fallback_events c k x (parallel_result c body ds x)"]
      report_quiet(2)
    by (simp add: ds_quiet_def dispatch_parallel_def Let_def del: quiet_simps(2,5))
  ultimately show ?thesis using assms by (auto simp: dispatch_calls_def Let_def)
qed

lemma effects_live: "live b st \<Longrightarrow> ds_quiet d \<Longrightarrow> live b (take_effects k d st)"
  by (simp add: live_def take_effects_def ds_quiet_def)

lemma announce_quiet: "quiet (announce_calls cfg k t calls) \<and> model_starts (announce_calls cfg k t calls) = 0"
  using quiet_map [of "\<lambda>c. ActionProposed (pc_id c) (pc_name c) (case field (pc_input c) ''path'' of JStr p \<Rightarrow> Some p | _ \<Rightarrow> None)
      (if t = [] then None else Some (take 150 t))" calls]
    quiet_concat [of calls "\<lambda>c. ToolCallEvent (pc_id c) (pc_name c) (pc_input c) k #
      (if synthesis_tool cfg = Some (pc_name c) then [ToolSynthesised (pc_name c) (pc_id c) k] else [])"]
    quiet_concat [of calls "\<lambda>c. [ToolExecuting (pc_name c) (pc_id c) k, ActionExecuting (pc_id c)]"]
  by (simp add: announce_calls_def)

lemma denials_quiet: "quiet (denial_events cfg obs k calls) \<and> model_starts (denial_events cfg obs k calls) = 0"
proof -
  have "quiet (concat (map (\<lambda>c. case judge_call cfg g obs c of DenyCall rules reason \<Rightarrow> [PolicyDeniedStatus (pc_name c) (pc_id c) rules reason k] | _ \<Rightarrow> []) calls)) \<and>
      model_starts (concat (map (\<lambda>c. case judge_call cfg g obs c of DenyCall rules reason \<Rightarrow> [PolicyDeniedStatus (pc_name c) (pc_id c) rules reason k] | _ \<Rightarrow> []) calls)) = 0" for g
    by (rule quiet_concat) (auto split: policy_decision.splits)
  then show ?thesis by (auto simp: denial_events_def split: option.splits)
qed

lemma calls_shaped:
  assumes "live b st"
  shows "shaped b (run_calls cfg w task k t calls st)"
  unfolding run_calls_def
proof (rule shaped_then)
  show "shaped b (guard_calls cfg task k calls (emits (announce_calls cfg k t calls) st))"
    using assms announce_quiet by (intro guard_shaped live_emits) auto
  fix st1 assume l1: "live b st1"
  let ?st2 = "emits (denial_events cfg (as_observed st1) k calls) st1"
  have l2: "live b ?st2" using l1 denials_quiet by (intro live_emits) auto
  obtain ds gate where g: "approval_phase cfg w k calls (judge_calls cfg (as_observed st1) calls) ?st2 = (ds, gate)" by fastforce
  have "shaped b gate"
    using g l2 approve_shaped [OF l2, of cfg w k calls "judge_calls cfg (as_observed st1) calls"]
    by (auto simp: approval_phase_def split: if_splits)
  moreover have "shaped b (case dispatch_calls cfg w k (as_observed st3) ds calls of Inl d \<Rightarrow> Threw (take_effects k d st3)
      | Inr d \<Rightarrow> Running (record_calls cfg t (ds_calls d) (take_effects k d st3)))" if "live b st3" for st3
    using dispatch_quiet [of cfg w k "as_observed st3" ds calls] effects_live that
    by (auto simp: record_calls_def split: sum.splits)
  ultimately show "shaped b (let st2 = ?st2; (decisions, gate) = approval_phase cfg w k calls (judge_calls cfg (as_observed st1) calls) st2
      in and_then gate (\<lambda>st3. case dispatch_calls cfg w k (as_observed st3) decisions calls of Inl d \<Rightarrow> Threw (take_effects k d st3)
           | Inr d \<Rightarrow> Running (record_calls cfg t (ds_calls d) (take_effects k d st3))))"
    using g by (auto simp: Let_def intro: shaped_then)
qed

lemma step_shaped: "live b st \<Longrightarrow> shaped (b + 1) (agent_step cfg w task tripped k st)"
proof -
  assume l: "live b st"
  have "shaped b (and_then (and_then (and_then (and_then (check_abort cfg w k st) (check_stop cfg k)) (check_tokens cfg))
       (check_time cfg w k)) (plan_phase cfg w k))"
    using checks_shaped abort_shaped [OF l] by (intro shaped_then) auto
  moreover have "shaped (b + 1) (step_body cfg w task tripped k s)" if "live b s" for s
    unfolding step_body_def Let_def using ask_shaped [OF that] finish_shaped calls_shaped by (auto intro!: shaped_then)
  ultimately show ?thesis unfolding agent_step_def
    by (cases "and_then (and_then (and_then (and_then (check_abort cfg w k st) (check_stop cfg k)) (check_tokens cfg))
       (check_time cfg w k)) (plan_phase cfg w k)") (auto simp: live_def ended_def)
qed

lemma steps_shaped: "live b st \<Longrightarrow> shaped (b + n) (run_steps cfg w task tripped n k st) \<and> (\<forall>s. run_steps cfg w task tripped n k st \<noteq> Running s)"
proof (induction n arbitrary: b k st)
  case 0
  then show ?case using fails_shaped by (simp add: fails_def)
next
  case (Suc n)
  have s: "shaped (b + 1) (agent_step cfg w task tripped k st)" by (rule step_shaped [OF Suc.prems])
  show ?case
  proof (cases "agent_step cfg w task tripped k st")
    case (Running st')
    then show ?thesis using s Suc.IH [of "b + 1" st' "k + 1"] by simp
  qed (use s in \<open>auto simp: live_def ended_def\<close>)
qed

section \<open>Invariants of a run\<close>

fun flow_all :: "(agent_state \<Rightarrow> bool) \<Rightarrow> flow \<Rightarrow> bool" where
  "flow_all P (Running st) = P st"
| "flow_all P (Returned st) = P st"
| "flow_all P (Threw st) = P st"

lemma flow_all_then: "flow_all P m \<Longrightarrow> (\<And>st. m = Running st \<Longrightarrow> P st \<Longrightarrow> flow_all P (f st)) \<Longrightarrow> flow_all P (and_then m f)"
  by (cases m) auto

definition guards_pass :: "agent_config \<Rightarrow> string \<Rightarrow> pending_call \<Rightarrow> bool" where
  "guards_pass cfg task c = (first_tripped (ag_toolGuardrails cfg) (\<lambda>trips. trips task (pc_name c) (pc_input c)) = None)"

lemma guards_running: "guard_calls cfg task k cs st = Running st' \<Longrightarrow> st' = st \<and> (\<forall>c \<in> set cs. guards_pass cfg task c)"
  by (induction cs) (auto simp: guards_pass_def fails_def split: option.splits)

lemma ask_human_fields [simp]: "as_observed (ask_human k ds c st) = as_observed st" "as_ran (ask_human k ds c st) = as_ran st"
  "as_assembler (ask_human k ds c st) = as_assembler st"
  by (simp_all add: ask_human_def)

lemma approve_observed:
  "snd (approve_calls cfg w k cs ds st) = Running st' \<Longrightarrow> as_observed st' = as_observed st"
  by (induction cs arbitrary: ds st) (auto simp: Let_def fails_def split: if_splits)

lemma approval_observed:
  "approval_phase cfg w k cs ds st = (ds', Running st') \<Longrightarrow> as_observed st' = as_observed st"
  using approve_observed [of cfg w k cs ds st st'] by (auto simp: approval_phase_def split: if_splits)

text \<open>
  A property of states that the effects of the loop preserve, one assumption per effect, holds
  throughout every run. The assumption on dispatches comes with the gates the calls have passed.
\<close>

locale run_invariant =
  fixes cfg :: agent_config and w :: world and task :: string and P :: "agent_state \<Rightarrow> bool"
  assumes emits_ok: "P st \<Longrightarrow> model_starts es = 0 \<Longrightarrow> P (emits es st)"
    and checkpoint_ok: "P st \<Longrightarrow> P (st\<lparr>as_checkpoint := c\<rparr>)"
    and budget_ok: "P st \<Longrightarrow> P (st\<lparr>as_budget := b\<rparr>)"
    and reported_ok: "P st \<Longrightarrow> P (st\<lparr>as_reported := rp\<rparr>)"
    and fingerprints_ok: "P st \<Longrightarrow> P (st\<lparr>as_callHistory := h\<rparr>)"
    and history_ok: "P st \<Longrightarrow> step_textual s \<Longrightarrow> P (add_history cfg s st)"
    and ask_ok: "P st \<Longrightarrow> P (emits [StepStart k, ModelStart k (context_of cfg w k st)] st)"
    and dispatch_ok: "P st \<Longrightarrow> calls = stream_calls (aw_reply w k ms) \<Longrightarrow> \<forall>c \<in> set calls. guards_pass cfg task c \<Longrightarrow>
      approval_phase cfg w k calls (judge_calls cfg (as_observed st) calls) st0 = (ds, Running st) \<Longrightarrow>
      dispatch_calls cfg w k (as_observed st) ds calls = r \<Longrightarrow> d = (case r of Inl d \<Rightarrow> d | Inr d \<Rightarrow> d) \<Longrightarrow>
      P (take_effects k d st)"
begin

lemma fails_inv: "P st \<Longrightarrow> flow_all P (fails e st)"
  by (simp add: fails_def emits_ok)

lemma plan_inv: "P st \<Longrightarrow> P (runPlanningStep cfg w k st)"
  by (auto simp: runPlanningStep_def Let_def intro!: emits_ok history_ok budget_ok)

lemma checks_inv:
  assumes "P st"
  shows "flow_all P (check_abort cfg w k st)" "flow_all P (check_stop cfg k st)" "flow_all P (check_tokens cfg st)"
    "flow_all P (check_time cfg w k st)" "flow_all P (plan_phase cfg w k st)"
  using assms
  by (auto simp: check_abort_def check_stop_def check_tokens_def check_time_def plan_phase_def
      split: option.splits intro!: fails_inv plan_inv checkpoint_ok)

lemma ask_inv: "P st \<Longrightarrow> flow_all P (ask_model cfg w tripped k st)"
  by (auto simp: ask_model_def Let_def split: option.splits intro!: fails_inv emits_ok reported_ok budget_ok ask_ok)

lemma answer_inv: "P st \<Longrightarrow> flow_all P (finish_answer cfg w k t st)"
  by (auto simp: finish_answer_def Let_def split: sum.splits option.splits intro!: fails_inv emits_ok history_ok)

lemma guard_inv: "P st \<Longrightarrow> flow_all P (guard_calls cfg task k cs st)"
  by (induction cs) (auto split: option.splits intro!: fails_inv emits_ok)

lemma ask_human_inv: "P st \<Longrightarrow> P (ask_human k ds c st)"
  by (auto simp: ask_human_def intro!: checkpoint_ok emits_ok)

lemma approve_inv: "P st \<Longrightarrow> flow_all P (snd (approve_calls cfg w k cs ds st))"
  by (induction cs arbitrary: ds st) (auto simp: Let_def ask_human_inv intro: fails_inv)

lemma approval_inv: "P st \<Longrightarrow> flow_all P (snd (approval_phase cfg w k cs ds st))"
  by (simp add: approval_phase_def approve_inv)

lemma record_inv: "P st \<Longrightarrow> P (record_calls cfg t rs st)"
  unfolding record_calls_def
  by (intro fingerprints_ok history_ok) (auto simp: history_step_of_def split: list.splits)

lemma run_calls_inv:
  assumes "P st" "calls = stream_calls (aw_reply w k ms)"
  shows "flow_all P (run_calls cfg w task k t calls st)"
  unfolding run_calls_def
proof (rule flow_all_then)
  show "flow_all P (guard_calls cfg task k calls (emits (announce_calls cfg k t calls) st))"
    using assms announce_quiet by (intro guard_inv emits_ok) auto
  fix st1 assume g: "guard_calls cfg task k calls (emits (announce_calls cfg k t calls) st) = Running st1" and p1: "P st1"
  let ?st2 = "emits (denial_events cfg (as_observed st1) k calls) st1" and ?ds = "judge_calls cfg (as_observed st1) calls"
  have p2: "P ?st2" using p1 denials_quiet by (intro emits_ok) auto
  obtain ds gate where a: "approval_phase cfg w k calls ?ds ?st2 = (ds, gate)" by fastforce
  have "flow_all P gate" using approval_inv [OF p2, of k calls ?ds] a by simp
  moreover have "flow_all P (case dispatch_calls cfg w k (as_observed st3) ds calls of Inl d \<Rightarrow> Threw (take_effects k d st3)
      | Inr d \<Rightarrow> Running (record_calls cfg t (ds_calls d) (take_effects k d st3)))" if s3: "gate = Running st3" and p3: "P st3" for st3
  proof -
    have o: "as_observed st3 = as_observed st1" using approval_observed a s3 by fastforce
    have "P (take_effects k d st3)" if "d = (case dispatch_calls cfg w k (as_observed st3) ds calls of Inl d \<Rightarrow> d | Inr d \<Rightarrow> d)" for d
      by (rule dispatch_ok [OF p3 assms(2) _ _ refl that]) (use guards_running [OF g] a s3 o in auto)
    then show ?thesis using record_inv by (auto split: sum.splits)
  qed
  ultimately show "flow_all P (let st2 = ?st2; (decisions, gate) = approval_phase cfg w k calls ?ds st2
      in and_then gate (\<lambda>st3. case dispatch_calls cfg w k (as_observed st3) decisions calls of Inl d \<Rightarrow> Threw (take_effects k d st3)
           | Inr d \<Rightarrow> Running (record_calls cfg t (ds_calls d) (take_effects k d st3))))"
    using a by (auto simp: Let_def intro: flow_all_then)
qed

lemma step_inv: "P st \<Longrightarrow> flow_all P (agent_step cfg w task tripped k st)"
proof -
  assume p: "P st"
  have "flow_all P (step_body cfg w task tripped k s)" if "P s" for s
    unfolding step_body_def Let_def
    by (rule flow_all_then [OF ask_inv [OF that]]) (auto intro: answer_inv run_calls_inv)
  then show ?thesis unfolding agent_step_def using checks_inv p by (intro flow_all_then) auto
qed

lemma steps_inv: "P st \<Longrightarrow> flow_all P (run_steps cfg w task tripped n k st)"
  by (induction n arbitrary: k st) (auto intro: fails_inv flow_all_then step_inv)

lemma run_inv: "P (start_run cfg task given a reported) \<Longrightarrow> flow_all P (agent_run cfg w task given a reported)"
  by (simp add: agent_run_def Let_def steps_inv)

end

section \<open>The context\<close>

text \<open>The assembler stays in order, and whatever the model was asked with pairs calls and results.\<close>

definition context_ok :: "agent_config \<Rightarrow> agent_state \<Rightarrow> bool" where
  "context_ok cfg st =
     (asm_inv (as_assembler st) \<and> all_textual (as_assembler st) \<and> list_all textual (ac_fewShotExamples (ag_assembler cfg)) \<and>
      (\<forall>k ms. ModelStart k ms \<in> set (as_events st) \<longrightarrow> paired ms))"

lemma no_model_start: "model_starts es = 0 \<Longrightarrow> ModelStart k ms \<notin> set es"
  by (induction es) (auto split: if_splits)

lemma context_paired: "context_ok cfg st \<Longrightarrow> paired (context_of cfg w k st)"
  using build_full [of "as_assembler st"] written_paired [of "as_assembler st" "ag_assembler cfg"]
  by (simp add: context_ok_def context_of_def all_textual_def comp_def)

lemma effects_fields [simp]: "as_assembler (take_effects k d st) = as_assembler st"
  "as_events (take_effects k d st) = as_events st @ ds_events d" "as_observed (take_effects k d st) = as_observed st @ ds_observed d"
  "as_ran (take_effects k d st) = as_ran st @ map (Pair k) (ds_ran d)"
  by (simp_all add: take_effects_def)

lemma add_history_assembler: "as_assembler (add_history cfg s st) = addStep (ag_assembler cfg) s (as_assembler st)"
  by (simp add: add_history_def)

interpretation contexts: run_invariant cfg w task "context_ok cfg" for cfg w task
proof (unfold_locales, goal_cases)
  case (1 st es)
  then show ?case using no_model_start by (auto simp: context_ok_def)
next
  case (6 st s)
  then show ?case
    using asm_step_inv [of "as_assembler st" "ag_assembler cfg" "AddStep s"] textual_step [of "as_assembler st" "AddStep s" "ag_assembler cfg"]
    by (auto simp: context_ok_def asm_step_def textual_event_def add_history_assembler)
next
  case (7 st k)
  then show ?case using context_paired [OF 7] by (auto simp: context_ok_def)
next
  case (8 st calls k ms st0 ds r d)
  then have "ds_quiet d" using dispatch_quiet [OF 8(5)] by (simp split: sum.splits)
  then show ?case using 8(1) no_model_start by (auto simp: context_ok_def ds_quiet_def)
qed (auto simp: context_ok_def)

section \<open>Properties\<close>

fun flow_state :: "flow \<Rightarrow> agent_state" where
  "flow_state (Running st) = st"
| "flow_state (Returned st) = st"
| "flow_state (Threw st) = st"

lemma flow_all_state: "flow_all P m = P (flow_state m)"
  by (cases m) auto

lemma start_live: "live 0 (start_run cfg task given a reported)"
  by (simp add: live_def start_run_def Let_def)

text \<open>
  C33. Every run ends, whatever the model, the tools and the human do: after at most the maximal number
  of model turns it has returned or thrown. A run that returns has reported exactly one final answer
  or error, as its last event, and a run that throws none; and no prompt to the human is left in the
  checkpointer.
\<close>
theorem run_ends_once:
  "case agent_run cfg w task given a reported of
     Running st \<Rightarrow> False
   | Returned st \<Rightarrow>
       (\<exists>es e. as_events st = es @ [e] \<and> is_terminal e \<and> quiet es \<and> model_starts es \<le> ag_maxSteps cfg) \<and>
       map_option ck_pendingHumanInput (as_checkpoint st) \<in> {None, Some None}
   | Threw st \<Rightarrow> quiet (as_events st) \<and> model_starts (as_events st) \<le> ag_maxSteps cfg \<and> as_checkpoint st = None"
proof -
  obtain tripped where r: "agent_run cfg w task given a reported =
      run_steps cfg w task tripped (ag_maxSteps cfg) 1 (start_run cfg task given a reported)"
    by (simp add: agent_run_def Let_def)
  have "shaped (ag_maxSteps cfg) (agent_run cfg w task given a reported)" "\<forall>s. agent_run cfg w task given a reported \<noteq> Running s"
    using steps_shaped [OF start_live [of cfg task given a reported], of "ag_maxSteps cfg" cfg w task tripped 1] unfolding r by simp_all
  then show ?thesis
    by (cases "agent_run cfg w task given a reported"; cases "as_checkpoint (flow_state (agent_run cfg w task given a reported))")
      (auto simp: ended_def live_def)
qed

lemma raw_steps:
  "asm_inv a \<and> all_textual a \<Longrightarrow> list_all textual given \<Longrightarrow>
     asm_inv (foldl (\<lambda>a m. addStep cfg (RawMessageStep m) a) a given) \<and> all_textual (foldl (\<lambda>a m. addStep cfg (RawMessageStep m) a) a given)"
proof (induction given arbitrary: a)
  case (Cons m ms)
  then show ?case
    using asm_step_inv [of a cfg "AddStep (RawMessageStep m)"] textual_step [of a "AddStep (RawMessageStep m)" cfg]
    by (simp add: asm_step_def textual_event_def)
qed simp

lemma start_context:
  assumes "asm_inv a \<and> all_textual a" "list_all textual given" "list_all textual (ac_fewShotExamples (ag_assembler cfg))"
  shows "context_ok cfg (start_run cfg task given a reported)"
proof -
  let ?c = "ag_assembler cfg"
  let ?a1 = "if ma_history a = [] then reset a else a"
  let ?a2 = "foldl (\<lambda>a m. addStep ?c (RawMessageStep m) a) ?a1 given"
  have "asm_inv ?a1 \<and> all_textual ?a1"
    using assms(1) asm_step_inv [of a ?c ResetHistory] textual_step [of a ResetHistory ?c] by (simp add: asm_step_def textual_event_def)
  then have "asm_inv ?a2 \<and> all_textual ?a2" using assms(2) by (rule raw_steps)
  then show ?thesis
    using assms(3) asm_step_inv [of ?a2 ?c "AddStep (UserMessageStep task)"] textual_step [of ?a2 "AddStep (UserMessageStep task)" ?c]
    by (simp add: context_ok_def start_run_def Let_def asm_step_def textual_event_def)
qed


text \<open>An agent with one tool, and a model that calls it and then answers.\<close>

definition echo_tool :: tool_def where
  "echo_tool =
     \<lparr>td_name = ''echo'', td_description = ''d'', td_descriptionCompressed = None, td_readOnly = Some False,
      td_idempotent = Some True, td_parse = Some Inr, td_rawInputJsonSchema = None, td_alternatives = None,
      td_requiredCapability = None, td_writeScope = None, td_deferLoading = False, td_inputExamples = None,
      td_allowedCallers = None, td_trust = None, td_sanitize = None, td_toModelOutput = None,
      td_needsApproval = (\<lambda>v. v = JBool True), td_resourceKey = (\<lambda>v. None), td_forward = Inr\<rparr>"

definition demo_agent :: agent_config where
  "demo_agent =
     \<lparr>ag_tools = [(''echo'', echo_tool)], ag_gateway = None, ag_synthesisCodeTool = None,
      ag_describe = (\<lambda>c e. (''failed'', None)), ag_parse = (\<lambda>s. None),
      ag_assembler = \<lparr>ac_systemPrompt = ''Help.'', ac_toolsSchema = [], ac_fewShotExamples = [], ac_chunkSizeSteps = 0, ac_systemPrefixTtl = None\<rparr>,
      ag_maxSteps = 3, ag_planningInterval = None, ag_maxTokens = None, ag_maxDurationMs = None, ag_dagMode = True, ag_stopWhen = [],
      ag_hasCheckpointer = True, ag_inputGuardrails = [], ag_outputGuardrails = [], ag_toolGuardrails = [],
      ag_policy = \<lparr>ep_budgetForcing = False, ep_reflectRefine = False, ep_selfConsistency = False, ep_parallelForkJoin = False\<rparr>,
      ag_supportsBudgetForcing = False, ag_outputSchema = None, ag_outputSchemaRetries = 2, ag_schemaDesc = [], ag_repairJson = (\<lambda>s. s)\<rparr>"

definition one_usage :: token_usage where
  "one_usage = \<lparr>tu_inputTokens = 1, tu_outputTokens = 1, tu_cacheReadTokens = None, tu_cacheWriteTokens = None, tu_cacheWriteTokens1h = None\<rparr>"

definition demo_world :: "pending_call list \<Rightarrow> world" where
  "demo_world calls =
     \<lparr>aw_memory = (\<lambda>k. []),
      aw_reply = (\<lambda>k ms. if k = 1 then UsageEvent one_usage # map ToolCallDelta calls else [UsageEvent one_usage, TextDelta ''done'']),
      aw_plan = (\<lambda>k ms. []), aw_fix = (\<lambda>k i ms. []), aw_enhance = (\<lambda>k r ms. []), aw_aborted = (\<lambda>k. False),
      aw_elapsedMs = (\<lambda>k. 0), aw_body = (\<lambda>k i n v. Inr v), aw_response = (\<lambda>k p. Some ''yes'')\<rparr>"

definition fresh_stats :: reported_stats where
  "fresh_stats = \<lparr>rp_input = 0, rp_output = 0, rp_cacheRead = 0, rp_calls = 0\<rparr>"

definition demo_run :: "agent_config \<Rightarrow> pending_call list \<Rightarrow> flow" where
  "demo_run cfg calls = agent_run cfg (demo_world calls) ''go'' [] new_assembler fresh_stats"

definition demo_calls :: "pending_call list" where
  "demo_calls = [\<lparr>pc_id = ''a'', pc_name = ''echo'', pc_input = JNum 7\<rparr>, \<lparr>pc_id = ''b'', pc_name = ''echo'', pc_input = JArr [JStr ''$a'']\<rparr>]"

lemma demo_trace: "list_ex (\<lambda>e. case e of ModelStart k ms \<Rightarrow> k = 2 \<and> concat (map uses ms) = [''a'', ''b''] | _ \<Rightarrow> False)
    (as_events (flow_state (demo_run demo_agent demo_calls)))"
  by code_simp


end
