(* ===== verification/Agent_Gates.thy ===== *)
theory Agent_Gates
  imports Agent_Loop
begin

text \<open>
  What stands between a model and the bodies of the tools: in every run of the agent loop a body runs
  only for a call the model made, past the tool guardrails, the policy gateway, the human and, when
  the call refers to others, past the gateway once more with the references resolved.
\<close>

section \<open>A body that runs\<close>

lemma map_of_tools: "map_of (tools_for body r i) n = map_option (\<lambda>t. t\<lparr>td_forward := body i n\<rparr>) (map_of r n)"
  by (induction r) (auto simp: tools_for_def)

text \<open>The tools an agent can run at all: its loop passes neither capabilities nor a principal.\<close>

definition runnable :: "'a dispatch_config_scheme \<Rightarrow> string \<Rightarrow> json \<Rightarrow> json \<Rightarrow> bool" where
  "runnable cfg name args data =
     (\<exists>t. get_tool (ag_tools cfg) name = Some t \<and> capability_granted t None \<and> scopes_granted t None \<and>
          the (td_parse t) args = Inr data)"

lemma run_call_runs:
  assumes "snd (run_call cfg body ds c) = Some data"
  shows "\<not> is_deny (map_of ds (cl_callId c)) \<and> runnable cfg (cl_toolName c) (cl_args c) data"
proof -
  let ?r = "tools_for body (ag_tools cfg) (cl_callId c)"
  have d: "\<not> denied ds c" using assms denied_call [of ds c ?r None None] by (auto simp: run_call_def)
  then have "snd (call_tool ?r None None c) = Some data" using assms gated_cases [of ?r ds None None c] by (simp add: run_call_def)
  then obtain t where t: "map_of ?r (cl_toolName c) = Some t" "capability_granted t None" "scopes_granted t None"
    "the (td_parse t) (cl_args c) = Inr data" unfolding call_runs by blast
  then obtain t' where "map_of (ag_tools cfg) (cl_toolName c) = Some t'" "t = t'\<lparr>td_forward := body (cl_callId c) (cl_toolName c)\<rparr>"
    by (auto simp: map_of_tools)
  then have "runnable cfg (cl_toolName c) (cl_args c) data"
    using t by (auto simp: runnable_def get_tool_def capability_granted_def scopes_granted_def)
  moreover have "\<not> is_deny (map_of ds (cl_callId c))"
    using d by (cases "map_of ds (cl_callId c)" rule: is_deny.cases) (auto simp: denied_def)
  ultimately show ?thesis by simp
qed

lemma body_of_run:
  assumes "b \<in> set (body_of cfg body ds c)"
  shows "br_callId b = cl_callId c \<and> br_toolName b = cl_toolName c \<and> \<not> is_deny (map_of ds (cl_callId c)) \<and>
    runnable cfg (cl_toolName c) (cl_args c) (br_data b)"
proof (cases "snd (run_call cfg body ds c)")
  case (Some data)
  then show ?thesis using assms run_call_runs [OF Some] by (simp add: body_of_def)
qed (use assms in \<open>simp add: body_of_def\<close>)

section \<open>Calls that refer to others\<close>

definition refs_in :: "pending_call list \<Rightarrow> pending_call \<Rightarrow> string list" where
  "refs_in calls c = collectRefs (pc_input c) (map pc_id calls) (pc_id c)"

text \<open>
  The call was judged with its references resolved, after the results it refers to were observed.
\<close>

definition judged_late ::
  "gateway \<Rightarrow> policy_observation list \<Rightarrow> string list \<Rightarrow> pending_call \<Rightarrow> json \<Rightarrow> bool" where
  "judged_late g observed refs c args =
     (\<exists>before after. observed = before @ after \<and> set refs \<subseteq> po_callId ` set before \<and>
        g before \<lparr>cl_toolName = pc_name c, cl_args = args, cl_callId = pc_id c\<rparr> = AllowCall)"

lemma late_allows: "\<not> is_deny (Some (late_decision d)) \<Longrightarrow> d = AllowCall"
  by (cases d) (auto simp: late_decision_def)

lemma derived_nodes:
  assumes "distinct (map pc_id calls)"
    and "deriveDependencies (map (\<lambda>c. \<lparr>cd_id = pc_id c, cd_input = pc_input c\<rparr>) calls) = Inr deps"
  shows "deps = map (\<lambda>c. (pc_id c, refs_in calls c)) calls"
proof -
  let ?f = "\<lambda>c. \<lparr>cd_id = pc_id c, cd_input = pc_input c\<rparr>"
  have ids: "map (\<lambda>c. cd_id (?f c)) calls = map pc_id calls" by simp
  then have "distinct (map cd_id (map ?f calls))" using assms(1) by (simp add: comp_def)
  from derived_map [OF this, of "\<lambda>c. collectRefs (cd_input c) (map pc_id calls) (cd_id c)"] assms(2)
  show ?thesis
    by (auto simp: deriveDependencies_def Let_def comp_def refs_in_def split: option.splits)
qed

lemma found_node:
  assumes "distinct (map pc_id calls)" "c \<in> set calls"
  shows "find (\<lambda>nd. in_id nd = pc_id c) (map (node_of r deps) calls) = Some (node_of r deps c)"
proof -
  have "in_id (node_of r deps c') = pc_id c'" for c' by (simp add: node_of_def Let_def)
  then show ?thesis using assms by (induction calls) (auto simp: image_iff)
qed

lemma node_fields: "in_id (node_of r deps c) = pc_id c" "in_toolName (node_of r deps c) = pc_name c"
  "in_args (node_of r deps c) = pc_input c"
  "in_dependsOn (node_of r deps c) = (case map_of deps (pc_id c) of None \<Rightarrow> [] | Some ds \<Rightarrow> ds)"
  by (simp_all add: node_of_def Let_def)

lemma find_done:
  assumes "NodeDone i v \<in> set es" "find (\<lambda>nd. in_id nd = i) nodes = Some nd"
  shows "i \<in> po_callId ` set (observations nodes es)"
proof -
  have "\<exists>ob \<in> set (observation_of nodes (NodeDone i v)). po_callId ob = i" using assms(2) by auto
  then obtain ob where ob: "ob \<in> set (observation_of nodes (NodeDone i v))" "po_callId ob = i" by blast
  then have "ob \<in> set (observations nodes es)" unfolding observations_def using assms(1) by (auto simp del: observation_of.simps)
  then show ?thesis using ob(2) by blast
qed

lemma no_refs_resolved: "\<not> inputContainsRef v \<Longrightarrow> resolveRefs v env = v"
proof (induction v)
  case (JArr vs)
  then show ?case by (auto simp: list_ex_iff intro: map_idI)
next
  case (JObj kvs)
  then show ?case by (fastforce simp: list_ex_iff intro: map_idI)
qed auto

text \<open>What is known of a call whose body ran.\<close>

definition call_passed ::
  "agent_config \<Rightarrow> policy_observation list \<Rightarrow> (string \<times> policy_decision) list \<Rightarrow> pending_call list \<Rightarrow> body_run \<Rightarrow> pending_call \<Rightarrow> bool" where
  "call_passed cfg observed ds calls b c =
     (c \<in> set calls \<and> br_callId b = pc_id c \<and> br_toolName b = pc_name c \<and> \<not> is_deny (map_of ds (pc_id c)) \<and>
      (\<exists>args. runnable cfg (pc_name c) args (br_data b) \<and> (\<not> inputContainsRef (pc_input c) \<longrightarrow> args = pc_input c) \<and>
         (ag_dagMode cfg \<longrightarrow> (\<forall>g. ag_gateway cfg = Some g \<longrightarrow> refs_in calls c \<noteq> [] \<longrightarrow> judged_late g observed (refs_in calls c) c args))))"

lemma sched_effects_passed:
  assumes dist: "distinct (map pc_id calls)"
    and deps: "deps = map (\<lambda>c. (pc_id c, refs_in calls c)) calls"
    and nodes: "nodes = map (node_of (ag_tools cfg) deps) calls"
    and run: "execute nodes (call_node (dispatch_config.truncate cfg) body ds)
      (authorize_late (dispatch_config.truncate cfg) observed nodes (ref_ids deps)) = Some r"
    and b: "b \<in> set (ds_ran (sched_effects (dispatch_config.truncate cfg) body ds k nodes (final_state r)))"
  shows "\<exists>c. call_passed cfg (observed @ ds_observed (sched_effects (dispatch_config.truncate cfg) body ds k nodes (final_state r))) ds calls b c"
proof -
  let ?d = "dispatch_config.truncate cfg" and ?st = "final_state r"
  have trunc: "ag_gateway ?d = ag_gateway cfg" "ag_tools ?d = ag_tools cfg" by (simp_all add: dispatch_config.truncate_def)
  have dn: "distinct (map in_id nodes)" using dist nodes by (simp add: comp_def node_fields)
  obtain i args nd where c1: "(i, args) \<in> set (sc_calls ?st)" "find (\<lambda>nd. in_id nd = i) nodes = Some nd"
    "b \<in> set (body_of ?d body ds (node_request nd args))"
  proof -
    obtain i args where c: "(i, args) \<in> set (sc_calls ?st)"
      "b \<in> set (case find (\<lambda>nd. in_id nd = i) nodes of None \<Rightarrow> [] | Some nd \<Rightarrow> body_of ?d body ds (node_request nd args))"
      using b by (auto simp: sched_effects_def)
    then show thesis using that by (cases "find (\<lambda>nd. in_id nd = i) nodes") auto
  qed
  from authorized_calls [OF dn run c1(1)] obtain before after nd' env where
    e: "sc_events ?st = before @ after" "nd' \<in> set nodes" "in_id nd' = i" "set (in_dependsOn nd') \<subseteq> succeeded_in before"
      "authorize_late ?d observed nodes (ref_ids deps) before nd' args = None" "args = resolveRefs (in_args nd') env" by blast
  obtain c where c: "c \<in> set calls" "nd' = node_of (ag_tools cfg) deps c" using e(2) nodes by auto
  have i: "i = pc_id c" using e(3) c(2) by (simp add: node_fields)
  have nd: "nd = node_of (ag_tools cfg) deps c" using c1(2) found_node [OF dist c(1)] nodes i by simp
  note p = body_of_run [OF c1(3), unfolded nd node_request_def Tool_Registry.tool_call.simps node_fields]
  have run_ok: "runnable cfg (pc_name c) args (br_data b)" using p by (simp add: runnable_def trunc)
  have literal: "\<not> inputContainsRef (pc_input c) \<longrightarrow> args = pc_input c"
    using no_refs_resolved [of "pc_input c" env] e(6) by (simp add: c(2) node_of_def Let_def)
  have late: "judged_late g (observed @ ds_observed (sched_effects ?d body ds k nodes ?st)) (refs_in calls c) c args"
    if g: "ag_gateway cfg = Some g" and ne: "refs_in calls c \<noteq> []" for g
  proof -
    have m: "map_of deps (pc_id c) = Some (refs_in calls c)"
      unfolding deps by (rule map_of_keyed [OF dist c(1)])
    then have ri: "pc_id c \<in> set (ref_ids deps)" using ne by (auto simp: ref_ids_def image_iff dest!: map_of_SomeD)
    have sub: "set (refs_in calls c) \<subseteq> succeeded_in before" using e(4) m by (simp add: c(2) node_fields)
    have "set (refs_in calls c) \<subseteq> po_callId ` set (observations nodes before)"
    proof
      fix j assume j: "j \<in> set (refs_in calls c)"
      then have "j \<in> set (map pc_id calls)" unfolding refs_in_def collectRefs_def walk_refs_set by auto
      then obtain c' where c': "c' \<in> set calls" "pc_id c' = j" by auto
      obtain e where "e \<in> set before" "j \<in> succeeds e" using sub j by (auto simp: succeeded_in_def)
      then obtain v where "NodeDone j v \<in> set before" by (cases e rule: sched_event.exhaust) auto
      then show "j \<in> po_callId ` set (observations nodes before)"
        using find_done [of j v before nodes] found_node [OF dist c'(1), of "ag_tools cfg" deps] c'(2) nodes by auto
    qed
    moreover have "g (observed @ observations nodes before) \<lparr>cl_toolName = pc_name c, cl_args = args, cl_callId = pc_id c\<rparr> = AllowCall"
      using e(5) ri g late_allows by (fastforce simp: authorize_late_def trunc c(2) node_fields node_request_def split: policy_decision.splits)
    moreover have "observed @ ds_observed (sched_effects ?d body ds k nodes ?st) = (observed @ observations nodes before) @ observations nodes after"
      using g e(1) by (simp add: sched_effects_def trunc observations_def)
    ultimately show ?thesis unfolding judged_late_def by (metis image_Un le_supI2 set_append)
  qed
  show ?thesis
    unfolding call_passed_def using c(1) p run_ok literal late by (intro exI [of _ c] conjI exI [of _ args] impI allI) simp_all
qed

lemma dag_passed:
  assumes "distinct (map pc_id calls)" "ag_dagMode cfg"
    and "dispatch_dag (dispatch_config.truncate cfg) body observed ds k calls = r" and "d = (case r of Inl d \<Rightarrow> d | Inr d \<Rightarrow> d)"
    and "b \<in> set (ds_ran d)"
  shows "\<exists>c. call_passed cfg (observed @ ds_observed d) ds calls b c"
proof (cases "deriveDependencies (map (\<lambda>c. \<lparr>cd_id = pc_id c, cd_input = pc_input c\<rparr>) calls)")
  case (Inl e)
  then show ?thesis using assms(3-5) by (auto simp: dispatch_dag_def no_effects_def)
next
  case (Inr deps)
  let ?d = "dispatch_config.truncate cfg" and ?nodes = "map (node_of (ag_tools cfg) deps) calls"
  let ?run = "execute ?nodes (call_node ?d body ds) (authorize_late ?d observed ?nodes (ref_ids deps))"
  have tools: "ag_tools ?d = ag_tools cfg" by (simp add: dispatch_config.truncate_def)
  note dp = derived_nodes [OF assms(1) Inr]
  show ?thesis
  proof (cases ?run)
    case None
    then show ?thesis using assms(3-5) Inr by (auto simp: dispatch_dag_def no_effects_def tools Let_def)
  next
    case (Some sr)
    have "ds_ran d = ds_ran (sched_effects ?d body ds k ?nodes (final_state sr))"
      "ds_observed d = ds_observed (sched_effects ?d body ds k ?nodes (final_state sr))"
      using assms(3,4) Inr Some by (auto simp: dispatch_dag_def tools Let_def final_state_def split: sched_result.splits)
    then show ?thesis using sched_effects_passed [OF assms(1) dp refl Some, of b k] assms(5) by simp
  qed
qed

lemma dispatch_passed:
  assumes "distinct (map pc_id calls)" "dispatch_calls cfg w k observed ds calls = r" "d = (case r of Inl d \<Rightarrow> d | Inr d \<Rightarrow> d)"
    and "b \<in> set (ds_ran d)"
  shows "\<exists>c. call_passed cfg (observed @ ds_observed d) ds calls b c"
proof (cases "ag_dagMode cfg")
  case True
  then show ?thesis using dag_passed [OF assms(1) True _ assms(3,4)] assms(2) by (simp add: dispatch_calls_def Let_def)
next
  case False
  let ?d = "dispatch_config.truncate cfg"
  have "d = dispatch_parallel ?d (aw_body w k) ds k calls" using False assms(2,3) by (auto simp: dispatch_calls_def Let_def)
  then obtain c where c: "c \<in> set calls" "b \<in> set (body_of ?d (aw_body w k) ds (request_of c))"
    using assms(4) by (auto simp: dispatch_parallel_def Let_def)
  have "runnable cfg (pc_name c) (pc_input c) (br_data b)"
    using body_of_run [OF c(2)] by (simp add: runnable_def request_of_def dispatch_config.truncate_def)
  then show ?thesis using body_of_run [OF c(2)] c(1) False by (auto simp: call_passed_def request_of_def)
qed

section \<open>Approval\<close>

lemma approve_others:
  "i \<notin> pc_id ` set cs \<Longrightarrow> map_of (fst (approve_calls cfg w k cs ds st)) i = map_of ds i"
  by (induction cs arbitrary: ds st) (auto simp: Let_def update_conv')

lemma approve_passed:
  assumes "distinct (map pc_id cs)" "snd (approve_calls cfg w k cs ds st) = Running st'" "c \<in> set cs"
    "\<not> is_deny (map_of (fst (approve_calls cfg w k cs ds st)) (pc_id c))"
  shows "\<not> is_deny (map_of ds (pc_id c)) \<and> (is_confirm (map_of ds (pc_id c)) \<or> wants_approval cfg c \<longrightarrow> approved_in w k c)"
  using assms
proof (induction cs arbitrary: ds st)
  case (Cons x xs)
  show ?case
  proof (cases "c = x")
    case True
    have n: "pc_id x \<notin> pc_id ` set xs" using Cons.prems(1) by auto
    show ?thesis using Cons.prems(2,4) True approve_others [OF n] by (auto simp: Let_def fails_def split: if_splits)
  next
    case False
    have "c \<in> set xs" using Cons.prems(3) False by simp
    then have "pc_id c \<in> pc_id ` set xs" by (rule imageI)
    moreover have "pc_id x \<notin> pc_id ` set xs" using Cons.prems(1) by simp
    ultimately have ne: "pc_id c \<noteq> pc_id x" by metis
    let ?ds = "if is_confirm (map_of ds (pc_id x)) then AList.update (pc_id x) AllowCall ds else ds"
    have same: "map_of ?ds (pc_id c) = map_of ds (pc_id c)" using ne by (simp add: update_conv')
    show ?thesis
      using Cons.IH [of ds st] Cons.IH [of ?ds "ask_human k ds x st"] Cons.prems False same
      by (auto simp: Let_def fails_def split: if_splits)
  qed
qed simp

section \<open>Everything a body ran behind\<close>

definition allowed_by :: "agent_config \<Rightarrow> world \<Rightarrow> nat \<Rightarrow> pending_call \<Rightarrow> gateway \<Rightarrow> policy_observation list \<Rightarrow> bool" where
  "allowed_by cfg w k c g observed =
     (\<exists>before after. observed = before @ after \<and>
        (case g before (request_of c) of
           AllowCall \<Rightarrow> True
         | DenyCall rules reason \<Rightarrow> False
         | ConfirmCall prompt reason \<Rightarrow> ag_hasCheckpointer cfg \<and> approved_in w k c))"

definition behind_gates ::
  "agent_config \<Rightarrow> world \<Rightarrow> string \<Rightarrow> policy_observation list \<Rightarrow> nat \<Rightarrow> pending_call \<Rightarrow> bool" where
  "behind_gates cfg w task observed k c =
     (guards_pass cfg task c \<and>
      (ag_hasCheckpointer cfg \<and> wants_approval cfg c \<longrightarrow> approved_in w k c) \<and>
      (\<forall>g. ag_gateway cfg = Some g \<longrightarrow> allowed_by cfg w k c g observed))"

definition ran_ok :: "agent_config \<Rightarrow> world \<Rightarrow> string \<Rightarrow> policy_observation list \<Rightarrow> nat \<times> body_run \<Rightarrow> bool" where
  "ran_ok cfg w task observed x =
     (\<exists>ms c ds. call_passed cfg observed ds (stream_calls (aw_reply w (fst x) ms)) (snd x) c \<and>
        behind_gates cfg w task observed (fst x) c)"

lemma passed_mono: "call_passed cfg observed ds calls b c \<Longrightarrow> call_passed cfg (observed @ es) ds calls b c"
  unfolding call_passed_def judged_late_def by (metis append.assoc)

lemma gates_mono: "behind_gates cfg w task observed k c \<Longrightarrow> behind_gates cfg w task (observed @ es) k c"
  unfolding behind_gates_def allowed_by_def by (metis append.assoc)

lemma ran_mono: "ran_ok cfg w task observed x \<Longrightarrow> ran_ok cfg w task (observed @ es) x"
  unfolding ran_ok_def using passed_mono gates_mono by blast

lemma judged:
  assumes "distinct (map pc_id calls)" "c \<in> set calls" "ag_gateway cfg = Some g"
  shows "map_of (judge_calls cfg observed calls) (pc_id c) = Some (judge_call cfg g observed c)"
  using map_of_keyed [OF assms(1,2), of "judge_call cfg g observed"] fold_update_map [OF assms(1), of "judge_call cfg g observed"] assms(3)
  by (simp add: judge_calls_def)

text \<open>What the approvals leave of the decisions of the gateway.\<close>

lemma gates_passed:
  assumes dist: "distinct (map pc_id calls)" and c: "c \<in> set calls" and gp: "guards_pass cfg task c"
    and a: "approval_phase cfg w k calls (judge_calls cfg observed calls) st0 = (ds, Running st)"
    and nd: "\<not> is_deny (map_of ds (pc_id c))"
  shows "behind_gates cfg w task observed k c"
proof -
  let ?j = "judge_calls cfg observed calls"
  have ok: "\<not> is_deny (map_of ?j (pc_id c)) \<and>
      (ag_hasCheckpointer cfg \<longrightarrow> is_confirm (map_of ?j (pc_id c)) \<or> wants_approval cfg c \<longrightarrow> approved_in w k c)"
    using approve_passed [OF dist _ c, of cfg w k ?j st0 st] a nd by (cases "ag_hasCheckpointer cfg") (auto simp: approval_phase_def)
  have "allowed_by cfg w k c g observed" if g: "ag_gateway cfg = Some g" for g
  proof -
    have "(case g observed (request_of c) of AllowCall \<Rightarrow> True | DenyCall rules reason \<Rightarrow> False
        | ConfirmCall prompt reason \<Rightarrow> ag_hasCheckpointer cfg \<and> approved_in w k c)"
      using ok judged [OF dist c g, of observed]
      by (auto simp: judge_call_def effective_decision_def split: policy_decision.splits if_splits)
    then show ?thesis unfolding allowed_by_def by (intro exI [of _ observed] exI [of _ "[]"]) simp
  qed
  then show ?thesis using gp ok by (auto simp: behind_gates_def)
qed

definition distinct_ids :: "world \<Rightarrow> bool" where
  "distinct_ids w = (\<forall>k ms. distinct (map pc_id (stream_calls (aw_reply w k ms))))"

definition gates_kept :: "agent_config \<Rightarrow> world \<Rightarrow> string \<Rightarrow> agent_state \<Rightarrow> bool" where
  "gates_kept cfg w task st = (distinct_ids w \<longrightarrow> (\<forall>x \<in> set (as_ran st). ran_ok cfg w task (as_observed st) x))"

interpretation gates: run_invariant cfg w task "gates_kept cfg w task" for cfg w task
proof (unfold_locales, goal_cases)
  case (8 st calls k ms st0 ds r d)
  show ?case unfolding gates_kept_def
  proof (intro impI ballI)
    fix x assume u: "distinct_ids w" and x: "x \<in> set (as_ran (take_effects k d st))"
    have dist: "distinct (map pc_id calls)" using u 8(2) by (simp add: distinct_ids_def)
    show "ran_ok cfg w task (as_observed (take_effects k d st)) x"
    proof (cases "x \<in> set (as_ran st)")
      case True
      then show ?thesis using 8(1) u ran_mono by (simp add: gates_kept_def)
    next
      case False
      then obtain b where b: "x = (k, b)" "b \<in> set (ds_ran d)" using x by auto
      obtain c where c: "call_passed cfg (as_observed st @ ds_observed d) ds calls b c"
        using dispatch_passed [OF dist 8(5,6) b(2)] by blast
      then have "behind_gates cfg w task (as_observed st) k c"
        using 8(3) by (intro gates_passed [OF dist _ _ 8(4)]) (auto simp: call_passed_def)
      then show ?thesis using c b(1) 8(2) gates_mono unfolding ran_ok_def by fastforce
    qed
  qed
qed (auto simp: gates_kept_def add_history_def)

lemma start_gates: "gates_kept cfg w task (start_run cfg task given a reported)"
  by (simp add: gates_kept_def start_run_def Let_def)

lemma run_gates:
  assumes "distinct_ids w" "x \<in> set (as_ran (flow_state (agent_run cfg w task given a reported)))"
  shows "ran_ok cfg w task (as_observed (flow_state (agent_run cfg w task given a reported))) x"
  using gates.run_inv [OF start_gates, of cfg w task given a reported] assms unfolding flow_all_state gates_kept_def by blast

section \<open>Properties\<close>

text \<open>
  C31. No effect without leave. Whenever the body of a tool ran in a run of the agent, the call was one
  the model made in that step, with that tool and id; no tool guardrail tripped on it; with a
  checkpointer, a call that needs approval was approved; and the policy gateway, asked with what had
  been observed up to some point of the run, allowed it, or asked for consent and the human gave it.
  The data are what the schema made of the arguments, which are the input the model wrote unless it
  has references, and the tool needs no capability or write scope.
\<close>
theorem effects_are_allowed:
  assumes "distinct_ids w"
    and "(k, b) \<in> set (as_ran (flow_state (agent_run cfg w task given a reported)))"
  shows "\<exists>ms c args. c \<in> set (stream_calls (aw_reply w k ms)) \<and> br_callId b = pc_id c \<and> br_toolName b = pc_name c \<and>
    (\<not> inputContainsRef (pc_input c) \<longrightarrow> args = pc_input c) \<and>
    guards_pass cfg task c \<and> \<not> (ag_hasCheckpointer cfg \<and> wants_approval cfg c \<and> \<not> approved_in w k c) \<and>
    (case ag_gateway cfg of None \<Rightarrow> True
     | Some g \<Rightarrow> allowed_by cfg w k c g (as_observed (flow_state (agent_run cfg w task given a reported)))) \<and>
    runnable cfg (pc_name c) args (br_data b)"
proof -
  let ?obs = "as_observed (flow_state (agent_run cfg w task given a reported))"
  obtain ms c ds where p: "call_passed cfg ?obs ds (stream_calls (aw_reply w k ms)) b c" "behind_gates cfg w task ?obs k c"
    using run_gates [OF assms] by (auto simp: ran_ok_def)
  then obtain args where "runnable cfg (pc_name c) args (br_data b)" "\<not> inputContainsRef (pc_input c) \<longrightarrow> args = pc_input c"
    by (auto simp: call_passed_def)
  then show ?thesis
    using p by (intro exI [of _ ms] exI [of _ c] exI [of _ args])
      (auto simp: call_passed_def behind_gates_def split: option.splits)
qed

text \<open>
  C32. Calls that refer to other calls of their batch are judged on what they really do. In the mode of
  the scheduler, whenever the body of a tool ran for a call whose input names others, the gateway had
  allowed the call with the very arguments the schema then parsed, after it had observed the result of
  every call it names.
\<close>
theorem references_are_judged_late:
  assumes "distinct_ids w" and "ag_dagMode cfg" and "ag_gateway cfg = Some g"
    and "(k, b) \<in> set (as_ran (flow_state (agent_run cfg w task given a reported)))"
  shows "\<exists>ms c args. c \<in> set (stream_calls (aw_reply w k ms)) \<and> br_callId b = pc_id c \<and>
    runnable cfg (pc_name c) args (br_data b) \<and>
    (refs_in (stream_calls (aw_reply w k ms)) c = [] \<or>
     judged_late g (as_observed (flow_state (agent_run cfg w task given a reported)))
       (refs_in (stream_calls (aw_reply w k ms)) c) c args)"
  using run_gates [OF assms(1,4)] assms(2,3) unfolding ran_ok_def call_passed_def by auto

text \<open>A gateway that lets the second call pass once the first was observed and the reference resolved.\<close>

definition demo_gateway :: gateway where
  "demo_gateway observed c =
     (if cl_callId c = ''a'' \<or> observed = [] then AllowCall
      else if list_ex (\<lambda>ob. po_callId ob = ''a'' \<and> po_output ob = ''7'') observed \<and> cl_args c \<noteq> JArr [JStr ''$a''] then AllowCall
      else DenyCall [''r''] ''no'')"

definition gated_agent :: agent_config where
  "gated_agent = demo_agent\<lparr>ag_gateway := Some demo_gateway\<rparr>"

lemma demo_distinct: "distinct (map pc_id calls) \<Longrightarrow> distinct_ids (demo_world calls)"
proof -
  assume d: "distinct (map pc_id calls)"
  have "stream_calls (UsageEvent one_usage # map ToolCallDelta calls) = calls"
  proof -
    have "stream_calls (map ToolCallDelta calls) = calls" by (induction calls) simp_all
    then show ?thesis by simp
  qed
  then show ?thesis using d by (simp add: distinct_ids_def demo_world_def)
qed

lemma demo_ids: "distinct_ids (demo_world demo_calls)"
  by (rule demo_distinct) (simp add: demo_calls_def)

lemma gated_demo_ran: "map (\<lambda>(k, b). (k, br_callId b)) (as_ran (flow_state (demo_run gated_agent demo_calls))) = [(1, ''a''), (1, ''b'')]"
  by code_simp

lemma demo_second: "\<exists>b. (1, b) \<in> set (as_ran (flow_state (demo_run gated_agent demo_calls))) \<and> br_callId b = ''b''"
proof -
  have "(1, ''b'') \<in> set (map (\<lambda>(k, b). (k, br_callId b)) (as_ran (flow_state (demo_run gated_agent demo_calls))))"
    unfolding gated_demo_ran by simp
  then show ?thesis by auto
qed

theorem effects_are_allowed_witness:
  "\<exists>b c args. (1, b) \<in> set (as_ran (flow_state (demo_run gated_agent demo_calls))) \<and> br_callId b = ''b'' \<and> pc_id c = ''b'' \<and>
     allowed_by gated_agent (demo_world demo_calls) 1 c demo_gateway (as_observed (flow_state (demo_run gated_agent demo_calls))) \<and>
     runnable gated_agent (pc_name c) args (br_data b)"
proof -
  obtain b where b: "(1, b) \<in> set (as_ran (flow_state (demo_run gated_agent demo_calls)))" "br_callId b = ''b''"
    using demo_second by blast
  have g: "ag_gateway gated_agent = Some demo_gateway" by (simp add: gated_agent_def)
  obtain c args where "br_callId b = pc_id c"
    "allowed_by gated_agent (demo_world demo_calls) 1 c demo_gateway (as_observed (flow_state (demo_run gated_agent demo_calls)))"
    "runnable gated_agent (pc_name c) args (br_data b)"
    using effects_are_allowed [OF demo_ids b(1) [unfolded demo_run_def]] unfolding demo_run_def g option.case by blast
  then show ?thesis using b by metis
qed

theorem references_are_judged_late_witness:
  "\<exists>b ms c args. (1, b) \<in> set (as_ran (flow_state (demo_run gated_agent demo_calls))) \<and> br_callId b = ''b'' \<and> pc_id c = ''b'' \<and>
     c \<in> set (stream_calls (aw_reply (demo_world demo_calls) 1 ms)) \<and>
     judged_late demo_gateway (as_observed (flow_state (demo_run gated_agent demo_calls))) [''a''] c args"
proof -
  obtain b where b: "(1, b) \<in> set (as_ran (flow_state (demo_run gated_agent demo_calls)))" "br_callId b = ''b''"
    using demo_second by blast
  have g: "ag_gateway gated_agent = Some demo_gateway" "ag_dagMode gated_agent" by (simp_all add: gated_agent_def demo_agent_def)
  obtain ms c args where c: "c \<in> set (stream_calls (aw_reply (demo_world demo_calls) 1 ms))" "br_callId b = pc_id c"
    "refs_in (stream_calls (aw_reply (demo_world demo_calls) 1 ms)) c = [] \<or>
     judged_late demo_gateway (as_observed (flow_state (demo_run gated_agent demo_calls)))
       (refs_in (stream_calls (aw_reply (demo_world demo_calls) 1 ms)) c) c args"
    using references_are_judged_late [OF demo_ids g(2,1) b(1) [unfolded demo_run_def]] unfolding demo_run_def by blast
  have calls: "stream_calls (aw_reply (demo_world demo_calls) 1 ms) = demo_calls"
    by (simp add: demo_world_def demo_calls_def)
  have "c = \<lparr>pc_id = ''b'', pc_name = ''echo'', pc_input = JArr [JStr ''$a'']\<rparr>"
    using c(1,2) b(2) unfolding calls by (auto simp: demo_calls_def)
  then have "refs_in demo_calls c = [''a'']" by (simp only:) code_simp
  then have "judged_late demo_gateway (as_observed (flow_state (demo_run gated_agent demo_calls))) [''a''] c args"
    using c(3) unfolding calls by simp
  then show ?thesis using c(1,2) b by metis
qed

section \<open>Gaps\<close>

text \<open>Without a checkpointer a tool that needs approval runs unasked.\<close>

lemma approval_needs_checkpointer:
  "map (\<lambda>(k, b). br_callId b) (as_ran (flow_state (demo_run (demo_agent\<lparr>ag_hasCheckpointer := False\<rparr>)
     [\<lparr>pc_id = ''a'', pc_name = ''echo'', pc_input = JBool True\<rparr>]))) = [''a'']"
  by code_simp

text \<open>
  Decisions are kept by call id: of two calls with one id the later decision counts for both, and the
  body runs on the arguments that were denied.
\<close>

definition no_ones :: gateway where
  "no_ones observed c = (if cl_args c = JNum 1 then DenyCall [''r''] ''no'' else AllowCall)"

lemma shared_id_escapes_denial:
  "map (\<lambda>(k, b). br_data b) (as_ran (flow_state (demo_run (demo_agent\<lparr>ag_gateway := Some no_ones, ag_dagMode := False\<rparr>)
     [\<lparr>pc_id = ''a'', pc_name = ''echo'', pc_input = JNum 1\<rparr>, \<lparr>pc_id = ''a'', pc_name = ''echo'', pc_input = JNum 2\<rparr>]))) =
   [JNum 1, JNum 2]"
  by code_simp

text \<open>The loop passes neither capabilities nor a principal: a tool that asks for one never runs.\<close>

lemma scoped_tool_never_runs:
  assumes "distinct_ids w" "(k, b) \<in> set (as_ran (flow_state (agent_run cfg w task given a reported)))"
  shows "\<exists>t. get_tool (ag_tools cfg) (br_toolName b) = Some t \<and> \<not> truthy (td_requiredCapability t) \<and>
    (td_readOnly t = Some True \<or> td_writeScope t \<in> {None, Some []})"
proof -
  obtain t where "get_tool (ag_tools cfg) (br_toolName b) = Some t" "capability_granted t None" "scopes_granted t None"
    using run_gates [OF assms] unfolding ran_ok_def call_passed_def runnable_def by auto
  moreover have "td_writeScope t \<in> {None, Some []}" if "scopes_granted t None" "td_readOnly t \<noteq> Some True"
    using that by (cases "td_writeScope t") (auto simp: scopes_granted_def intro: list.set_sel(1) dest: spec [of _ "hd _"])
  ultimately show ?thesis by (auto simp: capability_granted_def truthy_def split: option.splits)
qed

text \<open>
  The statistics reported are not reset with the account of a run: after a run that used as much, the
  events of the next one report nothing.
\<close>

lemma second_run_reports_nothing:
  "filter (\<lambda>e. case e of ModelDone k i out r n \<Rightarrow> True | _ \<Rightarrow> False)
     (as_events (flow_state (agent_run demo_agent (demo_world []) ''go'' [] new_assembler
       (as_reported (flow_state (demo_run demo_agent [])))))) = [ModelDone 1 0 0 0 0]"
  by code_simp

text \<open>In the mode of the scheduler an error is observed without the hint it is recorded with.\<close>

definition hinting_agent :: agent_config where
  "hinting_agent = demo_agent\<lparr>ag_gateway := Some (\<lambda>obs c. AllowCall), ag_synthesisCodeTool := Some ''code''\<rparr>"

lemma observed_is_not_recorded:
  "map po_output (as_observed (flow_state (demo_run hinting_agent [\<lparr>pc_id = ''a'', pc_name = ''nope'', pc_input = JNull\<rparr>]))) = [''failed'']"
  "list_ex (\<lambda>s. case s of ToolUseStep t c \<Rightarrow> tc_output c \<noteq> Text ''failed'' | _ \<Rightarrow> False)
     (ma_history (as_assembler (flow_state (demo_run hinting_agent [\<lparr>pc_id = ''a'', pc_name = ''nope'', pc_input = JNull\<rparr>]))))"
  by code_simp+

text \<open>Side by side, no action is ever reported as completed.\<close>

lemma parallel_never_completes:
  "ActionCompleted i e \<notin> set (ds_events (dispatch_parallel cfg body ds k calls))"
  by (auto simp: dispatch_parallel_def Let_def result_event_def fallback_events_def emitFallbacksIfAny_def split: if_splits)

text \<open>A reference is replaced by the whole result object, not by the output in it.\<close>

lemma reference_is_whole_result:
  "map (\<lambda>(k, b). br_data b) (as_ran (flow_state (demo_run demo_agent demo_calls))) =
   [JNum 7, JArr [JObj [(''callId'', JStr ''a''), (''toolName'', JStr ''echo''), (''output'', JNum 7)]]]"
  by code_simp

end
