(* ===== verification/Goal_Agent.thy ===== *)
theory Goal_Agent
  imports Agent_Loop
begin

text \<open>
  How an agent is put together (the constructor in packages/core/src/agents/ToolCallingAgent.ts with
  the prompts of agents/prompts.ts and prompts/fragments.ts) and the loop that runs agents until a
  verifier is satisfied (packages/core/src/agents/GoalAgent.ts). The verifier, the abort signal and
  what an exception says are the world's answers. The names of tools are compared by an argument
  (\<open>localeCompare\<close>), and so is the schema made of a Zod schema; an em dash is written as a hyphen.
\<close>

section \<open>Prompts\<close>

definition TOOL_DEP_INSTRUCTIONS :: string where
  "TOOL_DEP_INSTRUCTIONS =
     nl @ ''When multiple tool calls are needed and one call's input depends on another call's output, express the dependency by using `$<callId>` as the input value, where <callId> is the id of the call whose output is needed.'' @ nl @
     nl @ ''Example:'' @ nl @
     ''- Call search (id: \"search-1\") to look up a value'' @ nl @
     ''- Call transform (id: \"transform-1\") with input: { \"value\": \"$search-1\" } to use search's output'' @ nl @
     nl @ ''Rules:'' @ nl @
     ''- Only use `$<id>` when the input genuinely requires the other call's output'' @ nl @
     ''- Independent calls should NOT use `$` references - they will run in parallel'' @ nl @
     ''- The `$<id>` reference must match an id of another tool call in the same batch''"

definition DEFAULT_SYSTEM_PROMPT :: string where
  "DEFAULT_SYSTEM_PROMPT =
     ''You are an expert assistant. Use the provided tools to answer questions.'' @ nl @
     ''When you have a final answer, respond with plain text (no tool call).'' @ nl @ TOOL_DEP_INSTRUCTIONS"

definition TOOL_SYNTHESIS_FRAGMENT :: "string \<Rightarrow> string" where
  "TOOL_SYNTHESIS_FRAGMENT codeToolName =
     nl @ nl @ ''# Tool synthesis (when no registered tool fits)'' @ nl @
     ''If a task needs an operation no registered tool offers, you may use `'' @ codeToolName @ ''` '' @
     ''to *synthesise* a one-off tool inline. Treat `'' @ codeToolName @ ''` as the substrate for '' @
     ''building what you need, not just for running pre-known scripts. Prefer this over giving up '' @
     ''or repeatedly retrying a registered tool that doesn't apply. The synthesised code runs '' @
     ''under the same capability manifest as the rest of the run.''"

datatype synthesis_option = SynthesisFlag bool | SynthesisTool string

fun resolveSynthesisCodeTool :: "synthesis_option option \<Rightarrow> string option" where
  "resolveSynthesisCodeTool (Some (SynthesisFlag True)) = Some ''execute_code''"
| "resolveSynthesisCodeTool (Some (SynthesisTool n)) = Some n"
| "resolveSynthesisCodeTool s = None"

definition withSynthesisPreamble :: "string \<Rightarrow> string option \<Rightarrow> string" where
  "withSynthesisPreamble systemPrompt codeToolName =
     (if truthy codeToolName then systemPrompt @ TOOL_SYNTHESIS_FRAGMENT (the codeToolName) else systemPrompt)"

section \<open>The constructor of an agent\<close>

text \<open>What the surroundings provide: texts of errors, parsers, the order of names, schemas of tools.\<close>

record host =
  ho_describe :: "Tool_Registry.tool_call \<Rightarrow> tool_error \<Rightarrow> string \<times> string option"
  ho_parse :: "string \<Rightarrow> json option"
  ho_repairJson :: "string \<Rightarrow> string"
  ho_number_of :: "string \<Rightarrow> int option"
  ho_localeCompare :: "string \<Rightarrow> string \<Rightarrow> bool"
  ho_zodSchema :: "tool_def \<Rightarrow> json"
  ho_supportsBudgetForcing :: bool

record agent_options =
  op_tools :: "tool_def list"
  op_maxSteps :: "nat option"
  op_planningInterval :: "nat option"
  op_systemPrompt :: "string option"
  op_enhancementPolicy :: "enhancement_policy option"
  op_budget :: "(nat option \<times> nat option \<times> int option) option"
  op_assembler :: "assembler_config option"
  op_scheduler :: "string option"
  op_stopWhen :: "stop_condition list"
  op_stopPolicies :: "string list"
  op_hasCheckpointer :: bool
  op_inputGuardrails :: "(string \<times> (string \<Rightarrow> model_message list \<Rightarrow> bool)) list"
  op_outputGuardrails :: "(string \<times> (json \<Rightarrow> bool)) list"
  op_toolGuardrails :: "(string \<times> (string \<Rightarrow> string \<Rightarrow> json \<Rightarrow> bool)) list"
  op_outputSchema :: "((json \<Rightarrow> string + json) \<times> string) option"
  op_outputSchemaRetries :: "nat option"
  op_enableToolSynthesis :: "synthesis_option option"
  op_policyGateway :: "gateway option"

datatype construct_error = RefusedTool register_error | RefusedPolicy policy_error

fun register_all :: "tool_def list \<Rightarrow> registry \<Rightarrow> register_error + registry" where
  "register_all [] r = Inr r"
| "register_all (t # ts) r =
     (case register t r of (Some e, r') \<Rightarrow> Inl e | (None, r') \<Rightarrow> register_all ts r')"

definition no_enhancement :: enhancement_policy where
  "no_enhancement =
     \<lparr>ep_budgetForcing = False, ep_reflectRefine = False, ep_selfConsistency = False, ep_parallelForkJoin = False\<rparr>"

definition or_default :: "'a option \<Rightarrow> 'a \<Rightarrow> 'a" where
  "or_default x d = (case x of None \<Rightarrow> d | Some v \<Rightarrow> v)"

text \<open>The budget of the policy gives the token, step and time limits, in this order.\<close>

definition new_agent :: "host \<Rightarrow> agent_options \<Rightarrow> construct_error + agent_config" where
  "new_agent h opts =
     (case register_all (op_tools opts) [] of
        Inl e \<Rightarrow> Inl (RefusedTool e)
      | Inr tools \<Rightarrow>
          (case parseStopPolicies (ho_number_of h) (op_stopPolicies opts) of
             Inl e \<Rightarrow> Inl (RefusedPolicy e)
           | Inr policies \<Rightarrow>
               (let (maxTokens, budgetSteps, maxDuration) = or_default (op_budget opts) (None, None, None);
                    codeTool = resolveSynthesisCodeTool (op_enableToolSynthesis opts);
                    systemPrompt = withSynthesisPreamble (or_default (op_systemPrompt opts) DEFAULT_SYSTEM_PROMPT) codeTool
                in Inr \<lparr>ag_tools = tools, ag_gateway = op_policyGateway opts, ag_synthesisCodeTool = codeTool,
                        ag_describe = ho_describe h, ag_parse = ho_parse h,
                        ag_assembler =
                          or_default (op_assembler opts)
                            \<lparr>ac_systemPrompt = systemPrompt,
                             ac_toolsSchema = toJsonSchema (ho_localeCompare h) (ho_zodSchema h) False tools,
                             ac_fewShotExamples = [], ac_chunkSizeSteps = 0, ac_systemPrefixTtl = None\<rparr>,
                        ag_maxSteps = or_default (op_maxSteps opts) (or_default budgetSteps 20),
                        ag_planningInterval = op_planningInterval opts,
                        ag_maxTokens = maxTokens, ag_maxDurationMs = maxDuration,
                        ag_dagMode = (or_default (op_scheduler opts) ''dag'' = ''dag''),
                        ag_stopWhen = op_stopWhen opts @ policies,
                        ag_hasCheckpointer = op_hasCheckpointer opts,
                        ag_inputGuardrails = op_inputGuardrails opts, ag_outputGuardrails = op_outputGuardrails opts,
                        ag_toolGuardrails = op_toolGuardrails opts,
                        ag_policy = or_default (op_enhancementPolicy opts) no_enhancement,
                        ag_supportsBudgetForcing = ho_supportsBudgetForcing h,
                        ag_outputSchema = map_option fst (op_outputSchema opts),
                        ag_outputSchemaRetries = or_default (op_outputSchemaRetries opts) 2,
                        ag_schemaDesc = (case op_outputSchema opts of None \<Rightarrow> [] | Some (s, d) \<Rightarrow> d),
                        ag_repairJson = ho_repairJson h\<rparr>)))"

section \<open>The goal loop\<close>

datatype verify_answer = GoalHolds | GoalOpen "string option" | VerifyThrew string

datatype goal_outcome = GoalVerified | GoalExhausted | GoalBudget | GoalError

datatype goal_error = ThrewBeforeFirst string | AbortedViaSignal | IterationThrew nat string | VerifyThrewAt nat string

record goal_options =
  go_describe :: string
  go_tools :: "tool_def list"
  go_maxIterations :: "nat option"
  go_maxStepsPerIteration :: "nat option"
  go_tokenBudget :: "nat option"
  go_systemPromptAddendum :: "string option"
  go_enableToolSynthesis :: "synthesis_option option"
  go_maxNoProgressIterations :: "nat option"

text \<open>
  Iteration \<open>i\<close> runs an agent in the world \<open>gw_agent i\<close>; \<open>gw_verify i\<close> is the answer of the verifier
  after it, and \<open>gw_verify 0\<close> the one before the first.
\<close>

record goal_world =
  gw_agent :: "nat \<Rightarrow> world"
  gw_verify :: "nat \<Rightarrow> verify_answer"
  gw_aborted :: "nat \<Rightarrow> bool"
  gw_thrown :: "nat \<Rightarrow> string"

record goal_result =
  gr_outcome :: goal_outcome
  gr_iterationCount :: nat
  gr_totalInputTokens :: nat
  gr_totalOutputTokens :: nat
  gr_lastHint :: "string option"
  gr_lastError :: "goal_error option"

datatype goal_event =
    GoalIterationStart nat "string option"
  | AgentEv agent_event
  | GoalDone goal_result

record goal_state =
  gs_iteration :: nat
  gs_totalInput :: nat
  gs_totalOutput :: nat
  gs_lastHint :: "string option"
  gs_noProgressStreak :: nat
  gs_events :: "goal_event list"
  gs_ran :: "(nat \<times> body_run) list"

definition DEFAULT_GOAL_SYSTEM_PROMPT :: string where
  "DEFAULT_GOAL_SYSTEM_PROMPT =
     ''You are a goal-directed assistant working inside a verify-loop. '' @
     ''Each iteration you receive a goal description and (after the first) '' @
     ''feedback from a deterministic verifier that checked the previous '' @
     ''attempt. Your job is to use the available tools to drive the world '' @
     ''to the state the verifier accepts. Be precise; do not claim a goal '' @
     ''is met without evidence - the verifier will check, and false claims '' @
     ''waste an iteration.''"

text \<open>An empty hint counts as none.\<close>

definition shown_hint :: "string option \<Rightarrow> string option" where
  "shown_hint h = (if truthy h then h else None)"

definition max_iterations :: "goal_options \<Rightarrow> nat" where
  "max_iterations opts = or_default (go_maxIterations opts) 5"

definition buildIterationPrompt :: "goal_options \<Rightarrow> string option \<Rightarrow> nat \<Rightarrow> string" where
  "buildIterationPrompt opts lastHint iteration =
     (if iteration = 1 then go_describe opts
      else go_describe opts @ nl @ nl @ ''[Iteration '' @ nat_str iteration @ '' of at most '' @ nat_str (max_iterations opts) @ ''.]'' @
           (case shown_hint lastHint of
              Some h \<Rightarrow> nl @ nl @ ''The verifier from the previous attempt reports:'' @ nl @ h @ nl @ nl @ ''Address this specifically.''
            | None \<Rightarrow> nl @ nl @ ''The previous attempt did not satisfy the verifier. Try a different approach.''))"

definition iteration_options :: "goal_options \<Rightarrow> agent_options" where
  "iteration_options opts =
     \<lparr>op_tools = go_tools opts, op_maxSteps = Some (or_default (go_maxStepsPerIteration opts) 15), op_planningInterval = None,
      op_systemPrompt =
        Some (if truthy (go_systemPromptAddendum opts)
              then DEFAULT_GOAL_SYSTEM_PROMPT @ nl @ nl @ the (go_systemPromptAddendum opts) else DEFAULT_GOAL_SYSTEM_PROMPT),
      op_enhancementPolicy = None, op_budget = None, op_assembler = None, op_scheduler = None, op_stopWhen = [], op_stopPolicies = [],
      op_hasCheckpointer = False, op_inputGuardrails = [], op_outputGuardrails = [], op_toolGuardrails = [],
      op_outputSchema = None, op_outputSchemaRetries = None, op_enableToolSynthesis = go_enableToolSynthesis opts,
      op_policyGateway = None\<rparr>"

fun input_tokens :: "agent_event \<Rightarrow> nat" where
  "input_tokens (ModelDone k i out cached calls) = i"
| "input_tokens e = 0"

fun output_tokens :: "agent_event \<Rightarrow> nat" where
  "output_tokens (ModelDone k i out cached calls) = out"
| "output_tokens e = 0"

definition iteration_run :: "agent_config \<Rightarrow> goal_options \<Rightarrow> goal_world \<Rightarrow> goal_state \<Rightarrow> flow" where
  "iteration_run cfg opts gw st =
     agent_run cfg (gw_agent gw (gs_iteration st)) (buildIterationPrompt opts (gs_lastHint st) (gs_iteration st)) []
       new_assembler fresh_stats"

text \<open>The events of the iteration are passed on, and its tokens counted.\<close>

definition take_iteration :: "flow \<Rightarrow> goal_state \<Rightarrow> goal_state" where
  "take_iteration f st =
     (let es = as_events (flow_state f)
      in st\<lparr>gs_totalInput := gs_totalInput st + sum_list (map input_tokens es),
            gs_totalOutput := gs_totalOutput st + sum_list (map output_tokens es),
            gs_events := gs_events st @ map AgentEv es,
            gs_ran := gs_ran st @ map (\<lambda>(k, b). (gs_iteration st, b)) (as_ran (flow_state f))\<rparr>)"

definition start_iteration :: "goal_state \<Rightarrow> goal_state" where
  "start_iteration st = st\<lparr>gs_events := gs_events st @ [GoalIterationStart (gs_iteration st) (shown_hint (gs_lastHint st))]\<rparr>"

text \<open>What the loop does after an iteration: \<open>Inl\<close> ends it.\<close>

definition after_iteration ::
  "goal_options \<Rightarrow> goal_world \<Rightarrow> flow \<Rightarrow> goal_state \<Rightarrow> (goal_outcome \<times> goal_error option \<times> goal_state) + goal_state" where
  "after_iteration opts gw f st =
     (let i = gs_iteration st
      in case f of
           Threw _ \<Rightarrow> Inl (GoalError, Some (IterationThrew i (gw_thrown gw i)), st)
         | _ \<Rightarrow>
             if (case go_tokenBudget opts of None \<Rightarrow> False | Some n \<Rightarrow> n \<le> gs_totalInput st + gs_totalOutput st)
             then Inl (GoalBudget, None, st)
             else (case gw_verify gw i of
                     VerifyThrew e \<Rightarrow> Inl (GoalError, Some (VerifyThrewAt i e), st)
                   | GoalHolds \<Rightarrow> Inl (GoalVerified, None, st\<lparr>gs_lastHint := None\<rparr>)
                   | GoalOpen hint \<Rightarrow>
                       (if truthy hint \<and> hint = gs_lastHint st
                        then (let streak = gs_noProgressStreak st + 1; st' = st\<lparr>gs_noProgressStreak := streak\<rparr>
                              in if (case go_maxNoProgressIterations opts of None \<Rightarrow> False | Some m \<Rightarrow> m \<le> streak)
                                 then Inl (GoalExhausted, None, st'\<lparr>gs_lastHint := hint\<rparr>)
                                 else Inr (st'\<lparr>gs_lastHint := hint\<rparr>))
                        else Inr (st\<lparr>gs_noProgressStreak := 0, gs_lastHint := hint\<rparr>))))"

definition goal_done :: "goal_outcome \<times> goal_error option \<times> goal_state \<Rightarrow> goal_result \<times> goal_state" where
  "goal_done = (\<lambda>(outcome, err, st).
     (let r = \<lparr>gr_outcome = outcome, gr_iterationCount = gs_iteration st, gr_totalInputTokens = gs_totalInput st,
               gr_totalOutputTokens = gs_totalOutput st, gr_lastHint = shown_hint (gs_lastHint st), gr_lastError = err\<rparr>
      in (r, st\<lparr>gs_events := gs_events st @ [GoalDone r]\<rparr>)))"

text \<open>
  The agent is constructed inside the loop and outside of its \<open>try\<close>: what it throws leaves the run
  (\<open>Inl\<close>), after what was emitted by then.
\<close>

primrec goal_loop ::
  "host \<Rightarrow> goal_options \<Rightarrow> goal_world \<Rightarrow> nat \<Rightarrow> goal_state \<Rightarrow> (construct_error \<times> goal_state) + (goal_result \<times> goal_state)" where
  "goal_loop h opts gw 0 st = Inr (goal_done (GoalExhausted, None, st))"
| "goal_loop h opts gw (Suc n) st =
     (if gw_aborted gw (gs_iteration st) then Inr (goal_done (GoalError, Some AbortedViaSignal, start_iteration st))
      else (let st1 = start_iteration (st\<lparr>gs_iteration := gs_iteration st + 1\<rparr>)
            in case new_agent h (iteration_options opts) of
                 Inl e \<Rightarrow> Inl (e, st1)
               | Inr cfg \<Rightarrow>
                   (let f = iteration_run cfg opts gw st1
                    in case after_iteration opts gw f (take_iteration f st1) of
                         Inl r \<Rightarrow> Inr (goal_done r)
                       | Inr st2 \<Rightarrow> goal_loop h opts gw n st2)))"

definition goal_start :: "string option \<Rightarrow> goal_state" where
  "goal_start hint =
     \<lparr>gs_iteration = 0, gs_totalInput = 0, gs_totalOutput = 0, gs_lastHint = hint, gs_noProgressStreak = 0,
      gs_events = [], gs_ran = []\<rparr>"

definition goal_run ::
  "host \<Rightarrow> goal_options \<Rightarrow> goal_world \<Rightarrow> (construct_error \<times> goal_state) + (goal_result \<times> goal_state)" where
  "goal_run h opts gw =
     (case gw_verify gw 0 of
        GoalHolds \<Rightarrow> Inr (goal_done (GoalVerified, None, goal_start None))
      | VerifyThrew e \<Rightarrow> Inr (goal_done (GoalError, Some (ThrewBeforeFirst e), goal_start None))
      | GoalOpen hint \<Rightarrow> goal_loop h opts gw (max_iterations opts) (goal_start hint))"

section \<open>Lemmas\<close>

lemma model_starts_append: "model_starts (es @ fs) = model_starts es + model_starts fs"
  by (simp add: model_starts_def)

lemma run_starts: "model_starts (as_events (flow_state (agent_run cfg w task given a reported))) \<le> ag_maxSteps cfg"
proof -
  obtain tripped where r: "agent_run cfg w task given a reported =
      run_steps cfg w task tripped (ag_maxSteps cfg) 1 (start_run cfg task given a reported)"
    by (simp add: agent_run_def Let_def)
  have "shaped (ag_maxSteps cfg) (agent_run cfg w task given a reported)"
    using steps_shaped [OF start_live [of cfg task given a reported], of "ag_maxSteps cfg" cfg w task tripped 1] unfolding r by simp
  then show ?thesis by (cases "agent_run cfg w task given a reported") (auto simp: live_def ended_def model_starts_append elim: is_terminal.elims)
qed

text \<open>The events an outer observer can count.\<close>

fun inner_events :: "goal_event list \<Rightarrow> agent_event list" where
  "inner_events [] = []"
| "inner_events (AgentEv e # es) = e # inner_events es"
| "inner_events (e # es) = inner_events es"

lemma inner_append [simp]: "inner_events (es @ fs) = inner_events es @ inner_events fs"
  by (induction es rule: inner_events.induct) auto

lemma inner_map [simp]: "inner_events (map AgentEv es) = es"
  by (induction es) auto

definition spent :: "goal_state \<Rightarrow> nat" where
  "spent st = gs_totalInput st + gs_totalOutput st"

definition over_budget :: "goal_options \<Rightarrow> goal_state \<Rightarrow> bool" where
  "over_budget opts st = (case go_tokenBudget opts of None \<Rightarrow> False | Some n \<Rightarrow> n \<le> spent st)"

text \<open>The accounts are what the events say, and the model was asked in at most so many steps.\<close>

definition counted :: "nat \<Rightarrow> goal_state \<Rightarrow> bool" where
  "counted steps st =
     (gs_totalInput st = sum_list (map input_tokens (inner_events (gs_events st))) \<and>
      gs_totalOutput st = sum_list (map output_tokens (inner_events (gs_events st))) \<and>
      model_starts (inner_events (gs_events st)) \<le> gs_iteration st * steps \<and>
      (\<forall>r. GoalDone r \<notin> set (gs_events st)))"

definition open_until :: "goal_world \<Rightarrow> nat \<Rightarrow> bool" where
  "open_until gw n = (\<forall>i < n. \<exists>hint. gw_verify gw i = GoalOpen hint)"

text \<open>Before an iteration: all answers were open, and the last of them, one more than the streak, equal.\<close>

definition goal_inv :: "goal_options \<Rightarrow> goal_world \<Rightarrow> nat \<Rightarrow> goal_state \<Rightarrow> bool" where
  "goal_inv opts gw steps st =
     (counted steps st \<and> open_until gw (gs_iteration st + 1) \<and> gw_verify gw (gs_iteration st) = GoalOpen (gs_lastHint st) \<and>
      gs_noProgressStreak st \<le> gs_iteration st \<and>
      (\<forall>i. gs_iteration st - gs_noProgressStreak st \<le> i \<and> i \<le> gs_iteration st \<longrightarrow> gw_verify gw i = GoalOpen (gs_lastHint st)))"

definition stuck :: "goal_options \<Rightarrow> goal_world \<Rightarrow> nat \<Rightarrow> bool" where
  "stuck opts gw n =
     (\<exists>m hint. go_maxNoProgressIterations opts = Some m \<and> max 1 m \<le> n \<and> truthy hint \<and>
        (\<forall>i. n - max 1 m \<le> i \<and> i \<le> n \<longrightarrow> gw_verify gw i = GoalOpen hint))"

definition outcome_ok :: "goal_options \<Rightarrow> goal_world \<Rightarrow> goal_outcome \<times> goal_error option \<times> goal_state \<Rightarrow> bool" where
  "outcome_ok opts gw = (\<lambda>(outcome, err, st).
     (let n = gs_iteration st
      in open_until gw n \<and>
         (case outcome of
            GoalVerified \<Rightarrow> gw_verify gw n = GoalHolds \<and> gs_lastHint st = None \<and> err = None \<and> (n = 0 \<or> \<not> over_budget opts st)
          | GoalBudget \<Rightarrow> n \<noteq> 0 \<and> over_budget opts st \<and> err = None
          | GoalExhausted \<Rightarrow> gw_verify gw n = GoalOpen (gs_lastHint st) \<and> (n = max_iterations opts \<or> stuck opts gw n) \<and> err = None
          | GoalError \<Rightarrow> err = Some AbortedViaSignal \<and> gw_aborted gw n \<or> err = Some (IterationThrew n (gw_thrown gw n)) \<or>
                         (\<exists>e. gw_verify gw n = VerifyThrew e \<and> err = Some (if n = 0 then ThrewBeforeFirst e else VerifyThrewAt n e)))))"

lemma taken_counted:
  assumes "counted steps st" "model_starts (as_events (flow_state f)) \<le> steps"
  shows "counted steps (take_iteration f (start_iteration (st\<lparr>gs_iteration := gs_iteration st + 1\<rparr>)))"
  using assms by (auto simp: counted_def take_iteration_def start_iteration_def Let_def model_starts_append)

lemma taken_fields [simp]:
  "gs_iteration (take_iteration f st) = gs_iteration st" "gs_lastHint (take_iteration f st) = gs_lastHint st"
  "gs_noProgressStreak (take_iteration f st) = gs_noProgressStreak st"
  "gs_iteration (start_iteration st) = gs_iteration st" "gs_lastHint (start_iteration st) = gs_lastHint st"
  "gs_noProgressStreak (start_iteration st) = gs_noProgressStreak st"
  by (simp_all add: take_iteration_def start_iteration_def Let_def)

lemma open_until_Suc: "open_until gw n \<Longrightarrow> gw_verify gw n = GoalOpen hint \<Longrightarrow> open_until gw (Suc n)"
  by (auto simp: open_until_def less_Suc_eq)

text \<open>One answer of the verifier, given that the one before was \<open>GoalOpen (gs_lastHint st)\<close>.\<close>

lemma after_ok:
  assumes st: "gs_iteration st = Suc n" "counted steps st" "open_until gw (Suc n)"
    and streak: "gs_noProgressStreak st \<le> n"
      "\<forall>i. n - gs_noProgressStreak st \<le> i \<and> i \<le> n \<longrightarrow> gw_verify gw i = GoalOpen (gs_lastHint st)"
  shows "case after_iteration opts gw f st of
      Inl r \<Rightarrow> outcome_ok opts gw r \<and> counted steps (snd (snd r)) \<and> gs_iteration (snd (snd r)) = Suc n
    | Inr st' \<Rightarrow> goal_inv opts gw steps st' \<and> gs_iteration st' = Suc n"
proof -
  have c [simp]: "counted steps (st\<lparr>gs_lastHint := hint\<rparr>)" "counted steps (st\<lparr>gs_noProgressStreak := k, gs_lastHint := hint\<rparr>)"
    "counted steps (st\<lparr>gs_noProgressStreak := k\<rparr>)" for hint k
    using st(2) by (simp_all add: counted_def)
  have same: "\<forall>i. n - gs_noProgressStreak st \<le> i \<and> i \<le> Suc n \<longrightarrow> gw_verify gw i = GoalOpen (gs_lastHint st)"
    if "gw_verify gw (Suc n) = GoalOpen (gs_lastHint st)"
    using streak(2) that le_Suc_eq by auto
  have "stuck opts gw (Suc n)"
    if v: "gw_verify gw (Suc n) = GoalOpen (gs_lastHint st)" "truthy (gs_lastHint st)"
      and m: "go_maxNoProgressIterations opts = Some m" "m \<le> Suc (gs_noProgressStreak st)" for m
  proof -
    have "\<forall>i. Suc n - max 1 m \<le> i \<and> i \<le> Suc n \<longrightarrow> gw_verify gw i = GoalOpen (gs_lastHint st)"
      using same [OF v(1)] m(2) by auto
    moreover have "max 1 m \<le> Suc n" using m(2) streak(1) by simp
    ultimately show ?thesis using v(2) m(1) unfolding stuck_def by blast
  qed
  then show ?thesis
    using st same open_until_Suc [OF st(3)] streak(1)
    by (auto simp: after_iteration_def Let_def outcome_ok_def goal_inv_def over_budget_def spent_def
        split: flow.splits option.splits verify_answer.splits if_splits)
qed

text \<open>What the loop returns from a state between two iterations.\<close>

lemma goal_loop_ok:
  assumes "goal_inv opts gw (or_default (go_maxStepsPerIteration opts) 15) st" "gs_iteration st + n = max_iterations opts"
  shows "case goal_loop h opts gw n st of
      Inl (e, st') \<Rightarrow> new_agent h (iteration_options opts) = Inl e \<and> inner_events (gs_events st') = inner_events (gs_events st)
    | Inr (r, st') \<Rightarrow>
        \<exists>outcome err s. (r, st') = goal_done (outcome, err, s) \<and> outcome_ok opts gw (outcome, err, s) \<and>
          counted (or_default (go_maxStepsPerIteration opts) 15) s \<and> gs_iteration s \<le> max_iterations opts"
  using assms
proof (induction n arbitrary: st)
  case 0
  then have "outcome_ok opts gw (GoalExhausted, None, st)" by (simp add: outcome_ok_def goal_inv_def open_until_def Let_def)
  then show ?case
    using 0 by (cases "goal_done (GoalExhausted, None, st)") (auto simp: goal_inv_def intro!: exI)
next
  case (Suc n)
  let ?steps = "or_default (go_maxStepsPerIteration opts) 15"
  let ?st1 = "start_iteration (st\<lparr>gs_iteration := gs_iteration st + 1\<rparr>)"
  have inv: "counted ?steps st" "open_until gw (Suc (gs_iteration st))" "gs_noProgressStreak st \<le> gs_iteration st"
    "\<forall>i. gs_iteration st - gs_noProgressStreak st \<le> i \<and> i \<le> gs_iteration st \<longrightarrow> gw_verify gw i = GoalOpen (gs_lastHint st)"
    using Suc.prems(1) by (simp_all add: goal_inv_def)
  show ?case
  proof (cases "gw_aborted gw (gs_iteration st)")
    case True
    let ?s = "start_iteration st"
    have "outcome_ok opts gw (GoalError, Some AbortedViaSignal, ?s)" "counted ?steps ?s" "gs_iteration ?s \<le> max_iterations opts"
      using inv Suc.prems(2) True by (simp_all add: outcome_ok_def open_until_def counted_def start_iteration_def Let_def)
    then show ?thesis
      using True by (cases "goal_done (GoalError, Some AbortedViaSignal, ?s)") (auto intro!: exI)
  next
    case False
    show ?thesis
    proof (cases "new_agent h (iteration_options opts)")
      case (Inl e)
      then show ?thesis using False by (simp add: start_iteration_def Let_def)
    next
      case (Inr cfg)
      have "ag_maxSteps cfg = ?steps"
        using Inr by (auto simp: new_agent_def iteration_options_def or_default_def Let_def split: sum.splits)
      then have "model_starts (as_events (flow_state (iteration_run cfg opts gw ?st1))) \<le> ?steps"
        using run_starts [of cfg] by (simp add: iteration_run_def)
      then have taken: "counted ?steps (take_iteration (iteration_run cfg opts gw ?st1) ?st1)" by (rule taken_counted [OF inv(1)])
      let ?after = "after_iteration opts gw (iteration_run cfg opts gw ?st1) (take_iteration (iteration_run cfg opts gw ?st1) ?st1)"
      have next_ok: "case ?after of
          Inl r \<Rightarrow> outcome_ok opts gw r \<and> counted ?steps (snd (snd r)) \<and> gs_iteration (snd (snd r)) = Suc (gs_iteration st)
        | Inr st' \<Rightarrow> goal_inv opts gw ?steps st' \<and> gs_iteration st' = Suc (gs_iteration st)"
        by (rule after_ok [OF _ taken]) (use inv(2-4) in simp_all)
      have step: "goal_loop h opts gw (Suc n) st = (case ?after of Inl r \<Rightarrow> Inr (goal_done r) | Inr st2 \<Rightarrow> goal_loop h opts gw n st2)"
        using False Inr by (simp add: Let_def)
      show ?thesis
      proof (cases ?after)
        case (Inl r)
        then show ?thesis
          unfolding step using next_ok Suc.prems(2) by (cases r; cases "goal_done r") (auto intro!: exI)
      next
        case ok: (Inr st2)
        then show ?thesis
          unfolding step using Suc.IH [of st2] next_ok Suc.prems(2) Inr by (auto split: sum.splits)
      qed
    qed
  qed
qed

section \<open>Properties\<close>

text \<open>
  C35. A goal run does what it reports. It ends after at most the maximal number of iterations, each of
  at most the maximal number of model turns, with one report as its last event, whose token counts are
  those of the events before it. It reports success exactly when the verifier, which had been open all
  the time, held at the end; exhaustion only when all iterations are used up or the last hints of the
  verifier, one more than tolerated, were the same; the budget only when it is spent; and an error only
  for the abort, an exception of an iteration or of the verifier. If the agent cannot be constructed the run throws
  before the model was asked.
\<close>
theorem goal_report_is_true:
  "case goal_run h opts gw of
     Inl (e, st) \<Rightarrow> new_agent h (iteration_options opts) = Inl e \<and> inner_events (gs_events st) = []
   | Inr (r, st) \<Rightarrow>
       gr_iterationCount r \<le> max_iterations opts \<and>
       (\<exists>es. gs_events st = es @ [GoalDone r] \<and> (\<forall>r'. GoalDone r' \<notin> set es)) \<and>
       gr_totalInputTokens r = sum_list (map input_tokens (inner_events (gs_events st))) \<and>
       gr_totalOutputTokens r = sum_list (map output_tokens (inner_events (gs_events st))) \<and>
       model_starts (inner_events (gs_events st)) \<le> gr_iterationCount r * or_default (go_maxStepsPerIteration opts) 15 \<and>
       open_until gw (gr_iterationCount r) \<and>
       (case gr_outcome r of
          GoalVerified \<Rightarrow> gw_verify gw (gr_iterationCount r) = GoalHolds \<and> gr_lastHint r = None
        | GoalExhausted \<Rightarrow> (\<exists>hint. gw_verify gw (gr_iterationCount r) = GoalOpen hint \<and> gr_lastHint r = shown_hint hint) \<and>
                          (gr_iterationCount r = max_iterations opts \<or> stuck opts gw (gr_iterationCount r))
        | GoalBudget \<Rightarrow> gr_iterationCount r \<noteq> 0 \<and>
                        (\<exists>n. go_tokenBudget opts = Some n \<and> n \<le> gr_totalInputTokens r + gr_totalOutputTokens r)
        | GoalError \<Rightarrow> gr_lastError r = Some AbortedViaSignal \<and> gw_aborted gw (gr_iterationCount r) \<or>
                       (\<exists>msg. gr_lastError r = Some (IterationThrew (gr_iterationCount r) msg)) \<or>
                       (\<exists>e. gw_verify gw (gr_iterationCount r) = VerifyThrew e \<and>
                            gr_lastError r \<in> {Some (ThrewBeforeFirst e), Some (VerifyThrewAt (gr_iterationCount r) e)}))"
proof -
  let ?steps = "or_default (go_maxStepsPerIteration opts) 15"
  have start: "counted ?steps (goal_start hint)" for hint by (simp add: counted_def goal_start_def model_starts_def)
  have f: "gs_iteration (goal_start hint) = 0" "gs_lastHint (goal_start hint) = hint" "gs_noProgressStreak (goal_start hint) = 0"
    "gs_events (goal_start hint) = []" for hint by (simp_all add: goal_start_def)
  have "case goal_run h opts gw of
      Inl (e, st') \<Rightarrow> new_agent h (iteration_options opts) = Inl e \<and> inner_events (gs_events st') = []
    | Inr (r, st') \<Rightarrow>
        \<exists>outcome err s. (r, st') = goal_done (outcome, err, s) \<and> outcome_ok opts gw (outcome, err, s) \<and>
          counted ?steps s \<and> gs_iteration s \<le> max_iterations opts"
  proof (cases "gw_verify gw 0")
    case GoalHolds
    then have "outcome_ok opts gw (GoalVerified, None, goal_start None)" by (simp add: outcome_ok_def f open_until_def)
    then show ?thesis
      using GoalHolds start f by (cases "goal_done (GoalVerified, None, goal_start None)") (auto simp: goal_run_def intro!: exI)
  next
    case (VerifyThrew e)
    let ?r = "(GoalError, Some (ThrewBeforeFirst e), goal_start None)"
    have "outcome_ok opts gw ?r" using VerifyThrew by (simp add: outcome_ok_def f open_until_def)
    then show ?thesis using VerifyThrew start f by (cases "goal_done ?r") (auto simp: goal_run_def intro!: exI)
  next
    case (GoalOpen hint)
    then have "goal_inv opts gw ?steps (goal_start hint)" using start by (simp add: goal_inv_def f open_until_def)
    then show ?thesis using goal_loop_ok [of opts gw "goal_start hint" "max_iterations opts" h] GoalOpen
      by (auto simp: goal_run_def f split: sum.splits)
  qed
  then show ?thesis
  proof (cases "goal_run h opts gw")
    case (Inr p)
    assume "case goal_run h opts gw of
        Inl (e, st') \<Rightarrow> new_agent h (iteration_options opts) = Inl e \<and> inner_events (gs_events st') = []
      | Inr (r, st') \<Rightarrow>
          \<exists>outcome err s. (r, st') = goal_done (outcome, err, s) \<and> outcome_ok opts gw (outcome, err, s) \<and>
            counted ?steps s \<and> gs_iteration s \<le> max_iterations opts"
    then obtain outcome err s where d: "p = goal_done (outcome, err, s)" "outcome_ok opts gw (outcome, err, s)"
      "counted ?steps s" "gs_iteration s \<le> max_iterations opts"
      unfolding Inr by (cases p) auto
    show ?thesis
      unfolding Inr d(1) using d(2-4)
      by (cases outcome) (auto simp: goal_done_def outcome_ok_def counted_def over_budget_def spent_def shown_hint_def truthy_def Let_def
          split: option.splits if_splits)
  qed auto
qed

section \<open>What the loop leaves out\<close>

text \<open>The agents of a goal loop have no policy gateway, no guardrails and nobody to ask.\<close>

lemma goal_agents_are_ungated:
  assumes "new_agent h (iteration_options opts) = Inr cfg"
  shows "ag_gateway cfg = None \<and> ag_toolGuardrails cfg = [] \<and> ag_inputGuardrails cfg = [] \<and> \<not> ag_hasCheckpointer cfg \<and>
    snd (approval_phase cfg w k calls ds st) = Running st"
  using assms by (auto simp: new_agent_def iteration_options_def approval_phase_def or_default_def Let_def split: sum.splits)

text \<open>An iteration that spends the budget is reported as such even when it reached the goal.\<close>

lemma success_hidden_by_budget:
  "over_budget opts st \<Longrightarrow> after_iteration opts gw (Returned a) st = Inl (GoalBudget, None, st)"
  unfolding over_budget_def spent_def after_iteration_def Let_def by simp

text \<open>The hint of the check before the first iteration is announced and not told to the model.\<close>

lemma first_hint_not_told:
  "buildIterationPrompt opts hint 1 = go_describe opts"
  "gs_events (start_iteration (st\<lparr>gs_iteration := 1, gs_lastHint := Some (c # cs)\<rparr>)) =
     gs_events st @ [GoalIterationStart 1 (Some (c # cs))]"
  by (simp_all add: buildIterationPrompt_def start_iteration_def shown_hint_def truthy_def)

text \<open>Without the option identical hints never stop the loop.\<close>

lemma no_stop_loss_by_default: "go_maxNoProgressIterations opts = None \<Longrightarrow> \<not> stuck opts gw n"
  by (simp add: stuck_def)

end
