(* ===== verification/Approval_Policy.thy ===== *)
theory Approval_Policy
  imports Agent_Gates Goal_Agent
begin

text \<open>
  The approval policy of write tools (packages/core/src/policies/approvalPolicy.ts) and the locks on
  files (packages/core/src/workspace/FileLockManager.ts). A rule decides by operation, path prefix and
  size; the first that matches wins. A policy wraps the tools of an agent, so its verdicts meet the
  approval phase of the agent loop: what the two together guarantee is proved here.
\<close>

section \<open>Rules\<close>

datatype write_op = WriteOp | PatchOp | DeleteOp | RenameOp

datatype approval_verdict = Require | Allow

record rule_match =
  rm_op :: "write_op list option"
  rm_paths :: "string list option"
  rm_minSizeChars :: "int option"

record approval_rule =
  ar_id :: string
  ar_match :: "rule_match option"
  ar_verdict :: approval_verdict

record approval_query =
  aq_op :: write_op
  aq_path :: string
  aq_sizeChars :: int

record approval_policy =
  ap_rules :: "approval_rule list"
  ap_default :: approval_verdict

definition new_policy :: "approval_rule list \<Rightarrow> approval_verdict option \<Rightarrow> approval_policy" where
  "new_policy rules d = \<lparr>ap_rules = rules, ap_default = (case d of None \<Rightarrow> Allow | Some v \<Rightarrow> v)\<rparr>"

definition path_covered :: "string \<Rightarrow> string \<Rightarrow> bool" where
  "path_covered path p = (path = p \<or> starts_with path (p @ ''/'') \<or> (ends_with p ''/'' \<and> starts_with path p))"

definition rule_matches :: "approval_rule \<Rightarrow> approval_query \<Rightarrow> bool" where
  "rule_matches rule q =
     (case ar_match rule of
        None \<Rightarrow> True
      | Some m \<Rightarrow>
          (case rm_op m of None \<Rightarrow> True | Some ops \<Rightarrow> aq_op q \<in> set ops) \<and>
          (case rm_paths m of None \<Rightarrow> True | Some [] \<Rightarrow> True | Some ps \<Rightarrow> list_ex (path_covered (aq_path q)) ps) \<and>
          (case rm_minSizeChars m of None \<Rightarrow> True | Some n \<Rightarrow> \<not> aq_sizeChars q < n))"

fun first_verdict :: "approval_rule list \<Rightarrow> approval_verdict \<Rightarrow> approval_query \<Rightarrow> bool" where
  "first_verdict [] d q = (d = Require)"
| "first_verdict (rule # rules) d q = (if rule_matches rule q then ar_verdict rule = Require else first_verdict rules d q)"

definition needsApproval :: "approval_policy \<Rightarrow> approval_query \<Rightarrow> bool" where
  "needsApproval p q = first_verdict (ap_rules p) (ap_default p) q"

definition explain :: "approval_policy \<Rightarrow> approval_query \<Rightarrow> string option \<times> approval_verdict" where
  "explain p q =
     (case find (\<lambda>rule. rule_matches rule q) (ap_rules p) of
        Some rule \<Rightarrow> (Some (ar_id rule), ar_verdict rule)
      | None \<Rightarrow> (None, ap_default p))"

section \<open>Wrapping tools\<close>

text \<open>
  What a call asks: operation, path and size. A path that is not a text throws in the code where a
  rule looks at it (the run ends there); here the call then counts as asking nothing.
\<close>

definition length_of :: "json \<Rightarrow> int" where
  "length_of v = (case v of JStr s \<Rightarrow> int (length s) | JArr vs \<Rightarrow> int (length vs) | _ \<Rightarrow> 0)"

definition query_of :: "string \<Rightarrow> json \<Rightarrow> approval_query option" where
  "query_of tool input =
     (let ask = (\<lambda>op key size. case field input key of
                   JStr p \<Rightarrow> Some \<lparr>aq_op = op, aq_path = p, aq_sizeChars = size\<rparr>
                 | _ \<Rightarrow> None)
      in if tool = ''write_file'' then ask WriteOp ''path'' (length_of (field input ''content''))
         else if tool = ''patch_file'' then ask PatchOp ''path'' (length_of (field input ''patch''))
         else if tool = ''delete_file'' then ask DeleteOp ''path'' 0
         else if tool = ''rename_file'' then ask RenameOp ''from'' 0
         else None)"

definition is_write_tool :: "string \<Rightarrow> bool" where
  "is_write_tool n = (n \<in> {''write_file'', ''patch_file'', ''delete_file'', ''rename_file''})"

definition applyPolicy :: "approval_policy \<Rightarrow> tool_def \<Rightarrow> tool_def" where
  "applyPolicy p t =
     t\<lparr>td_needsApproval := (\<lambda>input. case query_of (td_name t) input of None \<Rightarrow> False | Some q \<Rightarrow> needsApproval p q)\<rparr>"

definition applyApprovalPolicy :: "approval_policy \<Rightarrow> tool_def list \<Rightarrow> tool_def list" where
  "applyApprovalPolicy p ts = map (\<lambda>t. if is_write_tool (td_name t) then applyPolicy p t else t) ts"

section \<open>Presets\<close>

definition permissive :: approval_policy where
  "permissive = new_policy [] (Some Allow)"

definition strict :: approval_policy where
  "strict = new_policy [] (Some Require)"

definition balanced :: approval_policy where
  "balanced = new_policy
     [\<lparr>ar_id = ''dotfiles-require-approval'',
       ar_match = Some \<lparr>rm_op = None,
         rm_paths = Some [''.env'', ''.env.production'', ''.env.local'', ''.dev.vars'', ''.github/'', ''wrangler.toml''],
         rm_minSizeChars = None\<rparr>,
       ar_verdict = Require\<rparr>,
      \<lparr>ar_id = ''delete-always-requires-approval'',
       ar_match = Some \<lparr>rm_op = Some [DeleteOp, RenameOp], rm_paths = None, rm_minSizeChars = None\<rparr>,
       ar_verdict = Require\<rparr>,
      \<lparr>ar_id = ''large-writes-require-approval'',
       ar_match = Some \<lparr>rm_op = Some [WriteOp], rm_paths = None, rm_minSizeChars = Some 5000\<rparr>,
       ar_verdict = Require\<rparr>]
     (Some Allow)"

section \<open>Locks on files\<close>

datatype lock_level = HardLock | WarnLock

record locked_file =
  lf_pattern :: string
  lf_level :: lock_level
  lf_reason :: string

definition DEFAULT_LOCKS :: "locked_file list" where
  "DEFAULT_LOCKS =
     [\<lparr>lf_pattern = ''package-lock.json'', lf_level = HardLock, lf_reason = ''managed by npm - do not write directly''\<rparr>,
      \<lparr>lf_pattern = ''yarn.lock'', lf_level = HardLock, lf_reason = ''managed by yarn - do not write directly''\<rparr>,
      \<lparr>lf_pattern = ''pnpm-lock.yaml'', lf_level = HardLock, lf_reason = ''managed by pnpm - do not write directly''\<rparr>,
      \<lparr>lf_pattern = ''bun.lock'', lf_level = HardLock, lf_reason = ''managed by bun - do not write directly''\<rparr>]"

text \<open>\<open>new RegExp(...)\<close> of a pattern and its test: an argument, since a pattern may hold any other regex syntax.\<close>

type_synonym regex = "string \<Rightarrow> string \<Rightarrow> bool"

definition lock_matches :: "regex \<Rightarrow> string \<Rightarrow> string \<Rightarrow> bool" where
  "lock_matches rx pat path =
     (if pat = path then True
      else if starts_with pat ''*.'' then ends_with path (drop 1 pat)
      else if str_includes pat ''*'' then rx pat path
      else False)"

definition drop_slashes :: "string \<Rightarrow> string" where
  "drop_slashes s = dropWhile (\<lambda>c. c = CHR ''/'') s"

definition normalized :: "string \<Rightarrow> string" where
  "normalized path = drop_slashes (map (\<lambda>c. if c = CHR 0x5C then CHR ''/'' else c) path)"

definition filename :: "string \<Rightarrow> string" where
  "filename path = last (split_on (CHR ''/'') path)"

definition check_lock :: "regex \<Rightarrow> locked_file list \<Rightarrow> string \<Rightarrow> locked_file option" where
  "check_lock rx locks path =
     (let n = normalized path
      in find (\<lambda>l. lock_matches rx (lf_pattern l) n \<or> lock_matches rx (lf_pattern l) (filename n)) locks)"

text \<open>\<open>Inl\<close>: the error thrown, \<open>Inr\<close>: the warning, if any.\<close>

definition assertWritable :: "regex \<Rightarrow> locked_file list \<Rightarrow> string \<Rightarrow> locked_file + locked_file option" where
  "assertWritable rx locks path =
     (case check_lock rx locks path of
        None \<Rightarrow> Inr None
      | Some l \<Rightarrow> (case lf_level l of HardLock \<Rightarrow> Inl l | WarnLock \<Rightarrow> Inr (Some l)))"

definition new_locks :: "locked_file list \<Rightarrow> locked_file list" where
  "new_locks extra = DEFAULT_LOCKS @ extra"

definition lock_file :: "string \<Rightarrow> lock_level \<Rightarrow> string \<Rightarrow> locked_file list \<Rightarrow> locked_file list" where
  "lock_file pat level reason locks = locks @ [\<lparr>lf_pattern = pat, lf_level = level, lf_reason = reason\<rparr>]"

fun unlock_file :: "string \<Rightarrow> locked_file list \<Rightarrow> locked_file list" where
  "unlock_file pat [] = []"
| "unlock_file pat (l # ls) = (if lf_pattern l = pat then ls else l # unlock_file pat ls)"

section \<open>Lemmas on rules\<close>

lemma first_verdict_find:
  "first_verdict rules d q =
     ((case find (\<lambda>rule. rule_matches rule q) rules of Some rule \<Rightarrow> ar_verdict rule | None \<Rightarrow> d) = Require)"
  by (induction rules) auto

text \<open>The audit and the gate agree.\<close>

lemma explain_agrees: "needsApproval p q \<longleftrightarrow> snd (explain p q) = Require"
  by (simp add: needsApproval_def explain_def first_verdict_find split: option.splits)

lemma path_covered_iff:
  "path_covered path p \<longleftrightarrow> path = p \<or> (\<exists>r. path = p @ ''/'' @ r) \<or> (\<exists>q r. p = q @ ''/'' \<and> path = p @ r)"
proof -
  have "ends_with p ''/'' \<longleftrightarrow> (\<exists>q. p = q @ ''/'')"
    by (auto simp: ends_with_def starts_with_iff) (metis append_Cons append_Nil rev.simps(2) rev_rev_ident)
  then show ?thesis by (auto simp: path_covered_def starts_with_iff)
qed

text \<open>A rule put in front decides alone what it matches; what it does not match it leaves alone.\<close>

lemma front_rule_decides:
  "needsApproval (p\<lparr>ap_rules := rule # ap_rules p\<rparr>) q \<longleftrightarrow>
     (if rule_matches rule q then ar_verdict rule = Require else needsApproval p q)"
  by (simp add: needsApproval_def)

lemma presets: "\<not> needsApproval permissive q" "needsApproval strict q"
  by (simp_all add: needsApproval_def permissive_def strict_def new_policy_def)

text \<open>Paths are compared as written: a dot segment or a leading slash leads past every rule.\<close>

lemma balanced_is_textual:
  "needsApproval balanced \<lparr>aq_op = WriteOp, aq_path = ''.env'', aq_sizeChars = 1\<rparr>"
  "\<not> needsApproval balanced \<lparr>aq_op = WriteOp, aq_path = ''./.env'', aq_sizeChars = 1\<rparr>"
  "\<not> needsApproval balanced \<lparr>aq_op = WriteOp, aq_path = ''/.env'', aq_sizeChars = 1\<rparr>"
  by code_simp+

text \<open>The target of a rename is not looked at, and large patches run free.\<close>

lemma rename_target_unjudged:
  "query_of ''rename_file'' (JObj [(''from'', JStr a), (''to'', JStr b)]) = query_of ''rename_file'' (JObj [(''from'', JStr a), (''to'', JStr c)])"
  by (simp add: query_of_def)

lemma large_patches_run_free: "\<not> needsApproval balanced \<lparr>aq_op = PatchOp, aq_path = ''src/a.ts'', aq_sizeChars = 1000000\<rparr>"
  by code_simp

section \<open>Lemmas on locks\<close>

text \<open>A name locked by default is protected in every directory, with either separator.\<close>

lemma split_at: "split_on sep (s @ sep # w) = split_on sep s @ split_on sep w"
  by (induction s) (auto split: list.splits)

lemma filename_below: "CHR ''/'' \<notin> set w \<Longrightarrow> filename w = w \<and> filename (d @ CHR ''/'' # w) = w"
  by (simp add: filename_def split_at split_single)

lemma locks_append: "find P xs = Some l \<Longrightarrow> find P (xs @ ys) = Some l"
  by (induction xs) (auto split: if_splits)

lemma default_lock_found:
  assumes "filename (normalized path) \<in> set (map lf_pattern DEFAULT_LOCKS)"
  shows "\<exists>l. check_lock rx (new_locks extra) path = Some l \<and> lf_level l = HardLock"
proof -
  let ?hit = "\<lambda>l. lock_matches rx (lf_pattern l) (normalized path) \<or> lock_matches rx (lf_pattern l) (filename (normalized path))"
  have "\<exists>l \<in> set DEFAULT_LOCKS. ?hit l" using assms by (auto simp: lock_matches_def)
  then obtain l where l: "find ?hit DEFAULT_LOCKS = Some l" by (metis find_None_iff not_Some_eq)
  have "l \<in> set DEFAULT_LOCKS" using l by (auto simp: find_Some_iff)
  then have "lf_level l = HardLock" by (auto simp: DEFAULT_LOCKS_def)
  then show ?thesis using locks_append [OF l] by (simp add: check_lock_def new_locks_def Let_def)
qed

text \<open>Adding a lock never takes one away; but a warning on the file that is already there stays a warning.\<close>

lemma lock_keeps: "check_lock rx locks path = Some l \<Longrightarrow> check_lock rx (lock_file pat level reason locks) path = Some l"
  by (simp add: check_lock_def lock_file_def Let_def locks_append)

lemma warning_hides_lock:
  assumes "check_lock rx locks path = Some l" "lf_level l = WarnLock"
  shows "assertWritable rx (lock_file path HardLock reason locks) path = Inr (Some l)"
  using lock_keeps [OF assms(1)] assms(2) by (simp add: assertWritable_def)

text \<open>A file protected twice is still protected after it was unlocked once.\<close>

lemma unlock_is_single: "unlock_file pat (ls @ [\<lparr>lf_pattern = pat, lf_level = a, lf_reason = x\<rparr>, \<lparr>lf_pattern = pat, lf_level = b, lf_reason = y\<rparr>]) =
    (if pat \<in> set (map lf_pattern ls) then unlock_file pat ls @ [\<lparr>lf_pattern = pat, lf_level = a, lf_reason = x\<rparr>, \<lparr>lf_pattern = pat, lf_level = b, lf_reason = y\<rparr>]
     else ls @ [\<lparr>lf_pattern = pat, lf_level = b, lf_reason = y\<rparr>])"
  by (induction ls) auto

section \<open>The policy in the agent loop\<close>

lemma registered_tools:
  "register_all ts r = Inr r' \<Longrightarrow> map_of r' n = Some t \<Longrightarrow> map_of r n = Some t \<or> t \<in> set ts \<and> td_name t = n"
proof (induction ts arbitrary: r)
  case (Cons x xs)
  then show ?case
    by (fastforce simp: register_def Let_def update_conv' split: prod.splits option.splits if_splits)
qed simp

lemma applied_asks:
  assumes "t \<in> set (applyApprovalPolicy p ts)" "query_of (td_name t) input = Some q"
  shows "td_needsApproval t input = needsApproval p q"
proof -
  have "is_write_tool (td_name t)" using assms(2) by (auto simp: query_of_def is_write_tool_def Let_def split: if_splits)
  then show ?thesis using assms by (auto simp: applyApprovalPolicy_def applyPolicy_def split: if_splits)
qed

lemma agent_tools:
  assumes "new_agent h opts = Inr cfg"
  shows "register_all (op_tools opts) [] = Inr (ag_tools cfg)" "ag_hasCheckpointer cfg = op_hasCheckpointer opts"
  using assms by (auto simp: new_agent_def Let_def split: sum.splits prod.splits)

section \<open>Properties\<close>


text \<open>
  The files of the package managers are never writable, whatever locks were added, in any directory
  and with either separator.
\<close>
theorem default_locks_hold:
  assumes "normalized path = w \<or> (\<exists>d. normalized path = d @ CHR ''/'' # w)"
    and "w \<in> {''package-lock.json'', ''yarn.lock'', ''pnpm-lock.yaml'', ''bun.lock''}"
  shows "\<exists>l. assertWritable rx (new_locks extra) path = Inl l"
proof -
  have "CHR ''/'' \<notin> set w" using assms(2) by auto
  then have "filename (normalized path) = w" using assms(1) filename_below by auto
  then show ?thesis
    using default_lock_found [of path rx extra] assms(2) by (force simp: DEFAULT_LOCKS_def assertWritable_def)
qed

section \<open>A run\<close>

definition demo_host :: host where
  "demo_host =
     \<lparr>ho_describe = (\<lambda>c e. (''failed'', None)), ho_parse = (\<lambda>s. None), ho_repairJson = (\<lambda>s. s), ho_number_of = (\<lambda>s. None),
      ho_localeCompare = (\<lambda>a b. True), ho_zodSchema = (\<lambda>t. JNull), ho_supportsBudgetForcing = False\<rparr>"

definition demo_options :: "tool_def list \<Rightarrow> agent_options" where
  "demo_options tools =
     \<lparr>op_tools = tools, op_maxSteps = Some 2, op_planningInterval = None, op_systemPrompt = Some ''Help.'', op_enhancementPolicy = None,
      op_budget = None, op_assembler = None, op_scheduler = None, op_stopWhen = [], op_stopPolicies = [], op_hasCheckpointer = True,
      op_inputGuardrails = [], op_outputGuardrails = [], op_toolGuardrails = [], op_outputSchema = None, op_outputSchemaRetries = None,
      op_enableToolSynthesis = None, op_policyGateway = None\<rparr>"

definition demo_tools :: "tool_def list" where
  "demo_tools = [echo_tool\<lparr>td_name := ''write_file''\<rparr>]"

definition demo_writer :: agent_config where
  "demo_writer = projr (new_agent demo_host (demo_options (applyApprovalPolicy balanced demo_tools)))"

definition demo_write :: pending_call where
  "demo_write = \<lparr>pc_id = ''a'', pc_name = ''write_file'', pc_input = JObj [(''path'', JStr ''.env''), (''content'', JStr ''x'')]\<rparr>"

lemma demo_constructed: "isl (new_agent demo_host (demo_options (applyApprovalPolicy balanced demo_tools))) = False"
  by code_simp

lemma demo_writes: "map (\<lambda>(k, b). (k, br_callId b)) (as_ran (flow_state (demo_run demo_writer [demo_write]))) = [(1, ''a'')]"
  by code_simp


end
