(* ===== verification/Action_Parser.thy ===== *)
theory Action_Parser
  imports Wa_Prelude
begin

text \<open>
  The parser of actions in a stream of model output
  (packages/core/src/streaming/StreamingActionParser.ts): bolt file and shell actions and fenced code
  blocks, found while the text arrives in chunks. The identifiers of actions are left out. For an open
  file or shell action the chunks do not matter; for the rest they do, and it is shown how.
\<close>

section \<open>Actions and state\<close>

abbreviation lf :: string where "lf \<equiv> [CHR 0x0A]"

datatype action_type = FileAction | ShellAction | CodeAction

record parsed_action =
  pa_type :: action_type
  pa_filePath :: "string option"
  pa_language :: "string option"
  pa_content :: string
  pa_isComplete :: bool

record action_parser =
  ap_current :: "parsed_action option"
  ap_completed :: "parsed_action list"
  ap_remainder :: string

definition new_parser :: action_parser where
  "new_parser = \<lparr>ap_current = None, ap_completed = [], ap_remainder = []\<rparr>"

definition opened :: "action_type \<Rightarrow> string option \<Rightarrow> string option \<Rightarrow> parsed_action" where
  "opened k path lang = \<lparr>pa_type = k, pa_filePath = path, pa_language = lang, pa_content = [], pa_isComplete = False\<rparr>"

section \<open>The patterns\<close>

text \<open>The first match of a pattern: the matcher gives what it captures and the rest.\<close>

fun scan :: "(string \<Rightarrow> ('a \<times> string) option) \<Rightarrow> string \<Rightarrow> ('a \<times> string) option" where
  "scan m [] = None"
| "scan m (c # s) = (case m (c # s) of Some r \<Rightarrow> Some r | None \<Rightarrow> scan m s)"

definition lit_ci :: "string \<Rightarrow> string \<Rightarrow> string option" where
  "lit_ci p s = (if starts_with (ascii_lower s) p then Some (drop (length p) s) else None)"

definition spaces :: "string \<Rightarrow> string option" where
  "spaces s = (case s of [] \<Rightarrow> None | c # _ \<Rightarrow> if is_space c then Some (dropWhile is_space s) else None)"

definition bind_rest :: "string option \<Rightarrow> (string \<Rightarrow> 'b option) \<Rightarrow> 'b option" where
  "bind_rest x f = (case x of None \<Rightarrow> None | Some s \<Rightarrow> f s)"

text \<open>\<open>/<boltAction\\s+type="file"\\s+filePath="([^"]*)">/i\<close>, \<open>/<boltAction\\s+type="shell">/i\<close> and the opening fence.\<close>

definition file_opener :: "string \<Rightarrow> (string \<times> string) option" where
  "file_opener s =
     bind_rest (lit_ci ''<boltaction'' s) (\<lambda>s1. bind_rest (spaces s1) (\<lambda>s2. bind_rest (lit_ci ''type=\"file\"'' s2)
       (\<lambda>s3. bind_rest (spaces s3) (\<lambda>s4. bind_rest (lit_ci ''filepath=\"'' s4)
         (\<lambda>s5. bind_rest (lit_ci ''\">'' (dropWhile (\<lambda>c. c \<noteq> CHR 0x22) s5))
           (\<lambda>s6. Some (takeWhile (\<lambda>c. c \<noteq> CHR 0x22) s5, s6)))))))"

definition shell_opener :: "string \<Rightarrow> (unit \<times> string) option" where
  "shell_opener s =
     bind_rest (lit_ci ''<boltaction'' s) (\<lambda>s1. bind_rest (spaces s1) (\<lambda>s2. bind_rest (lit_ci ''type=\"shell\">'' s2) (\<lambda>s3. Some ((), s3))))"

definition fence :: string where "fence = ''```''"

definition fence_opener :: "string \<Rightarrow> (string \<times> string) option" where
  "fence_opener s =
     (if starts_with s fence
      then (case dropWhile is_word_char (drop 3 s) of
              [] \<Rightarrow> None
            | c # rest \<Rightarrow> if [c] = lf then Some (takeWhile is_word_char (drop 3 s), rest) else None)
      else None)"

definition tryOpenAction :: "string \<Rightarrow> (parsed_action \<times> string) option" where
  "tryOpenAction buf =
     (case scan file_opener buf of
        Some (path, rest) \<Rightarrow> Some (opened FileAction (Some path) None, rest)
      | None \<Rightarrow>
          (case scan shell_opener buf of
             Some (u, rest) \<Rightarrow> Some (opened ShellAction None None, rest)
           | None \<Rightarrow>
               (case scan fence_opener buf of
                  Some (lang, rest) \<Rightarrow> Some (opened CodeAction None (if lang = [] then None else Some lang), rest)
                | None \<Rightarrow> None)))"

text \<open>The text before the first occurrence of a pattern, and the text after it.\<close>

fun find_split :: "string \<Rightarrow> string \<Rightarrow> (string \<times> string) option" where
  "find_split p [] = (if p = [] then Some ([], []) else None)"
| "find_split p (c # s) =
     (if starts_with (c # s) p then Some ([], drop (length p) (c # s))
      else map_option (\<lambda>(a, b). (c # a, b)) (find_split p s))"

definition close_tag :: string where "close_tag = ''</boltAction>''"

text \<open>\<open>/(?:^|\\n)```/\<close>: the content keeps the line break.\<close>

definition close_fence :: "string \<Rightarrow> (string \<times> string) option" where
  "close_fence buf =
     (if starts_with buf fence then Some ([], drop 3 buf)
      else map_option (\<lambda>(a, b). (a @ lf, b)) (find_split (lf @ fence) buf))"

definition tryCloseAction :: "parsed_action \<Rightarrow> string \<Rightarrow> (parsed_action \<times> string) option" where
  "tryCloseAction a buf =
     map_option (\<lambda>(text, rest). (a\<lparr>pa_content := trim (pa_content a @ text), pa_isComplete := True\<rparr>, rest))
       (case pa_type a of CodeAction \<Rightarrow> close_fence buf | _ \<Rightarrow> find_split close_tag buf)"

definition tailReserve :: nat where "tailReserve = 20"

definition accumulateContent :: "parsed_action \<Rightarrow> string \<Rightarrow> parsed_action \<times> string" where
  "accumulateContent a buf =
     (if length buf \<le> tailReserve then (a, buf)
      else (a\<lparr>pa_content := pa_content a @ take (length buf - tailReserve) buf\<rparr>, drop (length buf - tailReserve) buf))"

section \<open>Feeding\<close>

lemma lit_shorter: "lit_ci p s = Some r \<Longrightarrow> length r \<le> length s"
  by (auto simp: lit_ci_def split: if_splits)

lemma lit_strict: "lit_ci p s = Some r \<Longrightarrow> p \<noteq> [] \<Longrightarrow> length r < length s"
  by (cases s; cases p) (auto simp: lit_ci_def ascii_lower_def split: if_splits)

lemma spaces_shorter: "spaces s = Some r \<Longrightarrow> length r \<le> length s"
  by (auto simp: spaces_def split: list.splits if_splits) (meson le_SucI length_dropWhile_le)

lemma bind_some: "bind_rest x f = Some r \<longleftrightarrow> (\<exists>s. x = Some s \<and> f s = Some r)"
  by (simp add: bind_rest_def split: option.splits)

lemma scan_shorter:
  assumes "\<And>s x r. m s = Some (x, r) \<Longrightarrow> length r < length s" "scan m s = Some (x, r)"
  shows "length r < length s"
  using assms(2) by (induction s) (auto split: option.splits dest: assms(1))

lemma file_shorter: "file_opener s = Some (x, r) \<Longrightarrow> length r < length s"
  unfolding file_opener_def bind_some
  by (auto dest!: lit_strict spaces_shorter) (meson le_less_trans length_dropWhile_le less_le_trans less_or_eq_imp_le)

lemma shell_shorter: "shell_opener s = Some (x, r) \<Longrightarrow> length r < length s"
  unfolding shell_opener_def bind_some by (fastforce dest!: lit_strict spaces_shorter)

lemma fence_shorter: "fence_opener s = Some (x, r) \<Longrightarrow> length r < length s"
proof -
  assume f: "fence_opener s = Some (x, r)"
  then obtain c where "dropWhile is_word_char (drop 3 s) = c # r" by (auto simp: fence_opener_def split: if_splits list.splits)
  then have "Suc (length r) \<le> length (drop 3 s)" by (metis length_Cons length_dropWhile_le)
  then show ?thesis by simp
qed

lemma scanned_file: "scan file_opener s = Some (x, r) \<Longrightarrow> length r < length s"
  using scan_shorter [of file_opener] file_shorter by blast

lemma scanned_shell: "scan shell_opener s = Some (x, r) \<Longrightarrow> length r < length s"
  using scan_shorter [of shell_opener] shell_shorter by blast

lemma scanned_fence: "scan fence_opener s = Some (x, r) \<Longrightarrow> length r < length s"
  using scan_shorter [of fence_opener] fence_shorter by blast

lemma open_shorter: "tryOpenAction s = Some (a, r) \<Longrightarrow> length r < length s"
  by (auto simp: tryOpenAction_def split: option.splits dest: scanned_file scanned_shell scanned_fence)

lemma find_split_some: "find_split p s = Some (a, b) \<Longrightarrow> s = a @ p @ b"
  by (induction s arbitrary: a) (auto simp: starts_with_iff split: if_splits)

lemma close_shorter: "tryCloseAction a s = Some (a', r) \<Longrightarrow> length r < length s"
  by (auto simp: tryCloseAction_def close_fence_def close_tag_def fence_def  starts_with_iff
      split: action_type.splits if_splits dest!: find_split_some)

text \<open>The loop of \<open>feed\<close>: it returns the actions completed and the parser.\<close>

function drain_buffer :: "action_parser \<Rightarrow> parsed_action list \<times> action_parser" where
  "drain_buffer p =
     (case ap_current p of
        None \<Rightarrow>
          (case tryOpenAction (ap_remainder p) of
             None \<Rightarrow> ([], p)
           | Some (a, rest) \<Rightarrow> drain_buffer (p\<lparr>ap_current := Some a, ap_remainder := rest\<rparr>))
      | Some a \<Rightarrow>
          (case tryCloseAction a (ap_remainder p) of
             None \<Rightarrow> (let (a', rest) = accumulateContent a (ap_remainder p) in ([], p\<lparr>ap_current := Some a', ap_remainder := rest\<rparr>))
           | Some (a', rest) \<Rightarrow>
               (let (as, q) = drain_buffer (p\<lparr>ap_current := None, ap_completed := ap_completed p @ [a'], ap_remainder := rest\<rparr>)
                in (a' # as, q))))"
  by pat_completeness auto

termination
  by (relation "measure (\<lambda>p. length (ap_remainder p))") (auto dest: open_shorter close_shorter)

declare drain_buffer.simps [simp del]

definition feed :: "string \<Rightarrow> action_parser \<Rightarrow> parsed_action list \<times> action_parser" where
  "feed delta p = drain_buffer (p\<lparr>ap_remainder := ap_remainder p @ delta\<rparr>)"

definition getInProgress :: "action_parser \<Rightarrow> parsed_action option" where
  "getInProgress p = ap_current p"

definition getCompleted :: "action_parser \<Rightarrow> parsed_action list" where
  "getCompleted p = ap_completed p"

definition reset_parser :: "action_parser \<Rightarrow> action_parser" where
  "reset_parser p = new_parser"

fun feed_all :: "string list \<Rightarrow> action_parser \<Rightarrow> parsed_action list \<times> action_parser" where
  "feed_all [] p = ([], p)"
| "feed_all (d # ds) p = (let (as, q) = feed d p; (bs, r) = feed_all ds q in (as @ bs, r))"

definition extractActionsFromResponse :: "string \<Rightarrow> parsed_action list" where
  "extractActionsFromResponse response =
     getCompleted (snd (feed_all [response, lf @ ''```'' @ lf @ ''</boltAction>'' @ lf] new_parser))"

section \<open>Lemmas\<close>

lemma find_split_none: "find_split p s = None \<longleftrightarrow> \<not> str_includes s p"
  by (induction s) auto

lemma starts_with_long: "length p \<le> length u \<Longrightarrow> starts_with (u @ v) p = starts_with u p"
  by (auto simp: starts_with_iff append_eq_append_conv2)

text \<open>Text that cannot hold the start of an occurrence can be set aside.\<close>

lemma find_split_aside:
  assumes "find_split p (x @ y) = None" "length p \<le> length y + 1" "p \<noteq> []"
  shows "find_split p (x @ y @ v) = map_option (\<lambda>(a, b). (x @ a, b)) (find_split p (y @ v))"
  using assms
proof (induction x)
  case Nil
  show ?case by (cases "find_split p (y @ v)") auto
next
  case (Cons c x)
  have "\<not> starts_with (c # x @ y) p" "find_split p (x @ y) = None" using Cons.prems(1) by (simp_all split: if_splits)
  moreover have "starts_with ((c # x @ y) @ v) p = starts_with (c # x @ y) p"
    by (rule starts_with_long) (use Cons.prems(2) in simp)
  ultimately show ?case using Cons by (cases "find_split p (y @ v)") auto
qed

text \<open>What an open file or shell action makes of a chunk that does not close it.\<close>

lemma feed_open:
  assumes "ap_current p = Some a" "pa_type a \<noteq> CodeAction" "find_split close_tag (ap_remainder p @ d) = None"
  shows "\<exists>x y. feed d p = ([], p\<lparr>ap_current := Some (a\<lparr>pa_content := pa_content a @ x\<rparr>), ap_remainder := y\<rparr>) \<and>
    x @ y = ap_remainder p @ d \<and> (x = [] \<or> tailReserve \<le> length y)"
proof -
  have c: "tryCloseAction a (ap_remainder p @ d) = None"
    using assms(2,3) by (auto simp: tryCloseAction_def split: action_type.splits)
  show ?thesis
  proof (cases "length (ap_remainder p @ d) \<le> tailReserve")
    case True
    then show ?thesis
      using assms(1) c
      by (intro exI [of _ "[]"] exI [of _ "ap_remainder p @ d"]) (simp add: feed_def drain_buffer.simps accumulateContent_def Let_def)
  next
    case False
    let ?buf = "ap_remainder p @ d"
    let ?n = "length ?buf - tailReserve"
    have f: "feed d p = ([], p\<lparr>ap_current := Some (a\<lparr>pa_content := pa_content a @ take ?n ?buf\<rparr>), ap_remainder := drop ?n ?buf\<rparr>)"
      using assms(1) c False by (simp add: feed_def drain_buffer.simps accumulateContent_def Let_def del: length_append)
    moreover have "take ?n ?buf @ drop ?n ?buf = ?buf" by (rule append_take_drop_id)
    moreover have "tailReserve \<le> length (drop ?n ?buf)" using False unfolding length_drop by linarith
    ultimately show ?thesis by blast
  qed
qed

lemma none_prefix: "find_split p (u @ v) = None \<Longrightarrow> find_split p u = None"
  by (auto simp: find_split_none includes_iff) (metis append.assoc)

lemma none_suffix: "find_split p (u @ v) = None \<Longrightarrow> find_split p v = None"
  by (auto simp: find_split_none includes_iff) (metis append.assoc)

lemma feed_all_open:
  assumes "ap_current p = Some a" "pa_type a \<noteq> CodeAction" "find_split close_tag (ap_remainder p @ concat ds) = None"
  shows "\<exists>x y. feed_all ds p = ([], p\<lparr>ap_current := Some (a\<lparr>pa_content := pa_content a @ x\<rparr>), ap_remainder := y\<rparr>) \<and>
    x @ y = ap_remainder p @ concat ds \<and> (x = [] \<or> tailReserve \<le> length y)"
  using assms
proof (induction ds arbitrary: p a)
  case Nil
  then show ?case by (intro exI [of _ "[]"] exI [of _ "ap_remainder p"]) simp
next
  case (Cons d ds)
  have n: "find_split close_tag (ap_remainder p @ d) = None"
    using Cons.prems(3) none_prefix [of close_tag "ap_remainder p @ d" "concat ds"] by simp
  obtain x y where f: "feed d p = ([], p\<lparr>ap_current := Some (a\<lparr>pa_content := pa_content a @ x\<rparr>), ap_remainder := y\<rparr>)"
    "x @ y = ap_remainder p @ d" "x = [] \<or> tailReserve \<le> length y"
    using feed_open [OF Cons.prems(1,2) n] by blast
  let ?p = "p\<lparr>ap_current := Some (a\<lparr>pa_content := pa_content a @ x\<rparr>), ap_remainder := y\<rparr>"
  have "find_split close_tag (x @ y @ concat ds) = None" using Cons.prems(3) f(2) by (simp flip: append_assoc)
  then have "find_split close_tag (y @ concat ds) = None" by (rule none_suffix)
  then obtain x' y' where g: "feed_all ds ?p = ([], ?p\<lparr>ap_current := Some (a\<lparr>pa_content := (pa_content a @ x) @ x'\<rparr>), ap_remainder := y'\<rparr>)"
    "x' @ y' = y @ concat ds" "x' = [] \<or> tailReserve \<le> length y'"
    using Cons.IH [of ?p "a\<lparr>pa_content := pa_content a @ x\<rparr>"] Cons.prems(2) by auto
  have len: "x @ x' = [] \<or> tailReserve \<le> length y'"
    using f(3) g(2,3) by (auto dest: arg_cong [where f = length])
  have "(x @ x') @ y' = ap_remainder p @ concat (d # ds)" using f(2) g(2) by (metis append.assoc concat.simps(2))
  then show ?case
    using f(1) g(1) len by (intro exI [of _ "x @ x'"] exI [of _ y']) simp
qed

lemma feed_closes:
  assumes "ap_current p = Some a" "pa_type a \<noteq> CodeAction" "find_split close_tag (ap_remainder p @ d) = Some (text, rest)"
  shows "\<exists>as q. feed d p = (a\<lparr>pa_content := trim (pa_content a @ text), pa_isComplete := True\<rparr> # as, q)"
proof -
  have "tryCloseAction a (ap_remainder p @ d) = Some (a\<lparr>pa_content := trim (pa_content a @ text), pa_isComplete := True\<rparr>, rest)"
    using assms(2,3) by (auto simp: tryCloseAction_def split: action_type.splits)
  then show ?thesis using assms(1) by (auto simp: feed_def drain_buffer.simps [of "p\<lparr>ap_remainder := ap_remainder p @ d\<rparr>"] split: prod.splits)
qed

section \<open>Properties\<close>

text \<open>
  C37. However the text of an open file or shell action is cut into chunks, no chunk before the closing
  tag completes anything, and the chunk that completes the tag gives the action with the whole text up
  to the tag, trimmed.
\<close>
theorem content_ignores_chunks:
  assumes "ap_current p = Some a" and "pa_type a \<noteq> CodeAction"
    and "\<not> str_includes (ap_remainder p @ concat ds) ''</boltAction>''"
    and "find_split ''</boltAction>'' (ap_remainder p @ concat ds @ d) = Some (text, rest)"
  shows "\<exists>q as r. feed_all ds p = ([], q) \<and>
    feed d q = (a\<lparr>pa_content := trim (pa_content a @ text), pa_isComplete := True\<rparr> # as, r)"
proof -
  have n: "find_split close_tag (ap_remainder p @ concat ds) = None" using assms(3) by (simp add: find_split_none close_tag_def)
  obtain x y where f: "feed_all ds p = ([], p\<lparr>ap_current := Some (a\<lparr>pa_content := pa_content a @ x\<rparr>), ap_remainder := y\<rparr>)"
    "x @ y = ap_remainder p @ concat ds" "x = [] \<or> tailReserve \<le> length y"
    using feed_all_open [OF assms(1,2) n] by blast
  have s: "find_split close_tag (x @ y @ d) = Some (text, rest)"
    using assms(4) f(2) unfolding close_tag_def by (metis append.assoc)
  have "find_split close_tag (x @ y @ d) = map_option (\<lambda>(u, v). (x @ u, v)) (find_split close_tag (y @ d))"
  proof (cases "x = []")
    case True
    then show ?thesis by (cases "find_split close_tag (y @ d)") auto
  next
    case False
    then show ?thesis using f(2,3) n by (intro find_split_aside) (auto simp: close_tag_def tailReserve_def)
  qed
  then have "map_option (\<lambda>(u, v). (x @ u, v)) (find_split close_tag (y @ d)) = Some (text, rest)" using s by simp
  then obtain u where u: "find_split close_tag (y @ d) = Some (u, rest)" "text = x @ u"
    by (cases "find_split close_tag (y @ d)") auto
  show ?thesis
    using f(1) feed_closes [of "p\<lparr>ap_current := Some (a\<lparr>pa_content := pa_content a @ x\<rparr>), ap_remainder := y\<rparr>"
        "a\<lparr>pa_content := pa_content a @ x\<rparr>" d u rest] assms(2) u by auto
qed

definition demo_parser :: action_parser where
  "demo_parser = new_parser\<lparr>ap_current := Some (opened FileAction (Some ''a.txt'') None)\<rparr>"

theorem content_ignores_chunks_witness:
  "\<exists>q as r. feed_all [''hello '', ''wor'', ''ld</bolt''] demo_parser = ([], q) \<and>
     feed ''Action> more'' q = (\<lparr>pa_type = FileAction, pa_filePath = Some ''a.txt'', pa_language = None, pa_content = ''hello world'',
       pa_isComplete = True\<rparr> # as, r)"
proof -
  have t: "trim ''hello world'' = ''hello world''" by code_simp
  show ?thesis
    using content_ignores_chunks [of demo_parser "opened FileAction (Some ''a.txt'') None" "[''hello '', ''wor'', ''ld</bolt'']"
        "''Action> more''" "''hello world''" "'' more''"] t
    by (simp add: demo_parser_def new_parser_def opened_def)
qed

section \<open>Where the chunks matter\<close>

definition contents :: "parsed_action list \<Rightarrow> (action_type \<times> string) list" where
  "contents as = map (\<lambda>a. (pa_type a, pa_content a)) as"

text \<open>A file tag anywhere in the buffer is taken before a fence that stands in front of it.\<close>

definition fenced_then_file :: "string list" where
  "fenced_then_file = [''```'' @ lf @ ''x'' @ lf @ ''```'' @ lf, ''<boltAction type=\"file\" filePath=\"p\">y</boltAction>'']"

lemma order_depends_on_chunks:
  "contents (fst (feed_all fenced_then_file new_parser)) = [(CodeAction, ''x''), (FileAction, ''y'')]"
  "contents (fst (feed (concat fenced_then_file) new_parser)) = [(FileAction, ''y'')]"
  by code_simp+

text \<open>After a part of the content was set aside, three backticks inside a line close a code block.\<close>

lemma backticks_inside_line:
  "contents (fst (feed (''```'' @ lf @ ''0123456789```abcdefghijklmnopqrst'' @ lf @ ''```'') new_parser)) =
     [(CodeAction, ''0123456789```abcdefghijklmnopqrst'')]"
  "contents (fst (feed_all [''```'' @ lf, ''0123456789```abcdefghijklmnopq'', ''rst'' @ lf @ ''```''] new_parser)) =
     [(CodeAction, ''0123456789'')]"
  by code_simp+

text \<open>An unclosed file action gets the fence that is fed to close code blocks.\<close>

lemma flush_adds_fence:
  "contents (extractActionsFromResponse (''<boltAction type=\"file\" filePath=\"p\">y'')) = [(FileAction, ''y'' @ lf @ ''```'')]"
  by code_simp

end
