(* ===== verification/File_Tree.thy ===== *)
theory File_Tree
  imports Evidence_Verify Workflow_Store "HOL-Library.Word"
begin

text \<open>
  The tracker of workspace files (packages/core/src/workspace/FileTreeManager.ts) with its content hash
  (\<open>syncHash16\<close> in packages/core/src/util/runtime.ts): live entries, at most ten versions of each file,
  rollback, the check of a write against the hash that was read, and the views for prompts. Hashes are
  32-bit words with their wrap-around. The clock, the order of names, lower case and the pattern that
  picks keywords are arguments; maps are association lists in insertion order.
\<close>

section \<open>The content hash\<close>

unbundle bit_operations_syntax

definition byte_word :: "char \<Rightarrow> 32 word" where
  "byte_word c = word_of_nat (of_char c)"

definition mix1 :: "32 word \<Rightarrow> char \<Rightarrow> 32 word" where
  "mix1 h b = (h XOR byte_word b) * 0x01000193"

definition mix2 :: "32 word \<Rightarrow> char \<Rightarrow> 32 word" where
  "mix2 h b = (h XOR byte_word b) * 0x85ebca6b"

definition hex8 :: "32 word \<Rightarrow> string" where
  "hex8 h = padStart 8 (num_str 16 (unat h))"

definition syncHash16 :: "string \<Rightarrow> string" where
  "syncHash16 text =
     (let bytes = utf8 text
      in hex8 (foldl mix1 0x811c9dc5 bytes) @ hex8 (foldl mix2 0x9e3779b1 bytes))"

definition byteLength :: "string \<Rightarrow> nat" where
  "byteLength text = length (utf8 text)"

section \<open>Entries and versions\<close>

record file_entry =
  fe_path :: string
  fe_content :: string
  fe_hash :: string
  fe_lines :: nat
  fe_byteSize :: nat
  fe_lastModifiedMs :: int

record file_version =
  fv_version :: nat
  fv_hash :: string
  fv_content :: string
  fv_savedAtMs :: int

record file_tree =
  ft_files :: "(string \<times> file_entry) list"
  ft_versions :: "(string \<times> file_version list) list"

definition empty_tree :: file_tree where
  "empty_tree = \<lparr>ft_files = [], ft_versions = []\<rparr>"

definition MAX_VERSIONS :: nat where "MAX_VERSIONS = 10"

definition makeEntry :: "int \<Rightarrow> string \<Rightarrow> string \<Rightarrow> file_entry" where
  "makeEntry now path content =
     \<lparr>fe_path = path, fe_content = content, fe_hash = syncHash16 content, fe_lines = length (split_on (CHR 0x0A) content),
      fe_byteSize = byteLength content, fe_lastModifiedMs = now\<rparr>"

definition hydrate :: "int \<Rightarrow> (string \<times> string) list \<Rightarrow> file_tree \<Rightarrow> file_tree" where
  "hydrate now files t =
     t\<lparr>ft_files := foldl (\<lambda>m (path, content). AList.update path (makeEntry now path content) m) (ft_files t) files\<rparr>"

definition getVersions :: "string \<Rightarrow> file_tree \<Rightarrow> file_version list" where
  "getVersions path t = (case map_of (ft_versions t) path of None \<Rightarrow> [] | Some vs \<Rightarrow> vs)"

definition next_version :: "file_version list \<Rightarrow> nat" where
  "next_version history = (if history = [] then 1 else fv_version (last history) + 1)"

definition push_version :: "file_version \<Rightarrow> file_version list \<Rightarrow> file_version list" where
  "push_version v history =
     (let h = history @ [v] in if length h > MAX_VERSIONS then tl h else h)"

definition recordWrite :: "int \<Rightarrow> string \<Rightarrow> string \<Rightarrow> file_tree \<Rightarrow> string \<times> file_tree" where
  "recordWrite now path content t =
     (let entry = makeEntry now path content;
          history = getVersions path t;
          v = \<lparr>fv_version = next_version history, fv_hash = fe_hash entry, fv_content = content, fv_savedAtMs = fe_lastModifiedMs entry\<rparr>
      in (fe_hash entry,
          t\<lparr>ft_files := AList.update path entry (ft_files t),
            ft_versions := AList.update path (push_version v history) (ft_versions t)\<rparr>))"

definition rollback :: "int \<Rightarrow> string \<Rightarrow> nat \<Rightarrow> file_tree \<Rightarrow> string option \<times> file_tree" where
  "rollback now path n t =
     (case find (\<lambda>v. fv_version v = n) (getVersions path t) of
        None \<Rightarrow> (None, t)
      | Some v \<Rightarrow> (Some (fv_content v), snd (recordWrite now path (fv_content v) t)))"

definition recordDelete :: "string \<Rightarrow> file_tree \<Rightarrow> file_tree" where
  "recordDelete path t = t\<lparr>ft_files := AList.delete path (ft_files t)\<rparr>"

definition remove_file :: "string \<Rightarrow> file_tree \<Rightarrow> file_tree" where
  "remove_file path t = t\<lparr>ft_files := AList.delete path (ft_files t), ft_versions := AList.delete path (ft_versions t)\<rparr>"

definition get_file :: "string \<Rightarrow> file_tree \<Rightarrow> file_entry option" where
  "get_file path t = map_of (ft_files t) path"

text \<open>No hash, or an empty one, means an unconditional write.\<close>

definition checkWriteSafe :: "string \<Rightarrow> string option \<Rightarrow> file_tree \<Rightarrow> bool" where
  "checkWriteSafe path expectedHash t =
     (if \<not> truthy expectedHash then True
      else (case get_file path t of None \<Rightarrow> True | Some e \<Rightarrow> expectedHash = Some (fe_hash e)))"

section \<open>Views\<close>

definition tree_size :: "file_tree \<Rightarrow> nat" where
  "tree_size t = length (ft_files t)"

record tree_summary =
  sm_totalFiles :: nat
  sm_totalBytes :: nat
  sm_files :: "(string \<times> nat \<times> string \<times> int) list"

definition getSummary :: "file_tree \<Rightarrow> tree_summary" where
  "getSummary t =
     (let es = map snd (ft_files t)
      in \<lparr>sm_totalFiles = length es, sm_totalBytes = sum_list (map fe_byteSize es),
          sm_files = map (\<lambda>e. (fe_path e, fe_lines e, fe_hash e, fe_lastModifiedMs e)) es\<rparr>)"

fun insert_entry :: "(string \<Rightarrow> string \<Rightarrow> bool) \<Rightarrow> file_entry \<Rightarrow> file_entry list \<Rightarrow> file_entry list" where
  "insert_entry le e [] = [e]"
| "insert_entry le e (f # fs) = (if le (fe_path e) (fe_path f) then e # f # fs else f # insert_entry le e fs)"

definition dir_and_name :: "string \<Rightarrow> string \<times> string" where
  "dir_and_name path =
     (let ws = split_on (CHR ''/'') path
      in if CHR ''/'' \<in> set path then (join_on ''/'' (butlast ws), last ws) else (''.'', path))"

fun prompt_lines :: "string \<Rightarrow> file_entry list \<Rightarrow> string list" where
  "prompt_lines lastDir [] = []"
| "prompt_lines lastDir (e # es) =
     (let (dir, name) = dir_and_name (fe_path e)
      in (if dir \<noteq> lastDir then [''  '' @ dir @ ''/''] else []) @
         [''    '' @ name @ ''  ('' @ nat_str (fe_lines e) @ '' lines)''] @ prompt_lines dir es)"

definition formatForPrompt :: "(string \<Rightarrow> string \<Rightarrow> bool) \<Rightarrow> nat \<Rightarrow> file_tree \<Rightarrow> string" where
  "formatForPrompt le maxFiles t =
     (let sorted_files = take maxFiles (foldr (insert_entry le) (map snd (ft_files t)) [])
      in if sorted_files = [] then ''(empty workspace)''
         else join_on [CHR 0x0A] ((nat_str (length sorted_files) @ '' file(s):'') # prompt_lines [] sorted_files))"

record scored_file =
  sf_path :: string
  sf_content :: string
  sf_score :: nat
  sf_hash :: string

definition score_of :: "(string \<Rightarrow> string) \<Rightarrow> int \<Rightarrow> string list \<Rightarrow> file_entry \<Rightarrow> nat" where
  "score_of lower now keywords e =
     sum_list (map (\<lambda>kw. (if str_includes (lower (fe_path e)) kw then 3 else 0) + (if str_includes (lower (fe_content e)) kw then 1 else 0)) keywords) +
     (if now - fe_lastModifiedMs e < 600000 then 1 else 0)"

definition scored :: "nat \<Rightarrow> nat \<Rightarrow> file_entry \<Rightarrow> scored_file" where
  "scored maxContent s e =
     \<lparr>sf_path = fe_path e, sf_content = take maxContent (fe_content e), sf_score = s, sf_hash = fe_hash e\<rparr>"

definition getRelevantFiles ::
  "(string \<Rightarrow> string list) \<Rightarrow> (string \<Rightarrow> string) \<Rightarrow> int \<Rightarrow> string \<Rightarrow> nat \<Rightarrow> nat \<Rightarrow> file_tree \<Rightarrow> scored_file list" where
  "getRelevantFiles keywords_of lower now task maxFiles maxContent t =
     (let keywords = keywords_of (lower task); es = map snd (ft_files t)
      in if keywords = []
         then map (scored maxContent 0) (take maxFiles (sort_key (\<lambda>e. - fe_lastModifiedMs e) es))
         else take maxFiles (sort_key (\<lambda>s. - int (sf_score s))
                (map (\<lambda>e. scored maxContent (score_of lower now keywords e) e)
                  (filter (\<lambda>e. \<not> starts_with (fe_path e) ''session:'' \<and> \<not> starts_with (fe_path e) ''meta:'' \<and>
                               fe_byteSize e \<le> 100000 \<and> 0 < score_of lower now keywords e) es))))"

section \<open>Histories of operations\<close>

datatype tree_op =
    Hydrate "(string \<times> string) list"
  | RecordWrite string string
  | Rollback string nat
  | RecordDelete string
  | RemoveFile string

fun tree_step :: "int \<Rightarrow> tree_op \<Rightarrow> file_tree \<Rightarrow> file_tree" where
  "tree_step now (Hydrate files) t = hydrate now files t"
| "tree_step now (RecordWrite path content) t = snd (recordWrite now path content t)"
| "tree_step now (Rollback path n) t = snd (rollback now path n t)"
| "tree_step now (RecordDelete path) t = recordDelete path t"
| "tree_step now (RemoveFile path) t = remove_file path t"

definition tree_run :: "(int \<times> tree_op) list \<Rightarrow> file_tree" where
  "tree_run ops = foldl (\<lambda>t (now, op). tree_step now op t) empty_tree ops"

section \<open>Lemmas on the hash\<close>

lemma mix1_inverse: "(0x01000193 :: 32 word) * 899433627 = 1"
  by simp

lemma mix1_inj: "mix1 g b = mix1 h b \<longleftrightarrow> g = h"
proof
  assume "mix1 g b = mix1 h b"
  then have "(g XOR byte_word b) * (0x01000193 * 899433627) = (h XOR byte_word b) * (0x01000193 * 899433627)"
    unfolding mix1_def by (simp only: mult.assoc [symmetric])
  then have "g XOR byte_word b = h XOR byte_word b" unfolding mix1_inverse by simp
  then have "(g XOR byte_word b) XOR byte_word b = (h XOR byte_word b) XOR byte_word b" by (rule arg_cong)
  then show "g = h" by (simp add: xor.assoc)
qed simp

lemma byte_word_inj: "byte_word a = byte_word b \<longleftrightarrow> a = b"
proof
  have r: "unat (byte_word c) = of_char c" for c
  proof -
    have "(of_char c :: nat) < 4294967296" using nat_of_char_less_256 [of c] by linarith
    then have "of_char c mod 2 ^ LENGTH(32) = (of_char c :: nat)" by simp
    then show ?thesis by (simp only: byte_word_def unat_of_nat)
  qed
  assume "byte_word a = byte_word b"
  then have "(of_char a :: nat) = of_char b" using r by metis
  then show "a = b" by (metis char_of_char)
qed simp

lemma mix1_byte: "mix1 h a = mix1 h b \<longleftrightarrow> a = b"
proof
  assume "mix1 h a = mix1 h b"
  then have "(h XOR byte_word a) * (0x01000193 * 899433627) = (h XOR byte_word b) * (0x01000193 * 899433627)"
    unfolding mix1_def by (simp only: mult.assoc [symmetric])
  then have "h XOR byte_word a = h XOR byte_word b" unfolding mix1_inverse by simp
  then have "h XOR (h XOR byte_word a) = h XOR (h XOR byte_word b)" by (rule arg_cong)
  then have "byte_word a = byte_word b" by (simp add: xor.assoc [symmetric])
  then show "a = b" by (simp add: byte_word_inj)
qed simp

lemma mixed_inj: "foldl mix1 g bs = foldl mix1 h bs \<longleftrightarrow> g = h"
  by (induction bs arbitrary: g h) (simp_all add: mix1_inj)

lemma digits_zeros: "digits_value b (replicate k (CHR ''0'') @ s) = digits_value b s"
  by (induction k) (simp_all add: digits_value_def hex_val_def Let_def)

lemma hex8_facts: "length (hex8 h) = 8" "hex8 g = hex8 h \<longleftrightarrow> g = h"
proof -
  have l: "length (hex8 h) = 8" for h
  proof -
    have "unat h < 16 ^ 8" using unsigned_less [of h, where ?'a = nat] by simp
    then have "length (num_str 16 (unat h)) \<le> 8" by (intro num_str_length) simp_all
    then show ?thesis by (simp add: hex8_def padStart_def)
  qed
  have v: "digits_value 16 (hex8 h) = unat h" for h by (simp add: hex8_def padStart_def digits_zeros digits_value_num_str)
  show "length (hex8 h) = 8" by (rule l)
  show "hex8 g = hex8 h \<longleftrightarrow> g = h" using v [of g] v [of h] by (metis unsigned_word_eqI)
qed

text \<open>A changed ASCII character changes the hash, whatever stands around it.\<close>

lemma hash_sees_change:
  assumes "a \<noteq> b" "(of_char a :: nat) < 128" "(of_char b :: nat) < 128"
  shows "syncHash16 (u @ a # v) \<noteq> syncHash16 (u @ b # v)"
proof
  assume e: "syncHash16 (u @ a # v) = syncHash16 (u @ b # v)"
  have bytes: "utf8 (u @ c # v) = utf8 u @ c # utf8 v" if "(of_char c :: nat) < 128" for c
    using that by (simp add: utf8_def utf8_char_def)
  have "hex8 (foldl mix1 0x811c9dc5 (utf8 (u @ a # v))) = hex8 (foldl mix1 0x811c9dc5 (utf8 (u @ b # v)))"
    using e hex8_facts(1) by (auto simp: syncHash16_def Let_def)
  then have "foldl mix1 0x811c9dc5 (utf8 u @ a # utf8 v) = foldl mix1 0x811c9dc5 (utf8 u @ b # utf8 v)"
    using bytes assms(2,3) by (simp add: hex8_facts(2))
  then show False using assms(1) by (simp add: mixed_inj mix1_byte)
qed

section \<open>Lemmas on the tree\<close>

definition history_ok :: "file_version list \<Rightarrow> bool" where
  "history_ok vs =
     (length vs \<le> MAX_VERSIONS \<and> (\<exists>n. 0 < n \<and> map fv_version vs = [n..<n + length vs]) \<and>
      (\<forall>v \<in> set vs. fv_hash v = syncHash16 (fv_content v)))"

definition files_ok :: "(string \<times> file_entry) list \<Rightarrow> bool" where
  "files_ok m = (\<forall>path e. map_of m path = Some e \<longrightarrow> fe_path e = path \<and> fe_hash e = syncHash16 (fe_content e))"

lemma files_ok_ops: "files_ok m \<Longrightarrow> files_ok (AList.update path (makeEntry now path content) m)"
  "files_ok m \<Longrightarrow> files_ok (AList.delete path m)"
  by (auto simp: files_ok_def update_conv' delete_conv' makeEntry_def)

definition tree_ok :: "file_tree \<Rightarrow> bool" where
  "tree_ok t = (files_ok (ft_files t) \<and> (\<forall>path. history_ok (getVersions path t)))"

lemma empty_history: "history_ok []"
  by (auto simp: history_ok_def intro: exI [of _ 1])

lemma push_ok:
  assumes "history_ok vs" "fv_version v = next_version vs" "fv_hash v = syncHash16 (fv_content v)"
  shows "history_ok (push_version v vs)"
proof -
  obtain n where n: "0 < n" "map fv_version vs = [n..<n + length vs]" "length vs \<le> MAX_VERSIONS"
    "\<forall>v \<in> set vs. fv_hash v = syncHash16 (fv_content v)" using assms(1) by (auto simp: history_ok_def)
  show ?thesis
  proof (cases "vs = []")
    case True
    then show ?thesis using assms(2,3) by (auto simp: push_version_def history_ok_def next_version_def MAX_VERSIONS_def intro: exI [of _ 1])
  next
    case False
    have "map fv_version vs ! (length vs - 1) = n + length vs - 1" 
      unfolding n(2) using False by (subst nth_upt) (cases vs; simp)+
    then have "fv_version (last vs) = n + length vs - 1" using False by (simp add: last_conv_nth)
    then have v: "fv_version v = n + length vs" using assms(2) False by (simp add: next_version_def Suc_leI)
    have m: "map fv_version (vs @ [v]) = [n..<n + Suc (length vs)]" using n(2) v by simp
    then have t: "map fv_version (tl (vs @ [v])) = [Suc n..<Suc n + length vs]" 
      unfolding map_tl m by (simp add: tl_upt del: upt_Suc)
    have "set (tl (vs @ [v])) \<subseteq> set (vs @ [v])" by (cases vs) auto
    then show ?thesis
      using n m t assms(3) unfolding push_version_def history_ok_def Let_def
      by (auto simp: MAX_VERSIONS_def simp del: upt_Suc intro: exI [of _ n] exI [of _ "Suc n"])
  qed
qed

lemma versions_update: "getVersions p (t\<lparr>ft_files := f, ft_versions := AList.update q vs (ft_versions t)\<rparr>) =
    (if p = q then vs else getVersions p t)"
  by (simp add: getVersions_def update_conv')

lemma record_write_ok:
  assumes "tree_ok t"
  shows "tree_ok (snd (recordWrite now path content t))"
proof -
  have "history_ok (push_version \<lparr>fv_version = next_version (getVersions path t), fv_hash = syncHash16 content, fv_content = content,
      fv_savedAtMs = now\<rparr> (getVersions path t))"
    using assms by (intro push_ok) (auto simp: tree_ok_def)
  then have "history_ok (getVersions p (snd (recordWrite now path content t)))" for p
    using assms by (simp add: tree_ok_def recordWrite_def makeEntry_def Let_def versions_update)
  then show ?thesis
    using assms files_ok_ops by (simp add: tree_ok_def recordWrite_def Let_def)
qed

lemma step_tree_ok:
  assumes "tree_ok t"
  shows "tree_ok (tree_step now op t)"
proof (cases op)
  case (Hydrate files)
  have "files_ok (foldl (\<lambda>m (path, content). AList.update path (makeEntry now path content) m) m files)" if "files_ok m" for m
    using that by (induction files arbitrary: m) (auto simp: files_ok_ops)
  then show ?thesis using Hydrate assms by (simp add: tree_ok_def hydrate_def getVersions_def)
next
  case (Rollback path n)
  then show ?thesis using assms by (auto simp: rollback_def record_write_ok split: option.splits)
next
  case (RecordDelete path)
  then show ?thesis using assms files_ok_ops by (simp add: tree_ok_def recordDelete_def getVersions_def)
next
  case (RemoveFile path)
  have "history_ok (getVersions p (remove_file path t))" for p
    using assms empty_history by (simp add: tree_ok_def getVersions_def remove_file_def delete_conv')
  then show ?thesis using RemoveFile assms files_ok_ops by (simp add: tree_ok_def remove_file_def)
qed (use assms in \<open>simp add: record_write_ok\<close>)

lemma run_tree_ok: "tree_ok (tree_run ops)"
proof -
  have "tree_ok (foldl (\<lambda>t (now, op). tree_step now op t) t ops)" if "tree_ok t" for t
    using that by (induction ops arbitrary: t) (auto simp: step_tree_ok)
  moreover have "tree_ok empty_tree" using empty_history by (simp add: tree_ok_def empty_tree_def getVersions_def files_ok_def)
  ultimately show ?thesis by (simp add: tree_run_def)
qed

lemma find_version:
  assumes "history_ok vs" "v \<in> set vs"
  shows "find (\<lambda>v'. fv_version v' = fv_version v) vs = Some v"
proof -
  have "distinct (map fv_version vs)" using assms(1) by (auto simp: history_ok_def)
  then show ?thesis using assms(2) by (induction vs) auto
qed

section \<open>Properties\<close>

text \<open>
  After every history of operations a file has at most ten versions, numbered without a gap, each
  with the hash of its content; and each of them can be rolled back to: the content comes back, becomes
  the live one and is saved as a version of its own.
\<close>
theorem versions_are_history:
  "length (getVersions path (tree_run ops)) \<le> 10 \<and>
   (\<exists>n. 0 < n \<and> map fv_version (getVersions path (tree_run ops)) = [n..<n + length (getVersions path (tree_run ops))]) \<and>
   list_all (\<lambda>v. fv_hash v = syncHash16 (fv_content v) \<and>
       fst (rollback now path (fv_version v) (tree_run ops)) = Some (fv_content v) \<and>
       map_option fe_content (get_file path (snd (rollback now path (fv_version v) (tree_run ops)))) = Some (fv_content v) \<and>
       fv_content (last (getVersions path (snd (rollback now path (fv_version v) (tree_run ops))))) = fv_content v)
     (getVersions path (tree_run ops))"
proof -
  have h: "history_ok (getVersions path (tree_run ops))" using run_tree_ok by (simp add: tree_ok_def)
  have "last (push_version v vs) = v" for v vs by (cases vs) (simp_all add: push_version_def Let_def last_tl MAX_VERSIONS_def)
  then have r: "fst (rollback now path (fv_version v) (tree_run ops)) = Some (fv_content v)"
    "map_option fe_content (get_file path (snd (rollback now path (fv_version v) (tree_run ops)))) = Some (fv_content v)"
    "fv_content (last (getVersions path (snd (rollback now path (fv_version v) (tree_run ops))))) = fv_content v"
    if "v \<in> set (getVersions path (tree_run ops))" for v
    using find_version [OF h that]
    by (simp_all add: rollback_def recordWrite_def makeEntry_def get_file_def Let_def versions_update update_conv')
  show ?thesis using h r by (auto simp: history_ok_def MAX_VERSIONS_def list_all_iff)
qed

text \<open>
  C38. A write based on a stale read is refused: when the live content of a tracked file differs from
  the content the writer read in one ASCII character, the hash it read fails the check.
\<close>
theorem stale_write_is_refused:
  assumes "get_file path (tree_run ops) = Some e" and "fe_content e = u @ b # v"
    and "a \<noteq> b" and "(of_char a :: nat) < 128" and "(of_char b :: nat) < 128"
  shows "\<not> checkWriteSafe path (Some (syncHash16 (u @ a # v))) (tree_run ops)"
proof -
  have "fe_hash e = syncHash16 (u @ b # v)" using run_tree_ok [of ops] assms(1,2) by (auto simp: tree_ok_def files_ok_def get_file_def)
  moreover have "syncHash16 (u @ a # v) \<noteq> []"
    using hex8_facts(1) [of "foldl mix1 0x811c9dc5 (utf8 (u @ a # v))"] by (auto simp: syncHash16_def Let_def)
  ultimately show ?thesis
    using assms hash_sees_change [of a b u v] by (simp add: checkWriteSafe_def truthy_def)
qed

theorem stale_write_is_refused_witness:
  "\<not> checkWriteSafe ''f'' (Some (syncHash16 ''old'')) (tree_run [(0, RecordWrite ''f'' ''old''), (1, RecordWrite ''f'' ''odd'')])"
proof -
  have "get_file ''f'' (tree_run [(0, RecordWrite ''f'' ''old''), (1, RecordWrite ''f'' ''odd'')]) = Some (makeEntry 1 ''f'' ''odd'')"
    by (simp add: get_file_def tree_run_def recordWrite_def empty_tree_def getVersions_def Let_def)
  then show ?thesis
    using stale_write_is_refused [of "''f''" _ "makeEntry 1 ''f'' ''odd''" "''o''" "CHR ''d''" "''d''" "CHR ''l''"]
    by (simp add: makeEntry_def)
qed

section \<open>Gaps\<close>

text \<open>A file that was deleted after it was read passes the check, and a rollback brings it back.\<close>

lemma deleted_file_passes: "checkWriteSafe path h (recordDelete path t)"
  by (simp add: checkWriteSafe_def get_file_def recordDelete_def delete_conv')

lemma rollback_after_delete:
  "map_option fe_content (get_file ''f'' (tree_run [(0, RecordWrite ''f'' ''x''), (1, RecordDelete ''f''), (2, Rollback ''f'' 1)])) = Some ''x''"
  by (simp add: get_file_def tree_run_def recordWrite_def empty_tree_def getVersions_def Let_def recordDelete_def rollback_def
      makeEntry_def push_version_def next_version_def MAX_VERSIONS_def)

end
