(* ===== verification/Evidence_Emitter.thy ===== *)
theory Evidence_Emitter
  imports Evidence_Verify
begin

text \<open>
  The emitter of evidence records (packages/aep/src/emitter.ts): it collects actions and decisions,
  grades the attribution, assembles a record, signs it as a DSSE envelope and links it to the record
  before. What it emits is met with what the verifier accepts. The schema check (zod: \<open>None\<close> when it
  rejects, members it does not know are dropped), SHA-256, base64, the signer and the timestamper are
  arguments; the text of a statement is \<open>JSON.stringify\<close>. An emission is one step, and for overlapping
  emissions two: what comes before the signer is awaited, and what comes after.
\<close>

section \<open>Options and state\<close>

text \<open>\<open>eo_rest\<close> holds the options the record takes as they are, \<open>run_id\<close> among them (the rest of the destructuring).\<close>

record emitter_options =
  eo_rest :: "(string \<times> json) list"
  eo_user_id :: "string option"
  eo_subject_id :: "string option"
  eo_schemaVersion :: "string option"
  eo_authorized_by :: "string option"
  eo_authority_origin :: "string option"
  eo_identity_source :: "string option"
  eo_attribution_backing :: "string option"
  eo_floor :: "string option"
  eo_observed :: "string list option"
  eo_created_at_ms :: "int option"
  eo_run_context :: "json option"
  eo_signer :: "(string \<times> (string \<Rightarrow> string)) option"
  eo_timestamper :: "(string \<Rightarrow> json) option"
  eo_recordingMode :: "string option"
  eo_sideEffectClass :: "string option"
  eo_allowEmptyActions :: bool
  eo_hasStore :: bool

type_synonym members = "(string \<times> json) list"

record emitter =
  em_actions :: "members list"
  em_capabilityDecisions :: "members list"
  em_inputRefs :: "json list"
  em_outputRefs :: "json list"
  em_verifierResults :: "json list"
  em_budgetLedger :: "json option"
  em_userId :: "string option"
  em_subjectId :: "string option"
  em_prevRecordHash :: "string option"
  em_store :: "aep_record list"

definition new_emitter :: "emitter_options \<Rightarrow> emitter" where
  "new_emitter opts =
     \<lparr>em_actions = [], em_capabilityDecisions = [], em_inputRefs = [], em_outputRefs = [], em_verifierResults = [],
      em_budgetLedger = None, em_userId = eo_user_id opts, em_subjectId = eo_subject_id opts, em_prevRecordHash = None, em_store = []\<rparr>"

section \<open>Collecting\<close>

definition setUserId :: "string \<Rightarrow> emitter \<Rightarrow> emitter" where
  "setUserId i e = e\<lparr>em_userId := Some i\<rparr>"

definition setSubjectId :: "string \<Rightarrow> emitter \<Rightarrow> emitter" where
  "setSubjectId i e = e\<lparr>em_subjectId := Some i\<rparr>"

text \<open>\<open>a ?? b\<close>.\<close>

definition nullish :: "json \<Rightarrow> json \<Rightarrow> json" where
  "nullish a b = (if a = JUndef \<or> a = JNull then b else a)"

definition text_or :: "string option \<Rightarrow> string \<Rightarrow> json" where
  "text_or x d = JStr (case x of None \<Rightarrow> d | Some s \<Rightarrow> s)"

definition pushCapabilityDecision :: "members \<Rightarrow> emitter \<Rightarrow> emitter" where
  "pushCapabilityDecision d e =
     (if list_ex (\<lambda>d'. strict_eq (field d' ''capability'') (field d ''capability'') \<and> strict_eq (field d' ''subject'') (field d ''subject'') \<and>
                       strict_eq (field d' ''resource'') (field d ''resource'')) (em_capabilityDecisions e)
      then e else e\<lparr>em_capabilityDecisions := em_capabilityDecisions e @ [d]\<rparr>)"

definition addCapabilityDecision :: "members \<Rightarrow> emitter \<Rightarrow> emitter" where
  "addCapabilityDecision = pushCapabilityDecision"

definition action_of :: "emitter_options \<Rightarrow> int \<Rightarrow> nat \<Rightarrow> members \<Rightarrow> members" where
  "action_of opts now n a =
     AList.update ''side_effect_class'' (nullish (field a ''side_effect_class'') (text_or (eo_sideEffectClass opts) ''unknown''))
      (AList.update ''recording_mode'' (nullish (field a ''recording_mode'') (text_or (eo_recordingMode opts) ''validation''))
       (AList.update ''timestamp_ms'' (nullish (field a ''timestamp_ms'') (JNum now))
        (AList.update ''action_id'' (nullish (field a ''action_id'') (JStr (''action-'' @ nat_str n))) a)))"

definition addAction :: "emitter_options \<Rightarrow> int \<Rightarrow> members \<Rightarrow> emitter \<Rightarrow> emitter" where
  "addAction opts now a e =
     (let e1 = e\<lparr>em_actions := em_actions e @ [action_of opts now (length (em_actions e)) a]\<rparr>
      in case field a ''capability_decision'' of JObj d \<Rightarrow> pushCapabilityDecision d e1 | _ \<Rightarrow> e1)"

definition addInputRef :: "json \<Rightarrow> emitter \<Rightarrow> emitter" where
  "addInputRef v e = e\<lparr>em_inputRefs := em_inputRefs e @ [v]\<rparr>"

definition addOutputRef :: "json \<Rightarrow> emitter \<Rightarrow> emitter" where
  "addOutputRef v e = e\<lparr>em_outputRefs := em_outputRefs e @ [v]\<rparr>"

definition addVerifierResult :: "json \<Rightarrow> emitter \<Rightarrow> emitter" where
  "addVerifierResult v e = e\<lparr>em_verifierResults := em_verifierResults e @ [v]\<rparr>"

definition setBudgetLedger :: "json \<Rightarrow> emitter \<Rightarrow> emitter" where
  "setBudgetLedger v e = e\<lparr>em_budgetLedger := Some v\<rparr>"

section \<open>Grades\<close>

definition SIDE_EFFECT_ORDER :: "string list" where
  "SIDE_EFFECT_ORDER = [''read'', ''mutate-local'', ''mutate-external'', ''network-egress'', ''unknown'']"

fun index_in :: "string list \<Rightarrow> string \<Rightarrow> nat" where
  "index_in [] x = 0"
| "index_in (y # ys) x = (if y = x then 0 else Suc (index_in ys x))"

text \<open>A value that is not listed ranks behind all.\<close>

definition sideEffectOrdinal :: "string \<Rightarrow> nat" where
  "sideEffectOrdinal cls = index_in SIDE_EFFECT_ORDER cls"

definition class_of :: "members \<Rightarrow> string" where
  "class_of a = (case nullish (field a ''side_effect_class'') (JStr ''unknown'') of JStr s \<Rightarrow> s | _ \<Rightarrow> ''?'')"

fun max_class :: "int \<Rightarrow> string \<Rightarrow> members list \<Rightarrow> string" where
  "max_class o' c [] = c"
| "max_class o' c (a # as) =
     (if o' < int (sideEffectOrdinal (class_of a)) then max_class (int (sideEffectOrdinal (class_of a))) (class_of a) as
      else max_class o' c as)"

definition computeRunSideEffectClassMax :: "members list \<Rightarrow> string option" where
  "computeRunSideEffectClassMax as = (if as = [] then None else Some (max_class (- 1) ''read'' as))"

definition backingOrder :: "string list" where
  "backingOrder = [''unknown'', ''operator_asserted'', ''principal_key_signed'', ''qualified_signature'']"

definition backingRank :: "string \<Rightarrow> nat" where
  "backingRank g = index_in backingOrder g"

datatype emit_error =
    NoSigner | NoActions | FloorUnverifiable string | ObservedOutside string | FloorOutside string | ObservedEmpty
  | FloorRoundsUp string string | SchemaRejected

definition weaker :: "string \<Rightarrow> string \<Rightarrow> string" where
  "weaker acc g = (if backingRank g < backingRank acc then g else acc)"

definition weakest :: "string list \<Rightarrow> string" where
  "weakest gs = foldl weaker (hd gs) (tl gs)"

text \<open>The checks of floor and observed grades, in the order of the code, and the floor of the record.\<close>

definition graded_floor :: "string option \<Rightarrow> string list option \<Rightarrow> emit_error + string option" where
  "graded_floor flr observed =
     (if flr \<noteq> None \<and> (observed = None \<or> observed = Some []) then Inl (FloorUnverifiable (the flr))
      else case find (\<lambda>g. g \<notin> set backingOrder) (case observed of None \<Rightarrow> [] | Some gs \<Rightarrow> gs) of
        Some g \<Rightarrow> Inl (ObservedOutside g)
      | None \<Rightarrow>
          if flr \<noteq> None \<and> the flr \<notin> set backingOrder then Inl (FloorOutside (the flr))
          else if observed = Some [] \<and> flr = None then Inl ObservedEmpty
          else (case observed of
                  None \<Rightarrow> Inr flr
                | Some gs \<Rightarrow>
                    if flr \<noteq> None \<and> the flr \<noteq> weakest gs then Inl (FloorRoundsUp (the flr) (weakest gs))
                    else Inr (Some (weakest gs))))"

section \<open>Assembling a record\<close>

text \<open>An object literal: later members replace earlier ones.\<close>

definition obj_of :: "members \<Rightarrow> members" where
  "obj_of kvs = foldl (\<lambda>m (k, v). AList.update k v m) [] kvs"

definition opt_member :: "string \<Rightarrow> json option \<Rightarrow> members" where
  "opt_member k x = (case x of None \<Rightarrow> [] | Some v \<Rightarrow> [(k, v)])"

definition version_of :: "emitter_options \<Rightarrow> string" where
  "version_of opts = (case eo_schemaVersion opts of None \<Rightarrow> ''aep/v0.5'' | Some v \<Rightarrow> v)"

definition buildUnsigned :: "emitter_options \<Rightarrow> int \<Rightarrow> int option \<Rightarrow> emitter \<Rightarrow> emit_error + members" where
  "buildUnsigned opts now createdAtMs e =
     (case graded_floor (eo_floor opts) (eo_observed opts) of
        Inl err \<Rightarrow> Inl err
      | Inr flr \<Rightarrow>
          Inr (obj_of (
            (''schema_version'', JStr (version_of opts)) # eo_rest opts @
            opt_member ''user_id'' (map_option JStr (em_userId e)) @
            opt_member ''subject_id'' (map_option JStr (em_subjectId e)) @
            opt_member ''authorized_by'' (map_option JStr (eo_authorized_by opts)) @
            opt_member ''authority_origin'' (map_option JStr (eo_authority_origin opts)) @
            opt_member ''identity_source'' (map_option JStr (eo_identity_source opts)) @
            opt_member ''attribution_backing'' (map_option JStr (eo_attribution_backing opts)) @
            opt_member ''run_attribution_backing_floor'' (map_option JStr flr) @
            opt_member ''run_attribution_backing_observed'' (map_option (\<lambda>gs. JArr (map JStr gs)) (eo_observed opts)) @
            [(''input_refs'', JArr (em_inputRefs e)), (''output_refs'', JArr (em_outputRefs e)),
             (''capability_decisions'', JArr (map JObj (em_capabilityDecisions e))), (''actions'', JArr (map JObj (em_actions e))),
             (''verifier_results'', JArr (em_verifierResults e)),
             (''budget_ledger'', (case em_budgetLedger e of None \<Rightarrow> JUndef | Some v \<Rightarrow> v)),
             (''created_at_ms'', JNum (case createdAtMs of Some t \<Rightarrow> t | None \<Rightarrow> (case eo_created_at_ms opts of Some t \<Rightarrow> t | None \<Rightarrow> now))),
             (''prev_record_hash'', (case em_prevRecordHash e of None \<Rightarrow> JNull | Some h \<Rightarrow> JStr h))] @
            opt_member ''run_context'' (eo_run_context opts) @
            opt_member ''run_side_effect_class_max'' (map_option JStr (computeRunSideEffectClassMax (em_actions e))))))"

type_synonym schema = "members \<Rightarrow> members option"

definition build_record :: "schema \<Rightarrow> emitter_options \<Rightarrow> int \<Rightarrow> int option \<Rightarrow> emitter \<Rightarrow> emit_error + members" where
  "build_record schema opts now createdAtMs e =
     (case buildUnsigned opts now createdAtMs e of
        Inl err \<Rightarrow> Inl err
      | Inr m \<Rightarrow> (case schema m of None \<Rightarrow> Inl SchemaRejected | Some n \<Rightarrow> Inr n))"

section \<open>Emitting\<close>

text \<open>Before the signer is awaited: the record to be signed, without the attachments.\<close>

definition without_attachments :: "members \<Rightarrow> members" where
  "without_attachments m = filter (\<lambda>(k, v). k \<noteq> ''signature'' \<and> k \<noteq> ''dsse_envelope'') m"

definition emit_begin :: "schema \<Rightarrow> emitter_options \<Rightarrow> int \<Rightarrow> int option \<Rightarrow> emitter \<Rightarrow> emit_error + members" where
  "emit_begin schema opts now createdAtMs e =
     (if Option.is_none (eo_signer opts) then Inl NoSigner
      else if em_actions e = [] \<and> \<not> eo_allowEmptyActions opts then Inl NoActions
      else (case build_record schema opts now createdAtMs e of
              Inl err \<Rightarrow> Inl err
            | Inr normalised \<Rightarrow>
                (case schema (AList.update ''schema_version'' (JStr (version_of opts)) (without_attachments normalised)) of
                   None \<Rightarrow> Inl SchemaRejected
                 | Some stamped \<Rightarrow> Inr stamped)))"

definition statement_of :: "(string \<Rightarrow> string) \<Rightarrow> members \<Rightarrow> json" where
  "statement_of sha m =
     wrapInTotoStatement m (case field m ''run_id'' of JStr i \<Rightarrow> i | _ \<Rightarrow> []) (canonicalDigest sha (JObj m))"

definition envelope_of ::
  "(string \<Rightarrow> string) \<Rightarrow> (string \<Rightarrow> string) \<Rightarrow> string \<Rightarrow> (string \<Rightarrow> string) \<Rightarrow> members \<Rightarrow> dsse_envelope" where
  "envelope_of sha enc keyId sign m =
     (let body = utf8 (json_stringify (statement_of sha m))
      in \<lparr>de_payloadType = ''application/vnd.in-toto+json'', de_payload = enc body,
          de_signatures = [\<lparr>sg_keyid = keyId, sg_sig = sign (paeEncode ''application/vnd.in-toto+json'' body)\<rparr>]\<rparr>)"

definition signature_json :: "string \<Rightarrow> string \<Rightarrow> json" where
  "signature_json keyId sig = JObj [(''alg'', JStr ''ed25519''), (''key_id'', JStr keyId), (''sig'', JStr sig)]"

text \<open>
  After it: envelope, mirrored signature and proof are attached, the link for the next record is
  computed and the record is stored. The last schema check sees the fields again.
\<close>

definition emit_end ::
  "schema \<Rightarrow> (string \<Rightarrow> string) \<Rightarrow> (string \<Rightarrow> string) \<Rightarrow> emitter_options \<Rightarrow> members \<Rightarrow> emitter \<Rightarrow> emit_error + aep_record \<times> emitter" where
  "emit_end schema sha enc opts m e =
     (case (eo_signer opts, schema m) of
        (Some (keyId, sign), Some final) \<Rightarrow>
          (let env = envelope_of sha enc keyId sign m;
               r = \<lparr>ar_fields = final, ar_signature = Some (signature_json keyId (sg_sig (hd (de_signatures env)))), ar_envelope = Some env,
                    ar_proof = map_option (\<lambda>stamp. stamp (canonicalBytes (JObj m))) (eo_timestamper opts)\<rparr>
           in Inr (r, e\<lparr>em_prevRecordHash := Some (sha (canonicalBytes (linked_json r))),
                        em_store := (if eo_hasStore opts then em_store e @ [r] else em_store e)\<rparr>))
      | _ \<Rightarrow> Inl SchemaRejected)"

definition emit_record ::
  "schema \<Rightarrow> (string \<Rightarrow> string) \<Rightarrow> (string \<Rightarrow> string) \<Rightarrow> emitter_options \<Rightarrow> int \<Rightarrow> int option \<Rightarrow> emitter \<Rightarrow> emit_error + aep_record \<times> emitter" where
  "emit_record schema sha enc opts now createdAtMs e =
     (case emit_begin schema opts now createdAtMs e of
        Inl err \<Rightarrow> Inl err
      | Inr m \<Rightarrow> emit_end schema sha enc opts m e)"

section \<open>What is documented of the surroundings\<close>

text \<open>
  The schema is idempotent, its output has no attachments and distinct keys, and it keeps the members
  that identify the record and link it.
\<close>

definition schema_laws :: "schema \<Rightarrow> bool" where
  "schema_laws schema =
     (\<forall>m n. schema m = Some n \<longrightarrow>
        schema n = Some n \<and> distinct (map fst n) \<and>
        set (map fst n) \<inter> {''signature'', ''dsse_envelope'', ''timestamp_proof''} = {} \<and>
        field n ''run_id'' = field m ''run_id'' \<and> field n ''schema_version'' = field m ''schema_version'' \<and>
        field n ''prev_record_hash'' = field m ''prev_record_hash'')"

text \<open>What \<open>JSON.parse\<close> gives for the text of a value: undefined members are gone, elements are null.\<close>

fun json_parsed :: "json \<Rightarrow> json" where
  "json_parsed JUndef = JNull"
| "json_parsed (JArr vs) = JArr (map json_parsed vs)"
| "json_parsed (JObj kvs) = JObj (map (\<lambda>(k, v). (k, json_parsed v)) (filter (\<lambda>(k, v). v \<noteq> JUndef) kvs))"
| "json_parsed v = v"

section \<open>Lemmas\<close>

lemma parsed_defined: "json_parsed v = JUndef \<longleftrightarrow> False"
  by (cases v) auto

lemma parsed_same_data: "canonical_value (json_parsed v) = canonical_value v"
proof (induction v)
  case (JArr vs)
  then show ?case by simp
next
  case (JObj kvs)
  have e: "map (\<lambda>x. (fst x, canonical_value (json_parsed (snd x)))) (filter (\<lambda>x. snd x \<noteq> JUndef) kvs) =
      map (\<lambda>p. (fst p, canonical_value (snd p))) (filter (\<lambda>p. snd p \<noteq> JUndef) kvs)"
    using JObj by (intro map_cong) (auto simp: snds.simps)
  show ?case by (simp add: filter_map comp_def case_prod_unfold parsed_defined e)
qed simp_all

lemma obj_of_lookup: "map_of (obj_of kvs) = map_of (rev kvs)"
  unfolding obj_of_def by (induction kvs rule: rev_induct) (auto simp: update_conv')

lemma parsed_members: "map_of (map (\<lambda>(k, v). (k, json_parsed v)) kvs) k = map_option json_parsed (map_of kvs k)"
  by (induction kvs) auto

lemma map_of_defined:
  "distinct (map fst kvs) \<Longrightarrow> map_of kvs k = Some v \<Longrightarrow> v \<noteq> JUndef \<Longrightarrow> map_of (filter (\<lambda>(k, v). v \<noteq> JUndef) kvs) k = Some v"
  by (induction kvs) (auto simp: image_iff split: if_splits)

lemma parsed_str_member:
  assumes "distinct (map fst kvs)" "field kvs k = JStr x"
  shows "field (map (\<lambda>(k, v). (k, json_parsed v)) (filter (\<lambda>(k, v). v \<noteq> JUndef) kvs)) k = JStr x"
  using assms map_of_defined [OF assms(1), of k "JStr x"]
  by (simp add: field_def parsed_members split: option.splits)

section \<open>What is emitted verifies\<close>

lemma emit_begin_stamps:
  assumes "emit_begin schema opts now t e = Inr m" "schema_laws schema"
  shows "field m ''schema_version'' = JStr (version_of opts) \<and> distinct (map fst m) \<and> schema m = Some m \<and>
    (\<exists>n. buildUnsigned opts now t e = Inr n \<and> field m ''prev_record_hash'' = field n ''prev_record_hash'' \<and>
       field m ''run_id'' = field n ''run_id'')"
proof -
  obtain n0 n where n: "buildUnsigned opts now t e = Inr n0" "schema n0 = Some n"
    "schema (AList.update ''schema_version'' (JStr (version_of opts)) (without_attachments n)) = Some m"
    using assms(1) by (auto simp: emit_begin_def build_record_def split: if_splits sum.splits option.splits)
  note law = assms(2) [unfolded schema_laws_def, rule_format]
  have k: "''signature'' \<notin> fst ` set n" "''dsse_envelope'' \<notin> fst ` set n" using law [OF n(2)] by auto
  then have w: "without_attachments n = n" unfolding without_attachments_def by (intro filter_True) force
  show ?thesis using law [OF n(2)] law [OF n(3)] n(1) unfolding w
    by (auto simp: field_def update_conv')
qed

lemma parsed_statement:
  "json_parsed (statement_of sha m) =
     wrapInTotoStatement (map (\<lambda>(k, v). (k, json_parsed v)) (filter (\<lambda>(k, v). v \<noteq> JUndef) m))
       (case field m ''run_id'' of JStr i \<Rightarrow> i | _ \<Rightarrow> []) (canonicalDigest sha (JObj m))"
  by (simp add: statement_of_def wrapInTotoStatement_def)

lemma binding_of_statement:
  assumes "ar_envelope r = Some env" "parse (decodeBase64Either b64 (de_payload env)) = Some (json_parsed (statement_of sha (ar_fields r)))"
    and "distinct (map fst (ar_fields r))" "field (ar_fields r) ''schema_version'' = JStr v"
  shows "dsseEnvelopeBinding sha b64 parse r =
    (if \<exists>i. i \<noteq> [] \<and> field (ar_fields r) ''run_id'' = JStr i then Exact else InvalidBinding)"
proof -
  let ?p = "map (\<lambda>(k, v). (k, json_parsed v)) (filter (\<lambda>(k, v). v \<noteq> JUndef) (ar_fields r))"
  have d: "canonicalDigest sha (JObj ?p) = canonicalDigest sha (JObj (ar_fields r))"
    using parsed_same_data [of "JObj (ar_fields r)"] canonical_bytes_eq [of "JObj ?p" "JObj (ar_fields r)"]
    by (simp add: canonicalDigest_def same_data_def)
  have p: "predicate_binding ?p (ar_fields r) = Some (Exact, ?p)"
    using parsed_str_member [OF assms(3,4)] assms(4) by (simp add: predicate_binding_def)
  show ?thesis
    unfolding dsseEnvelopeBinding_def assms(1) assms(2) option.case parsed_statement
    by (simp add: wrapInTotoStatement_def member_of_def field_def [of "_ # _"] spread_def p d is_falsy_def split: json.splits)
qed

section \<open>A run of one emitter\<close>

text \<open>
  The calls a client makes one after the other; an emission that throws leaves the emitter as it was.
\<close>

datatype emitter_call =
    SetUser string | SetSubject string | Decision members | Act int members | Input json | Output json | Verified json | Ledger json
  | Emit int "int option"

fun emitter_step ::
  "schema \<Rightarrow> (string \<Rightarrow> string) \<Rightarrow> (string \<Rightarrow> string) \<Rightarrow> emitter_options \<Rightarrow> emitter_call \<Rightarrow> aep_record list \<times> emitter \<Rightarrow> aep_record list \<times> emitter" where
  "emitter_step schema sha enc opts (SetUser i) (rs, e) = (rs, setUserId i e)"
| "emitter_step schema sha enc opts (SetSubject i) (rs, e) = (rs, setSubjectId i e)"
| "emitter_step schema sha enc opts (Decision d) (rs, e) = (rs, addCapabilityDecision d e)"
| "emitter_step schema sha enc opts (Act now a) (rs, e) = (rs, addAction opts now a e)"
| "emitter_step schema sha enc opts (Input v) (rs, e) = (rs, addInputRef v e)"
| "emitter_step schema sha enc opts (Output v) (rs, e) = (rs, addOutputRef v e)"
| "emitter_step schema sha enc opts (Verified v) (rs, e) = (rs, addVerifierResult v e)"
| "emitter_step schema sha enc opts (Ledger v) (rs, e) = (rs, setBudgetLedger v e)"
| "emitter_step schema sha enc opts (Emit now t) (rs, e) =
     (case emit_record schema sha enc opts now t e of Inl err \<Rightarrow> (rs, e) | Inr (r, e') \<Rightarrow> (rs @ [r], e'))"

definition run_emitter ::
  "schema \<Rightarrow> (string \<Rightarrow> string) \<Rightarrow> (string \<Rightarrow> string) \<Rightarrow> emitter_options \<Rightarrow> emitter_call list \<Rightarrow> aep_record list \<times> emitter" where
  "run_emitter schema sha enc opts calls = foldl (\<lambda>s c. emitter_step schema sha enc opts c s) ([], new_emitter opts) calls"

lemma collecting_keeps [simp]:
  "em_prevRecordHash (pushCapabilityDecision d e) = em_prevRecordHash e" "em_store (pushCapabilityDecision d e) = em_store e"
  "em_prevRecordHash (addAction opts now a e) = em_prevRecordHash e" "em_store (addAction opts now a e) = em_store e"
  by (auto simp: pushCapabilityDecision_def addAction_def Let_def split: json.splits)

lemma opt_member_lookup: "map_of (rev (opt_member k x)) j = (if j = k then x else None)"
  by (simp add: opt_member_def split: option.splits)

lemma map_of_first: "map_of (xs @ ys) k = (case map_of xs k of None \<Rightarrow> map_of ys k | Some v \<Rightarrow> Some v)"
  by (simp add: map_add_def)

lemma built_link:
  assumes "buildUnsigned opts now t e = Inr n"
  shows "field n ''prev_record_hash'' = (case em_prevRecordHash e of None \<Rightarrow> JNull | Some h \<Rightarrow> JStr h)"
proof -
  obtain flr where "graded_floor (eo_floor opts) (eo_observed opts) = Inr flr"
    using assms by (auto simp: buildUnsigned_def split: sum.splits)
  then show ?thesis using assms unfolding buildUnsigned_def
    by (simp add: field_def obj_of_lookup map_of_first opt_member_lookup del: map_of_append) (erule subst, simp add: obj_of_lookup map_of_first opt_member_lookup del: map_of_append)
qed

text \<open>What holds of the records emitted so far and of the emitter.\<close>

definition emitted_record :: "(string \<Rightarrow> string) \<Rightarrow> (string \<Rightarrow> string) \<Rightarrow> emitter_options \<Rightarrow> aep_record \<Rightarrow> bool" where
  "emitted_record sha enc opts r \<longleftrightarrow>
     (\<exists>keyId sign. eo_signer opts = Some (keyId, sign) \<and> ar_envelope r = Some (envelope_of sha enc keyId sign (ar_fields r))) \<and>
     distinct (map fst (ar_fields r)) \<and> field (ar_fields r) ''schema_version'' = JStr (version_of opts)"

lemma emit_record_gives:
  assumes "emit_record schema sha enc opts now t e = Inr (r, e')" "schema_laws schema"
  shows "emitted_record sha enc opts r \<and>
    prev_link r = (case em_prevRecordHash e of None \<Rightarrow> JNull | Some h \<Rightarrow> JStr h) \<and>
    em_prevRecordHash e' = Some (canonicalDigest sha (linked_json r)) \<and>
    em_store e' = (if eo_hasStore opts then em_store e @ [r] else em_store e)"
proof -
  obtain m where m: "emit_begin schema opts now t e = Inr m" "emit_end schema sha enc opts m e = Inr (r, e')"
    using assms(1) by (auto simp: emit_record_def split: sum.splits)
  note st = emit_begin_stamps [OF m(1) assms(2)]
  obtain n where n: "buildUnsigned opts now t e = Inr n" "field m ''prev_record_hash'' = field n ''prev_record_hash''"
    using st by blast
  obtain keyId sign where sg: "eo_signer opts = Some (keyId, sign)"
    using m(2) by (auto simp: emit_end_def split: option.splits)
  have "ar_fields r = m" "ar_envelope r = Some (envelope_of sha enc keyId sign m)"
    "em_prevRecordHash e' = Some (canonicalDigest sha (linked_json r))"
    "em_store e' = (if eo_hasStore opts then em_store e @ [r] else em_store e)"
    using m(2) st by (auto simp: emit_end_def sg Let_def canonicalDigest_def)
  then show ?thesis using st sg n built_link [OF n(1)] by (simp add: emitted_record_def prev_link_def)
qed

definition emitter_inv :: "(string \<Rightarrow> string) \<Rightarrow> (string \<Rightarrow> string) \<Rightarrow> emitter_options \<Rightarrow> aep_record list \<times> emitter \<Rightarrow> bool" where
  "emitter_inv sha enc opts s \<longleftrightarrow>
     list_all (emitted_record sha enc opts) (fst s) \<and> links_ok sha (fst s) \<and> (fst s \<noteq> [] \<longrightarrow> no_link (hd (fst s))) \<and>
     em_prevRecordHash (snd s) = (if fst s = [] then None else Some (canonicalDigest sha (linked_json (last (fst s))))) \<and>
     em_store (snd s) = (if eo_hasStore opts then fst s else [])"

lemma emitter_step_inv:
  assumes "emitter_inv sha enc opts s" "schema_laws schema"
  shows "emitter_inv sha enc opts (emitter_step schema sha enc opts c s)"
proof -
  obtain rs e where s: "s = (rs, e)" by (cases s)
  show ?thesis
  proof (cases c)
    case (Emit now t)
    show ?thesis
    proof (cases "emit_record schema sha enc opts now t e")
      case (Inr p)
      then obtain r e' where p: "emit_record schema sha enc opts now t e = Inr (r, e')" by (cases p) simp
      note g = emit_record_gives [OF p assms(2)]
      show ?thesis
      proof (cases "rs = []")
        case True
        then show ?thesis using g assms(1) by (simp add: s Emit p emitter_inv_def no_link_def)
      next
        case False
        then show ?thesis using g assms(1) links_snoc [of rs sha r] by (simp add: s Emit p emitter_inv_def)
      qed
    qed (use assms(1) in \<open>simp add: s Emit\<close>)
  qed (use assms(1) in \<open>simp_all add: s emitter_inv_def setUserId_def setSubjectId_def addCapabilityDecision_def addInputRef_def
    addOutputRef_def addVerifierResult_def setBudgetLedger_def\<close>)
qed

lemma run_emitter_inv:
  assumes "schema_laws schema"
  shows "emitter_inv sha enc opts (run_emitter schema sha enc opts calls)"
  unfolding run_emitter_def
proof (induction calls rule: rev_induct)
  case Nil
  show ?case by (simp add: emitter_inv_def new_emitter_def)
next
  case (snoc c calls)
  then show ?case by (simp add: emitter_step_inv [OF _ assms])
qed

section \<open>Grades\<close>

lemma weakest_fold:
  "foldl weaker a gs \<in> insert a (set gs) \<and> (\<forall>g \<in> insert a (set gs). backingRank (foldl weaker a gs) \<le> backingRank g)"
  by (induction gs rule: rev_induct) (auto simp: weaker_def)

lemma weakest_least: "gs \<noteq> [] \<Longrightarrow> weakest gs \<in> set gs \<and> (\<forall>g \<in> set gs. backingRank (weakest gs) \<le> backingRank g)"
  using weakest_fold [of "hd gs" "tl gs"] by (cases gs) (simp_all add: weakest_def)

lemma max_class_greatest:
  "max_class (int (sideEffectOrdinal c)) c as \<in> insert c (class_of ` set as) \<and>
   (\<forall>x \<in> insert c (class_of ` set as). sideEffectOrdinal x \<le> sideEffectOrdinal (max_class (int (sideEffectOrdinal c)) c as))"
proof (induction as arbitrary: c)
  case (Cons a as)
  show ?case
  proof (cases "sideEffectOrdinal c < sideEffectOrdinal (class_of a)")
    case True
    then show ?thesis using Cons.IH [of "class_of a"] by auto
  next
    case False
    then show ?thesis using Cons.IH [of c] by auto
  qed
qed simp

text \<open>
  The floor an emitter grades is one of the observed grades and the weakest of them, whatever floor
  the caller gave; a floor without observed grades, a grade outside the vocabulary and a floor that rounds up are refused.
\<close>
theorem floor_never_rounds_up:
  "(graded_floor flr observed = Inr (Some f) \<longleftrightarrow>
      (\<exists>gs. observed = Some gs \<and> gs \<noteq> [] \<and> set gs \<subseteq> set backingOrder \<and> f = weakest gs \<and> (flr = None \<or> flr = Some f))) \<and>
   (observed = Some gs \<and> gs \<noteq> [] \<longrightarrow> weakest gs \<in> set gs \<and> (\<forall>g \<in> set gs. backingRank (weakest gs) \<le> backingRank g))"
proof -
  have known: "set xs \<subseteq> set backingOrder \<Longrightarrow> find (\<lambda>g. g \<notin> set backingOrder) xs = None" for xs
    by (auto simp: find_None_iff)
  have strange: "find (\<lambda>g. g \<notin> set backingOrder) xs = Some x \<Longrightarrow> \<not> set xs \<subseteq> set backingOrder" for xs x
    using known [of xs] by auto
  note w = weakest_least
  have "graded_floor flr observed = Inr (Some f) \<longleftrightarrow>
      (\<exists>gs. observed = Some gs \<and> gs \<noteq> [] \<and> set gs \<subseteq> set backingOrder \<and> f = weakest gs \<and> (flr = None \<or> flr = Some f))"
  proof (cases observed)
    case None
    then show ?thesis by (simp add: graded_floor_def)
  next
    case (Some hs)
    show ?thesis
    proof (cases "find (\<lambda>g. g \<notin> set backingOrder) hs")
      case None
      then have h: "set hs \<subseteq> set backingOrder" by (auto simp: find_None_iff)
      show ?thesis
      proof (cases "hs = []")
        case False
        then have "weakest hs \<in> set backingOrder" using w h by blast
        then show ?thesis using False None h Some by (cases flr) (auto simp: graded_floor_def)
      qed (use Some in \<open>simp add: graded_floor_def\<close>)
    next
      case (Some x)
      show ?thesis using strange [OF Some] Some \<open>observed = Some hs\<close> by (simp add: graded_floor_def)
    qed
  qed
  then show ?thesis using w [of gs] by blast
qed

text \<open>The class of a run is the class of one of its actions and none of them ranks higher.\<close>
theorem run_class_is_maximum:
  assumes "computeRunSideEffectClassMax as = Some c"
  shows "c \<in> class_of ` set as \<and> (\<forall>a \<in> set as. sideEffectOrdinal (class_of a) \<le> sideEffectOrdinal c)"
proof (cases as)
  case (Cons a as')
  then show ?thesis using assms max_class_greatest [of "class_of a" as'] by (auto simp: computeRunSideEffectClassMax_def)
qed (use assms in \<open>simp add: computeRunSideEffectClassMax_def\<close>)


section \<open>What does not hold\<close>

text \<open>
  Decisions are kept once per capability, subject and resource: one that decides otherwise later is dropped.
\<close>
lemma later_decision_dropped:
  "pushCapabilityDecision (kd @ [(''decision'', JStr ''deny'')]) (pushCapabilityDecision (kd @ [(''decision'', JStr ''allow'')]) e) =
     pushCapabilityDecision (kd @ [(''decision'', JStr ''allow'')]) e"
  if "kd = [(''capability'', JStr c), (''subject'', JStr s), (''resource'', JStr r)]"
  using that by (auto simp: pushCapabilityDecision_def field_def)

text \<open>A concrete emitter: signatures and payloads in the letters A to P.\<close>

definition demo_enc :: "string \<Rightarrow> string" where
  "demo_enc b = concat (map (\<lambda>c. let n = (of_char c :: nat) in [char_of (65 + n div 16), char_of (65 + n mod 16)]) b)"

fun demo_dec :: "string \<Rightarrow> string" where
  "demo_dec (a # b # r) = char_of (((of_char a :: nat) - 65) * 16 + ((of_char b :: nat) - 65)) # demo_dec r"
| "demo_dec r = []"

definition demo_schema :: schema where
  "demo_schema m =
     (if distinct (map fst m) \<and> set (map fst m) \<inter> {''signature'', ''dsse_envelope'', ''timestamp_proof''} = {} then Some m else None)"

definition demo_options :: emitter_options where
  "demo_options =
     \<lparr>eo_rest = [(''run_id'', JStr ''a'')], eo_user_id = None, eo_subject_id = None, eo_schemaVersion = None, eo_authorized_by = None,
      eo_authority_origin = None, eo_identity_source = None, eo_attribution_backing = None, eo_floor = None, eo_observed = None,
      eo_created_at_ms = None, eo_run_context = None, eo_signer = Some (''k'', \<lambda>m. demo_enc (CHR ''s'' # rev m)), eo_timestamper = None,
      eo_recordingMode = None, eo_sideEffectClass = None, eo_allowEmptyActions = True, eo_hasStore = True\<rparr>"

lemma demo_schema_laws: "schema_laws demo_schema"
  by (auto simp: schema_laws_def demo_schema_def split: if_splits)

lemma obj_of_keys: "distinct (map fst (obj_of kvs)) \<and> fst ` set (obj_of kvs) = fst ` set kvs"
  unfolding obj_of_def
  by (induction kvs rule: rev_induct) (simp_all add: distinct_update dom_update case_prod_unfold)

lemma opt_member_keys: "fst ` set (opt_member k x) = (if x = None then {} else {k})"
  by (cases x) (simp_all add: opt_member_def)

lemma demo_selectors:
  "eo_rest demo_options = [(''run_id'', JStr ''a'')]" "eo_floor demo_options = None" "graded_floor None None = Inr None"
  "eo_authorized_by demo_options = None" "eo_authority_origin demo_options = None" "eo_identity_source demo_options = None"
  "eo_attribution_backing demo_options = None" "eo_observed demo_options = None" "eo_run_context demo_options = None"
  "eo_allowEmptyActions demo_options" "eo_signer demo_options = Some (''k'', \<lambda>m. demo_enc (CHR ''s'' # rev m))"
  by (simp_all add: demo_options_def graded_floor_def)

lemma demo_emits:
  "\<exists>r e'. emit_record demo_schema sha enc demo_options now t e = Inr (r, e') \<and> field (ar_fields r) ''run_id'' = JStr ''a''"
proof -
  obtain n where n: "buildUnsigned demo_options now t e = Inr n"
    by (cases "buildUnsigned demo_options now t e") (simp_all add: buildUnsigned_def demo_selectors)
  note n' = n [unfolded buildUnsigned_def demo_selectors sum.case sum.inject, symmetric]
  have k: "distinct (map fst n)" "set (map fst n) \<inter> {''signature'', ''dsse_envelope'', ''timestamp_proof''} = {}"
    unfolding n' list.set_map by (simp_all add: obj_of_keys image_Un opt_member_keys)
  have r: "field n ''run_id'' = JStr ''a''"
    unfolding n' by (simp add: field_def obj_of_lookup map_of_first opt_member_lookup del: map_of_append)
  have w: "without_attachments n = n" unfolding without_attachments_def using k(2) by (intro filter_True) force
  let ?m = "AList.update ''schema_version'' (JStr (version_of demo_options)) n"
  have m: "demo_schema n = Some n" "demo_schema ?m = Some ?m"
    using k by (auto simp: demo_schema_def distinct_update dom_update)
  have b: "emit_begin demo_schema demo_options now t e = Inr ?m"
    using m n w by (simp add: emit_begin_def build_record_def demo_selectors)
  have "field ?m ''run_id'' = JStr ''a''" using r by (simp add: field_def update_conv')
  moreover have "\<exists>r e'. emit_end demo_schema sha enc demo_options ?m e = Inr (r, e') \<and> ar_fields r = ?m"
    using m by (simp add: emit_end_def Let_def demo_selectors)
  ultimately show ?thesis using b by (auto simp: emit_record_def)
qed

lemma nibble: "n < 16 \<Longrightarrow> (of_char (char_of (65 + n) :: char) :: nat) = 65 + n" for n :: nat
  by simp

lemma demo_b64: "decodeBase64Either demo_dec (demo_enc b) = b"
proof -
  have d: "demo_dec (demo_enc b) = b"
  proof (induction b)
    case (Cons c b)
    define n where "n = (of_char c :: nat)"
    have "n < 256" by (simp add: n_def of_char_of [symmetric] nat_of_char_less_256)
    then have "n div 16 < 16" "n mod 16 < 16" by (simp_all add: div_less_iff_less_mult)
    moreover have "char_of (n div 16 * 16 + n mod 16) = c" by (simp add: n_def)
    ultimately show ?case using Cons by (simp add: demo_enc_def n_def [symmetric] Let_def nibble)
  qed (simp add: demo_enc_def)
  have "c \<noteq> CHR ''-'' \<and> c \<noteq> CHR ''_''" if "c \<in> set (demo_enc b)" for c
  proof -
    obtain k :: nat where k: "k < 16" "c = char_of (65 + k)"
    proof -
      obtain x :: char where x: "c = char_of (65 + (of_char x :: nat) div 16) \<or> c = char_of (65 + (of_char x :: nat) mod 16)"
        using \<open>c \<in> set (demo_enc b)\<close> by (auto simp: demo_enc_def Let_def)
      have "(of_char x :: nat) < 256" by (simp add: of_char_of [symmetric] nat_of_char_less_256)
      then have "(of_char x :: nat) div 16 < 16" by (simp add: div_less_iff_less_mult)
      then show ?thesis using x that [of "of_char x div 16"] that [of "of_char x mod 16"] by auto
    qed
    have "(of_char c :: nat) = 65 + k" using nibble [OF k(1)] k(2) by simp
    then show ?thesis using k(1) by auto
  qed
  then have "map (\<lambda>c. if c = CHR ''-'' then CHR ''+'' else if c = CHR ''_'' then CHR ''/'' else c) (demo_enc b) = demo_enc b"
    by (intro map_idI) simp
  then show ?thesis using d by (simp add: decodeBase64Either_def)
qed

text \<open>
  Emissions that overlap, the second begun before the first has its signature, name the same
  predecessor: the chain of what was emitted is broken unless the two records before collide.
\<close>
lemma overlapping_emissions_share_predecessor:
  assumes "em_prevRecordHash e = Some h" "emit_begin schema opts now t e = Inr m1" "emit_begin schema opts now' t' e = Inr m2"
    and "emit_end schema sha enc opts m1 e = Inr (r1, e1)" "emit_end schema sha enc opts m2 e1 = Inr (r2, e2)" "schema_laws schema"
  shows "prev_link r1 = JStr h \<and> prev_link r2 = JStr h \<and> (h \<noteq> canonicalDigest sha (linked_json r1) \<longrightarrow> \<not> links_ok sha (rs @ [r1, r2]))"
proof -
  have l: "field m1 ''prev_record_hash'' = JStr h" "field m2 ''prev_record_hash'' = JStr h"
    using emit_begin_stamps [OF assms(2,6)] emit_begin_stamps [OF assms(3,6)] built_link assms(1) by force+
  have "schema m1 = Some m1" "schema m2 = Some m2"
    using emit_begin_stamps [OF assms(2,6)] emit_begin_stamps [OF assms(3,6)] by auto
  then have "ar_fields r1 = m1" "ar_fields r2 = m2" using assms(4,5) by (auto simp: emit_end_def Let_def split: option.splits)
  then have p: "prev_link r1 = JStr h" "prev_link r2 = JStr h" using l by (simp_all add: prev_link_def)
  have "links_ok sha ((rs @ [r1]) @ [r2]) \<Longrightarrow> h = canonicalDigest sha (linked_json r1)"
    using links_snoc [of "rs @ [r1]" sha r2] p by simp
  then show ?thesis using p by auto
qed

section \<open>Properties\<close>

text \<open>
  C39. A record an emitter signs verifies under the key of its signer exactly when it names a run: when
  base64 and the signature are inverted by their decoders and the statement is parsed back from its
  text, the verifier accepts the emitted record, with the exact binding, or, for an empty run id, never.
\<close>
theorem emitted_record_verifies:
  assumes "emit_record schema sha enc opts now t e = Inr (r, e')" "schema_laws schema" "eo_signer opts = Some (keyId, sign)"
    and "\<forall>b. decodeBase64Either b64 (enc b) = b"
    and "\<forall>m. sign m \<noteq> [] \<and> ed (decodeBase64Either b64 (sign m)) m key = Some True"
    and "parse (utf8 (json_stringify (statement_of sha (ar_fields r)))) = Some (json_parsed (statement_of sha (ar_fields r)))"
  shows "verifyAEPRecordDetailed sha b64 parse ed r key =
    (if \<exists>i. i \<noteq> [] \<and> field (ar_fields r) ''run_id'' = JStr i
     then \<lparr>vf_valid = True, vf_authenticity = DsseValid, vf_binding = Exact\<rparr>
     else \<lparr>vf_valid = False, vf_authenticity = InvalidAuthenticity, vf_binding = InvalidBinding\<rparr>)"
proof -
  have g: "ar_envelope r = Some (envelope_of sha enc keyId sign (ar_fields r))" "distinct (map fst (ar_fields r))"
    "field (ar_fields r) ''schema_version'' = JStr (version_of opts)"
    using emit_record_gives [OF assms(1,2)] assms(3) by (auto simp: emitted_record_def)
  let ?env = "envelope_of sha enc keyId sign (ar_fields r)"
  have env: "de_payloadType ?env = IN_TOTO_PAYLOAD_TYPE" "decodeBase64Either b64 (de_payload ?env) = utf8 (json_stringify (statement_of sha (ar_fields r)))"
    "de_signatures ?env = [\<lparr>sg_keyid = keyId, sg_sig = sign (paeEncode IN_TOTO_PAYLOAD_TYPE (utf8 (json_stringify (statement_of sha (ar_fields r)))))\<rparr>]"
    using assms(4) by (simp_all add: envelope_of_def Let_def IN_TOTO_PAYLOAD_TYPE_def)
  have "verifyDSSEEnvelope b64 ed ?env key" using assms(5) by (simp add: verifyDSSEEnvelope_def env)
  moreover have "dsseEnvelopeBinding sha b64 parse r =
      (if \<exists>i. i \<noteq> [] \<and> field (ar_fields r) ''run_id'' = JStr i then Exact else InvalidBinding)"
    by (rule binding_of_statement [OF g(1) _ g(2,3)]) (simp add: env assms(6))
  ultimately show ?thesis by (simp add: verifyAEPRecordDetailed_def g(1) Let_def)
qed

definition demo_emitted :: aep_record where
  "demo_emitted =
     (case emit_record demo_schema rev demo_enc demo_options 1 None (new_emitter demo_options) of
        Inl err \<Rightarrow> demo_record [] JNull | Inr (r, e) \<Rightarrow> r)"

theorem emitted_record_verifies_witness:
  "vf_valid (verifyAEPRecordDetailed rev demo_dec (\<lambda>x. Some (json_parsed (statement_of rev (ar_fields demo_emitted))))
     (\<lambda>s m k. Some (s = CHR ''s'' # rev m \<and> k = ())) demo_emitted ())"
proof -
  obtain e' where e: "emit_record demo_schema rev demo_enc demo_options 1 None (new_emitter demo_options) = Inr (demo_emitted, e')"
    and a: "field (ar_fields demo_emitted) ''run_id'' = JStr ''a''"
    using demo_emits [of rev demo_enc 1 None "new_emitter demo_options"] by (auto simp: demo_emitted_def)
  have s: "eo_signer demo_options = Some (''k'', \<lambda>m. demo_enc (CHR ''s'' # rev m))" by (simp add: demo_options_def)
  have n: "demo_enc (c # m) \<noteq> []" for c m by (simp add: demo_enc_def Let_def)
  show ?thesis
    using emitted_record_verifies [OF e demo_schema_laws s, of demo_dec "\<lambda>s m k. Some (s = CHR ''s'' # rev m \<and> k = ())" "()"] demo_b64 n a by auto
qed



end
