(* ===== verification/Spec2Isabelle.thy ===== *)
theory Spec2Isabelle
  imports Mcp_Gateway Resource_Pool Branch_Workspace Scheduler Workflow_Life Evidence_Ledger Shared_Merge Shared_Store Kernel_Pool
    Sandbox_Paths Sandbox_Manifest Event_Log Message_Assembler Tool_Registry Tool_Schema Stop_Conditions Agent_Dispatch Agent_Loop Agent_Gates Goal_Agent Approval_Policy Action_Parser File_Tree Evidence_Emitter
begin

text \<open>
  Verification of the core of wasmagent-js.
\<close>

end
